(* ===== verification/Riri_Prelude.thy ===== *)
theory Riri_Prelude
  imports Main "HOL-Library.Word" "HOL-Library.Monad_Syntax"
begin

text \<open>
  What every component shares: the names of the machine integers, Rust panics as values of a
  sum type, the arithmetic of \<^verbatim>\<open>u32\<close> with and without overflow checks, and the lemmas about
  bit masks, lists updated by index and ceiling division that the component proofs rest on.

  The collection \<open>mask_simps\<close> rewrites the mask idioms of the code (\<open>mask & (1 << lane) != 0\<close>)
  into \<open>bit\<close>; the collection \<open>res_simps\<close> runs the result monad.
\<close>

unbundle bit_operations_syntax

named_theorems mask_simps \<open>lane masks as bit predicates\<close>
named_theorems res_simps \<open>evaluation of the result monad\<close>

section \<open>Machine integers\<close>

type_synonym u8 = "8 word"
type_synonym u32 = "32 word"
type_synonym u64 = "64 word"
type_synonym u128 = "128 word"

text \<open>
  \<^verbatim>\<open>usize\<close> values are indices and lengths of vectors that exist in memory; they are \<open>nat\<close>.
  The counters that count operations of one run (\<^verbatim>\<open>u64\<close> epochs and sequence numbers) are \<open>nat\<close>
  too: reaching their limit takes \<open>2 ^ 64\<close> operations.
\<close>

section \<open>Panics and results\<close>

text \<open>Why Rust code stops: the panics of the language and the messages of the program's own.\<close>

datatype panic =
    Overflow
  | DivideByZero
  | IndexOutOfBounds
  | AssertFailed string

type_synonym 'a res = "panic + 'a"

definition res_bind :: "'e + 'a \<Rightarrow> ('a \<Rightarrow> 'e + 'b) \<Rightarrow> 'e + 'b" where
  "res_bind r f = (case r of Inl e \<Rightarrow> Inl e | Inr a \<Rightarrow> f a)"

lemma res_bind_simps [simp, res_simps]:
  "res_bind (Inl e) f = Inl e"
  "res_bind (Inr a) f = f a"
  by (simp_all add: res_bind_def)

lemma res_bind_Inr_iff:
  "res_bind r f = Inr b \<longleftrightarrow> (\<exists>a. r = Inr a \<and> f a = Inr b)"
  by (cases r) auto

lemma res_bind_Inr_E [elim!]:
  assumes "res_bind r f = Inr b"
  obtains a where "r = Inr a" and "f a = Inr b"
  using assms by (auto simp: res_bind_Inr_iff)

lemma res_bind_assoc: "res_bind (res_bind r f) g = res_bind r (\<lambda>a. res_bind (f a) g)"
  by (cases r) auto

text \<open>Rust's \<^verbatim>\<open>assert!\<close>.\<close>

definition assert_that :: "bool \<Rightarrow> string \<Rightarrow> unit res" where
  "assert_that b msg = (if b then Inr () else Inl (AssertFailed msg))"

lemma assert_that_simps [simp, res_simps]:
  "assert_that True msg = Inr ()"
  "assert_that False msg = Inl (AssertFailed msg)"
  by (simp_all add: assert_that_def)

lemma assert_that_Inr [simp]: "assert_that b msg = Inr u \<longleftrightarrow> b"
  by (simp add: assert_that_def)

text \<open>
  Plain \<^verbatim>\<open>u32\<close> arithmetic panics on overflow when the crate is built with overflow checks (the
  default of debug builds) and wraps around otherwise (the default of release builds). The first
  argument says which build it is.
\<close>

definition mul_u32 :: "bool \<Rightarrow> u32 \<Rightarrow> u32 \<Rightarrow> u32 res" where
  "mul_u32 checks a b =
     (if checks \<and> 2 ^ 32 \<le> unat a * unat b then Inl Overflow else Inr (a * b))"

definition add_u32 :: "bool \<Rightarrow> u32 \<Rightarrow> u32 \<Rightarrow> u32 res" where
  "add_u32 checks a b =
     (if checks \<and> 2 ^ 32 \<le> unat a + unat b then Inl Overflow else Inr (a + b))"

definition checked_mul_u32 :: "u32 \<Rightarrow> u32 \<Rightarrow> u32 option" where
  "checked_mul_u32 a b = (if unat a * unat b < 2 ^ 32 then Some (a * b) else None)"

definition div_u32 :: "u32 \<Rightarrow> u32 \<Rightarrow> u32 res" where
  "div_u32 a b = (if b = 0 then Inl DivideByZero else Inr (a div b))"

definition rem_u32 :: "u32 \<Rightarrow> u32 \<Rightarrow> u32 res" where
  "rem_u32 a b = (if b = 0 then Inl DivideByZero else Inr (a mod b))"

lemma unat_mult_u32:
  assumes "unat (a :: u32) * unat b < 2 ^ 32"
  shows "unat (a * b) = unat a * unat b"
  using assms by (simp add: unat_word_ariths)

lemma mul_u32_no_overflow:
  "unat a * unat b < 2 ^ 32 \<Longrightarrow> mul_u32 checks a b = Inr (a * b)"
  by (simp add: mul_u32_def)

lemma add_u32_no_overflow:
  "unat a + unat b < 2 ^ 32 \<Longrightarrow> add_u32 checks a b = Inr (a + b)"
  by (simp add: add_u32_def)

lemma mul_u32_unat:
  assumes "mul_u32 True a b = Inr c"
  shows "unat c = unat a * unat b" and "unat a * unat b < 2 ^ 32"
  using assms by (auto simp: mul_u32_def unat_word_ariths split: if_splits)

lemma checked_mul_u32_Some:
  assumes "checked_mul_u32 a b = Some c"
  shows "unat c = unat a * unat b" and "unat a * unat b < 2 ^ 32"
  using assms by (auto simp: checked_mul_u32_def unat_word_ariths split: if_splits)

lemma unat_div_u32: "unat ((a :: u32) div b) = unat a div unat b"
  by (rule unat_div)

lemma unat_mod_u32: "unat ((a :: u32) mod b) = unat a mod unat b"
  by (rule unat_mod)

section \<open>Lane masks\<close>

text \<open>\<^verbatim>\<open>1u32 << lane\<close> and \<^verbatim>\<open>mask & (1u32 << lane) != 0\<close>, for lanes below 32.\<close>

definition lane_bit :: "nat \<Rightarrow> u32" where
  "lane_bit l = push_bit l 1"

definition has_lane :: "u32 \<Rightarrow> nat \<Rightarrow> bool" where
  "has_lane m l \<longleftrightarrow> m AND lane_bit l \<noteq> 0"

lemma bit_lane_bit [mask_simps]: "bit (lane_bit l) i \<longleftrightarrow> i = l \<and> l < 32"
  by (auto simp: lane_bit_def bit_simps)

lemma has_lane_bit [mask_simps]: "has_lane m l \<longleftrightarrow> bit m l"
proof
  assume "has_lane m l"
  then obtain i where "bit (m AND lane_bit l) i"
    unfolding has_lane_def by (metis bit_eq_iff bit_0_eq bot_apply bot_bool_def)
  then show "bit m l" by (auto simp: bit_simps mask_simps)
next
  assume b: "bit m l"
  then have "l < 32" using bit_imp_le_length by fastforce
  with b have "bit (m AND lane_bit l) l" by (simp add: bit_simps mask_simps)
  then show "has_lane m l" unfolding has_lane_def by (metis bit_0_eq bot_apply bot_bool_def)
qed

lemma bit_u32_less: "bit (m :: u32) i \<Longrightarrow> i < 32"
  using bit_imp_le_length by fastforce

text \<open>The fold with which the code collects a mask from a list of lanes.\<close>

definition mask_of :: "nat list \<Rightarrow> u32" where
  "mask_of ls = fold (\<lambda>l acc. acc OR lane_bit l) ls 0"

lemma bit_fold_lanes:
  "bit (fold (\<lambda>l acc. acc OR lane_bit l) ls a) i \<longleftrightarrow> bit a i \<or> i \<in> set ls \<and> i < 32"
  by (induction ls arbitrary: a) (auto simp: bit_simps mask_simps)

lemma bit_mask_of [mask_simps]: "bit (mask_of ls) i \<longleftrightarrow> i \<in> set ls \<and> i < 32"
  by (simp add: mask_of_def bit_fold_lanes)

lemma u32_eqI: "(\<And>i. i < 32 \<Longrightarrow> bit a i \<longleftrightarrow> bit b i) \<Longrightarrow> a = (b :: u32)"
  by (rule bit_word_eqI) simp

lemma mask_subset_iff: "m AND NOT v = 0 \<longleftrightarrow> (\<forall>i < 32. bit m i \<longrightarrow> bit (v :: u32) i)"
proof -
  have "m AND NOT v = 0 \<longleftrightarrow> (\<forall>i < 32. \<not> bit (m AND NOT v) i)"
    by (auto intro!: u32_eqI)
  then show ?thesis by (auto simp: bit_simps)
qed

section \<open>Lists and division\<close>

text \<open>\<^verbatim>\<open>get\<close> of a slice.\<close>

definition nth_option :: "'a list \<Rightarrow> nat \<Rightarrow> 'a option" where
  "nth_option xs i = (if i < length xs then Some (xs ! i) else None)"

definition div_ceil :: "nat \<Rightarrow> nat \<Rightarrow> nat" where
  "div_ceil a b = (if a mod b = 0 then a div b else a div b + 1)"

lemma div_ceil_bounds:
  assumes "0 < b"
  shows "a \<le> div_ceil a b * b" and "0 < a \<Longrightarrow> (div_ceil a b - 1) * b < a"
proof -
  have eq: "a = a div b * b + a mod b" by simp
  have r: "a mod b < b" using assms by simp
  show "a \<le> div_ceil a b * b"
  proof (cases "a mod b = 0")
    case True with eq show ?thesis by (simp add: div_ceil_def)
  next
    case False
    with eq r have "a \<le> a div b * b + b" by linarith
    with False show ?thesis by (simp add: div_ceil_def)
  qed
  assume "0 < a"
  show "(div_ceil a b - 1) * b < a"
  proof (cases "a mod b = 0")
    case True
    with \<open>0 < a\<close> eq have "0 < a div b" by (metis add.right_neutral gr0I mult_0)
    then have "(a div b - 1) * b < a div b * b" using assms by simp
    with True eq show ?thesis by (simp add: div_ceil_def)
  next
    case False
    with eq have "a div b * b < a" by linarith
    with False show ?thesis by (simp add: div_ceil_def)
  qed
qed

lemma less_div_ceil: "0 < b \<Longrightarrow> i < a \<Longrightarrow> i div b < div_ceil a b"
  using div_ceil_bounds(1) [of b a] by (metis less_mult_imp_div_less order_less_le_trans)

text \<open>A filter over the indices of a list, as the scheduler and the warp code use it.\<close>

lemma set_filter_upt [simp]: "set (filter P [i..<j]) = {k. i \<le> k \<and> k < j \<and> P k}"
  by auto

lemma in_map_filter: "y \<in> set (List.map_filter f xs) \<longleftrightarrow> (\<exists>x \<in> set xs. f x = Some y)"
  by (induction xs) (auto simp: map_filter_simps split: option.splits)

lemma map_filter_empty: "List.map_filter f xs = [] \<longleftrightarrow> (\<forall>x \<in> set xs. f x = None)"
  by (induction xs) (auto simp: map_filter_simps split: option.splits)

lemma div_mod_block:
  assumes "0 < (n::nat)" and "t < n"
  shows "(b * n + t) div n = b" and "(b * n + t) mod n = t"
  using assms by auto

end
