(* ===== verification/Dim.thy ===== *)
theory Dim
  imports Riri_Prelude
begin

text \<open>
  \<^verbatim>\<open>src/dim.rs\<close>: CUDA's three-dimensional extents and indices. A linear index is split into
  coordinates with x running fastest. The fields are \<^verbatim>\<open>u32\<close>; \<^verbatim>\<open>count\<close> multiplies them with plain
  \<^verbatim>\<open>*\<close>, so what it does on overflow depends on the build (the argument \<open>checks\<close>).
\<close>

record dim3 =
  dim_x :: u32
  dim_y :: u32
  dim_z :: u32

definition dim3_new :: "u32 \<Rightarrow> u32 \<Rightarrow> u32 \<Rightarrow> dim3" where
  "dim3_new x y z = \<lparr>dim_x = x, dim_y = y, dim_z = z\<rparr>"

definition dim3_count :: "bool \<Rightarrow> dim3 \<Rightarrow> u32 res" where
  "dim3_count checks d =
     res_bind (mul_u32 checks (dim_x d) (dim_y d)) (\<lambda>xy. mul_u32 checks xy (dim_z d))"

definition from_linear :: "bool \<Rightarrow> u32 \<Rightarrow> dim3 \<Rightarrow> dim3 res" where
  "from_linear checks i extent =
     res_bind (rem_u32 i (dim_x extent)) (\<lambda>x.
     res_bind (div_u32 i (dim_x extent)) (\<lambda>q.
     res_bind (rem_u32 q (dim_y extent)) (\<lambda>y.
     res_bind (mul_u32 checks (dim_x extent) (dim_y extent)) (\<lambda>xy.
     res_bind (div_u32 i xy) (\<lambda>z.
     Inr \<lparr>dim_x = x, dim_y = y, dim_z = z\<rparr>)))))"

definition dim3_from_u32 :: "u32 \<Rightarrow> dim3" where
  "dim3_from_u32 x = dim3_new x 1 1"

definition dim3_from_pair :: "u32 \<times> u32 \<Rightarrow> dim3" where
  "dim3_from_pair p = (case p of (x, y) \<Rightarrow> dim3_new x y 1)"

definition dim3_from_triple :: "u32 \<times> u32 \<times> u32 \<Rightarrow> dim3" where
  "dim3_from_triple p = (case p of (x, y, z) \<Rightarrow> dim3_new x y z)"

text \<open>The mathematical size of an extent, and the linear index of a coordinate.\<close>

definition volume :: "dim3 \<Rightarrow> nat" where
  "volume d = unat (dim_x d) * unat (dim_y d) * unat (dim_z d)"

definition to_linear :: "dim3 \<Rightarrow> dim3 \<Rightarrow> nat" where
  "to_linear c extent =
     unat (dim_x c) + unat (dim_x extent) * (unat (dim_y c) + unat (dim_y extent) * unat (dim_z c))"

definition inside :: "dim3 \<Rightarrow> dim3 \<Rightarrow> bool" where
  "inside c extent \<longleftrightarrow>
     dim_x c < dim_x extent \<and> dim_y c < dim_y extent \<and> dim_z c < dim_z extent"

lemma volume_xy_less:
  assumes "volume d < 2 ^ 32" and "0 < volume d"
  shows "unat (dim_x d) * unat (dim_y d) < 2 ^ 32"
proof -
  have "0 < unat (dim_z d)" using assms(2) by (simp add: volume_def)
  then have "unat (dim_x d) * unat (dim_y d) \<le> volume d" by (simp add: volume_def)
  with assms(1) show ?thesis by linarith
qed

lemma dim3_count_no_overflow:
  assumes "volume d < 2 ^ 32" and "0 < volume d"
  shows "dim3_count checks d = Inr (dim_x d * dim_y d * dim_z d)"
    and "unat (dim_x d * dim_y d * dim_z d) = volume d"
proof -
  have xy: "unat (dim_x d) * unat (dim_y d) < 2 ^ 32" by (rule volume_xy_less [OF assms])
  then have uxy: "unat (dim_x d * dim_y d) = unat (dim_x d) * unat (dim_y d)"
    by (rule unat_mult_u32)
  have xyz: "unat (dim_x d * dim_y d) * unat (dim_z d) < 2 ^ 32"
    using assms(1) by (simp add: uxy volume_def)
  show "dim3_count checks d = Inr (dim_x d * dim_y d * dim_z d)"
    by (simp add: dim3_count_def mul_u32_no_overflow [OF xy] mul_u32_no_overflow [OF xyz])
  show "unat (dim_x d * dim_y d * dim_z d) = volume d"
    by (simp only: unat_mult_u32 [OF xyz] uxy volume_def)
qed

lemma dim3_count_checked:
  assumes "dim3_count True d = Inr n" and "0 < unat n"
  shows "unat n = volume d"
proof -
  from assms(1) obtain xy where xy: "mul_u32 True (dim_x d) (dim_y d) = Inr xy"
    and n: "mul_u32 True xy (dim_z d) = Inr n"
    unfolding dim3_count_def by blast
  show ?thesis using mul_u32_unat [OF xy] mul_u32_unat [OF n] by (simp add: volume_def)
qed

text \<open>What \<open>from_linear\<close> computes when nothing overflows, in natural numbers.\<close>

lemma from_linear_value:
  assumes "volume extent < 2 ^ 32" and "unat i < volume extent"
  obtains c where "from_linear checks i extent = Inr c"
    and "unat (dim_x c) = unat i mod unat (dim_x extent)"
    and "unat (dim_y c) = unat i div unat (dim_x extent) mod unat (dim_y extent)"
    and "unat (dim_z c) = unat i div unat (dim_x extent) div unat (dim_y extent)"
proof -
  let ?X = "unat (dim_x extent)" and ?Y = "unat (dim_y extent)"
  have pos: "0 < volume extent" using assms(2) by simp
  then have nz: "0 < ?X" "0 < ?Y" by (auto simp: volume_def)
  then have nzw: "dim_x extent \<noteq> 0" "dim_y extent \<noteq> 0" by auto
  have xy: "?X * ?Y < 2 ^ 32" by (rule volume_xy_less [OF assms(1) pos])
  then have uxy: "unat (dim_x extent * dim_y extent) = ?X * ?Y" by (rule unat_mult_u32)
  then have nzxy: "dim_x extent * dim_y extent \<noteq> 0" using nz by (metis mult_is_0 neq0_conv unat_0)
  let ?c = "\<lparr>dim_x = i mod dim_x extent, dim_y = i div dim_x extent mod dim_y extent,
      dim_z = i div (dim_x extent * dim_y extent)\<rparr>"
  have "from_linear checks i extent = Inr ?c"
    using nzw nzxy by (simp add: from_linear_def rem_u32_def div_u32_def mul_u32_no_overflow [OF xy])
  then show thesis
    by (rule that) (simp_all add: unat_mod_u32 unat_div_u32 uxy div_mult2_eq)
qed

text \<open>
  Splitting a linear index into coordinates never panics for an index inside an extent whose
  size fits \<^verbatim>\<open>u32\<close>, stays inside the extent, and loses nothing: the coordinates give the index back.
\<close>

theorem from_linear_roundtrip:
  assumes "volume extent < 2 ^ 32" and "unat i < volume extent"
  shows "\<exists>c. from_linear checks i extent = Inr c \<and> inside c extent \<and> to_linear c extent = unat i"
proof -
  let ?X = "unat (dim_x extent)" and ?Y = "unat (dim_y extent)" and ?Z = "unat (dim_z extent)"
  obtain c where c: "from_linear checks i extent = Inr c"
    and x: "unat (dim_x c) = unat i mod ?X"
    and y: "unat (dim_y c) = unat i div ?X mod ?Y"
    and z: "unat (dim_z c) = unat i div ?X div ?Y"
    using assms by (rule from_linear_value)
  have "unat i < ?X * ?Y * ?Z" using assms(2) by (simp add: volume_def)
  then have pos: "0 < ?X" "0 < ?Y" and "unat i div ?X div ?Y < ?Z"
    by (auto simp: div_mult2_eq [symmetric] less_mult_imp_div_less mult.commute mult.left_commute
        intro: gr0I)
  then have "inside c extent" by (simp add: inside_def word_less_nat_alt x y z)
  moreover have "to_linear c extent = unat i" by (simp add: to_linear_def x y z)
  ultimately show ?thesis using c by blast
qed

theorem from_linear_roundtrip_witness:
  "\<exists>c. from_linear True 23 \<lparr>dim_x = 4, dim_y = 3, dim_z = 2\<rparr> = Inr c
     \<and> inside c \<lparr>dim_x = 4, dim_y = 3, dim_z = 2\<rparr>
     \<and> to_linear c \<lparr>dim_x = 4, dim_y = 3, dim_z = 2\<rparr> = unat (23 :: u32)"
  by (rule from_linear_roundtrip) (simp_all add: volume_def)

end
