(* ===== verification/Diag.thy ===== *)
theory Diag
  imports Riri_Prelude "HOL-Library.List_Lexorder" "HOL-Library.Char_ord"
    "HOL-Library.Product_Lexorder"
begin

text \<open>
  \<^verbatim>\<open>src/diag.rs\<close>: recorded accesses, the findings a launch can make, their stable fingerprints,
  the report, and the reporter that collects findings. Source locations
  (\<^verbatim>\<open>std::panic::Location\<close>) are compared by file, line and column, in that order.
\<close>

section \<open>Locations\<close>

datatype location = Location (loc_file: string) (loc_line: nat) (loc_col: nat)

definition loc_key :: "location \<Rightarrow> string \<times> nat \<times> nat" where
  "loc_key l = (loc_file l, loc_line l, loc_col l)"

lemma loc_key_inject: "loc_key a = loc_key b \<longleftrightarrow> a = b"
  by (cases a; cases b) (simp add: loc_key_def)

instantiation location :: linorder
begin

definition less_eq_location :: "location \<Rightarrow> location \<Rightarrow> bool" where
  "less_eq_location a b \<longleftrightarrow> loc_key a \<le> loc_key b"

definition less_location :: "location \<Rightarrow> location \<Rightarrow> bool" where
  "less_location a b \<longleftrightarrow> loc_key a < loc_key b"

instance
  by standard
    (auto simp: less_eq_location_def less_location_def less_le_not_le loc_key_inject [symmetric])

end

section \<open>Accesses and findings\<close>

datatype access_kind = Read | Write | Atomic

record access =
  acc_block :: u32
  acc_thread :: u32
  acc_epoch :: nat
  acc_warp :: u32
  acc_warp_epoch :: nat
  acc_seq :: nat
  acc_kind :: access_kind
  acc_loc :: location

datatype mem_space =
    Global string
  | Shared u32 string

datatype lane_problem =
    CallerNotInMask
  | MaskOutsideBlock u32
  | SourceLaneNotInMask u32

datatype diagnostic =
    DataRace mem_space nat access access
  | UninitRead mem_space nat access
  | OutOfBounds mem_space nat nat access
  | BarrierDivergence u32 nat nat location
  | WarpDivergence u32 u32 string u32 u32 location
  | WarpMaskMismatch u32 u32 string location u32 u32 u32 u32
  | WarpLaneError u32 u32 string location u32 u32 lane_problem
  | KernelPanic u32 u32 string

text \<open>
  The arguments are the fields in the source's order: space, index, first, second for a race;
  block, waiting, exited, barrier; block, warp, op, mask, arrived, at; block, warp, op, at, lane,
  mask, other lane, other mask; block, warp, op, at, lane, mask, problem; block, thread, message.
\<close>

section \<open>Rendering numbers and lane masks\<close>

fun show_nat :: "nat \<Rightarrow> string" where
  "show_nat n = (if n < 10 then [char_of (48 + n)]
                 else show_nat (n div 10) @ [char_of (48 + n mod 10)])"

declare show_nat.simps [simp del]

definition show_u32 :: "u32 \<Rightarrow> string" where
  "show_u32 w = show_nat (unat w)"

text \<open>
  \<^verbatim>\<open>lane_list\<close>: the inner loop extends a run while the next lane is set, the outer loop collects
  the runs.
\<close>

function run_end :: "u32 \<Rightarrow> nat \<Rightarrow> nat" where
  "run_end m lane =
     (if lane + 1 < 32 \<and> has_lane m (lane + 1) then run_end m (lane + 1) else lane)"
  by pat_completeness auto
termination
  by (relation "measure (\<lambda>(m, lane). 32 - lane)") auto

declare run_end.simps [simp del]

lemma run_end_ge: "lane \<le> run_end m lane"
proof (induction m lane rule: run_end.induct)
  case (1 m lane)
  then show ?case by (subst run_end.simps) (auto intro: Suc_leD)
qed

function lane_runs :: "u32 \<Rightarrow> nat \<Rightarrow> (nat \<times> nat) list" where
  "lane_runs m lane =
     (if lane < 32 then
        if has_lane m lane
        then (lane, run_end m lane) # lane_runs m (run_end m lane + 1)
        else lane_runs m (lane + 1)
      else [])"
  by pat_completeness auto
termination
proof (relation "measure (\<lambda>(m, lane). 32 - lane)", goal_cases)
  case (2 m lane)
  then show ?case using run_end_ge [of lane m] by auto
qed auto

declare lane_runs.simps [simp del]

definition show_run :: "nat \<times> nat \<Rightarrow> string" where
  "show_run r = (case r of (start, lane) \<Rightarrow>
     if start = lane then show_nat start else show_nat start @ ''-'' @ show_nat lane)"

fun join_with :: "string \<Rightarrow> string list \<Rightarrow> string" where
  "join_with sep [] = []"
| "join_with sep [p] = p"
| "join_with sep (p # q # ps) = p @ sep @ join_with sep (q # ps)"

definition lane_list :: "u32 \<Rightarrow> string" where
  "lane_list m =
     (if m = 0 then ''none'' else join_with '','' (map show_run (lane_runs m 0)))"

section \<open>Fingerprints\<close>

definition at_loc :: "location \<Rightarrow> string" where
  "at_loc l = loc_file l @ '':'' @ show_nat (loc_line l)"

definition ordered_locs :: "location \<Rightarrow> location \<Rightarrow> location \<times> location" where
  "ordered_locs a b = (if a \<le> b then (a, b) else (b, a))"

definition problem_kind :: "lane_problem \<Rightarrow> string" where
  "problem_kind p = (case p of
       CallerNotInMask \<Rightarrow> ''caller-not-in-mask''
     | MaskOutsideBlock valid \<Rightarrow> ''mask-outside-block''
     | SourceLaneNotInMask src \<Rightarrow> ''source-lane-not-in-mask'')"

fun fingerprint :: "diagnostic \<Rightarrow> string" where
  "fingerprint (DataRace space index first second) =
     (case ordered_locs (acc_loc first) (acc_loc second) of (a, b) \<Rightarrow>
        ''race@'' @ at_loc a @ ''~'' @ at_loc b)"
| "fingerprint (UninitRead space index access) = ''uninit@'' @ at_loc (acc_loc access)"
| "fingerprint (OutOfBounds space index len access) = ''oob@'' @ at_loc (acc_loc access)"
| "fingerprint (BarrierDivergence block waiting exited barrier) = ''barrier@'' @ at_loc barrier"
| "fingerprint (WarpDivergence block warp op msk arrived loc) =
     ''warp-divergence:'' @ op @ ''@'' @ at_loc loc"
| "fingerprint (WarpMaskMismatch block warp op loc lane msk other_lane other_msk) =
     ''warp-mask-mismatch:'' @ op @ ''@'' @ at_loc loc"
| "fingerprint (WarpLaneError block warp op loc lane msk problem) =
     ''warp-lane-error:'' @ op @ '':'' @ problem_kind problem @ ''@'' @ at_loc loc"
| "fingerprint (KernelPanic block thread message) = ''panic:'' @ message"

section \<open>The report\<close>

record report =
  report_seed :: u64
  diagnostics :: "diagnostic list"
  report_aborted :: bool

definition is_clean :: "report \<Rightarrow> bool" where
  "is_clean r \<longleftrightarrow> diagnostics r = []"

definition has_race :: "report \<Rightarrow> bool" where
  "has_race r \<longleftrightarrow>
     list_ex (\<lambda>d. case d of DataRace _ _ _ _ \<Rightarrow> True | _ \<Rightarrow> False) (diagnostics r)"

definition has_warp_divergence :: "report \<Rightarrow> bool" where
  "has_warp_divergence r \<longleftrightarrow>
     list_ex (\<lambda>d. case d of WarpDivergence _ _ _ _ _ _ \<Rightarrow> True | _ \<Rightarrow> False) (diagnostics r)"

definition fingerprints :: "report \<Rightarrow> string list" where
  "fingerprints r = remdups_adj (sort (map fingerprint (diagnostics r)))"

definition contains :: "report \<Rightarrow> string \<Rightarrow> bool" where
  "contains r fp \<longleftrightarrow> list_ex (\<lambda>d. fingerprint d = fp) (diagnostics r)"

section \<open>The reporter\<close>

type_synonym dedup_key = "string \<times> location \<times> location option"

definition max_diagnostics :: nat where
  "max_diagnostics = 64"

record reporter =
  rep_diags :: "diagnostic list"
  rep_seen :: "dedup_key set"

definition reporter_new :: reporter where
  "reporter_new = \<lparr>rep_diags = [], rep_seen = {}\<rparr>"

text \<open>
  A panic is keyed by \<^verbatim>\<open>Location::caller()\<close> evaluated inside \<^verbatim>\<open>push\<close>, which is not
  \<^verbatim>\<open>#[track_caller]\<close>: the same place, in \<^verbatim>\<open>diag.rs\<close> itself, every time.
\<close>

definition push_location :: location where
  "push_location = Location ''src/diag.rs'' 429 46"

definition show_problem :: "lane_problem \<Rightarrow> string" where
  "show_problem p = (case p of
       CallerNotInMask \<Rightarrow> ''CallerNotInMask''
     | MaskOutsideBlock valid \<Rightarrow> ''MaskOutsideBlock { valid: '' @ show_u32 valid @ '' }''
     | SourceLaneNotInMask src \<Rightarrow> ''SourceLaneNotInMask { src: '' @ show_u32 src @ '' }'')"

fun dedup_key_of :: "diagnostic \<Rightarrow> dedup_key" where
  "dedup_key_of (DataRace space index first second) =
     (case ordered_locs (acc_loc first) (acc_loc second) of (a, b) \<Rightarrow> (''race'', a, Some b))"
| "dedup_key_of (UninitRead space index access) = (''uninit'', acc_loc access, None)"
| "dedup_key_of (OutOfBounds space index len access) = (''oob'', acc_loc access, None)"
| "dedup_key_of (BarrierDivergence block waiting exited barrier) =
     (''barrier'' @ show_u32 block, barrier, None)"
| "dedup_key_of (WarpDivergence block warp op msk arrived loc) =
     (''warpdiv'' @ show_u32 block @ '':'' @ show_u32 warp, loc, None)"
| "dedup_key_of (WarpMaskMismatch block warp op loc lane msk other_lane other_msk) =
     (''warpmask'' @ show_u32 block @ '':'' @ show_u32 warp, loc, None)"
| "dedup_key_of (WarpLaneError block warp op loc lane msk problem) =
     (''warplane'' @ show_problem problem, loc, None)"
| "dedup_key_of (KernelPanic block thread message) = (''panic:'' @ message, push_location, None)"

definition reporter_push :: "reporter \<Rightarrow> diagnostic \<Rightarrow> reporter" where
  "reporter_push r d =
     (if length (rep_diags r) < max_diagnostics then
        if dedup_key_of d \<in> rep_seen r then r
        else r\<lparr>rep_diags := rep_diags r @ [d], rep_seen := insert (dedup_key_of d) (rep_seen r)\<rparr>
      else r)"

definition reporter_take :: "reporter \<Rightarrow> diagnostic list \<times> reporter" where
  "reporter_take r = (rep_diags r, r\<lparr>rep_diags := []\<rparr>)"

section \<open>The runs of a lane mask\<close>

lemma run_end_less: "lane < 32 \<Longrightarrow> run_end m lane < 32"
proof (induction m lane rule: run_end.induct)
  case (1 m lane)
  then show ?case by (subst run_end.simps) auto
qed

lemma run_end_set:
  "lane < i \<Longrightarrow> i \<le> run_end m lane \<Longrightarrow> bit m i"
proof (induction m lane rule: run_end.induct)
  case (1 m lane)
  show ?case
  proof (cases "lane + 1 < 32 \<and> has_lane m (lane + 1)")
    case True
    then have "i \<le> run_end m (lane + 1)" using "1.prems"(2) by (simp add: run_end.simps [of m lane])
    moreover have "i = lane + 1 \<or> lane + 1 < i" using "1.prems"(1) by auto
    ultimately show ?thesis using "1.IH" True by (auto simp: mask_simps)
  next
    case False
    then have "run_end m lane = lane" by (subst run_end.simps) (simp only: if_False)
    then show ?thesis using "1.prems" by simp
  qed
qed

lemma run_end_stops: "\<not> bit m (run_end m lane + 1)"
proof (induction m lane rule: run_end.induct)
  case (1 m lane)
  then show ?case
    by (cases "lane + 1 < 32 \<and> has_lane m (lane + 1)")
      (auto simp: run_end.simps [of m lane] mask_simps dest: bit_u32_less)
qed

definition in_run :: "nat \<Rightarrow> nat \<times> nat \<Rightarrow> bool" where
  "in_run i r \<longleftrightarrow> fst r \<le> i \<and> i \<le> snd r"

definition apart :: "nat \<times> nat \<Rightarrow> nat \<times> nat \<Rightarrow> bool" where
  "apart r r' \<longleftrightarrow> snd r + 1 < fst r'"

lemma lane_runs_cover:
  "(\<exists>r \<in> set (lane_runs m lane). in_run i r) \<longleftrightarrow> lane \<le> i \<and> bit m i"
proof (induction m lane rule: lane_runs.induct)
  case (1 m lane)
  show ?case
  proof (cases "lane < 32 \<and> has_lane m lane")
    case True
    let ?e = "run_end m lane"
    have eq: "lane_runs m lane = (lane, ?e) # lane_runs m (?e + 1)"
      using True by (simp add: lane_runs.simps [of m lane])
    have first: "in_run i (lane, ?e) \<longleftrightarrow> lane \<le> i \<and> i \<le> ?e \<and> bit m i"
      using True run_end_set [of lane i m] by (auto simp: in_run_def mask_simps le_less)
    have "lane \<le> i \<and> bit m i \<longleftrightarrow> (lane \<le> i \<and> i \<le> ?e \<and> bit m i) \<or> (?e + 1 \<le> i \<and> bit m i)"
      using run_end_ge [of lane m] by auto
    then show ?thesis using "1.IH"(1) True by (simp add: eq first)
  next
    case False
    show ?thesis
    proof (cases "lane < 32")
      case True
      then have "\<not> bit m lane" using False by (simp add: mask_simps)
      then have "lane \<le> i \<and> bit m i \<longleftrightarrow> lane + 1 \<le> i \<and> bit m i"
        by (auto simp: Suc_le_eq le_less)
      then show ?thesis using "1.IH"(2) True False by (simp add: lane_runs.simps [of m lane])
    next
      case False
      then have "\<not> (lane \<le> i \<and> bit m i)" using bit_u32_less [of m i] by linarith
      then show ?thesis using False by (simp add: lane_runs.simps [of m lane])
    qed
  qed
qed

lemma lane_runs_start: "r \<in> set (lane_runs m lane) \<Longrightarrow> lane \<le> fst r \<and> fst r \<le> snd r \<and> bit m (fst r)"
proof (induction m lane rule: lane_runs.induct)
  case (1 m lane)
  then show ?case
    using run_end_ge [of lane m]
    by (auto simp: lane_runs.simps [of m lane] mask_simps split: if_splits)
qed

lemma lane_runs_apart: "sorted_wrt apart (lane_runs m lane)"
proof (induction m lane rule: lane_runs.induct)
  case (1 m lane)
  have "apart (lane, run_end m lane) r" if r: "r \<in> set (lane_runs m (run_end m lane + 1))" for r
  proof -
    have "run_end m lane + 1 \<le> fst r" and "bit m (fst r)" using lane_runs_start [OF r] by auto
    moreover have "fst r \<noteq> run_end m lane + 1" using run_end_stops [of m lane] \<open>bit m (fst r)\<close> by auto
    ultimately show ?thesis by (simp add: apart_def)
  qed
  with "1.IH" show ?case by (simp add: lane_runs.simps [of m lane])
qed

lemma lane_runs_inj: "lane_runs m 0 = lane_runs m' 0 \<Longrightarrow> m = m'"
  using lane_runs_cover [of m 0] lane_runs_cover [of m' 0] by (auto intro!: bit_word_eqI)

lemma lane_runs_empty: "lane_runs m 0 = [] \<longleftrightarrow> m = 0"
proof
  assume "lane_runs m 0 = []"
  then show "m = 0" using lane_runs_cover [of m 0] by (auto intro!: bit_word_eqI)
next
  assume "m = 0"
  then have "r \<notin> set (lane_runs m 0)" for r using lane_runs_start [of r m 0] by auto
  then show "lane_runs m 0 = []" by (cases "lane_runs m 0") auto
qed

section \<open>The printed form of a mask determines the mask\<close>

definition digit_chars :: "char set" where
  "digit_chars = {c. 48 \<le> (of_char c :: nat) \<and> (of_char c :: nat) < 58}"

fun read_nat_acc :: "nat \<Rightarrow> string \<Rightarrow> nat" where
  "read_nat_acc a [] = a"
| "read_nat_acc a (c # cs) = read_nat_acc (a * 10 + (of_char c - 48)) cs"

lemma read_nat_acc_append: "read_nat_acc a (xs @ ys) = read_nat_acc (read_nat_acc a xs) ys"
  by (induction xs arbitrary: a) auto

lemma digit_value: "d < 10 \<Longrightarrow> of_char (char_of (48 + d) :: char) = (48 + d :: nat)"
  by (simp add: of_char_of)

lemma read_show_nat: "read_nat_acc 0 (show_nat n) = n"
proof (induction n rule: show_nat.induct)
  case (1 n)
  show ?case
  proof (cases "n < 10")
    case True
    then show ?thesis by (simp add: show_nat.simps [of n] digit_value)
  next
    case False
    with 1 show ?thesis
      by (subst show_nat.simps) (simp add: read_nat_acc_append digit_value)
  qed
qed

lemma show_nat_inj [simp]: "show_nat m = show_nat n \<longleftrightarrow> m = n"
  by (metis read_show_nat)

lemma digit_char: "d < (10 :: nat) \<Longrightarrow> char_of (48 + d) \<in> digit_chars"
  by (simp add: digit_chars_def digit_value)

lemma show_nat_digits: "set (show_nat n) \<subseteq> digit_chars"
proof (induction n rule: show_nat.induct)
  case (1 n)
  show ?case
    by (cases "n < 10") (use 1 in \<open>auto simp: show_nat.simps [of n] digit_char\<close>)
qed

lemma show_nat_nonempty [simp]: "show_nat n \<noteq> []"
  by (cases "n < 10") (auto simp: show_nat.simps [of n])

lemma no_separator [simp]:
  "CHR '','' \<notin> set (show_nat n)" "CHR ''-'' \<notin> set (show_nat n)" "CHR ''n'' \<notin> set (show_nat n)"
  using show_nat_digits [of n] by (auto simp: digit_chars_def)

lemma append_sep_inject:
  "c \<notin> set xs \<Longrightarrow> c \<notin> set ys \<Longrightarrow> xs @ c # us = ys @ c # vs \<longleftrightarrow> xs = ys \<and> us = vs"
proof (induction xs arbitrary: ys)
  case Nil
  then show ?case by (cases ys) auto
next
  case (Cons x xs)
  then show ?case by (cases ys) auto
qed

lemma show_run_inj: "show_run r = show_run r' \<longleftrightarrow> r = r'"
proof (cases r; cases r')
  fix s e s' e'
  assume [simp]: "r = (s, e)" "r' = (s', e')"
  have no_dash: "show_nat a = show_nat b @ CHR ''-'' # u \<longleftrightarrow> False" for a b u
    using no_separator(2) [of a] by (metis in_set_conv_decomp)
  show ?thesis
    by (auto simp: show_run_def append_sep_inject no_dash no_dash [THEN eq_commute [THEN trans]])
qed

lemma show_run_chars [simp]: "CHR '','' \<notin> set (show_run r)" "CHR ''n'' \<notin> set (show_run r)"
  by (cases r, auto simp: show_run_def)+

lemma join_with_Cons:
  "ps \<noteq> [] \<Longrightarrow> join_with sep (p # ps) = p @ sep @ join_with sep ps"
  by (cases ps) auto

lemma join_with_inj:
  assumes "\<forall>p \<in> set ps. CHR '','' \<notin> set p" and "\<forall>q \<in> set qs. CHR '','' \<notin> set q"
    and "ps \<noteq> []" and "qs \<noteq> []"
    and "join_with '','' ps = join_with '','' qs"
  shows "ps = qs"
  using assms
proof (induction ps arbitrary: qs)
  case (Cons p ps)
  obtain q qs' where qs: "qs = q # qs'" using Cons.prems(4) by (cases qs) auto
  have comma: "CHR '','' \<notin> set p" "CHR '','' \<notin> set q" using Cons.prems(1,2) qs by auto
  consider (both) "ps = []" "qs' = []" | (left) "ps = []" "qs' \<noteq> []"
    | (right) "ps \<noteq> []" "qs' = []" | (more) "ps \<noteq> []" "qs' \<noteq> []" by blast
  then show ?case
  proof cases
    case both
    then show ?thesis using Cons.prems(5) qs by simp
  next
    case left
    then have "p = q @ '','' @ join_with '','' qs'" using Cons.prems(5) qs by (simp add: join_with_Cons)
    then show ?thesis using comma by simp
  next
    case right
    then have "q = p @ '','' @ join_with '','' ps" using Cons.prems(5) qs by (simp add: join_with_Cons)
    then show ?thesis using comma by simp
  next
    case more
    then have "p @ CHR '','' # join_with '','' ps = q @ CHR '','' # join_with '','' qs'"
      using Cons.prems(5) qs by (simp add: join_with_Cons)
    then have "p = q" and "join_with '','' ps = join_with '','' qs'"
      using append_sep_inject [OF comma] by blast+
    then show ?thesis using Cons.IH [of qs'] Cons.prems more qs by auto
  qed
qed simp

text \<open>
  The lane list printed in every warp finding identifies the lanes exactly: two masks that
  print the same are the same mask.
\<close>

theorem lane_list_injective:
  assumes "lane_list m = lane_list m'"
  shows "m = m'"
proof -
  have none: "lane_list k \<noteq> ''none''" if nz: "k \<noteq> 0" for k
  proof -
    obtain r rs where rs: "lane_runs k 0 = r # rs"
      using nz lane_runs_empty [of k] by (cases "lane_runs k 0") auto
    have ne: "show_run r \<noteq> []" by (cases r) (simp add: show_run_def)
    have "hd (lane_list k) \<in> set (show_run r)"
      using nz ne by (cases "rs = []") (auto simp: lane_list_def rs join_with_Cons)
    then show ?thesis using show_run_chars(2) [of r] by auto
  qed
  show ?thesis
  proof (cases "m = 0 \<or> m' = 0")
    case True
    then show ?thesis using assms none by (metis lane_list_def)
  next
    case False
    then have "join_with '','' (map show_run (lane_runs m 0))
             = join_with '','' (map show_run (lane_runs m' 0))"
      using assms by (simp add: lane_list_def)
    then have "map show_run (lane_runs m 0) = map show_run (lane_runs m' 0)"
      using False by (intro join_with_inj) (auto simp: lane_runs_empty)
    then have "lane_runs m 0 = lane_runs m' 0"
      using list.inj_map [of show_run] by (simp add: inj_def show_run_inj)
    then show ?thesis by (rule lane_runs_inj)
  qed
qed

theorem lane_list_injective_witness: "lane_list 0x8000FFFF = ''0-15,31'' \<and> lane_list 0x8000FFFF \<noteq> lane_list 0xFFFF"
proof -
  have "lane_list 0x8000FFFF = ''0-15,31''" by code_simp
  moreover have "(0x8000FFFF :: u32) \<noteq> 0xFFFF" by simp
  ultimately show ?thesis using lane_list_injective [of "0x8000FFFF" "0xFFFF"] by blast
qed

section \<open>What the reporter keeps\<close>

text \<open>The reference: the findings in order of arrival, the first of each key.\<close>

fun first_of_key :: "dedup_key set \<Rightarrow> diagnostic list \<Rightarrow> diagnostic list" where
  "first_of_key seen [] = []"
| "first_of_key seen (d # ds) =
     (if dedup_key_of d \<in> seen then first_of_key seen ds
      else d # first_of_key (insert (dedup_key_of d) seen) ds)"

definition reporter_ok :: "reporter \<Rightarrow> bool" where
  "reporter_ok r \<longleftrightarrow>
     rep_seen r = dedup_key_of ` set (rep_diags r) \<and> distinct (map dedup_key_of (rep_diags r))
     \<and> length (rep_diags r) \<le> max_diagnostics"

lemma reporter_ok_new [simp]: "reporter_ok reporter_new"
  by (simp add: reporter_ok_def reporter_new_def)

lemma reporter_ok_push [intro]: "reporter_ok r \<Longrightarrow> reporter_ok (reporter_push r d)"
  by (auto simp: reporter_ok_def reporter_push_def)

lemma reporter_ok_pushes: "reporter_ok r \<Longrightarrow> reporter_ok (foldl reporter_push r ds)"
  by (induction ds arbitrary: r) (auto intro: reporter_ok_push)

lemma reporter_pushes:
  assumes "reporter_ok r"
  shows "rep_diags (foldl reporter_push r ds)
       = take max_diagnostics (rep_diags r @ first_of_key (rep_seen r) ds)"
  using assms
proof (induction ds arbitrary: r)
  case Nil
  then show ?case by (simp add: reporter_ok_def)
next
  case (Cons d ds)
  have IH: "rep_diags (foldl reporter_push (reporter_push r d) ds)
     = take max_diagnostics (rep_diags (reporter_push r d) @ first_of_key (rep_seen (reporter_push r d)) ds)"
    using Cons.prems by (intro Cons.IH reporter_ok_push)
  consider (full) "\<not> length (rep_diags r) < max_diagnostics"
    | (seen) "length (rep_diags r) < max_diagnostics" "dedup_key_of d \<in> rep_seen r"
    | (fresh) "length (rep_diags r) < max_diagnostics" "dedup_key_of d \<notin> rep_seen r" by blast
  then show ?case
  proof cases
    case full
    then have "reporter_push r d = r" by (simp add: reporter_push_def)
    with IH full Cons.prems show ?thesis by (simp add: reporter_ok_def)
  next
    case seen
    then have "reporter_push r d = r" by (simp add: reporter_push_def)
    with IH seen show ?thesis by simp
  next
    case fresh
    then have "reporter_push r d
      = r\<lparr>rep_diags := rep_diags r @ [d], rep_seen := insert (dedup_key_of d) (rep_seen r)\<rparr>"
      by (simp add: reporter_push_def)
    with IH fresh show ?thesis by simp
  qed
qed

text \<open>
  C32: whatever is pushed, the report holds exactly the first finding of every key, in order of
  arrival, cut at 64.
\<close>

theorem reporter_keeps_first_of_each_key:
  "fst (reporter_take (foldl reporter_push reporter_new ds)) = take 64 (first_of_key {} ds)"
  by (simp add: reporter_take_def reporter_pushes max_diagnostics_def)
    (simp add: reporter_new_def)

text \<open>
  The fingerprint of a race does not depend on which of the two accesses came first, on the
  memory, the index, the blocks or the threads, and neither does its de-duplication key.
\<close>

theorem race_identity_symmetric:
  "fingerprint (DataRace sp i a b) = fingerprint (DataRace sp' i' b a)
   \<and> dedup_key_of (DataRace sp i a b) = dedup_key_of (DataRace sp' i' b a)"
  by (auto simp: ordered_locs_def)

section \<open>The sink the components report to\<close>

text \<open>
  What the scheduler and the memory rely on: a report only grows, and after a push it is not
  empty, so a launch that reported something never ends clean.
\<close>

locale finding_sink =
  fixes push :: "'r \<Rightarrow> 'd \<Rightarrow> 'r"
    and entries :: "'r \<Rightarrow> 'd list"
    and ok :: "'r \<Rightarrow> bool"
  assumes push_ok: "ok r \<Longrightarrow> ok (push r d)"
    and push_extends: "ok r \<Longrightarrow> \<exists>ys. entries (push r d) = entries r @ ys"
    and push_nonempty: "ok r \<Longrightarrow> entries (push r d) \<noteq> []"
begin

lemma pushes_ok: "ok r \<Longrightarrow> ok (foldl push r ds)"
  by (induction ds arbitrary: r) (auto intro: push_ok)

lemma pushes_extend: "ok r \<Longrightarrow> \<exists>ys. entries (foldl push r ds) = entries r @ ys"
proof (induction ds arbitrary: r)
  case (Cons d ds)
  then obtain ys zs where "entries (push r d) = entries r @ ys"
    and "entries (foldl push (push r d) ds) = entries (push r d) @ zs"
    using push_extends push_ok by meson
  then show ?case by auto
qed simp

lemma pushes_nonempty: "ok r \<Longrightarrow> ds \<noteq> [] \<or> entries r \<noteq> [] \<Longrightarrow> entries (foldl push r ds) \<noteq> []"
proof (cases ds)
  case (Cons d ds')
  assume "ok r"
  then obtain ys where "entries (foldl push (push r d) ds') = entries (push r d) @ ys"
    using pushes_extend push_ok by blast
  then show ?thesis using push_nonempty [OF \<open>ok r\<close>, of d] Cons by simp
qed simp

end

interpretation sink: finding_sink reporter_push rep_diags reporter_ok
proof
  fix r d
  assume ok: "reporter_ok r"
  show "reporter_ok (reporter_push r d)" using ok by (rule reporter_ok_push)
  show "\<exists>ys. rep_diags (reporter_push r d) = rep_diags r @ ys" by (simp add: reporter_push_def)
  show "rep_diags (reporter_push r d) \<noteq> []"
    using ok by (auto simp: reporter_push_def reporter_ok_def max_diagnostics_def)
qed

end
