(* ===== verification/Sync.thy ===== *)
theory Sync
  imports Riri_Prelude "HOL-Library.DAList"
begin

text \<open>
  \<^verbatim>\<open>src/sync.rs\<close>: sparse vector clocks (a \<^verbatim>\<open>BTreeMap\<close> from packed thread keys to sequence numbers,
  here an association list with distinct keys) and the per-launch \<^verbatim>\<open>SyncState\<close> with its release,
  acquire, fence and barrier operations. The abstract specification replaces every clock by the set
  of operations its owner has seen; the operations then are unions.
\<close>

section \<open>Orderings and keys\<close>

datatype mem_ordering = Relaxed | Acquire | Release | AcqRel | SeqCst

definition is_acquire :: "mem_ordering \<Rightarrow> bool" where
  "is_acquire ord = (case ord of Acquire \<Rightarrow> True | AcqRel \<Rightarrow> True | SeqCst \<Rightarrow> True | _ \<Rightarrow> False)"

definition is_release :: "mem_ordering \<Rightarrow> bool" where
  "is_release ord = (case ord of Release \<Rightarrow> True | AcqRel \<Rightarrow> True | SeqCst \<Rightarrow> True | _ \<Rightarrow> False)"

lemma ordering_cases [simp]:
  "\<not> is_acquire Relaxed" "is_acquire Acquire" "\<not> is_acquire Release" "is_acquire AcqRel"
  "is_acquire SeqCst" "\<not> is_release Relaxed" "\<not> is_release Acquire" "is_release Release"
  "is_release AcqRel" "is_release SeqCst"
  by (simp_all add: is_acquire_def is_release_def)

definition key :: "u32 \<Rightarrow> u32 \<Rightarrow> u64" where
  "key block thread = push_bit 32 (ucast block) OR ucast thread"

lemma key_parts:
  "drop_bit 32 (key b t) = (ucast b :: u64)" "take_bit 32 (key b t) = (ucast t :: u64)"
  by (rule bit_word_eqI; auto simp: key_def bit_simps dest: bit_u32_less)+

lemma ucast_u64_inject: "(ucast (a :: u32) :: u64) = ucast b \<longleftrightarrow> a = b"
proof
  assume eq: "(ucast a :: u64) = ucast b"
  have "bit w i \<longleftrightarrow> bit (ucast w :: u64) i" if "i < 32" for i and w :: u32
    using that by (simp add: bit_simps)
  with eq show "a = b" by (auto intro!: u32_eqI)
qed simp

lemma key_inject [simp]: "key b t = key b' t' \<longleftrightarrow> b = b' \<and> t = t'"
proof
  assume eq: "key b t = key b' t'"
  have "(ucast b :: u64) = ucast b'" using key_parts(1) eq by metis
  moreover have "(ucast t :: u64) = ucast t'" using key_parts(2) eq by metis
  ultimately show "b = b' \<and> t = t'" by (simp add: ucast_u64_inject)
qed simp

section \<open>Clocks\<close>

type_synonym clock = "(u64, nat) alist"

definition clock_empty :: clock where
  "clock_empty = DAList.empty"

definition clock_get :: "clock \<Rightarrow> u64 \<Rightarrow> nat" where
  "clock_get c k = (case DAList.lookup c k of None \<Rightarrow> 0 | Some n \<Rightarrow> n)"

definition clock_observe :: "clock \<Rightarrow> u64 \<Rightarrow> nat \<Rightarrow> clock" where
  "clock_observe c k n =
     (let slot = clock_get c k in DAList.update k (if n > slot then n else slot) c)"

definition clock_join :: "clock \<Rightarrow> clock \<Rightarrow> clock" where
  "clock_join c other = fold (\<lambda>(k, n) acc. clock_observe acc k n) (DAList.impl_of other) c"

definition clock_is_empty :: "clock \<Rightarrow> bool" where
  "clock_is_empty c \<longleftrightarrow> DAList.impl_of c = []"

lemma clock_get_empty [simp]: "clock_get clock_empty k = 0"
  by (simp add: clock_get_def clock_empty_def)

lemma clock_get_observe [simp]:
  "clock_get (clock_observe c k n) k' = (if k' = k then max n (clock_get c k) else clock_get c k')"
  by (simp add: clock_get_def clock_observe_def Let_def lookup_update)

lemma clock_get_fold:
  "distinct (map fst al) \<Longrightarrow>
   clock_get (fold (\<lambda>(k, n) acc. clock_observe acc k n) al c) k
     = max (clock_get c k) (case map_of al k of None \<Rightarrow> 0 | Some n \<Rightarrow> n)"
proof (induction al arbitrary: c)
  case (Cons kn al)
  obtain k' n where kn: "kn = (k', n)" by (cases kn)
  have IH: "clock_get (fold (\<lambda>(k, n) acc. clock_observe acc k n) al (clock_observe c k' n)) k
      = max (clock_get (clock_observe c k' n) k) (case map_of al k of None \<Rightarrow> 0 | Some n \<Rightarrow> n)"
    using Cons.prems by (intro Cons.IH) simp
  show ?case
  proof (cases "k = k'")
    case True
    with Cons.prems kn have "map_of al k = None" by (simp add: map_of_eq_None_iff)
    with True IH kn show ?thesis by (simp add: max.commute)
  next
    case False
    with IH kn show ?thesis by simp
  qed
qed simp

lemma clock_get_join [simp]: "clock_get (clock_join c d) k = max (clock_get c k) (clock_get d k)"
  by (simp add: clock_join_def clock_get_fold) (simp add: clock_get_def lookup.rep_eq)

lemma clock_get_is_empty: "clock_is_empty c \<Longrightarrow> clock_get c k = 0"
  by (simp add: clock_is_empty_def clock_get_def lookup.rep_eq)

lemma clock_is_empty_empty [simp]: "clock_is_empty clock_empty"
  by (simp add: clock_is_empty_def clock_empty_def empty.rep_eq)

section \<open>The synchronisation state\<close>

record sync_state =
  ss_seq :: "nat list"
  ss_clock :: "clock list"
  ss_fence_release :: "clock list"
  ss_fence_acquire :: "clock list"
  ss_block :: "clock list"

definition sync_new :: "nat \<Rightarrow> nat \<Rightarrow> sync_state" where
  "sync_new threads blocks =
     \<lparr>ss_seq = replicate threads 0,
      ss_clock = replicate threads clock_empty,
      ss_fence_release = replicate threads clock_empty,
      ss_fence_acquire = replicate threads clock_empty,
      ss_block = replicate blocks clock_empty\<rparr>"

definition barrier_arrive :: "sync_state \<Rightarrow> nat \<Rightarrow> nat \<Rightarrow> sync_state" where
  "barrier_arrive s gid block =
     (let mine = ss_clock s ! gid
      in s\<lparr>ss_block := (ss_block s)[block := clock_join (ss_block s ! block) mine]\<rparr>)"

definition barrier_depart :: "sync_state \<Rightarrow> nat \<Rightarrow> nat \<Rightarrow> sync_state" where
  "barrier_depart s gid block =
     (let shared = ss_block s ! block
      in s\<lparr>ss_clock := (ss_clock s)[gid := clock_join (ss_clock s ! gid) shared]\<rparr>)"

definition tick :: "sync_state \<Rightarrow> nat \<Rightarrow> u64 \<Rightarrow> nat \<times> sync_state" where
  "tick s gid k =
     (let n = ss_seq s ! gid + 1
      in (n, s\<lparr>ss_seq := (ss_seq s)[gid := n],
               ss_clock := (ss_clock s)[gid := clock_observe (ss_clock s ! gid) k n]\<rparr>))"

definition clock_of :: "sync_state \<Rightarrow> nat \<Rightarrow> clock" where
  "clock_of s gid = ss_clock s ! gid"

text \<open>\<^verbatim>\<open>release\<close> only writes its target; it returns the target's new value.\<close>

definition release :: "sync_state \<Rightarrow> nat \<Rightarrow> clock \<Rightarrow> mem_ordering \<Rightarrow> clock" where
  "release s gid target ord =
     (let target1 = (if is_release ord then clock_join target (ss_clock s ! gid) else target)
      in if \<not> clock_is_empty (ss_fence_release s ! gid)
         then clock_join target1 (ss_fence_release s ! gid) else target1)"

definition acquire :: "sync_state \<Rightarrow> nat \<Rightarrow> clock \<Rightarrow> mem_ordering \<Rightarrow> sync_state" where
  "acquire s gid source ord =
     (if clock_is_empty source then s
      else if is_acquire ord
      then s\<lparr>ss_clock := (ss_clock s)[gid := clock_join (ss_clock s ! gid) source]\<rparr>
      else s\<lparr>ss_fence_acquire :=
               (ss_fence_acquire s)[gid := clock_join (ss_fence_acquire s ! gid) source]\<rparr>)"

definition fence :: "sync_state \<Rightarrow> nat \<Rightarrow> mem_ordering \<Rightarrow> sync_state" where
  "fence s gid ord =
     (let s1 = (if is_acquire ord then
                  s\<lparr>ss_fence_acquire := (ss_fence_acquire s)[gid := clock_empty],
                    ss_clock := (ss_clock s)
                      [gid := clock_join (ss_clock s ! gid) (ss_fence_acquire s ! gid)]\<rparr>
                else s)
      in if is_release ord
         then s1\<lparr>ss_fence_release := (ss_fence_release s1)[gid := ss_clock s1 ! gid]\<rparr>
         else s1)"

section \<open>What the operations do to clock entries\<close>

lemma tick_fields [simp]:
  "fst (tick s g k) = ss_seq s ! g + 1"
  "ss_seq (snd (tick s g k)) = (ss_seq s)[g := ss_seq s ! g + 1]"
  "ss_clock (snd (tick s g k)) = (ss_clock s)[g := clock_observe (ss_clock s ! g) k (ss_seq s ! g + 1)]"
  "ss_fence_release (snd (tick s g k)) = ss_fence_release s"
  "ss_fence_acquire (snd (tick s g k)) = ss_fence_acquire s"
  "ss_block (snd (tick s g k)) = ss_block s"
  by (simp_all add: tick_def Let_def)

lemma clock_get_release [simp]:
  "clock_get (release s g target ord) k =
     max (clock_get target k)
       (max (if is_release ord then clock_get (ss_clock s ! g) k else 0)
            (clock_get (ss_fence_release s ! g) k))"
  by (auto simp: release_def Let_def clock_get_is_empty)

text \<open>The emptiness test of \<^verbatim>\<open>acquire\<close> only saves work: entries come out as if it always joined.\<close>

lemma acquire_fields [simp]:
  "ss_seq (acquire s g source ord) = ss_seq s"
  "ss_fence_release (acquire s g source ord) = ss_fence_release s"
  "ss_block (acquire s g source ord) = ss_block s"
  "length (ss_clock (acquire s g source ord)) = length (ss_clock s)"
  "length (ss_fence_acquire (acquire s g source ord)) = length (ss_fence_acquire s)"
  by (simp_all add: acquire_def)

lemma clock_get_acquire:
  "c < length (ss_clock s) \<Longrightarrow>
   clock_get (ss_clock (acquire s g source ord) ! c) k =
     (if c = g \<and> is_acquire ord then max (clock_get (ss_clock s ! c) k) (clock_get source k)
      else clock_get (ss_clock s ! c) k)"
  by (auto simp: acquire_def nth_list_update clock_get_is_empty)

lemma clock_get_acquire_pending:
  "c < length (ss_fence_acquire s) \<Longrightarrow>
   clock_get (ss_fence_acquire (acquire s g source ord) ! c) k =
     (if c = g \<and> \<not> is_acquire ord then max (clock_get (ss_fence_acquire s ! c) k) (clock_get source k)
      else clock_get (ss_fence_acquire s ! c) k)"
  by (auto simp: acquire_def nth_list_update clock_get_is_empty)

lemma fence_fields [simp]:
  "ss_seq (fence s g ord) = ss_seq s"
  "ss_block (fence s g ord) = ss_block s"
  "length (ss_clock (fence s g ord)) = length (ss_clock s)"
  "length (ss_fence_release (fence s g ord)) = length (ss_fence_release s)"
  "length (ss_fence_acquire (fence s g ord)) = length (ss_fence_acquire s)"
  by (simp_all add: fence_def Let_def)

lemma clock_get_fence:
  "c < length (ss_clock s) \<Longrightarrow>
   clock_get (ss_clock (fence s g ord) ! c) k =
     (if c = g \<and> is_acquire ord
      then max (clock_get (ss_clock s ! c) k) (clock_get (ss_fence_acquire s ! c) k)
      else clock_get (ss_clock s ! c) k)"
  by (auto simp: fence_def Let_def nth_list_update)

lemma fence_release_fence:
  "c < length (ss_fence_release s) \<Longrightarrow>
   ss_fence_release (fence s g ord) ! c =
     (if c = g \<and> is_release ord then ss_clock (fence s g ord) ! g else ss_fence_release s ! c)"
  by (auto simp: fence_def Let_def nth_list_update)

lemma fence_acquire_fence:
  "c < length (ss_fence_acquire s) \<Longrightarrow>
   ss_fence_acquire (fence s g ord) ! c =
     (if c = g \<and> is_acquire ord then clock_empty else ss_fence_acquire s ! c)"
  by (auto simp: fence_def Let_def nth_list_update)

lemma barrier_fields [simp]:
  "ss_seq (barrier_arrive s g b) = ss_seq s"
  "ss_clock (barrier_arrive s g b) = ss_clock s"
  "ss_fence_release (barrier_arrive s g b) = ss_fence_release s"
  "ss_fence_acquire (barrier_arrive s g b) = ss_fence_acquire s"
  "ss_block (barrier_arrive s g b) = (ss_block s)[b := clock_join (ss_block s ! b) (ss_clock s ! g)]"
  "ss_seq (barrier_depart s g b) = ss_seq s"
  "ss_clock (barrier_depart s g b) = (ss_clock s)[g := clock_join (ss_clock s ! g) (ss_block s ! b)]"
  "ss_fence_release (barrier_depart s g b) = ss_fence_release s"
  "ss_fence_acquire (barrier_depart s g b) = ss_fence_acquire s"
  "ss_block (barrier_depart s g b) = ss_block s"
  by (simp_all add: barrier_arrive_def barrier_depart_def Let_def)

lemma sync_new_fields [simp]:
  "ss_seq (sync_new T B) = replicate T 0"
  "ss_clock (sync_new T B) = replicate T clock_empty"
  "ss_fence_release (sync_new T B) = replicate T clock_empty"
  "ss_fence_acquire (sync_new T B) = replicate T clock_empty"
  "ss_block (sync_new T B) = replicate B clock_empty"
  by (simp_all add: sync_new_def)

end
