(* ===== verification/Sync_HB.thy ===== *)
theory Sync_HB
  imports Sync
begin

text \<open>
  What the clocks of \<^verbatim>\<open>sync.rs\<close> mean. A history is the sequence of synchronisation operations of
  a launch; \<open>sync_exec\<close> runs it on the code's state (the \<^verbatim>\<open>SyncState\<close> and the release clock of every
  element). Happens-before is declared on the positions of the history, with no clocks: program
  order, barrier arrival to barrier departure, and release to acquire, where a fence stands in for
  the ordering of the relaxed accesses after (a release fence) or before (an acquire fence) it.
  The main lemma says that a thread's clock entry for another thread counts exactly the operations
  of that thread that happen before.
\<close>

section \<open>Running a history\<close>

datatype sync_op =
    OpTick nat
  | OpRelease nat nat mem_ordering
  | OpAcquire nat nat mem_ordering
  | OpFence nat mem_ordering
  | OpArrive nat nat
  | OpDepart nat nat

fun op_gid :: "sync_op \<Rightarrow> nat" where
  "op_gid (OpTick g) = g"
| "op_gid (OpRelease g l ord) = g"
| "op_gid (OpAcquire g l ord) = g"
| "op_gid (OpFence g ord) = g"
| "op_gid (OpArrive g b) = g"
| "op_gid (OpDepart g b) = g"

record sync_machine =
  sm_sync :: sync_state
  sm_elems :: "clock list"

fun sync_exec :: "(nat \<Rightarrow> u64) \<Rightarrow> sync_machine \<Rightarrow> sync_op \<Rightarrow> sync_machine" where
  "sync_exec keyf m (OpTick g) = m\<lparr>sm_sync := snd (tick (sm_sync m) g (keyf g))\<rparr>"
| "sync_exec keyf m (OpRelease g l ord) =
     m\<lparr>sm_elems := (sm_elems m)[l := release (sm_sync m) g (sm_elems m ! l) ord]\<rparr>"
| "sync_exec keyf m (OpAcquire g l ord) =
     m\<lparr>sm_sync := acquire (sm_sync m) g (sm_elems m ! l) ord\<rparr>"
| "sync_exec keyf m (OpFence g ord) = m\<lparr>sm_sync := fence (sm_sync m) g ord\<rparr>"
| "sync_exec keyf m (OpArrive g b) = m\<lparr>sm_sync := barrier_arrive (sm_sync m) g b\<rparr>"
| "sync_exec keyf m (OpDepart g b) = m\<lparr>sm_sync := barrier_depart (sm_sync m) g b\<rparr>"

definition sync_init :: "nat \<Rightarrow> nat \<Rightarrow> nat \<Rightarrow> sync_machine" where
  "sync_init threads blocks elems =
     \<lparr>sm_sync = sync_new threads blocks, sm_elems = replicate elems clock_empty\<rparr>"

definition sync_run :: "(nat \<Rightarrow> u64) \<Rightarrow> nat \<Rightarrow> nat \<Rightarrow> nat \<Rightarrow> sync_op list \<Rightarrow> sync_machine" where
  "sync_run keyf threads blocks elems h = foldl (sync_exec keyf) (sync_init threads blocks elems) h"

fun op_valid :: "nat \<Rightarrow> nat \<Rightarrow> nat \<Rightarrow> sync_op \<Rightarrow> bool" where
  "op_valid T B E (OpTick g) \<longleftrightarrow> g < T"
| "op_valid T B E (OpRelease g l ord) \<longleftrightarrow> g < T \<and> l < E"
| "op_valid T B E (OpAcquire g l ord) \<longleftrightarrow> g < T \<and> l < E"
| "op_valid T B E (OpFence g ord) \<longleftrightarrow> g < T"
| "op_valid T B E (OpArrive g b) \<longleftrightarrow> g < T \<and> b < B"
| "op_valid T B E (OpDepart g b) \<longleftrightarrow> g < T \<and> b < B"

section \<open>Happens-before, without clocks\<close>

text \<open>
  \<open>publishes h i s\<close>: the release operation at \<open>i\<close> publishes what position \<open>s\<close> knows: itself when its
  ordering is a release, and any earlier release fence of its thread. \<open>takes h j t\<close>: what the acquire
  operation at \<open>j\<close> reads is taken on at \<open>t\<close>: at once when its ordering is an acquire, and at any later
  acquire fence of its thread.
\<close>

definition publishes :: "sync_op list \<Rightarrow> nat \<Rightarrow> nat \<Rightarrow> nat \<Rightarrow> bool" where
  "publishes h l i s \<longleftrightarrow> (\<exists>g ord. h ! i = OpRelease g l ord \<and>
     (s = i \<and> is_release ord \<or> s < i \<and> (\<exists>ord'. h ! s = OpFence g ord' \<and> is_release ord')))"

definition takes :: "sync_op list \<Rightarrow> nat \<Rightarrow> nat \<Rightarrow> nat \<Rightarrow> bool" where
  "takes h l j t \<longleftrightarrow> (\<exists>g ord. h ! j = OpAcquire g l ord \<and>
     (t = j \<and> is_acquire ord \<or> j < t \<and> (\<exists>ord'. h ! t = OpFence g ord' \<and> is_acquire ord')))"

inductive hb_edge :: "sync_op list \<Rightarrow> nat \<Rightarrow> nat \<Rightarrow> bool" for h where
  program_order: "p < q \<Longrightarrow> q < length h \<Longrightarrow> op_gid (h ! p) = op_gid (h ! q) \<Longrightarrow> hb_edge h p q"
| barrier: "p < q \<Longrightarrow> q < length h \<Longrightarrow> h ! p = OpArrive g b \<Longrightarrow> h ! q = OpDepart g' b
     \<Longrightarrow> hb_edge h p q"
| sync_with: "publishes h l i p \<Longrightarrow> i < j \<Longrightarrow> takes h l j q \<Longrightarrow> q < length h \<Longrightarrow> hb_edge h p q"

definition hb_eq :: "sync_op list \<Rightarrow> nat \<Rightarrow> nat \<Rightarrow> bool" where
  "hb_eq h p q \<longleftrightarrow> (hb_edge h)\<^sup>*\<^sup>* p q"

text \<open>Thread \<open>c\<close> knows position \<open>e\<close>: some operation of \<open>c\<close> is \<open>e\<close> or comes after it.\<close>

definition thread_knows :: "sync_op list \<Rightarrow> nat \<Rightarrow> nat \<Rightarrow> bool" where
  "thread_knows h c e \<longleftrightarrow> (\<exists>t < length h. op_gid (h ! t) = c \<and> hb_eq h e t)"

definition fence_knows :: "sync_op list \<Rightarrow> nat \<Rightarrow> nat \<Rightarrow> bool" where
  "fence_knows h c e \<longleftrightarrow>
     (\<exists>f < length h. \<exists>ord. h ! f = OpFence c ord \<and> is_release ord \<and> hb_eq h e f)"

definition block_knows :: "sync_op list \<Rightarrow> nat \<Rightarrow> nat \<Rightarrow> bool" where
  "block_knows h b e \<longleftrightarrow> (\<exists>i < length h. \<exists>g. h ! i = OpArrive g b \<and> hb_eq h e i)"

definition elem_knows :: "sync_op list \<Rightarrow> nat \<Rightarrow> nat \<Rightarrow> bool" where
  "elem_knows h l e \<longleftrightarrow> (\<exists>i < length h. \<exists>s. publishes h l i s \<and> hb_eq h e s)"

text \<open>What relaxed loads since the last acquire fence have put aside.\<close>

definition pending_knows :: "sync_op list \<Rightarrow> nat \<Rightarrow> nat \<Rightarrow> bool" where
  "pending_knows h c e \<longleftrightarrow> (\<exists>j < length h. \<exists>l ord. h ! j = OpAcquire c l ord \<and> \<not> is_acquire ord \<and>
     (\<forall>t. j < t \<and> t < length h \<longrightarrow> \<not> (\<exists>ord'. h ! t = OpFence c ord' \<and> is_acquire ord')) \<and>
     (\<exists>i s. i < j \<and> publishes h l i s \<and> hb_eq h e s))"

section \<open>Extending a history\<close>

lemma publishes_bounds: "publishes h l i s \<Longrightarrow> s \<le> i"
  by (auto simp: publishes_def)

lemma takes_bounds: "takes h l j t \<Longrightarrow> j \<le> t"
  by (auto simp: takes_def)

lemma hb_edge_less: "hb_edge h p q \<Longrightarrow> p < q \<and> q < length h"
  by (induction rule: hb_edge.induct) (use publishes_bounds takes_bounds in fastforce)+

lemma hb_eq_le: "hb_eq h p q \<Longrightarrow> p \<le> q"
  unfolding hb_eq_def by (induction rule: rtranclp_induct) (auto dest: hb_edge_less)

lemma publishes_snoc: "i < length h \<Longrightarrow> publishes (h @ [x]) l i s \<longleftrightarrow> publishes h l i s"
  by (auto simp: publishes_def nth_append)

lemma takes_snoc: "t < length h \<Longrightarrow> takes (h @ [x]) l j t \<longleftrightarrow> takes h l j t"
  by (auto simp: takes_def nth_append)

lemma hb_edge_snoc_old: "q < length h \<Longrightarrow> hb_edge (h @ [x]) p q \<longleftrightarrow> hb_edge h p q"
proof
  assume q: "q < length h" and "hb_edge (h @ [x]) p q"
  from this(2) show "hb_edge h p q"
  proof cases
    case program_order
    then show ?thesis using q by (auto simp: nth_append intro!: hb_edge.program_order)
  next
    case (barrier g b g')
    then show ?thesis using q by (auto simp: nth_append intro!: hb_edge.barrier)
  next
    case (sync_with l i j)
    then have "j \<le> q" by (auto dest: takes_bounds)
    with sync_with q show ?thesis
      by (auto simp: publishes_snoc takes_snoc intro!: hb_edge.sync_with [of h l i p j])
  qed
next
  assume q: "q < length h" and "hb_edge h p q"
  from this(2) show "hb_edge (h @ [x]) p q"
  proof cases
    case program_order
    then show ?thesis by (auto simp: nth_append intro!: hb_edge.program_order)
  next
    case (barrier g b g')
    then show ?thesis by (auto simp: nth_append intro!: hb_edge.barrier [of _ _ _ g b g'])
  next
    case (sync_with l i j)
    then have "j \<le> q" by (auto dest: takes_bounds)
    with sync_with q show ?thesis
      by (auto simp: publishes_snoc takes_snoc intro!: hb_edge.sync_with [of _ l i p j])
  qed
qed

lemma hb_eq_snoc_old: "q < length h \<Longrightarrow> hb_eq (h @ [x]) p q \<longleftrightarrow> hb_eq h p q"
proof
  assume "q < length h" and "hb_eq (h @ [x]) p q"
  from this(2,1) show "hb_eq h p q" unfolding hb_eq_def
  proof (induction rule: rtranclp_induct)
    case (step y z)
    then have "hb_edge h y z" by (simp add: hb_edge_snoc_old)
    moreover from this have "y < length h" using hb_edge_less by fastforce
    ultimately show ?case using step.IH by (simp add: rtranclp.rtrancl_into_rtrancl)
  qed simp
next
  assume "q < length h" and "hb_eq h p q"
  from this(2,1) show "hb_eq (h @ [x]) p q" unfolding hb_eq_def
  proof (induction rule: rtranclp_induct)
    case (step y z)
    then have "hb_edge (h @ [x]) y z" by (simp add: hb_edge_snoc_old)
    moreover have "y < length h" using step.hyps(2) hb_edge_less by fastforce
    ultimately show ?case using step.IH by (simp add: rtranclp.rtrancl_into_rtrancl)
  qed simp
qed

lemma takes_new:
  "takes (h @ [x]) l j (length h) \<longleftrightarrow>
     (\<exists>g ord. j = length h \<and> x = OpAcquire g l ord \<and> is_acquire ord) \<or>
     (\<exists>g ord ord'. j < length h \<and> h ! j = OpAcquire g l ord \<and> x = OpFence g ord' \<and> is_acquire ord')"
  by (auto simp: takes_def nth_append)

lemma hb_edge_new:
  "hb_edge (h @ [x]) p (length h) \<longleftrightarrow>
     p < length h \<and> (op_gid (h ! p) = op_gid x
     \<or> (\<exists>g b g'. h ! p = OpArrive g b \<and> x = OpDepart g' b)
     \<or> (\<exists>l i j. publishes h l i p \<and> i < j \<and> takes (h @ [x]) l j (length h)))"
proof
  assume "hb_edge (h @ [x]) p (length h)"
  then show "p < length h \<and> (op_gid (h ! p) = op_gid x
     \<or> (\<exists>g b g'. h ! p = OpArrive g b \<and> x = OpDepart g' b)
     \<or> (\<exists>l i j. publishes h l i p \<and> i < j \<and> takes (h @ [x]) l j (length h)))"
  proof cases
    case (sync_with l i j)
    then have i: "i < length h" by (auto dest: takes_bounds)
    then have "publishes h l i p" using sync_with by (simp add: publishes_snoc)
    then show ?thesis using sync_with i publishes_bounds by fastforce
  qed (auto simp: nth_append)
next
  assume r: "p < length h \<and> (op_gid (h ! p) = op_gid x
     \<or> (\<exists>g b g'. h ! p = OpArrive g b \<and> x = OpDepart g' b)
     \<or> (\<exists>l i j. publishes h l i p \<and> i < j \<and> takes (h @ [x]) l j (length h)))"
  then consider (po) "op_gid (h ! p) = op_gid x"
    | (bar) g b g' where "h ! p = OpArrive g b" "x = OpDepart g' b"
    | (sw) l i j where "publishes h l i p" "i < j" "takes (h @ [x]) l j (length h)"
    by blast
  then show "hb_edge (h @ [x]) p (length h)"
  proof cases
    case po
    then show ?thesis using r by (auto simp: nth_append intro!: hb_edge.program_order)
  next
    case (bar g b g')
    then show ?thesis using r by (auto simp: nth_append intro!: hb_edge.barrier [of _ _ _ g b g'])
  next
    case (sw l i j)
    then have "i < length h" by (auto dest: takes_bounds)
    with sw show ?thesis by (auto simp: publishes_snoc intro!: hb_edge.sync_with [of _ l i p j])
  qed
qed

text \<open>What a new operation knows, beyond itself.\<close>

lemma hb_eq_new:
  assumes "e < length h"
  shows "hb_eq (h @ [x]) e (length h) \<longleftrightarrow> (\<exists>p < length h. hb_edge (h @ [x]) p (length h) \<and> hb_eq h e p)"
proof
  assume "hb_eq (h @ [x]) e (length h)"
  then obtain p where p: "hb_eq (h @ [x]) e p" "hb_edge (h @ [x]) p (length h)"
    using assms unfolding hb_eq_def by (metis nat_neq_iff rtranclp.cases)
  then have "p < length h" using hb_edge_less by blast
  with p show "\<exists>p < length h. hb_edge (h @ [x]) p (length h) \<and> hb_eq h e p"
    by (auto simp: hb_eq_snoc_old)
next
  assume "\<exists>p < length h. hb_edge (h @ [x]) p (length h) \<and> hb_eq h e p"
  then show "hb_eq (h @ [x]) e (length h)"
    using hb_eq_snoc_old [of _ h x e] unfolding hb_eq_def
    by (meson rtranclp.rtrancl_into_rtrancl)
qed

definition taken_knows :: "sync_op list \<Rightarrow> nat \<Rightarrow> nat \<Rightarrow> bool" where
  "taken_knows h c e \<longleftrightarrow> (\<exists>j < length h. \<exists>l ord. h ! j = OpAcquire c l ord \<and>
     (\<exists>i s. i < j \<and> publishes h l i s \<and> hb_eq h e s))"

lemma taken_pending:
  "thread_knows h c e \<or> taken_knows h c e \<longleftrightarrow> thread_knows h c e \<or> pending_knows h c e"
proof
  assume "thread_knows h c e \<or> taken_knows h c e"
  then show "thread_knows h c e \<or> pending_knows h c e"
  proof
    assume "taken_knows h c e"
    then obtain j l ord i s where j: "j < length h" "h ! j = OpAcquire c l ord"
      and i: "i < j" "publishes h l i s" "hb_eq h e s"
      unfolding taken_knows_def by blast
    have via: "thread_knows h c e" if "takes h l j t" "t < length h" "op_gid (h ! t) = c" for t
    proof -
      have "hb_edge h s t" using i that by (auto intro: hb_edge.sync_with)
      then have "hb_eq h e t" using i(3) unfolding hb_eq_def by (rule rtranclp.rtrancl_into_rtrancl [rotated])
      then show ?thesis using that unfolding thread_knows_def by blast
    qed
    show ?thesis
    proof (cases "is_acquire ord")
      case True
      then show ?thesis using via [of j] j by (auto simp: takes_def)
    next
      case False
      show ?thesis
      proof (cases "\<exists>t. j < t \<and> t < length h \<and> (\<exists>ord'. h ! t = OpFence c ord' \<and> is_acquire ord')")
        case True
        then obtain t ord' where "j < t" "t < length h" "h ! t = OpFence c ord'" "is_acquire ord'"
          by blast
        then show ?thesis using via [of t] j by (auto simp: takes_def)
      next
        case no_fence: False
        then show ?thesis using j i False unfolding pending_knows_def by blast
      qed
    qed
  qed simp
next
  assume "thread_knows h c e \<or> pending_knows h c e"
  then show "thread_knows h c e \<or> taken_knows h c e"
    unfolding pending_knows_def taken_knows_def by blast
qed

lemma hb_eq_new_cases:
  assumes "e < length h"
  shows "hb_eq (h @ [x]) e (length h) \<longleftrightarrow> thread_knows h (op_gid x) e \<or>
    (case x of OpDepart g b \<Rightarrow> block_knows h b e
     | OpAcquire g l ord \<Rightarrow> is_acquire ord \<and> elem_knows h l e
     | OpFence g ord \<Rightarrow> is_acquire ord \<and> pending_knows h g e
     | _ \<Rightarrow> False)"
proof -
  have "hb_eq (h @ [x]) e (length h) \<longleftrightarrow> thread_knows h (op_gid x) e \<or>
    (case x of OpDepart g b \<Rightarrow> block_knows h b e
     | OpAcquire g l ord \<Rightarrow> is_acquire ord \<and> elem_knows h l e
     | OpFence g ord \<Rightarrow> is_acquire ord \<and> taken_knows h g e
     | _ \<Rightarrow> False)"
  proof (cases x)
    case (OpFence g ord)
    have "(\<exists>p < length h. (\<exists>l i j. publishes h l i p \<and> i < j
              \<and> (\<exists>ord. j < length h \<and> h ! j = OpAcquire g l ord)) \<and> hb_eq h e p)
        \<longleftrightarrow> taken_knows h g e"
      unfolding taken_knows_def by (meson le_less_trans less_trans publishes_bounds)
    then show ?thesis
      unfolding hb_eq_new [OF assms] hb_edge_new takes_new thread_knows_def using OpFence by (auto, blast)
  qed (unfold hb_eq_new [OF assms] hb_edge_new takes_new thread_knows_def,
      auto simp: block_knows_def elem_knows_def dest: publishes_bounds intro: le_less_trans)
  also have "\<dots> \<longleftrightarrow> thread_knows h (op_gid x) e \<or>
    (case x of OpDepart g b \<Rightarrow> block_knows h b e
     | OpAcquire g l ord \<Rightarrow> is_acquire ord \<and> elem_knows h l e
     | OpFence g ord \<Rightarrow> is_acquire ord \<and> pending_knows h g e
     | _ \<Rightarrow> False)"
    using taken_pending [of h "op_gid x" e] by (cases x) auto
  finally show ?thesis .
qed

section \<open>How each register's knowledge grows\<close>

lemma ex_less_snoc: "(\<exists>j < length (h @ [x]). Q j) \<longleftrightarrow> (\<exists>j < length h. Q j) \<or> Q (length h)"
  by (auto simp: less_Suc_eq)

lemma thread_knows_snoc:
  assumes "e < length h"
  shows "thread_knows (h @ [x]) c e \<longleftrightarrow>
    thread_knows h c e \<or> c = op_gid x \<and> hb_eq (h @ [x]) e (length h)"
  unfolding thread_knows_def ex_less_snoc
  by (simp add: nth_append hb_eq_snoc_old eq_commute [of c] cong: conj_cong)

lemma fence_knows_snoc:
  assumes "e < length h"
  shows "fence_knows (h @ [x]) c e \<longleftrightarrow>
    fence_knows h c e \<or> (\<exists>ord. x = OpFence c ord \<and> is_release ord) \<and> hb_eq (h @ [x]) e (length h)"
  unfolding fence_knows_def ex_less_snoc by (auto simp: nth_append hb_eq_snoc_old cong: conj_cong)

lemma block_knows_snoc:
  assumes "e < length h"
  shows "block_knows (h @ [x]) b e \<longleftrightarrow>
    block_knows h b e \<or> (\<exists>g. x = OpArrive g b) \<and> hb_eq (h @ [x]) e (length h)"
  unfolding block_knows_def ex_less_snoc by (auto simp: nth_append hb_eq_snoc_old cong: conj_cong)

lemma publishes_new:
  "publishes (h @ [x]) l (length h) s \<longleftrightarrow> (\<exists>g ord. x = OpRelease g l ord \<and>
     (s = length h \<and> is_release ord \<or> s < length h \<and> (\<exists>ord'. h ! s = OpFence g ord' \<and> is_release ord')))"
  by (auto simp: publishes_def nth_append)

lemma source_snoc:
  assumes "i < length h"
  shows "publishes (h @ [x]) l i s \<and> hb_eq (h @ [x]) e s \<longleftrightarrow> publishes h l i s \<and> hb_eq h e s"
proof (cases "publishes h l i s")
  case True
  then have "s < length h" using publishes_bounds assms by (meson le_less_trans)
  with True assms show ?thesis by (simp add: publishes_snoc hb_eq_snoc_old)
qed (use assms in \<open>simp add: publishes_snoc\<close>)

lemma elem_knows_snoc:
  assumes "e < length h"
  shows "elem_knows (h @ [x]) l e \<longleftrightarrow> elem_knows h l e \<or>
    (\<exists>g ord. x = OpRelease g l ord \<and>
       (is_release ord \<and> hb_eq (h @ [x]) e (length h) \<or> fence_knows h g e))"
proof -
  have "(\<exists>s. publishes (h @ [x]) l (length h) s \<and> hb_eq (h @ [x]) e s) \<longleftrightarrow>
      (\<exists>g ord. x = OpRelease g l ord \<and>
       (is_release ord \<and> hb_eq (h @ [x]) e (length h) \<or> fence_knows h g e))"
    unfolding publishes_new fence_knows_def using hb_eq_snoc_old [of _ h x e] by blast
  then show ?thesis
    unfolding elem_knows_def ex_less_snoc by (simp add: source_snoc cong: conj_cong)
qed

definition pending_at :: "sync_op list \<Rightarrow> nat \<Rightarrow> nat \<Rightarrow> nat \<Rightarrow> bool" where
  "pending_at h c e j \<longleftrightarrow> (\<exists>l ord. h ! j = OpAcquire c l ord \<and> \<not> is_acquire ord \<and>
     (\<forall>t. j < t \<and> t < length h \<longrightarrow> \<not> (\<exists>ord'. h ! t = OpFence c ord' \<and> is_acquire ord')) \<and>
     (\<exists>i s. i < j \<and> publishes h l i s \<and> hb_eq h e s))"

lemma pending_at_old:
  assumes "j < length h"
  shows "pending_at (h @ [x]) c e j \<longleftrightarrow>
    pending_at h c e j \<and> \<not> (\<exists>ord. x = OpFence c ord \<and> is_acquire ord)"
proof -
  have later: "(\<forall>t. j < t \<and> t < length (h @ [x]) \<longrightarrow> \<not> P ((h @ [x]) ! t)) \<longleftrightarrow>
      (\<forall>t. j < t \<and> t < length h \<longrightarrow> \<not> P (h ! t)) \<and> \<not> P x" for P
    using assms by (auto simp: nth_append less_Suc_eq)
  have src: "(\<exists>i s. i < j \<and> publishes (h @ [x]) l i s \<and> hb_eq (h @ [x]) e s) \<longleftrightarrow>
      (\<exists>i s. i < j \<and> publishes h l i s \<and> hb_eq h e s)" for l
    using source_snoc [of _ h x l _ e] assms by (meson less_trans)
  show ?thesis
    unfolding pending_at_def later [of "\<lambda>y. \<exists>ord'. y = OpFence c ord' \<and> is_acquire ord'"] src
    using assms by (auto simp: nth_append)
qed

lemma pending_at_new:
  "pending_at (h @ [x]) c e (length h) \<longleftrightarrow>
     (\<exists>l ord. x = OpAcquire c l ord \<and> \<not> is_acquire ord \<and> elem_knows h l e)"
proof -
  have "(\<exists>i s. i < length h \<and> publishes (h @ [x]) l i s \<and> hb_eq (h @ [x]) e s)
      \<longleftrightarrow> elem_knows h l e" for l
    unfolding elem_knows_def using source_snoc [of _ h x l _ e] by meson
  then show ?thesis unfolding pending_at_def by auto
qed

lemma pending_knows_snoc:
  "pending_knows (h @ [x]) c e \<longleftrightarrow>
    pending_knows h c e \<and> \<not> (\<exists>ord. x = OpFence c ord \<and> is_acquire ord) \<or>
    (\<exists>l ord. x = OpAcquire c l ord \<and> \<not> is_acquire ord \<and> elem_knows h l e)"
proof -
  have "pending_knows k c e \<longleftrightarrow> (\<exists>j < length k. pending_at k c e j)" for k
    by (simp add: pending_knows_def pending_at_def)
  then show ?thesis by (simp only: ex_less_snoc pending_at_new) (auto simp: pending_at_old)
qed

text \<open>Everything a release fence, an arrival or a program point knows, its thread knows.\<close>

lemma fence_thread_knows: "fence_knows h c e \<Longrightarrow> thread_knows h c e"
  unfolding fence_knows_def thread_knows_def by (metis op_gid.simps(4))

section \<open>Counting what a register knows\<close>

definition ticks :: "sync_op list \<Rightarrow> nat \<Rightarrow> (nat \<Rightarrow> bool) \<Rightarrow> nat" where
  "ticks h g S = card {e. e < length h \<and> h ! e = OpTick g \<and> S e}"

definition closed :: "sync_op list \<Rightarrow> (nat \<Rightarrow> bool) \<Rightarrow> bool" where
  "closed h S \<longleftrightarrow> (\<forall>e e'. S e \<and> e < length h \<and> e' < e \<and> op_gid (h ! e') = op_gid (h ! e) \<longrightarrow> S e')"

lemma hb_eq_earlier:
  assumes "hb_eq h e t" and "e < length h" and "e' < e" and "op_gid (h ! e') = op_gid (h ! e)"
  shows "hb_eq h e' t"
proof -
  have "hb_edge h e' e" using assms by (auto intro: hb_edge.program_order)
  then show ?thesis using assms(1) unfolding hb_eq_def by (rule converse_rtranclp_into_rtranclp)
qed

lemma closedI: "(\<And>e e'. S e \<Longrightarrow> (\<And>t. hb_eq h e t \<Longrightarrow> hb_eq h e' t) \<Longrightarrow> S e') \<Longrightarrow> closed h S"
  unfolding closed_def using hb_eq_earlier by blast

lemma closed_knows:
  "closed h (thread_knows h c)" "closed h (fence_knows h c)" "closed h (block_knows h b)"
  "closed h (elem_knows h l)" "closed h (pending_knows h c)"
  by (rule closedI; unfold thread_knows_def fence_knows_def block_knows_def elem_knows_def
      pending_knows_def; blast)+

lemma ticks_union:
  assumes "closed h A" and "closed h B"
  shows "ticks h g (\<lambda>e. A e \<or> B e) = max (ticks h g A) (ticks h g B)"
proof -
  let ?S = "\<lambda>P. {e. e < length h \<and> h ! e = OpTick g \<and> P e}"
  have fin: "finite (?S P)" for P by simp
  have nested: "?S A \<subseteq> ?S B \<or> ?S B \<subseteq> ?S A"
  proof (rule ccontr)
    assume "\<not> ?thesis"
    then obtain a b where a: "a \<in> ?S A" "a \<notin> ?S B" and b: "b \<in> ?S B" "b \<notin> ?S A" by blast
    then have "a < b \<or> b < a" by (metis (mono_tags, lifting) mem_Collect_eq nat_neq_iff)
    then show False
    proof
      assume "a < b"
      then have "B a" using assms(2) a b unfolding closed_def by (metis (mono_tags, lifting) mem_Collect_eq)
      then show False using a by simp
    next
      assume "b < a"
      then have "A b" using assms(1) a b unfolding closed_def by (metis (mono_tags, lifting) mem_Collect_eq)
      then show False using b by simp
    qed
  qed
  have un: "?S (\<lambda>e. A e \<or> B e) = ?S A \<union> ?S B" by blast
  from nested show ?thesis
  proof
    assume "?S A \<subseteq> ?S B"
    then have "ticks h g A \<le> ticks h g B" unfolding ticks_def by (rule card_mono [OF fin])
    moreover have "?S A \<union> ?S B = ?S B" using \<open>?S A \<subseteq> ?S B\<close> by blast
    ultimately show ?thesis unfolding ticks_def un by (simp only: max_absorb2)
  next
    assume "?S B \<subseteq> ?S A"
    then have "ticks h g B \<le> ticks h g A" unfolding ticks_def by (rule card_mono [OF fin])
    moreover have "?S A \<union> ?S B = ?S A" using \<open>?S B \<subseteq> ?S A\<close> by blast
    ultimately show ?thesis unfolding ticks_def un by (simp only: max_absorb1)
  qed
qed

lemma ticks_snoc:
  "ticks (h @ [x]) g S = ticks h g S + (if x = OpTick g \<and> S (length h) then 1 else 0)"
proof -
  have "{e. e < length (h @ [x]) \<and> (h @ [x]) ! e = OpTick g \<and> S e}
      = {e. e < length h \<and> h ! e = OpTick g \<and> S e}
        \<union> (if x = OpTick g \<and> S (length h) then {length h} else {})"
    by (auto simp: nth_append less_Suc_eq)
  then show ?thesis by (simp add: ticks_def)
qed

lemma ticks_cong: "(\<And>e. e < length h \<Longrightarrow> S e = S' e) \<Longrightarrow> ticks h g S = ticks h g S'"
  unfolding ticks_def by (rule arg_cong [where f = card]) auto

lemma ticks_le: "ticks h g S \<le> ticks h g (\<lambda>_. True)"
  unfolding ticks_def by (rule card_mono) auto

lemma ticks_own: "ticks h g (thread_knows h g) = ticks h g (\<lambda>_. True)"
proof -
  have "thread_knows h g e" if "e < length h" "h ! e = OpTick g" for e
    using that unfolding thread_knows_def hb_eq_def by (metis op_gid.simps(1) rtranclp.rtrancl_refl)
  then show ?thesis unfolding ticks_def by (intro arg_cong [where f = card]) auto
qed

section \<open>The clocks count exactly what happens before\<close>

text \<open>
  The number of operations of \<open>g\<close> each register knows after one more operation, from the numbers
  before: the same maxima the code computes.
\<close>

lemma new_knows_ticks:
  "ticks h g (\<lambda>e. hb_eq (h @ [x]) e (length h)) =
    max (ticks h g (thread_knows h (op_gid x)))
      (case x of OpDepart g' b \<Rightarrow> ticks h g (block_knows h b)
       | OpAcquire g' l ord \<Rightarrow> if is_acquire ord then ticks h g (elem_knows h l) else 0
       | OpFence g' ord \<Rightarrow> if is_acquire ord then ticks h g (pending_knows h g') else 0
       | _ \<Rightarrow> 0)"
proof -
  have "ticks h g (\<lambda>e. hb_eq (h @ [x]) e (length h)) = ticks h g (\<lambda>e. thread_knows h (op_gid x) e \<or>
    (case x of OpDepart g b \<Rightarrow> block_knows h b e
     | OpAcquire g l ord \<Rightarrow> is_acquire ord \<and> elem_knows h l e
     | OpFence g ord \<Rightarrow> is_acquire ord \<and> pending_knows h g e
     | _ \<Rightarrow> False))"
    by (rule ticks_cong) (rule hb_eq_new_cases)
  then show ?thesis by (cases x) (auto simp: ticks_union closed_knows)
qed

lemma ticks_thread_snoc:
  "ticks (h @ [x]) g (thread_knows (h @ [x]) c) =
    (if c \<noteq> op_gid x then ticks h g (thread_knows h c)
     else if x = OpTick g then ticks h g (\<lambda>_. True) + 1
     else ticks h g (\<lambda>e. hb_eq (h @ [x]) e (length h)))"
proof -
  have new: "thread_knows (h @ [x]) c (length h) \<longleftrightarrow> c = op_gid x" if "x = OpTick g"
  proof
    assume "thread_knows (h @ [x]) c (length h)"
    then show "c = op_gid x"
      unfolding thread_knows_def ex_less_snoc by (auto dest: hb_eq_le)
  qed (auto simp: thread_knows_def ex_less_snoc hb_eq_def)
  have old: "ticks h g (thread_knows (h @ [x]) c) =
     (if c \<noteq> op_gid x then ticks h g (thread_knows h c)
      else ticks h g (\<lambda>e. hb_eq (h @ [x]) e (length h)))"
  proof (cases "c = op_gid x")
    case True
    then have "thread_knows (h @ [x]) c e = hb_eq (h @ [x]) e (length h)" if "e < length h" for e
      using hb_eq_new_cases [OF that] by (simp add: thread_knows_snoc [OF that])
    then show ?thesis using True by (auto intro: ticks_cong)
  next
    case False
    then show ?thesis by (auto intro!: ticks_cong simp: thread_knows_snoc)
  qed
  have own: "ticks h g (\<lambda>e. hb_eq (h @ [x]) e (length h)) = ticks h g (\<lambda>_. True)" if "x = OpTick g"
    using new_knows_ticks [of h g x] that by (simp add: ticks_own)
  show ?thesis using new own by (auto simp: ticks_snoc old)
qed

lemma not_tick_new:
  "\<not> (x = OpTick g \<and> fence_knows (h @ [x]) c (length h))"
  "\<not> (x = OpTick g \<and> block_knows (h @ [x]) b (length h))"
  "\<not> (x = OpTick g \<and> elem_knows (h @ [x]) l (length h))"
  "\<not> (x = OpTick g \<and> pending_knows (h @ [x]) c (length h))"
proof -
  show "\<not> (x = OpTick g \<and> fence_knows (h @ [x]) c (length h))"
    unfolding fence_knows_def ex_less_snoc by (auto dest: hb_eq_le)
  show "\<not> (x = OpTick g \<and> block_knows (h @ [x]) b (length h))"
    unfolding block_knows_def ex_less_snoc by (auto dest: hb_eq_le)
  have early: "s < length h" if "i < length h" "publishes k l i s" for k l i s
    using that publishes_bounds le_less_trans by blast
  have "\<not> elem_knows (h @ [OpTick g]) l (length h)"
    unfolding elem_knows_def ex_less_snoc publishes_new using early hb_eq_le by fastforce
  then show "\<not> (x = OpTick g \<and> elem_knows (h @ [x]) l (length h))" by blast
  have "\<not> pending_knows h c (length h)"
    unfolding pending_knows_def using early hb_eq_le by (meson leD less_trans)
  then show "\<not> (x = OpTick g \<and> pending_knows (h @ [x]) c (length h))"
    by (auto simp: pending_knows_snoc)
qed

lemma ticks_fence_snoc:
  "ticks (h @ [x]) g (fence_knows (h @ [x]) c) =
    (if \<exists>ord. x = OpFence c ord \<and> is_release ord
     then ticks h g (\<lambda>e. hb_eq (h @ [x]) e (length h)) else ticks h g (fence_knows h c))"
proof (cases "\<exists>ord. x = OpFence c ord \<and> is_release ord")
  case True
  then have "fence_knows (h @ [x]) c e = hb_eq (h @ [x]) e (length h)" if "e < length h" for e
    using hb_eq_new_cases [OF that, of x] fence_thread_knows [of h c e]
    by (auto simp: fence_knows_snoc [OF that])
  then show ?thesis using True not_tick_new(1) by (auto simp: ticks_snoc intro!: ticks_cong)
next
  case False
  then show ?thesis using not_tick_new(1) [of x g h c]
    by (auto simp: ticks_snoc fence_knows_snoc intro!: ticks_cong)
qed

lemma ticks_block_snoc:
  "ticks (h @ [x]) g (block_knows (h @ [x]) b) =
    (if \<exists>g'. x = OpArrive g' b
     then max (ticks h g (block_knows h b)) (ticks h g (thread_knows h (op_gid x)))
     else ticks h g (block_knows h b))"
proof (cases "\<exists>g'. x = OpArrive g' b")
  case True
  then have "block_knows (h @ [x]) b e = (block_knows h b e \<or> thread_knows h (op_gid x) e)"
    if "e < length h" for e
    using hb_eq_new_cases [OF that, of x] by (auto simp: block_knows_snoc [OF that])
  then have "ticks h g (block_knows (h @ [x]) b)
      = ticks h g (\<lambda>e. block_knows h b e \<or> thread_knows h (op_gid x) e)"
    by (rule ticks_cong)
  then show ?thesis using True not_tick_new(2) [of x g h b]
    by (simp add: ticks_snoc ticks_union closed_knows)
next
  case False
  then show ?thesis using not_tick_new(2) [of x g h b]
    by (auto simp: ticks_snoc block_knows_snoc intro!: ticks_cong)
qed

lemma ticks_elem_snoc:
  "ticks (h @ [x]) g (elem_knows (h @ [x]) l) =
    (case x of OpRelease g' l' ord \<Rightarrow>
       if l' = l then max (ticks h g (elem_knows h l))
           (max (if is_release ord then ticks h g (thread_knows h g') else 0)
                (ticks h g (fence_knows h g')))
       else ticks h g (elem_knows h l)
     | _ \<Rightarrow> ticks h g (elem_knows h l))"
proof (cases "\<exists>g' ord. x = OpRelease g' l ord")
  case True
  then obtain g' ord where x: "x = OpRelease g' l ord" by blast
  have cl: "closed h (\<lambda>e. is_release ord \<and> thread_knows h g' e \<or> fence_knows h g' e)"
    using closed_knows(1) [of h g'] closed_knows(2) [of h g'] unfolding closed_def by blast
  have "ticks h g (elem_knows (h @ [x]) l)
      = ticks h g (\<lambda>e. elem_knows h l e \<or> is_release ord \<and> thread_knows h g' e \<or> fence_knows h g' e)"
    using x by (intro ticks_cong) (simp add: elem_knows_snoc hb_eq_new_cases)
  also have "\<dots> = max (ticks h g (elem_knows h l))
      (ticks h g (\<lambda>e. is_release ord \<and> thread_knows h g' e \<or> fence_knows h g' e))"
    by (rule ticks_union [OF closed_knows(4) cl])
  finally show ?thesis using x not_tick_new(3) [of x g h l]
    by (cases "is_release ord") (simp_all add: ticks_snoc ticks_union closed_knows)
next
  case False
  then show ?thesis using not_tick_new(3) [of x g h l]
    by (cases x) (auto simp: ticks_snoc elem_knows_snoc intro!: ticks_cong)
qed

lemma ticks_pending_snoc:
  "ticks (h @ [x]) g (pending_knows (h @ [x]) c) =
    (case x of OpFence c' ord \<Rightarrow> if c' = c \<and> is_acquire ord then 0 else ticks h g (pending_knows h c)
     | OpAcquire c' l ord \<Rightarrow>
         if c' = c \<and> \<not> is_acquire ord
         then max (ticks h g (pending_knows h c)) (ticks h g (elem_knows h l))
         else ticks h g (pending_knows h c)
     | _ \<Rightarrow> ticks h g (pending_knows h c))"
proof -
  have "ticks (h @ [x]) g (pending_knows (h @ [x]) c) = ticks h g (pending_knows (h @ [x]) c)"
    using not_tick_new(4) [of x g h c] by (auto simp: ticks_snoc)
  also have "\<dots> = ticks h g (\<lambda>e. pending_knows h c e \<and> \<not> (\<exists>ord. x = OpFence c ord \<and> is_acquire ord)
      \<or> (\<exists>l ord. x = OpAcquire c l ord \<and> \<not> is_acquire ord \<and> elem_knows h l e))"
    by (rule ticks_cong) (rule pending_knows_snoc)
  finally show ?thesis
    by (cases x) (auto simp: ticks_union closed_knows ticks_def [of h g "\<lambda>_. False"])
qed

definition clocks_match :: "(nat \<Rightarrow> u64) \<Rightarrow> nat \<Rightarrow> nat \<Rightarrow> nat \<Rightarrow> sync_op list \<Rightarrow> sync_machine \<Rightarrow> bool" where
  "clocks_match keyf T B E h m \<longleftrightarrow>
     (let s = sm_sync m in
      length (ss_seq s) = T \<and> length (ss_clock s) = T \<and> length (ss_fence_release s) = T
      \<and> length (ss_fence_acquire s) = T \<and> length (ss_block s) = B \<and> length (sm_elems m) = E
      \<and> (\<forall>g < T. ss_seq s ! g = ticks h g (\<lambda>_. True))
      \<and> (\<forall>g < T. \<forall>c < T.
           clock_get (ss_clock s ! c) (keyf g) = ticks h g (thread_knows h c)
         \<and> clock_get (ss_fence_release s ! c) (keyf g) = ticks h g (fence_knows h c)
         \<and> clock_get (ss_fence_acquire s ! c) (keyf g) = ticks h g (pending_knows h c))
      \<and> (\<forall>g < T. \<forall>b < B. clock_get (ss_block s ! b) (keyf g) = ticks h g (block_knows h b))
      \<and> (\<forall>g < T. \<forall>l < E. clock_get (sm_elems m ! l) (keyf g) = ticks h g (elem_knows h l)))"

lemma ticks_Nil [simp]: "ticks [] g S = 0"
  by (simp add: ticks_def)

lemma clocks_match_init: "clocks_match keyf T B E [] (sync_init T B E)"
  by (simp add: clocks_match_def sync_init_def)

lemmas ticks_snoc_rules =
  ticks_thread_snoc ticks_fence_snoc ticks_block_snoc ticks_elem_snoc ticks_pending_snoc
  new_knows_ticks ticks_snoc [of _ _ _ "\<lambda>_. True"]

lemma clocks_match_step:
  assumes m: "clocks_match keyf T B E h m" and v: "op_valid T B E x" and inj: "inj_on keyf {..<T}"
  shows "clocks_match keyf T B E (h @ [x]) (sync_exec keyf m x)"
proof -
  have key: "keyf g = keyf g' \<longleftrightarrow> g = g'" if "g < T" "g' < T" for g g'
    using inj that by (auto dest: inj_onD)
  note m' = m [unfolded clocks_match_def Let_def]
  show ?thesis
  proof (cases x)
    case (OpTick g)
    then show ?thesis using m' v unfolding clocks_match_def Let_def
      by (auto simp: ticks_snoc_rules nth_list_update key ticks_own ticks_le max_def)
  next
    case (OpRelease g l ord)
    then show ?thesis using m' v unfolding clocks_match_def Let_def
      by (auto simp: ticks_snoc_rules nth_list_update max.assoc)
  next
    case (OpAcquire g l ord)
    then show ?thesis using m' v unfolding clocks_match_def Let_def
      by (auto simp: ticks_snoc_rules clock_get_acquire clock_get_acquire_pending)
  next
    case (OpFence g ord)
    then show ?thesis using m' v unfolding clocks_match_def Let_def
      by (auto simp: ticks_snoc_rules clock_get_fence fence_release_fence fence_acquire_fence)
  next
    case (OpArrive g b)
    then show ?thesis using m' v unfolding clocks_match_def Let_def
      by (auto simp: ticks_snoc_rules nth_list_update)
  next
    case (OpDepart g b)
    then show ?thesis using m' v unfolding clocks_match_def Let_def
      by (auto simp: ticks_snoc_rules nth_list_update)
  qed
qed

lemma sync_run_snoc [simp]:
  "sync_run keyf T B E (h @ [x]) = sync_exec keyf (sync_run keyf T B E h) x"
  by (simp add: sync_run_def)

lemma clocks_match_run:
  assumes "inj_on keyf {..<T}" and "\<forall>x \<in> set h. op_valid T B E x"
  shows "clocks_match keyf T B E h (sync_run keyf T B E h)"
  using assms(2)
proof (induction h rule: rev_induct)
  case Nil
  then show ?case using clocks_match_init by (simp add: sync_run_def)
next
  case (snoc x h)
  then show ?case using clocks_match_step assms(1) by simp
qed

text \<open>The number an operation of \<open>g\<close> got when it was counted.\<close>

definition tick_number :: "sync_op list \<Rightarrow> nat \<Rightarrow> nat \<Rightarrow> nat" where
  "tick_number h g e = ticks (take (e + 1) h) g (\<lambda>_. True)"

lemma tick_number_card:
  "e < length h \<Longrightarrow> tick_number h g e = card {i. i \<le> e \<and> h ! i = OpTick g}"
  unfolding tick_number_def ticks_def by (rule arg_cong [where f = card]) (auto simp: less_Suc_eq_le)

lemma tick_number_le_ticks:
  assumes "closed h S" and "e < length h" and "h ! e = OpTick g"
  shows "tick_number h g e \<le> ticks h g S \<longleftrightarrow> S e"
proof
  assume "S e"
  have "S i" if "i \<le> e" "h ! i = OpTick g" for i
    using assms \<open>S e\<close> that unfolding closed_def by (metis le_less)
  then have "{i. i \<le> e \<and> h ! i = OpTick g} \<subseteq> {i. i < length h \<and> h ! i = OpTick g \<and> S i}"
    using assms(2) by auto
  then show "tick_number h g e \<le> ticks h g S"
    unfolding tick_number_card [OF assms(2)] ticks_def by (intro card_mono) auto
next
  assume le: "tick_number h g e \<le> ticks h g S"
  show "S e"
  proof (rule ccontr)
    assume "\<not> S e"
    have "i \<le> e" if "i < length h" "h ! i = OpTick g" "S i" for i
    proof (rule ccontr)
      assume "\<not> i \<le> e"
      then have "S e" using assms that unfolding closed_def by (metis not_le_imp_less)
      with \<open>\<not> S e\<close> show False ..
    qed
    then have "{i. i < length h \<and> h ! i = OpTick g \<and> S i} \<subseteq> {i. i \<le> e \<and> h ! i = OpTick g}"
      by blast
    moreover have "e \<in> {i. i \<le> e \<and> h ! i = OpTick g}"
      and "e \<notin> {i. i < length h \<and> h ! i = OpTick g \<and> S i}" using assms \<open>\<not> S e\<close> by auto
    ultimately have "{i. i < length h \<and> h ! i = OpTick g \<and> S i} \<subset> {i. i \<le> e \<and> h ! i = OpTick g}"
      by blast
    then have "ticks h g S < tick_number h g e"
      unfolding tick_number_card [OF assms(2)] ticks_def by (intro psubset_card_mono) auto
    with le show False by simp
  qed
qed

lemma clock_covers_iff:
  assumes "inj_on keyf {..<T}" and "\<forall>x \<in> set h. op_valid T B E x"
    and "g < T" and "c < T" and "e < length h" and "h ! e = OpTick g"
  shows "tick_number h g e \<le> clock_get (clock_of (sm_sync (sync_run keyf T B E h)) c) (keyf g)
     \<longleftrightarrow> thread_knows h c e"
proof -
  have "clock_get (clock_of (sm_sync (sync_run keyf T B E h)) c) (keyf g) = ticks h g (thread_knows h c)"
    using clocks_match_run [OF assms(1,2)] assms(3,4)
    by (simp add: clocks_match_def clock_of_def Let_def)
  then show ?thesis using tick_number_le_ticks [OF closed_knows(1) assms(5,6)] by simp
qed

section \<open>Properties of the clocks\<close>


lemma hb_eq_refl: "hb_eq h e e"
  by (simp add: hb_eq_def)

lemma hb_eq_step: "hb_eq h e p \<Longrightarrow> hb_edge h p q \<Longrightarrow> hb_eq h e q"
  unfolding hb_eq_def by (rule rtranclp.rtrancl_into_rtrancl)

text \<open>A run with a producer (thread 0) and a consumer (thread 1) and one flag (element 0).\<close>

definition handoff :: "sync_op list" where
  "handoff = [OpTick 0, OpFence 0 AcqRel, OpRelease 0 0 Relaxed,
              OpAcquire 1 0 Relaxed, OpFence 1 AcqRel]"


text \<open>
  C25: message passing. Whatever else runs in between, in any number of threads: an operation of the
  producer, then a release (its ordering a release, or a release fence before it) to a location,
  then an acquire of that location (its ordering an acquire, or an acquire fence after it) by the
  consumer, and the consumer's clock has caught up with the producer's operation.
\<close>

theorem message_passing:
  assumes "inj_on keyf {..<T}" and "\<forall>x \<in> set h. op_valid T B E x" and "p < T" and "c < T"
    and "h ! e = OpTick p" and "e < s" and "s \<le> i" and "i < j" and "j \<le> t" and "t < length h"
    and "h ! i = OpRelease p l ord" and "h ! j = OpAcquire c l ord'"
    and "s = i \<and> is_release ord \<or> s < i \<and> (\<exists>o1. h ! s = OpFence p o1 \<and> is_release o1)"
    and "t = j \<and> is_acquire ord' \<or> j < t \<and> (\<exists>o2. h ! t = OpFence c o2 \<and> is_acquire o2)"
  shows "tick_number h p e \<le> clock_get (clock_of (sm_sync (sync_run keyf T B E h)) c) (keyf p)"
proof -
  have "op_gid (h ! s) = p" "op_gid (h ! t) = c" using assms by auto
  then have "hb_edge h e s" using assms by (intro hb_edge.program_order) auto
  moreover have "hb_edge h s t"
    using assms by (intro hb_edge.sync_with [of h l i s j t]) (auto simp: publishes_def takes_def)
  ultimately have "hb_eq h e t" by (meson hb_eq_refl hb_eq_step)
  then have "thread_knows h c e" using \<open>op_gid (h ! t) = c\<close> assms(10) thread_knows_def by blast
  then show ?thesis using clock_covers_iff [OF assms(1-4), of e] assms by simp
qed

theorem message_passing_witness:
  "tick_number handoff 0 0
     \<le> clock_get (clock_of (sm_sync (sync_run of_nat 2 1 1 handoff)) 1) (of_nat 0)"
proof (rule message_passing [where s = 1 and i = 2 and j = 3 and t = 4])
  show "inj_on (of_nat :: nat \<Rightarrow> u64) {..<2}" by (auto simp: inj_on_def less_Suc_eq numeral_2_eq_2)
qed (auto simp: handoff_def)

text \<open>
  C26: without a release side there is no ordering. If no release has a release ordering, no release
  fence runs and no barrier is entered, then no thread ever learns of another thread's operations,
  however many relaxed or acquire atomics they exchange.
\<close>

theorem relaxed_orders_nothing:
  assumes "inj_on keyf {..<T}" and "\<forall>x \<in> set h. op_valid T B E x" and "g < T" and "c < T" and "g \<noteq> c"
    and "\<forall>x \<in> set h. case x of OpRelease _ _ ord \<Rightarrow> \<not> is_release ord
           | OpFence _ ord \<Rightarrow> \<not> is_release ord | OpArrive _ _ \<Rightarrow> False | _ \<Rightarrow> True"
  shows "clock_get (clock_of (sm_sync (sync_run keyf T B E h)) c) (keyf g) = 0"
proof -
  have quiet: "case h ! p of OpRelease _ _ ord \<Rightarrow> \<not> is_release ord
      | OpFence _ ord \<Rightarrow> \<not> is_release ord | OpArrive _ _ \<Rightarrow> False | _ \<Rightarrow> True" if "p < length h" for p
    using assms(6) that nth_mem by blast
  have same: "op_gid (h ! p) = op_gid (h ! q)" if "hb_edge h p q" for p q
    using that
  proof cases
    case program_order
    then show ?thesis by simp
  next
    case (barrier g b g')
    then show ?thesis using quiet [of p] by simp
  next
    case (sync_with l i j)
    then have "j \<le> q" using takes_bounds by blast
    then have i: "i < length h" using sync_with by simp
    then have "p < length h" using sync_with publishes_bounds by fastforce
    then show ?thesis using sync_with quiet [OF i] quiet [of p] by (auto simp: publishes_def)
  qed
  have "op_gid (h ! t) = op_gid (h ! e)" if "hb_eq h e t" for e t
    using that unfolding hb_eq_def by (induction rule: rtranclp_induct) (auto dest: same)
  then have "\<not> thread_knows h c e" if "h ! e = OpTick g" for e
    using that assms(5) unfolding thread_knows_def by (metis op_gid.simps(1))
  then have "{e. e < length h \<and> h ! e = OpTick g \<and> thread_knows h c e} = {}" by blast
  then have "ticks h g (thread_knows h c) = 0" by (simp only: ticks_def card.empty)
  then show ?thesis using clocks_match_run [OF assms(1,2)] assms(3,4)
    by (simp add: clocks_match_def clock_of_def Let_def)
qed

definition unfenced_handoff :: "sync_op list" where
  "unfenced_handoff =
     [OpTick 0, OpRelease 0 0 Relaxed, OpAcquire 1 0 Acquire, OpFence 1 Acquire]"

theorem relaxed_orders_nothing_witness:
  "clock_get (clock_of (sm_sync (sync_run of_nat 2 1 1 unfenced_handoff)) 1) (of_nat 0) = 0"
proof (rule relaxed_orders_nothing)
  show "inj_on (of_nat :: nat \<Rightarrow> u64) {..<2}" by (auto simp: inj_on_def less_Suc_eq numeral_2_eq_2)
qed (auto simp: unfenced_handoff_def)

end
