(* ===== verification/Shadow.thy ===== *)
theory Shadow
  imports Diag Sync
begin

text \<open>
  \<^verbatim>\<open>src/shadow.rs\<close>: the rule that decides whether two accesses are unordered, and the shadow cell of
  one element with the operations that record a read or a write and name an earlier access in
  conflict with it.
\<close>

section \<open>The concurrency rule\<close>

definition concurrent :: "access \<Rightarrow> access \<Rightarrow> clock \<Rightarrow> bool" where
  "concurrent a b now =
     (if acc_block a = acc_block b \<and> acc_thread a = acc_thread b then False
      else if acc_kind a = Atomic \<and> acc_kind b = Atomic then False
      else if clock_get now (key (acc_block a) (acc_thread a)) \<ge> acc_seq a then False
      else if acc_block a \<noteq> acc_block b then True
      else if acc_epoch a \<noteq> acc_epoch b then False
      else if acc_warp a \<noteq> acc_warp b then True
      else acc_warp_epoch a = acc_warp_epoch b)"

section \<open>The shadow cell\<close>

definition max_readers :: nat where
  "max_readers = 8"

record shadow_cell =
  cell_init :: bool
  cell_last_write :: "access option"
  cell_readers :: "access list"
  cell_release :: clock

definition cell_default :: shadow_cell where
  "cell_default = \<lparr>cell_init = False, cell_last_write = None, cell_readers = [],
     cell_release = clock_empty\<rparr>"

definition cell_initialised :: shadow_cell where
  "cell_initialised = cell_default\<lparr>cell_init := True\<rparr>"

definition filter_option :: "('a \<Rightarrow> bool) \<Rightarrow> 'a option \<Rightarrow> 'a option" where
  "filter_option P x = (case x of None \<Rightarrow> None | Some a \<Rightarrow> if P a then Some a else None)"

definition on_read :: "shadow_cell \<Rightarrow> access \<Rightarrow> clock \<Rightarrow> access option \<times> shadow_cell" where
  "on_read c acc now =
     (let conflict = filter_option (\<lambda>w. concurrent w acc now) (cell_last_write c);
          kept = filter (\<lambda>r. acc_block r \<noteq> acc_block acc \<or> acc_epoch r = acc_epoch acc)
                   (cell_readers c);
          dup = list_ex (\<lambda>r. acc_block r = acc_block acc \<and> acc_thread r = acc_thread acc
                   \<and> acc_epoch r = acc_epoch acc) kept
      in (conflict,
          c\<lparr>cell_readers :=
              (if \<not> dup \<and> length kept < max_readers then kept @ [acc] else kept)\<rparr>))"

definition on_write :: "shadow_cell \<Rightarrow> access \<Rightarrow> clock \<Rightarrow> access option \<times> shadow_cell" where
  "on_write c acc now =
     (let conflict =
            (case filter_option (\<lambda>w. concurrent w acc now) (cell_last_write c) of
               Some w \<Rightarrow> Some w
             | None \<Rightarrow> find (\<lambda>r. concurrent r acc now) (cell_readers c))
      in (conflict,
          c\<lparr>cell_last_write := Some acc, cell_readers := [], cell_init := True\<rparr>))"

text \<open>The choice the access path of \<^verbatim>\<open>mem.rs\<close> makes between the two.\<close>

definition on_access :: "shadow_cell \<Rightarrow> access \<Rightarrow> clock \<Rightarrow> access option \<times> shadow_cell" where
  "on_access c acc now = (if acc_kind acc = Read then on_read c acc now else on_write c acc now)"

section \<open>What a cell remembers\<close>

lemma on_read_fields [simp]:
  "cell_init (snd (on_read c acc now)) = cell_init c"
  "cell_last_write (snd (on_read c acc now)) = cell_last_write c"
  "cell_release (snd (on_read c acc now)) = cell_release c"
  by (simp_all add: on_read_def Let_def)

lemma on_write_fields [simp]:
  "cell_init (snd (on_write c acc now))"
  "cell_last_write (snd (on_write c acc now)) = Some acc"
  "cell_readers (snd (on_write c acc now)) = []"
  "cell_release (snd (on_write c acc now)) = cell_release c"
  by (simp_all add: on_write_def Let_def)

lemma filter_option_Some [simp]: "filter_option P x = Some a \<longleftrightarrow> x = Some a \<and> P a"
  by (auto simp: filter_option_def split: option.splits if_splits)

lemma filter_option_None [simp]: "filter_option P x = None \<longleftrightarrow> (\<forall>a. x = Some a \<longrightarrow> \<not> P a)"
  by (auto simp: filter_option_def split: option.splits if_splits)

lemma on_read_conflict [simp]:
  "fst (on_read c acc now) = Some a \<longleftrightarrow> cell_last_write c = Some a \<and> concurrent a acc now"
  by (simp add: on_read_def Let_def)

lemma on_write_conflict_None:
  "fst (on_write c acc now) = None \<longleftrightarrow>
     (\<forall>w. cell_last_write c = Some w \<longrightarrow> \<not> concurrent w acc now)
     \<and> (\<forall>r \<in> set (cell_readers c). \<not> concurrent r acc now)"
  by (auto simp: on_write_def Let_def find_None_iff split: option.splits)

lemma on_write_conflict_Some:
  "fst (on_write c acc now) = Some a \<Longrightarrow>
     (cell_last_write c = Some a \<or> a \<in> set (cell_readers c)) \<and> concurrent a acc now"
  by (auto simp: on_write_def Let_def find_Some_iff split: option.splits)

lemma length_push_bound:
  "length xs \<le> n \<Longrightarrow>
   length (if d \<and> length (filter P xs) < n then filter P xs @ [a] else filter P xs) \<le> n"
  using order_trans [OF length_filter_le, of xs n P] by auto

lemma on_read_readers_eq:
  "cell_readers (snd (on_read c acc now)) =
     (if \<not> list_ex (\<lambda>r. acc_block r = acc_block acc \<and> acc_thread r = acc_thread acc
              \<and> acc_epoch r = acc_epoch acc)
            (filter (\<lambda>r. acc_block r \<noteq> acc_block acc \<or> acc_epoch r = acc_epoch acc) (cell_readers c))
         \<and> length (filter (\<lambda>r. acc_block r \<noteq> acc_block acc \<or> acc_epoch r = acc_epoch acc)
              (cell_readers c)) < max_readers
      then filter (\<lambda>r. acc_block r \<noteq> acc_block acc \<or> acc_epoch r = acc_epoch acc) (cell_readers c)
             @ [acc]
      else filter (\<lambda>r. acc_block r \<noteq> acc_block acc \<or> acc_epoch r = acc_epoch acc) (cell_readers c))"
  by (simp add: on_read_def Let_def)

lemma on_read_readers:
  "set (cell_readers (snd (on_read c acc now))) \<subseteq> insert acc (set (cell_readers c))"
  "length (cell_readers c) \<le> max_readers \<Longrightarrow>
     length (cell_readers (snd (on_read c acc now))) \<le> max_readers"
proof -
  show "set (cell_readers (snd (on_read c acc now))) \<subseteq> insert acc (set (cell_readers c))"
    by (auto simp: on_read_def Let_def)
  assume len: "length (cell_readers c) \<le> max_readers"
  show "length (cell_readers (snd (on_read c acc now))) \<le> max_readers"
    unfolding on_read_readers_eq by (rule length_push_bound [OF len])
qed

text \<open>A cell that agrees with the accesses made to it so far.\<close>

definition cell_ok :: "access set \<Rightarrow> shadow_cell \<Rightarrow> bool" where
  "cell_ok past c \<longleftrightarrow>
     (\<forall>w. cell_last_write c = Some w \<longrightarrow> w \<in> past \<and> acc_kind w \<noteq> Read)
     \<and> (\<forall>r \<in> set (cell_readers c). r \<in> past \<and> acc_kind r = Read)
     \<and> length (cell_readers c) \<le> max_readers"

lemma cell_ok_fresh [simp]: "cell_ok past cell_default" "cell_ok past cell_initialised"
  by (simp_all add: cell_ok_def cell_default_def cell_initialised_def)

lemma cell_ok_access:
  assumes "cell_ok past c"
  shows "cell_ok (insert acc past) (snd (on_access c acc now))"
proof (cases "acc_kind acc = Read")
  case True
  then show ?thesis
    using assms on_read_readers [of c acc now] by (auto simp: cell_ok_def on_access_def)
next
  case False
  then show ?thesis by (simp add: cell_ok_def on_access_def)
qed

lemma on_access_sound:
  assumes "cell_ok past c" and "fst (on_access c acc now) = Some a"
  shows "a \<in> past \<and> concurrent a acc now \<and> (acc_kind a \<noteq> Read \<or> acc_kind acc \<noteq> Read)"
  using assms
  by (auto simp: on_access_def cell_ok_def dest!: on_write_conflict_Some split: if_splits)

section \<open>Running a sequence of accesses through one cell\<close>

fun cell_run :: "shadow_cell \<Rightarrow> (access \<times> clock) list \<Rightarrow> access option list \<times> shadow_cell" where
  "cell_run c [] = ([], c)"
| "cell_run c (e # es) =
     (let r = on_access c (fst e) (snd e); rest = cell_run (snd r) es
      in (fst r # fst rest, snd rest))"

lemma cell_run_snoc [simp]:
  "fst (cell_run c (es @ [e])) =
     fst (cell_run c es) @ [fst (on_access (snd (cell_run c es)) (fst e) (snd e))]"
  "snd (cell_run c (es @ [e])) = snd (on_access (snd (cell_run c es)) (fst e) (snd e))"
  by (induction es arbitrary: c) (auto simp: Let_def)

lemma cell_run_ok: "cell_ok (fst ` set es) (snd (cell_run cell_default es))"
  by (induction es rule: rev_induct) (auto simp: cell_ok_access)

lemma cell_run_length [simp]: "length (fst (cell_run c es)) = length es"
  by (induction es arbitrary: c) (auto simp: Let_def)

lemma cell_run_take: "fst (cell_run c (take n es)) = take n (fst (cell_run c es))"
  by (induction es arbitrary: c n) (auto simp: take_Cons Let_def split: nat.splits)

lemma cell_run_nth:
  assumes "i < length es"
  shows "fst (cell_run c es) ! i =
    fst (on_access (snd (cell_run c (take i es))) (fst (es ! i)) (snd (es ! i)))"
proof -
  have "fst (cell_run c es) ! i = fst (cell_run c (take (Suc i) es)) ! i"
    using assms by (simp add: cell_run_take)
  also have "take (Suc i) es = take i es @ [es ! i]"
    using assms by (simp add: take_Suc_conv_app_nth)
  finally show ?thesis using assms by (simp add: nth_append)
qed

text \<open>
  No false alarm. Every conflict a cell names, in any sequence of accesses with any clocks, is
  an access made earlier to that cell, unordered with the current one by the concurrency rule, and at
  least one of the two is not a plain read.
\<close>

theorem reported_race_is_real:
  assumes "i < length es" and "fst (cell_run cell_default es) ! i = Some a"
  shows "(\<exists>j < i. a = fst (es ! j)) \<and> concurrent a (fst (es ! i)) (snd (es ! i))
    \<and> (acc_kind a \<noteq> Read \<or> acc_kind (fst (es ! i)) \<noteq> Read)"
proof -
  have "cell_ok (fst ` set (take i es)) (snd (cell_run cell_default (take i es)))"
    by (rule cell_run_ok)
  from on_access_sound [OF this] have "a \<in> fst ` set (take i es)"
    and "concurrent a (fst (es ! i)) (snd (es ! i))
      \<and> (acc_kind a \<noteq> Read \<or> acc_kind (fst (es ! i)) \<noteq> Read)"
    using assms by (auto simp: cell_run_nth)
  moreover have "\<exists>j < i. a = fst (es ! j)" if "a \<in> fst ` set (take i es)"
    using that assms(1) by (auto simp: in_set_conv_nth) (metis fst_conv)
  ultimately show ?thesis by blast
qed

definition sample_access :: "u32 \<Rightarrow> u32 \<Rightarrow> nat \<Rightarrow> nat \<Rightarrow> nat \<Rightarrow> access_kind \<Rightarrow> access" where
  "sample_access block thread epoch warp_epoch n kind =
     \<lparr>acc_block = block, acc_thread = thread, acc_epoch = epoch, acc_warp = 0,
      acc_warp_epoch = warp_epoch, acc_seq = n, acc_kind = kind, acc_loc = Location ''k.rs'' n 1\<rparr>"

lemmas cell_eval =
  sample_access_def on_access_def on_write_def on_read_def cell_default_def cell_initialised_def
  filter_option_def concurrent_def max_readers_def

theorem reported_race_is_real_witness:
  "(\<exists>j < 1. sample_access 0 0 0 0 1 Write
      = fst ([(sample_access 0 0 0 0 1 Write, clock_empty), (sample_access 0 1 0 0 1 Read, clock_empty)] ! j))
   \<and> concurrent (sample_access 0 0 0 0 1 Write) (sample_access 0 1 0 0 1 Read) clock_empty"
proof -
  let ?es = "[(sample_access 0 0 0 0 1 Write, clock_empty), (sample_access 0 1 0 0 1 Read, clock_empty)]"
  have "fst (cell_run cell_default ?es) ! 1 = Some (sample_access 0 0 0 0 1 Write)"
    by (simp add: cell_eval Let_def)
  from reported_race_is_real [OF _ this] show ?thesis by simp
qed

section \<open>The first race is always found\<close>

text \<open>
  The concurrency rule without the exemption of atomics and without clocks: what epochs alone say.
\<close>

definition epoch_concurrent :: "access \<Rightarrow> access \<Rightarrow> bool" where
  "epoch_concurrent a b \<longleftrightarrow>
     \<not> (acc_block a = acc_block b \<and> acc_thread a = acc_thread b)
     \<and> (acc_block a \<noteq> acc_block b
        \<or> acc_epoch a = acc_epoch b
          \<and> (acc_warp a \<noteq> acc_warp b \<or> acc_warp_epoch a = acc_warp_epoch b))"

definition racing :: "access \<Rightarrow> access \<Rightarrow> bool" where
  "racing a b \<longleftrightarrow> (acc_kind a = Write \<or> acc_kind b = Write) \<and> epoch_concurrent a b"

text \<open>
  \<open>later a b\<close>: what holds of two accesses of one launch when \<open>a\<close> was made before \<open>b\<close>. Epochs only
  grow, and a thread stays in its warp. \<open>simple es\<close>: plain accesses, in such an order, in a run whose
  clocks order nothing beyond what the epochs do (no fences), in which no thread reads the element
  twice across a full-mask collective without a barrier in between.
\<close>

definition later :: "access \<Rightarrow> access \<Rightarrow> bool" where
  "later a b \<longleftrightarrow> (acc_block a = acc_block b \<longrightarrow>
     acc_epoch a \<le> acc_epoch b
     \<and> (acc_thread a = acc_thread b \<longrightarrow> acc_warp a = acc_warp b)
     \<and> (acc_warp a = acc_warp b \<longrightarrow> acc_warp_epoch a \<le> acc_warp_epoch b))"

definition no_reread :: "access \<Rightarrow> access \<Rightarrow> bool" where
  "no_reread a b \<longleftrightarrow>
     (acc_block a = acc_block b \<and> acc_thread a = acc_thread b \<and> acc_epoch a = acc_epoch b
      \<and> acc_kind a = Read \<and> acc_kind b = Read \<longrightarrow> acc_warp_epoch a = acc_warp_epoch b)"

definition fits :: "access \<times> clock \<Rightarrow> access \<times> clock \<Rightarrow> bool" where
  "fits x y \<longleftrightarrow> later (fst x) (fst y) \<and> no_reread (fst x) (fst y)
     \<and> (clock_get (snd y) (key (acc_block (fst x)) (acc_thread (fst x))) \<ge> acc_seq (fst x)
        \<longrightarrow> \<not> epoch_concurrent (fst x) (fst y))"

definition simple :: "(access \<times> clock) list \<Rightarrow> bool" where
  "simple es \<longleftrightarrow> (\<forall>e \<in> set es. acc_kind (fst e) \<noteq> Atomic) \<and> sorted_wrt fits es"

lemma concurrent_epochs:
  assumes "fits x y" and "acc_kind (fst y) \<noteq> Atomic"
  shows "concurrent (fst x) (fst y) (snd y) \<longleftrightarrow> epoch_concurrent (fst x) (fst y)"
  using assms by (auto simp: concurrent_def epoch_concurrent_def fits_def)

text \<open>Being ordered by epochs is transitive along a run.\<close>

lemma epoch_ordered_trans:
  assumes "later a b" and "later b c" and "later a c"
    and "\<not> epoch_concurrent a b" and "\<not> epoch_concurrent b c"
  shows "\<not> epoch_concurrent a c"
  using assms unfolding epoch_concurrent_def later_def by (smt (verit) le_antisym order_trans)

definition remembers :: "shadow_cell \<Rightarrow> access \<Rightarrow> bool" where
  "remembers c x \<longleftrightarrow> (\<exists>w. cell_last_write c = Some w \<and> racing w x)
     \<or> (\<exists>r \<in> set (cell_readers c). racing r x)"

lemma racing_later_read:
  assumes "racing r x" and "acc_kind r = Read" and "acc_kind y = Read"
    and "acc_block y = acc_block r" and "acc_thread y = acc_thread r"
    and "acc_epoch y = acc_epoch r" and "acc_warp y = acc_warp r" and "acc_warp_epoch y = acc_warp_epoch r"
  shows "racing y x"
  using assms by (auto simp: racing_def epoch_concurrent_def)

lemma read_is_remembered:
  assumes kind: "acc_kind y = Read" and ryx: "racing y x"
    and room: "length (cell_readers c) < max_readers"
    and rd: "\<forall>r \<in> set (cell_readers c). acc_kind r = Read \<and> later r y \<and> no_reread r y"
  shows "remembers (snd (on_read c y now)) x"
proof -
  let ?kept = "filter (\<lambda>r. acc_block r \<noteq> acc_block y \<or> acc_epoch r = acc_epoch y) (cell_readers c)"
  have len: "length ?kept < max_readers"
    using room length_filter_le le_less_trans by blast
  show ?thesis
  proof (cases "\<exists>r \<in> set ?kept. acc_block r = acc_block y \<and> acc_thread r = acc_thread y
      \<and> acc_epoch r = acc_epoch y")
    case True
    then obtain r where r: "r \<in> set ?kept" "acc_block r = acc_block y" "acc_thread r = acc_thread y"
      "acc_epoch r = acc_epoch y" by blast
    then have "acc_kind r = Read" "later r y" "no_reread r y" using rd by auto
    then have "racing r x"
      using racing_later_read [OF ryx kind, of r] r kind by (auto simp: later_def no_reread_def)
    moreover have "r \<in> set (cell_readers (snd (on_read c y now)))"
      using r(1) by (auto simp: on_read_def Let_def)
    ultimately show ?thesis by (auto simp: remembers_def)
  next
    case False
    then have "\<not> list_ex (\<lambda>r. acc_block r = acc_block y \<and> acc_thread r = acc_thread y
        \<and> acc_epoch r = acc_epoch y) ?kept" by (auto simp: list_ex_iff)
    with len have "y \<in> set (cell_readers (snd (on_read c y now)))"
      by (simp add: on_read_def Let_def)
    with ryx show ?thesis by (auto simp: remembers_def)
  qed
qed

text \<open>
  The invariant while no conflict was reported: an earlier access that races with some later \<open>x\<close> is
  still visible in the cell, itself or through another one that races with \<open>x\<close> as well.
\<close>

definition covers :: "(access \<times> clock) list \<Rightarrow> shadow_cell \<Rightarrow> bool" where
  "covers es c \<longleftrightarrow> (\<forall>x. simple (es @ [x]) \<longrightarrow>
     (\<exists>e \<in> set es. racing (fst e) (fst x)) \<longrightarrow> remembers c (fst x))"

lemma simple_snoc:
  "simple (es @ [y]) \<longleftrightarrow> simple es \<and> acc_kind (fst y) \<noteq> Atomic \<and> (\<forall>e \<in> set es. fits e y)"
  by (auto simp: simple_def sorted_wrt_append)

lemma simple_drop_middle: "simple (es @ [y, x]) \<Longrightarrow> simple (es @ [x]) \<and> simple (es @ [y]) \<and> fits y x"
  by (auto simp: simple_def sorted_wrt_append)

lemma remembers_reported:
  assumes s: "simple (es @ [x])" and ok: "cell_ok (fst ` set es) c" and r: "remembers c (fst x)"
  shows "fst (on_access c (fst x) (snd x)) \<noteq> None"
proof -
  have conc: "concurrent a (fst x) (snd x)" if "a \<in> fst ` set es" "racing a (fst x)" for a
    using that s concurrent_epochs [of _ x] by (auto simp: simple_snoc racing_def)
  from r consider (w) w where "cell_last_write c = Some w" "racing w (fst x)"
    | (r) r where "r \<in> set (cell_readers c)" "racing r (fst x)"
    unfolding remembers_def by blast
  then show ?thesis
  proof cases
    case w
    then have "concurrent w (fst x) (snd x)" using conc ok by (auto simp: cell_ok_def)
    then have "fst (on_read c (fst x) (snd x)) = Some w" "fst (on_write c (fst x) (snd x)) \<noteq> None"
      using w by (simp_all add: on_write_conflict_None)
    then show ?thesis by (simp add: on_access_def)
  next
    case r
    then have "acc_kind r = Read" "concurrent r (fst x) (snd x)"
      using conc ok by (auto simp: cell_ok_def)
    moreover from this r have "acc_kind (fst x) = Write" by (auto simp: racing_def)
    ultimately show ?thesis using r by (auto simp: on_access_def on_write_conflict_None)
  qed
qed

lemma covers_write:
  assumes s: "simple (es @ [y])" and kind: "acc_kind (fst y) = Write"
    and ok: "cell_ok (fst ` set es) c" and cov: "covers es c"
    and quiet: "fst (on_access c (fst y) (snd y)) = None"
  shows "covers (es @ [y]) (snd (on_access c (fst y) (snd y)))"
  unfolding covers_def
proof (intro allI impI)
  fix x
  assume sx: "simple ((es @ [y]) @ [x])" and race: "\<exists>e \<in> set (es @ [y]). racing (fst e) (fst x)"
  have no: "\<not> racing (fst e) (fst y)" if "e \<in> set es" for e
    using remembers_reported [OF s ok] quiet cov s that unfolding covers_def by blast
  have "racing (fst y) (fst x)"
  proof (rule ccontr)
    assume nr: "\<not> racing (fst y) (fst x)"
    then obtain e where e: "e \<in> set es" "racing (fst e) (fst x)" using race by auto
    have "later (fst e) (fst y)" "later (fst y) (fst x)" "later (fst e) (fst x)"
      using sx e by (auto simp: simple_def sorted_wrt_append fits_def)
    moreover have "\<not> epoch_concurrent (fst e) (fst y)" using no [OF e(1)] kind by (simp add: racing_def)
    moreover have "\<not> epoch_concurrent (fst y) (fst x)" using nr kind by (simp add: racing_def)
    ultimately have "\<not> epoch_concurrent (fst e) (fst x)" by (rule epoch_ordered_trans)
    with e show False by (simp add: racing_def)
  qed
  then show "remembers (snd (on_access c (fst y) (snd y))) (fst x)"
    using kind by (simp add: remembers_def on_access_def)
qed

lemma covers_read:
  assumes s: "simple (es @ [y])" and kind: "acc_kind (fst y) = Read"
    and ok: "cell_ok (fst ` set es) c" and cov: "covers es c"
    and room: "length (cell_readers c) < max_readers"
  shows "covers (es @ [y]) (snd (on_access c (fst y) (snd y)))"
  unfolding covers_def
proof (intro allI impI)
  fix x
  assume sx: "simple ((es @ [y]) @ [x])" and race: "\<exists>e \<in> set (es @ [y]). racing (fst e) (fst x)"
  let ?c = "snd (on_access c (fst y) (snd y))"
  have rd: "\<forall>r \<in> set (cell_readers c). acc_kind r = Read \<and> later r (fst y) \<and> no_reread r (fst y)"
    using ok s by (auto simp: cell_ok_def simple_snoc fits_def)
  have yx: "remembers ?c (fst x)" if "racing (fst y) (fst x)"
    using read_is_remembered [OF kind that room rd] kind by (simp add: on_access_def)
  show "remembers ?c (fst x)"
  proof (cases "racing (fst y) (fst x)")
    case True
    then show ?thesis by (rule yx)
  next
    case False
    then have "\<exists>e \<in> set es. racing (fst e) (fst x)" using race by auto
    moreover have "simple (es @ [x])" using sx simple_drop_middle [of es y x] by simp
    ultimately have "remembers c (fst x)" using cov unfolding covers_def by blast
    then consider (w) "\<exists>w. cell_last_write c = Some w \<and> racing w (fst x)"
      | (r) r where "r \<in> set (cell_readers c)" "racing r (fst x)"
      unfolding remembers_def by blast
    then show ?thesis
    proof cases
      case w
      then show ?thesis using kind by (simp add: remembers_def on_access_def)
    next
      case r
      have x: "later r (fst y)" "later (fst y) (fst x)" "later r (fst x)"
        using sx ok r by (auto simp: simple_def sorted_wrt_append fits_def cell_ok_def)
      have "acc_block r \<noteq> acc_block (fst y) \<or> acc_epoch r = acc_epoch (fst y)"
      proof (rule ccontr)
        assume "\<not> ?thesis"
        then have b: "acc_block r = acc_block (fst y)" and e: "acc_epoch r < acc_epoch (fst y)"
          using x(1) by (auto simp: later_def)
        have "acc_block r \<noteq> acc_block (fst x)"
          using r(2) b e x(2) by (auto simp: racing_def epoch_concurrent_def later_def)
        then have "racing (fst y) (fst x)"
          using r rd kind b by (auto simp: racing_def epoch_concurrent_def)
        with False show False ..
      qed
      then have "r \<in> set (cell_readers ?c)"
        using r(1) kind by (auto simp: on_access_def on_read_def Let_def)
      with r(2) show ?thesis by (auto simp: remembers_def)
    qed
  qed
qed

definition plain_reads :: "(access \<times> clock) list \<Rightarrow> nat" where
  "plain_reads es = length (filter (\<lambda>e. acc_kind (fst e) = Read) es)"

lemma readers_at_most_reads:
  "length (cell_readers (snd (cell_run cell_default es))) \<le> plain_reads es"
proof (induction es rule: rev_induct)
  case (snoc e es)
  let ?c = "snd (cell_run cell_default es)"
  show ?case
  proof (cases "acc_kind (fst e) = Read")
    case True
    have "length (cell_readers (snd (on_read ?c (fst e) (snd e)))) \<le> Suc (length (cell_readers ?c))"
      unfolding on_read_readers_eq using length_filter_le [of _ "cell_readers ?c"]
      by (auto intro: le_SucI)
    with True snoc show ?thesis by (simp add: on_access_def plain_reads_def)
  qed (use snoc in \<open>simp add: on_access_def\<close>)
qed (simp add: plain_reads_def cell_default_def)

lemma cell_run_covers:
  assumes "simple es" and "plain_reads es \<le> max_readers"
    and "\<forall>r \<in> set (fst (cell_run cell_default es)). r = None"
  shows "covers es (snd (cell_run cell_default es))"
  using assms
proof (induction es rule: rev_induct)
  case Nil
  then show ?case by (simp add: covers_def)
next
  case (snoc y es)
  let ?c = "snd (cell_run cell_default es)"
  have ok: "cell_ok (fst ` set es) ?c" by (rule cell_run_ok)
  have s: "simple (es @ [y])" and IH: "covers es ?c"
    and quiet: "fst (on_access ?c (fst y) (snd y)) = None"
    using snoc by (auto simp: simple_snoc plain_reads_def)
  consider (w) "acc_kind (fst y) = Write" | (r) "acc_kind (fst y) = Read"
    using s by (cases "acc_kind (fst y)") (auto simp: simple_snoc)
  then show ?case
  proof cases
    case w
    from covers_write [OF s w ok IH quiet] show ?thesis by simp
  next
    case r
    then have "length (cell_readers ?c) < max_readers"
      using snoc.prems(2) readers_at_most_reads [of es] by (auto simp: plain_reads_def)
    from covers_read [OF s r ok IH this] show ?thesis by simp
  qed
qed

text \<open>
  Detection of the first race of an element is exact. In a run of plain accesses without fences
  (and without a thread reading the element on both sides of a warp collective), as long as nothing
  was reported and at most 8 reads were made, the next access is reported if and only if some
  earlier access races with it: neither the replaced writes, nor the forgotten readers, nor the
  cleared reader set hide one.
\<close>

theorem first_race_is_found:
  assumes "simple (es @ [x])" and "plain_reads es \<le> 8"
    and "\<forall>r \<in> set (fst (cell_run cell_default es)). r = None"
  shows "fst (on_access (snd (cell_run cell_default es)) (fst x) (snd x)) \<noteq> None
     \<longleftrightarrow> (\<exists>e \<in> set es. racing (fst e) (fst x))"
proof
  let ?c = "snd (cell_run cell_default es)"
  have ok: "cell_ok (fst ` set es) ?c" by (rule cell_run_ok)
  assume "\<exists>e \<in> set es. racing (fst e) (fst x)"
  moreover have "covers es ?c"
    using assms by (intro cell_run_covers) (auto simp: simple_snoc max_readers_def)
  ultimately have "remembers ?c (fst x)" using assms(1) unfolding covers_def by blast
  then show "fst (on_access ?c (fst x) (snd x)) \<noteq> None" by (rule remembers_reported [OF assms(1) ok])
next
  let ?c = "snd (cell_run cell_default es)"
  assume "fst (on_access ?c (fst x) (snd x)) \<noteq> None"
  then obtain a where "fst (on_access ?c (fst x) (snd x)) = Some a" by blast
  from on_access_sound [OF cell_run_ok this] obtain e where e: "e \<in> set es" "a = fst e"
    and a: "concurrent a (fst x) (snd x)" "acc_kind a \<noteq> Read \<or> acc_kind (fst x) \<noteq> Read" by auto
  have "fits e x" using assms(1) e by (simp add: simple_snoc)
  moreover have "acc_kind (fst e) \<noteq> Atomic" "acc_kind (fst x) \<noteq> Atomic"
    using assms(1) e by (auto simp: simple_def)
  ultimately have "racing (fst e) (fst x)"
    using a e concurrent_epochs [of e x] by (cases "acc_kind (fst e)"; cases "acc_kind (fst x)") (auto simp: racing_def)
  with e show "\<exists>e \<in> set es. racing (fst e) (fst x)" by blast
qed

theorem first_race_is_found_witness:
  "fst (on_access (snd (cell_run cell_default
      [(sample_access 0 0 0 0 1 Write, clock_empty), (sample_access 0 0 0 0 2 Read, clock_empty),
       (sample_access 0 1 1 0 1 Read, clock_empty)]))
     (sample_access 0 2 1 0 1 Write) clock_empty) \<noteq> None
   \<longleftrightarrow> (\<exists>e \<in> set [(sample_access 0 0 0 0 1 Write, clock_empty),
         (sample_access 0 0 0 0 2 Read, clock_empty), (sample_access 0 1 1 0 1 Read, clock_empty)].
       racing (fst e) (sample_access 0 2 1 0 1 Write))"
proof -
  let ?es = "[(sample_access 0 0 0 0 1 Write, clock_empty), (sample_access 0 0 0 0 2 Read, clock_empty),
       (sample_access 0 1 1 0 1 Read, clock_empty)]"
  let ?x = "(sample_access 0 2 1 0 1 Write, clock_empty)"
  have "simple (?es @ [?x])"
    by (simp add: simple_def fits_def later_def no_reread_def sample_access_def)
  moreover have "plain_reads ?es \<le> 8" by (simp add: plain_reads_def sample_access_def)
  moreover have "\<forall>r \<in> set (fst (cell_run cell_default ?es)). r = None"
    by (simp add: cell_eval Let_def)
  ultimately show ?thesis using first_race_is_found [of ?es ?x] by simp
qed

section \<open>Where the cell forgets\<close>

text \<open>
  A reader is remembered once per barrier epoch, with the warp epoch of its first read. A thread
  that reads an element, passes a full-mask collective and reads it again is only remembered before
  the collective, so a write by a warp-mate after the collective, concurrent with the second read, is
  not reported; without the first read it is.
\<close>

theorem reread_after_collective_is_missed:
  "concurrent (sample_access 0 0 0 1 2 Read) (sample_access 0 1 0 1 1 Write) clock_empty
   \<and> last (fst (cell_run cell_initialised
        [(sample_access 0 0 0 0 1 Read, clock_empty), (sample_access 0 0 0 1 2 Read, clock_empty),
         (sample_access 0 1 0 1 1 Write, clock_empty)])) = None
   \<and> last (fst (cell_run cell_initialised
        [(sample_access 0 0 0 1 2 Read, clock_empty), (sample_access 0 1 0 1 1 Write, clock_empty)]))
     = Some (sample_access 0 0 0 1 2 Read)"
  by (simp add: cell_eval Let_def)

text \<open>
  The same happens without any collective when something was handed over between the two reads: the reader
  releases after its first read, and a thread of another block that acquired it writes after the second.
  The remembered read is ordered before the write, the forgotten one is not.
\<close>

theorem reread_after_release_is_missed:
  "concurrent (sample_access 0 0 0 0 2 Read) (sample_access 1 0 0 0 1 Write) (clock_observe clock_empty (key 0 0) 1)
   \<and> last (fst (cell_run cell_initialised
        [(sample_access 0 0 0 0 1 Read, clock_empty), (sample_access 0 0 0 0 2 Read, clock_empty),
         (sample_access 1 0 0 0 1 Write, clock_observe clock_empty (key 0 0) 1)])) = None
   \<and> last (fst (cell_run cell_initialised
        [(sample_access 0 0 0 0 2 Read, clock_empty),
         (sample_access 1 0 0 0 1 Write, clock_observe clock_empty (key 0 0) 1)]))
     = Some (sample_access 0 0 0 0 2 Read)"
  by (simp add: cell_eval Let_def)

text \<open>
  An atomic access replaces the last write, and two atomics never conflict, so the earlier atomic
  is forgotten: whether a later plain read by the second thread is reported depends on the order in
  which the two unordered atomics happened to run.
\<close>

theorem atomic_hides_atomic:
  "last (fst (cell_run cell_initialised
       [(sample_access 0 0 0 0 1 Atomic, clock_empty), (sample_access 0 1 0 0 1 Atomic, clock_empty),
        (sample_access 0 1 0 0 2 Read, clock_empty)])) = None
   \<and> last (fst (cell_run cell_initialised
       [(sample_access 0 1 0 0 1 Atomic, clock_empty), (sample_access 0 0 0 0 1 Atomic, clock_empty),
        (sample_access 0 1 0 0 2 Read, clock_empty)])) = Some (sample_access 0 0 0 0 1 Atomic)"
  by (simp add: cell_eval Let_def)

end
