(* ===== verification/Sched.thy ===== *)
theory Sched
  imports Diag
begin

text \<open>
  \<^verbatim>\<open>src/sched.rs\<close>: the scheduler. Every simulated thread is an operating system thread, but only the
  holder of the turn runs; every operation takes the lock, changes the state, passes the turn on and
  waits for it to come back. One operation up to its wait loop is one definition here, from the
  state before to the state after, together with the findings pushed, the threads notified, and what
  the wait loop does on its first look (\<open>turn_of\<close>).
\<close>

section \<open>State\<close>

definition phase_arrive :: u8 where
  "phase_arrive = 0"

definition phase_depart :: u8 where
  "phase_depart = 1"

datatype status = Runnable | AtBarrier | AtWarp | Finished

record warp_wait =
  ww_phase :: u8
  ww_mask :: u32
  ww_at :: location
  ww_op :: string

definition max_trace :: nat where
  "max_trace = 2 ^ 20"

datatype choices =
    Random u64
  | Replay "u32 list" nat

definition splitmix_next :: "u64 \<Rightarrow> u64 \<times> u64" where
  "splitmix_next s =
     (let s1 = s + 0x9E3779B97F4A7C15;
          z0 = s1;
          z1 = (z0 XOR drop_bit 30 z0) * 0xBF58476D1CE4E5B9;
          z2 = (z1 XOR drop_bit 27 z1) * 0x94D049BB133111EB
      in (z2 XOR drop_bit 31 z2, s1))"

record sched_state =
  st_current :: "nat option"
  st_status :: "status list"
  st_barrier_gen :: "nat list"
  st_barrier_loc :: "location option list"
  st_warp_wait :: "warp_wait option list"
  st_warp_gen :: "nat list"
  st_choices :: choices
  st_trace :: "u32 list"
  st_trace_complete :: bool
  st_aborted :: bool

record sched_config =
  sc_blocks :: nat
  sc_tpb :: nat
  sc_warp_size :: nat
  sc_warps_per_block :: nat

text \<open>
  The state under the lock, the reporter of the launch, and the threads whose condition variables the
  last operation notified.
\<close>

record world =
  w_st :: sched_state
  w_rep :: reporter
  w_woken :: "nat list"

definition total_threads :: "sched_config \<Rightarrow> nat" where
  "total_threads cfg = sc_blocks cfg * sc_tpb cfg"

section \<open>Choosing who runs next\<close>

definition runnable_list :: "sched_state \<Rightarrow> nat list" where
  "runnable_list s = filter (\<lambda>i. st_status s ! i = Runnable) [0..<length (st_status s)]"

definition choose_next :: "choices \<Rightarrow> nat option \<Rightarrow> nat list \<Rightarrow> nat \<times> choices" where
  "choose_next ch previous runnable =
     (case ch of
        Random rng \<Rightarrow>
          (case splitmix_next rng of (z, rng') \<Rightarrow>
             (runnable ! unat (z mod of_nat (length runnable)), Random rng'))
      | Replay plan cursor \<Rightarrow>
          (let fallback = (case previous of
                 Some p \<Rightarrow> if p \<in> set runnable then p else runnable ! 0
               | None \<Rightarrow> runnable ! 0)
           in ((case nth_option plan cursor of
                  Some gid \<Rightarrow> if unat gid \<in> set runnable then unat gid else fallback
                | None \<Rightarrow> fallback),
               Replay plan (cursor + 1))))"

definition record_choice :: "sched_state \<Rightarrow> nat \<Rightarrow> sched_state" where
  "record_choice s chosen =
     (if length (st_trace s) < max_trace then s\<lparr>st_trace := st_trace s @ [of_nat chosen]\<rparr>
      else s\<lparr>st_trace_complete := False\<rparr>)"

definition pick_next :: "sched_state \<Rightarrow> sched_state" where
  "pick_next s =
     (let runnable = runnable_list s
      in if runnable = [] then s\<lparr>st_current := None\<rparr>
         else (case choose_next (st_choices s) (st_current s) runnable of (chosen, ch) \<Rightarrow>
                 (record_choice (s\<lparr>st_choices := ch\<rparr>) chosen)\<lparr>st_current := Some chosen\<rparr>))"

definition sched_config_of :: "nat \<Rightarrow> nat \<Rightarrow> nat \<Rightarrow> sched_config" where
  "sched_config_of blocks tpb ws =
     \<lparr>sc_blocks = blocks, sc_tpb = tpb, sc_warp_size = ws, sc_warps_per_block = div_ceil tpb ws\<rparr>"

definition sched_init :: "sched_config \<Rightarrow> choices \<Rightarrow> sched_state" where
  "sched_init cfg ch =
     (let total = total_threads cfg
      in pick_next
        \<lparr>st_current = None,
         st_status = replicate total Runnable,
         st_barrier_gen = replicate (sc_blocks cfg) 0,
         st_barrier_loc = replicate (sc_blocks cfg) None,
         st_warp_wait = replicate total None,
         st_warp_gen = replicate (sc_blocks cfg * sc_warps_per_block cfg) 0,
         st_choices = ch,
         st_trace = [],
         st_trace_complete = True,
         st_aborted = False\<rparr>)"

definition take_trace :: "sched_state \<Rightarrow> (u32 list \<times> bool) \<times> sched_state" where
  "take_trace s = ((st_trace s, st_trace_complete s), s\<lparr>st_trace := []\<rparr>)"

section \<open>Blocks, warps and lanes\<close>

definition block_range :: "sched_config \<Rightarrow> nat \<Rightarrow> nat list" where
  "block_range cfg block = [block * sc_tpb cfg ..< (block + 1) * sc_tpb cfg]"

definition locate :: "sched_config \<Rightarrow> nat \<Rightarrow> nat \<times> nat \<times> nat" where
  "locate cfg gid =
     (let t = gid mod sc_tpb cfg
      in (gid div sc_tpb cfg, t div sc_warp_size cfg, t mod sc_warp_size cfg))"

definition warp_base :: "sched_config \<Rightarrow> nat \<Rightarrow> nat \<Rightarrow> nat" where
  "warp_base cfg block warp = block * sc_tpb cfg + warp * sc_warp_size cfg"

definition lanes_in :: "sched_config \<Rightarrow> nat \<Rightarrow> nat" where
  "lanes_in cfg warp = min (sc_tpb cfg - warp * sc_warp_size cfg) (sc_warp_size cfg)"

definition valid_mask :: "sched_config \<Rightarrow> nat \<Rightarrow> u32" where
  "valid_mask cfg warp =
     (let n = lanes_in cfg warp in if n \<ge> 32 then - 1 else lane_bit n - 1)"

definition warp_gen_index :: "sched_config \<Rightarrow> nat \<Rightarrow> nat \<Rightarrow> nat" where
  "warp_gen_index cfg block warp = block * sc_warps_per_block cfg + warp"

definition arrived_mask :: "sched_config \<Rightarrow> sched_state \<Rightarrow> nat \<Rightarrow> nat \<Rightarrow> warp_wait \<Rightarrow> u32" where
  "arrived_mask cfg s block warp wait =
     (let base = warp_base cfg block warp
      in mask_of (filter
           (\<lambda>l. st_status s ! (base + l) = AtWarp
                \<and> (case st_warp_wait s ! (base + l) of
                     Some w \<Rightarrow> ww_phase w = ww_phase wait \<and> ww_at w = ww_at wait
                   | None \<Rightarrow> False))
           [0..<lanes_in cfg warp]))"

definition epochs :: "sched_config \<Rightarrow> sched_state \<Rightarrow> nat \<Rightarrow> nat \<Rightarrow> nat \<times> nat" where
  "epochs cfg s block warp =
     (st_barrier_gen s ! block, st_warp_gen s ! warp_gen_index cfg block warp)"

section \<open>Passing the turn, deadlock, failure\<close>

text \<open>What \<^verbatim>\<open>wait_turn\<close>'s loop does when it looks at the state.\<close>

datatype turn = Proceed | Unwind | Block

definition turn_of :: "sched_state \<Rightarrow> nat \<Rightarrow> turn" where
  "turn_of s me =
     (if st_aborted s then Unwind else if st_current s = Some me then Proceed else Block)"

definition wake :: "sched_config \<Rightarrow> world \<Rightarrow> world" where
  "wake cfg w =
     w\<lparr>w_woken :=
         (if st_aborted (w_st w) then [0..<total_threads cfg]
          else case st_current (w_st w) of Some next \<Rightarrow> [next] | None \<Rightarrow> [])\<rparr>"

definition push_finding :: "diagnostic \<Rightarrow> world \<Rightarrow> world" where
  "push_finding d w = w\<lparr>w_rep := reporter_push (w_rep w) d\<rparr>"

definition set_aborted :: "world \<Rightarrow> world" where
  "set_aborted w = w\<lparr>w_st := (w_st w)\<lparr>st_aborted := True\<rparr>\<rparr>"

definition warp_divergence_of ::
  "sched_config \<Rightarrow> sched_state \<Rightarrow> nat \<Rightarrow> nat \<Rightarrow> warp_wait \<Rightarrow> diagnostic" where
  "warp_divergence_of cfg s block warp wait =
     WarpDivergence (of_nat block) (of_nat warp) (ww_op wait) (ww_mask wait)
       (arrived_mask cfg s block warp wait) (ww_at wait)"

text \<open>The fallback of \<^verbatim>\<open>barrier_loc[block]\<close> is \<^verbatim>\<open>Location::caller()\<close> in a function that is not tracked.\<close>

definition barrier_finding :: "sched_config \<Rightarrow> sched_state \<Rightarrow> nat \<Rightarrow> location \<Rightarrow> diagnostic" where
  "barrier_finding cfg s block fallback =
     BarrierDivergence (of_nat block)
       (length (filter (\<lambda>i. st_status s ! i = AtBarrier) (block_range cfg block)))
       (length (filter (\<lambda>i. st_status s ! i = Finished) (block_range cfg block)))
       (case st_barrier_loc s ! block of Some l \<Rightarrow> l | None \<Rightarrow> fallback)"

definition stuck_warp :: "sched_config \<Rightarrow> sched_state \<Rightarrow> nat \<Rightarrow> nat \<Rightarrow> diagnostic option" where
  "stuck_warp cfg s block warp =
     (let base = warp_base cfg block warp
      in case filter (\<lambda>l. st_status s ! (base + l) = AtWarp) [0..<lanes_in cfg warp] of
           [] \<Rightarrow> None
         | first # _ \<Rightarrow>
             (case st_warp_wait s ! (base + first) of
                None \<Rightarrow> None
              | Some wait \<Rightarrow> Some (warp_divergence_of cfg s block warp wait)))"

definition stuck_warps :: "sched_config \<Rightarrow> sched_state \<Rightarrow> diagnostic list" where
  "stuck_warps cfg s =
     List.map_filter (\<lambda>(block, warp). stuck_warp cfg s block warp)
       (List.product [0..<sc_blocks cfg] [0..<sc_warps_per_block cfg])"

definition stuck_barriers :: "sched_config \<Rightarrow> sched_state \<Rightarrow> diagnostic list" where
  "stuck_barriers cfg s =
     map (\<lambda>block. barrier_finding cfg s block (Location ''src/sched.rs'' 330 69))
       (filter (\<lambda>block. filter (\<lambda>i. st_status s ! i = AtBarrier) (block_range cfg block) \<noteq> [])
         [0..<sc_blocks cfg])"

definition detect_stuck :: "sched_config \<Rightarrow> world \<Rightarrow> world" where
  "detect_stuck cfg w =
     (let reported = stuck_warps cfg (w_st w);
          ds = (if reported = [] then stuck_barriers cfg (w_st w) else reported)
      in set_aborted (w\<lparr>w_rep := foldl reporter_push (w_rep w) ds\<rparr>))"

definition fail :: "sched_config \<Rightarrow> diagnostic \<Rightarrow> world \<Rightarrow> world" where
  "fail cfg d w = wake cfg (set_aborted (push_finding d w))"

definition hand_off :: "sched_config \<Rightarrow> world \<Rightarrow> nat \<Rightarrow> world \<times> turn" where
  "hand_off cfg w me =
     (let w1 = w\<lparr>w_st := pick_next (w_st w)\<rparr>;
          w2 = (if st_current (w_st w1) = None then detect_stuck cfg w1 else w1);
          w3 = wake cfg w2
      in (w3, turn_of (w_st w3) me))"

definition yield_now :: "sched_config \<Rightarrow> world \<Rightarrow> nat \<Rightarrow> world \<times> turn" where
  "yield_now cfg w me = hand_off cfg w me"

section \<open>Barriers\<close>

definition barrier_divergence :: "sched_config \<Rightarrow> world \<Rightarrow> nat \<Rightarrow> world" where
  "barrier_divergence cfg w block =
     fail cfg (barrier_finding cfg (w_st w) block (Location ''src/sched.rs'' 371 61)) w"

definition get_or_insert :: "'a option \<Rightarrow> 'a \<Rightarrow> 'a option" where
  "get_or_insert x v = (case x of None \<Rightarrow> Some v | Some y \<Rightarrow> Some y)"

definition arrive_at_barrier :: "nat \<Rightarrow> nat \<Rightarrow> location \<Rightarrow> sched_state \<Rightarrow> sched_state" where
  "arrive_at_barrier me block loc s =
     s\<lparr>st_status := (st_status s)[me := AtBarrier],
       st_barrier_loc := (st_barrier_loc s)[block := get_or_insert (st_barrier_loc s ! block) loc]\<rparr>"

definition set_all :: "nat list \<Rightarrow> 'a \<Rightarrow> 'a list \<Rightarrow> 'a list" where
  "set_all ps v xs = fold (\<lambda>p acc. acc[p := v]) ps xs"

definition release_barrier :: "sched_config \<Rightarrow> nat \<Rightarrow> sched_state \<Rightarrow> sched_state" where
  "release_barrier cfg block s =
     s\<lparr>st_status := set_all (block_range cfg block) Runnable (st_status s),
       st_barrier_gen := (st_barrier_gen s)[block := st_barrier_gen s ! block + 1],
       st_barrier_loc := (st_barrier_loc s)[block := None]\<rparr>"

definition barrier :: "sched_config \<Rightarrow> world \<Rightarrow> nat \<Rightarrow> location \<Rightarrow> world \<times> turn" where
  "barrier cfg w me loc =
     (let block = me div sc_tpb cfg;
          s1 = arrive_at_barrier me block loc (w_st w);
          range = block_range cfg block
      in if list_ex (\<lambda>i. st_status s1 ! i = Finished) range
         then (barrier_divergence cfg (w\<lparr>w_st := s1\<rparr>) block, Unwind)
         else let s2 = (if list_all (\<lambda>i. st_status s1 ! i = AtBarrier) range
                        then release_barrier cfg block s1 else s1)
              in hand_off cfg (w\<lparr>w_st := s2\<rparr>) me)"

section \<open>Warp collectives\<close>

definition park_at_warp :: "nat \<Rightarrow> warp_wait \<Rightarrow> sched_state \<Rightarrow> sched_state" where
  "park_at_warp me wait s =
     s\<lparr>st_status := (st_status s)[me := AtWarp], st_warp_wait := (st_warp_wait s)[me := Some wait]\<rparr>"

definition members :: "sched_config \<Rightarrow> nat \<Rightarrow> nat \<Rightarrow> u32 \<Rightarrow> nat list" where
  "members cfg block warp msk =
     map (\<lambda>l. warp_base cfg block warp + l) (filter (\<lambda>l. has_lane msk l) [0..<lanes_in cfg warp])"

text \<open>Whether the lane at \<open>l\<close> disagrees with \<open>me\<close> about who takes part.\<close>

definition mask_clash ::
  "sched_config \<Rightarrow> sched_state \<Rightarrow> nat \<Rightarrow> nat \<Rightarrow> nat \<Rightarrow> nat \<Rightarrow> warp_wait \<Rightarrow> nat \<Rightarrow> bool" where
  "mask_clash cfg s me block warp lane wait l =
     (let p = warp_base cfg block warp + l
      in p \<noteq> me \<and> st_status s ! p = AtWarp
         \<and> (case st_warp_wait s ! p of
              None \<Rightarrow> False
            | Some other \<Rightarrow>
                ww_phase other = ww_phase wait \<and> ww_at other = ww_at wait
                \<and> ww_mask other \<noteq> ww_mask wait
                \<and> (has_lane (ww_mask wait) l \<or> has_lane (ww_mask other) lane)))"

definition mismatch_of ::
  "sched_config \<Rightarrow> sched_state \<Rightarrow> nat \<Rightarrow> nat \<Rightarrow> nat \<Rightarrow> warp_wait \<Rightarrow> nat \<Rightarrow> diagnostic" where
  "mismatch_of cfg s block warp lane wait l =
     WarpMaskMismatch (of_nat block) (of_nat warp) (ww_op wait) (ww_at wait) (of_nat lane)
       (ww_mask wait) (of_nat l)
       (case st_warp_wait s ! (warp_base cfg block warp + l) of
          Some other \<Rightarrow> ww_mask other | None \<Rightarrow> 0)"

definition release_warp ::
  "sched_config \<Rightarrow> nat \<Rightarrow> nat \<Rightarrow> warp_wait \<Rightarrow> nat list \<Rightarrow> sched_state \<Rightarrow> sched_state" where
  "release_warp cfg block warp wait ps s =
     (let s1 = s\<lparr>st_status := set_all ps Runnable (st_status s),
                 st_warp_wait := set_all ps None (st_warp_wait s)\<rparr>;
          g = warp_gen_index cfg block warp
      in if ww_phase wait = phase_depart \<and> ww_mask wait = valid_mask cfg warp
         then s1\<lparr>st_warp_gen := (st_warp_gen s1)[g := st_warp_gen s1 ! g + 1]\<rparr>
         else s1)"

definition warp_rendezvous ::
  "sched_config \<Rightarrow> world \<Rightarrow> nat \<Rightarrow> u8 \<Rightarrow> u32 \<Rightarrow> location \<Rightarrow> string \<Rightarrow> world \<times> turn" where
  "warp_rendezvous cfg w me phase msk loc op =
     (case locate cfg me of (block, warp, lane) \<Rightarrow>
        let wait = \<lparr>ww_phase = phase, ww_mask = msk, ww_at = loc, ww_op = op\<rparr>;
            s1 = park_at_warp me wait (w_st w);
            w1 = w\<lparr>w_st := s1\<rparr>;
            ps = members cfg block warp msk
        in if list_ex (\<lambda>p. st_status s1 ! p = Finished) ps
           then (fail cfg (warp_divergence_of cfg s1 block warp wait) w1, Unwind)
           else
             (case find (mask_clash cfg s1 me block warp lane wait) [0..<lanes_in cfg warp] of
                Some l \<Rightarrow> (fail cfg (mismatch_of cfg s1 block warp lane wait l) w1, Unwind)
              | None \<Rightarrow>
                  let s2 = (if list_all
                                 (\<lambda>p. st_status s1 ! p = AtWarp \<and> st_warp_wait s1 ! p = Some wait) ps
                            then release_warp cfg block warp wait ps s1 else s1)
                  in hand_off cfg (w\<lparr>w_st := s2\<rparr>) me))"

section \<open>Leaving the kernel\<close>

definition abandoned ::
  "sched_config \<Rightarrow> sched_state \<Rightarrow> nat \<Rightarrow> nat \<Rightarrow> nat \<Rightarrow> nat \<Rightarrow> bool" where
  "abandoned cfg s block warp lane l =
     (let p = warp_base cfg block warp + l
      in st_status s ! p = AtWarp
         \<and> (case st_warp_wait s ! p of None \<Rightarrow> False | Some wait \<Rightarrow> has_lane (ww_mask wait) lane))"

definition finish :: "sched_config \<Rightarrow> world \<Rightarrow> nat \<Rightarrow> world" where
  "finish cfg w me =
     (case locate cfg me of (block, warp, lane) \<Rightarrow>
        let s1 = (w_st w)\<lparr>st_status := (st_status (w_st w))[me := Finished]\<rparr>;
            w1 = w\<lparr>w_st := s1\<rparr>
        in case find (abandoned cfg s1 block warp lane) [0..<lanes_in cfg warp] of
             Some l \<Rightarrow>
               fail cfg
                 (warp_divergence_of cfg s1 block warp
                    (the (st_warp_wait s1 ! (warp_base cfg block warp + l)))) w1
           | None \<Rightarrow>
               if list_ex (\<lambda>i. st_status s1 ! i = AtBarrier) (block_range cfg block)
               then barrier_divergence cfg w1 block
               else
                 let w2 = w\<lparr>w_st := pick_next s1\<rparr>;
                     w3 = (if st_current (w_st w2) = None
                              \<and> list_ex (\<lambda>st. st \<noteq> Finished) (st_status (w_st w2))
                           then detect_stuck cfg w2 else w2)
                 in wake cfg w3)"

definition abort :: "sched_config \<Rightarrow> world \<Rightarrow> world" where
  "abort cfg w = wake cfg (set_aborted w)"

definition was_aborted :: "world \<Rightarrow> bool" where
  "was_aborted w = st_aborted (w_st w)"

end
