(* ===== verification/Sched_Inv.thy ===== *)
theory Sched_Inv
  imports Sched
begin

text \<open>
  The invariant of the scheduler. The first part is the geometry of blocks, warps and lanes; the
  second what holds of the state between operations, and that every operation keeps it. The step
  relation lets the holder of the turn do any operation the kernel side can do.
\<close>

section \<open>Geometry\<close>

definition cfg_ok :: "sched_config \<Rightarrow> bool" where
  "cfg_ok cfg \<longleftrightarrow> 0 < sc_blocks cfg \<and> 0 < sc_tpb cfg \<and> 0 < sc_warp_size cfg \<and> sc_warp_size cfg \<le> 32
     \<and> sc_warps_per_block cfg = div_ceil (sc_tpb cfg) (sc_warp_size cfg)
     \<and> total_threads cfg < 2 ^ 32"

definition block_of :: "sched_config \<Rightarrow> nat \<Rightarrow> nat" where
  "block_of cfg i = i div sc_tpb cfg"

definition warp_of :: "sched_config \<Rightarrow> nat \<Rightarrow> nat" where
  "warp_of cfg i = i mod sc_tpb cfg div sc_warp_size cfg"

definition lane_of :: "sched_config \<Rightarrow> nat \<Rightarrow> nat" where
  "lane_of cfg i = i mod sc_tpb cfg mod sc_warp_size cfg"

definition mates :: "sched_config \<Rightarrow> nat \<Rightarrow> nat \<Rightarrow> bool" where
  "mates cfg i j \<longleftrightarrow> block_of cfg i = block_of cfg j \<and> warp_of cfg i = warp_of cfg j"

lemma mates_refl [simp]: "mates cfg i i"
  by (simp add: mates_def)

lemma mates_sym: "mates cfg i j \<longleftrightarrow> mates cfg j i"
  by (auto simp: mates_def)

lemma mates_trans: "mates cfg i j \<Longrightarrow> mates cfg j k \<Longrightarrow> mates cfg i k"
  by (auto simp: mates_def)

lemma mates_block: "mates cfg i j \<Longrightarrow> block_of cfg j = block_of cfg i"
  by (simp add: mates_def)

lemma locate_eq [simp]: "locate cfg i = (block_of cfg i, warp_of cfg i, lane_of cfg i)"
  by (simp add: locate_def block_of_def warp_of_def lane_of_def Let_def)

lemma cfg_okD:
  assumes "cfg_ok cfg"
  shows "0 < sc_blocks cfg" "0 < sc_tpb cfg" "0 < sc_warp_size cfg" "sc_warp_size cfg \<le> 32"
    "sc_warps_per_block cfg = div_ceil (sc_tpb cfg) (sc_warp_size cfg)"
    "total_threads cfg < 2 ^ 32"
  using assms by (auto simp: cfg_ok_def)

lemma set_block_range:
  assumes "cfg_ok cfg"
  shows "set (block_range cfg b) = {i. block_of cfg i = b}"
proof -
  have pos: "0 < sc_tpb cfg" using assms by (rule cfg_okD)
  have "b * sc_tpb cfg \<le> i \<and> i < (b + 1) * sc_tpb cfg \<longleftrightarrow> b \<le> i div sc_tpb cfg \<and> i div sc_tpb cfg < b + 1"
    for i
    by (simp only: less_eq_div_iff_mult_less_eq [OF pos] div_less_iff_less_mult [OF pos])
  then have "b * sc_tpb cfg \<le> i \<and> i < (b + 1) * sc_tpb cfg \<longleftrightarrow> i div sc_tpb cfg = b" for i
    by (simp only: less_Suc_eq_le Suc_eq_plus1 [symmetric] eq_iff conj_commute)
  then show ?thesis by (simp only: block_range_def block_of_def set_upt atLeastLessThan_def atLeast_def lessThan_def Int_def mem_Collect_eq)
qed

lemma block_of_less_iff:
  assumes "cfg_ok cfg"
  shows "i < total_threads cfg \<longleftrightarrow> block_of cfg i < sc_blocks cfg"
  using cfg_okD(2) [OF assms] by (simp add: total_threads_def block_of_def div_less_iff_less_mult)

lemma mates_less: "cfg_ok cfg \<Longrightarrow> mates cfg i j \<Longrightarrow> i < total_threads cfg \<Longrightarrow> j < total_threads cfg"
  by (simp add: block_of_less_iff mates_def)

lemma base_plus_lane: "warp_base cfg (block_of cfg i) (warp_of cfg i) + lane_of cfg i = i"
  by (simp add: warp_base_def block_of_def warp_of_def lane_of_def add.assoc)

lemma mates_same_lane: "mates cfg i j \<Longrightarrow> mates cfg i k \<Longrightarrow> lane_of cfg j = lane_of cfg k \<Longrightarrow> j = k"
  by (metis base_plus_lane mates_def)

lemma lane_coords:
  assumes "cfg_ok cfg" and "l < lanes_in cfg wp"
  shows "block_of cfg (warp_base cfg b wp + l) = b" "warp_of cfg (warp_base cfg b wp + l) = wp"
    "lane_of cfg (warp_base cfg b wp + l) = l"
proof -
  let ?t = "wp * sc_warp_size cfg + l"
  have t: "?t < sc_tpb cfg" and l: "l < sc_warp_size cfg" using assms(2) by (auto simp: lanes_in_def)
  have eq: "warp_base cfg b wp + l = b * sc_tpb cfg + ?t" by (simp add: warp_base_def)
  have "0 < sc_tpb cfg" using assms(1) by (rule cfg_okD)
  then have m: "(b * sc_tpb cfg + ?t) mod sc_tpb cfg = ?t"
    and d: "(b * sc_tpb cfg + ?t) div sc_tpb cfg = b"
    using div_mod_block t by auto
  show "block_of cfg (warp_base cfg b wp + l) = b" unfolding eq block_of_def by (rule d)
  show "warp_of cfg (warp_base cfg b wp + l) = wp" unfolding eq warp_of_def m using l by simp
  show "lane_of cfg (warp_base cfg b wp + l) = l" unfolding eq lane_of_def m using l by simp
qed

lemma lane_of_less:
  assumes "cfg_ok cfg"
  shows "lane_of cfg i < lanes_in cfg (warp_of cfg i)"
proof -
  let ?t = "i mod sc_tpb cfg" and ?w = "sc_warp_size cfg"
  have "?t mod ?w < ?w" using cfg_okD(3) [OF assms] by simp
  moreover have "?t < sc_tpb cfg" using cfg_okD(2) [OF assms] by simp
  then have "?t mod ?w < sc_tpb cfg - ?t div ?w * ?w"
    by (metis add.commute div_mult_mod_eq less_diff_conv)
  ultimately show ?thesis by (simp add: lanes_in_def lane_of_def warp_of_def)
qed

lemma lane_of_less_32: "cfg_ok cfg \<Longrightarrow> lane_of cfg i < 32"
  using lane_of_less [of cfg i] cfg_okD(4) [of cfg] by (simp add: lanes_in_def)

lemma warp_of_less: "cfg_ok cfg \<Longrightarrow> warp_of cfg i < sc_warps_per_block cfg"
  by (simp add: warp_of_def cfg_okD(2,3,5) less_div_ceil)

text \<open>Scanning the lanes of a warp is quantifying over warp-mates.\<close>

lemma ex_lane_iff:
  assumes "cfg_ok cfg"
  shows "(\<exists>l < lanes_in cfg (warp_of cfg me).
            P (warp_base cfg (block_of cfg me) (warp_of cfg me) + l) l)
     \<longleftrightarrow> (\<exists>p. mates cfg me p \<and> P p (lane_of cfg p))"
proof
  assume "\<exists>l < lanes_in cfg (warp_of cfg me).
            P (warp_base cfg (block_of cfg me) (warp_of cfg me) + l) l"
  then obtain l where "l < lanes_in cfg (warp_of cfg me)"
    and "P (warp_base cfg (block_of cfg me) (warp_of cfg me) + l) l" by blast
  then show "\<exists>p. mates cfg me p \<and> P p (lane_of cfg p)"
    using lane_coords [OF assms] by (intro exI [of _ "warp_base cfg (block_of cfg me) (warp_of cfg me) + l"])
      (simp add: mates_def)
next
  assume "\<exists>p. mates cfg me p \<and> P p (lane_of cfg p)"
  then obtain p where p: "mates cfg me p" "P p (lane_of cfg p)" by blast
  then show "\<exists>l < lanes_in cfg (warp_of cfg me).
            P (warp_base cfg (block_of cfg me) (warp_of cfg me) + l) l"
    using lane_of_less [OF assms, of p] base_plus_lane [of cfg p]
    by (intro exI [of _ "lane_of cfg p"]) (simp add: mates_def)
qed

lemma set_members:
  assumes "cfg_ok cfg"
  shows "set (members cfg (block_of cfg me) (warp_of cfg me) msk)
       = {p. mates cfg me p \<and> has_lane msk (lane_of cfg p)}"
proof -
  have "p \<in> set (members cfg (block_of cfg me) (warp_of cfg me) msk) \<longleftrightarrow>
      (\<exists>l < lanes_in cfg (warp_of cfg me).
         warp_base cfg (block_of cfg me) (warp_of cfg me) + l = p \<and> has_lane msk l)" for p
    by (auto simp: members_def)
  then show ?thesis
    using ex_lane_iff [OF assms, of me "\<lambda>q l. q = _ \<and> has_lane msk l"] by auto
qed

lemma bit_valid_mask:
  assumes "cfg_ok cfg"
  shows "bit (valid_mask cfg wp) l \<longleftrightarrow> l < lanes_in cfg wp"
proof -
  let ?n = "lanes_in cfg wp"
  have le: "?n \<le> 32" using cfg_okD(4) [OF assms] by (simp add: lanes_in_def)
  show ?thesis
  proof (cases "?n \<ge> 32")
    case True
    with le have n: "?n = 32" by simp
    show ?thesis using bit_u32_less [of "- 1" l] by (auto simp: valid_mask_def Let_def n bit_simps)
  next
    case False
    have "lane_bit ?n - 1 = (mask ?n :: u32)" by (simp add: lane_bit_def mask_eq_exp_minus_1)
    then show ?thesis using False by (auto simp: valid_mask_def Let_def bit_simps)
  qed
qed

section \<open>Updates of many positions\<close>

lemma length_set_all [simp]: "length (set_all ps v xs) = length xs"
  unfolding set_all_def by (induction ps arbitrary: xs) auto

lemma nth_set_all:
  "i < length xs \<Longrightarrow> set_all ps v xs ! i = (if i \<in> set ps then v else xs ! i)"
  unfolding set_all_def by (induction ps arbitrary: xs) (auto simp: nth_list_update)

section \<open>The invariant\<close>

definition shape_ok :: "sched_config \<Rightarrow> sched_state \<Rightarrow> bool" where
  "shape_ok cfg s \<longleftrightarrow>
     length (st_status s) = total_threads cfg \<and> length (st_warp_wait s) = total_threads cfg
     \<and> length (st_barrier_gen s) = sc_blocks cfg \<and> length (st_barrier_loc s) = sc_blocks cfg
     \<and> length (st_warp_gen s) = sc_blocks cfg * sc_warps_per_block cfg"

text \<open>A thread has a wait record exactly while it is parked at a collective.\<close>

definition waits_ok :: "sched_config \<Rightarrow> sched_state \<Rightarrow> bool" where
  "waits_ok cfg s \<longleftrightarrow>
     (\<forall>i < total_threads cfg. st_status s ! i = AtWarp \<longleftrightarrow> st_warp_wait s ! i \<noteq> None)"

text \<open>A block has a barrier location exactly while one of its threads waits at a barrier.\<close>

definition locs_ok :: "sched_config \<Rightarrow> sched_state \<Rightarrow> bool" where
  "locs_ok cfg s \<longleftrightarrow>
     (\<forall>b < sc_blocks cfg. st_barrier_loc s ! b \<noteq> None
        \<longleftrightarrow> (\<exists>i. block_of cfg i = b \<and> st_status s ! i = AtBarrier))"

text \<open>No thread waits at a barrier that has released, or that a block-mate can no longer reach.\<close>

definition barrier_waits_ok :: "sched_config \<Rightarrow> sched_state \<Rightarrow> nat \<Rightarrow> bool" where
  "barrier_waits_ok cfg s i \<longleftrightarrow>
     (\<forall>j. block_of cfg j = block_of cfg i \<longrightarrow> st_status s ! j \<noteq> Finished)
     \<and> (\<exists>j. block_of cfg j = block_of cfg i \<and> st_status s ! j \<noteq> AtBarrier)"

definition barriers_ok :: "sched_config \<Rightarrow> sched_state \<Rightarrow> bool" where
  "barriers_ok cfg s \<longleftrightarrow>
     (\<forall>i < total_threads cfg. st_status s ! i = AtBarrier \<longrightarrow> barrier_waits_ok cfg s i)"

text \<open>
  The same for collectives: a parked lane is in its own mask, none of its mask-mates has left, those
  at the same place agree with it on the mask, and not all of them are there.
\<close>

definition lane_waits_ok :: "sched_config \<Rightarrow> sched_state \<Rightarrow> nat \<Rightarrow> warp_wait \<Rightarrow> bool" where
  "lane_waits_ok cfg s i wt \<longleftrightarrow>
     has_lane (ww_mask wt) (lane_of cfg i)
     \<and> ww_mask wt AND NOT (valid_mask cfg (warp_of cfg i)) = 0
     \<and> (\<forall>j. mates cfg i j \<and> has_lane (ww_mask wt) (lane_of cfg j) \<longrightarrow> st_status s ! j \<noteq> Finished)
     \<and> (\<forall>j w'. mates cfg i j \<and> st_warp_wait s ! j = Some w' \<and> ww_phase w' = ww_phase wt
           \<and> ww_at w' = ww_at wt \<and> has_lane (ww_mask wt) (lane_of cfg j) \<longrightarrow> ww_mask w' = ww_mask wt)
     \<and> (\<exists>j. mates cfg i j \<and> has_lane (ww_mask wt) (lane_of cfg j) \<and> st_warp_wait s ! j \<noteq> Some wt)"

definition warps_ok :: "sched_config \<Rightarrow> sched_state \<Rightarrow> bool" where
  "warps_ok cfg s \<longleftrightarrow>
     (\<forall>i < total_threads cfg. \<forall>wt. st_warp_wait s ! i = Some wt \<longrightarrow> lane_waits_ok cfg s i wt)"

definition turn_ok :: "sched_config \<Rightarrow> sched_state \<Rightarrow> bool" where
  "turn_ok cfg s \<longleftrightarrow>
     (case st_current s of
        Some c \<Rightarrow> c < total_threads cfg \<and> st_status s ! c = Runnable
      | None \<Rightarrow> \<forall>i < total_threads cfg. st_status s ! i = Finished)"

definition base_ok :: "sched_config \<Rightarrow> sched_state \<Rightarrow> bool" where
  "base_ok cfg s \<longleftrightarrow> shape_ok cfg s \<and> waits_ok cfg s \<and> locs_ok cfg s"

definition core_ok :: "sched_config \<Rightarrow> sched_state \<Rightarrow> bool" where
  "core_ok cfg s \<longleftrightarrow> base_ok cfg s \<and> barriers_ok cfg s \<and> warps_ok cfg s"

definition world_ok :: "sched_config \<Rightarrow> world \<Rightarrow> bool" where
  "world_ok cfg w \<longleftrightarrow>
     base_ok cfg (w_st w) \<and> reporter_ok (w_rep w)
     \<and> (if st_aborted (w_st w) then rep_diags (w_rep w) \<noteq> []
        else core_ok cfg (w_st w) \<and> turn_ok cfg (w_st w))"

end
