(* ===== verification/Sched_Steps.thy ===== *)
theory Sched_Steps
  imports Sched_Inv
begin

text \<open>
  Every operation of the scheduler keeps the invariant of \<open>Sched_Inv\<close>; the step relation of a launch
  and the properties of every reachable state.
\<close>

section \<open>Choosing\<close>

lemma set_runnable_list:
  "set (runnable_list s) = {i. i < length (st_status s) \<and> st_status s ! i = Runnable}"
  by (auto simp: runnable_list_def)

lemma length_runnable_list: "length (runnable_list s) \<le> length (st_status s)"
  unfolding runnable_list_def by (metis length_filter_le length_upt minus_nat.diff_0)

lemma mod_length_less:
  assumes "0 < n" and "n < 2 ^ 64"
  shows "unat ((z :: u64) mod of_nat n) < n"
proof -
  have "unat (of_nat n :: u64) = n" using assms(2) by (simp add: unat_of_nat)
  then show ?thesis using assms(1) by (simp add: unat_mod)
qed

lemma choose_next_runnable:
  assumes "runnable \<noteq> []" and "length runnable < 2 ^ 64"
  shows "fst (choose_next ch previous runnable) \<in> set runnable"
proof (cases ch)
  case (Random rng)
  then show ?thesis
    using mod_length_less [of "length runnable"] assms
    by (auto simp: choose_next_def split: prod.splits intro!: nth_mem)
next
  case (Replay plan cursor)
  then show ?thesis
    using assms nth_mem [of 0 runnable]
    by (auto simp: choose_next_def Let_def split: option.splits)
qed

lemma record_choice_fields [simp]:
  "st_current (record_choice s c) = st_current s"
  "st_status (record_choice s c) = st_status s"
  "st_barrier_gen (record_choice s c) = st_barrier_gen s"
  "st_barrier_loc (record_choice s c) = st_barrier_loc s"
  "st_warp_wait (record_choice s c) = st_warp_wait s"
  "st_warp_gen (record_choice s c) = st_warp_gen s"
  "st_choices (record_choice s c) = st_choices s"
  "st_aborted (record_choice s c) = st_aborted s"
  by (simp_all add: record_choice_def)

lemma pick_next_fields [simp]:
  "st_status (pick_next s) = st_status s"
  "st_barrier_gen (pick_next s) = st_barrier_gen s"
  "st_barrier_loc (pick_next s) = st_barrier_loc s"
  "st_warp_wait (pick_next s) = st_warp_wait s"
  "st_warp_gen (pick_next s) = st_warp_gen s"
  "st_aborted (pick_next s) = st_aborted s"
  by (simp_all add: pick_next_def Let_def split: prod.splits)

lemma pick_next_current:
  "st_current (pick_next s) =
     (if runnable_list s = [] then None
      else Some (fst (choose_next (st_choices s) (st_current s) (runnable_list s))))"
  by (simp add: pick_next_def Let_def split: prod.splits)

text \<open>The parts of the invariant look at nothing that choosing changes.\<close>

definition same_core :: "sched_state \<Rightarrow> sched_state \<Rightarrow> bool" where
  "same_core s s' \<longleftrightarrow>
     st_status s' = st_status s \<and> st_barrier_gen s' = st_barrier_gen s
     \<and> st_barrier_loc s' = st_barrier_loc s \<and> st_warp_wait s' = st_warp_wait s
     \<and> st_warp_gen s' = st_warp_gen s"

lemma same_core_ok:
  assumes "same_core s s'"
  shows "base_ok cfg s' \<longleftrightarrow> base_ok cfg s" "core_ok cfg s' \<longleftrightarrow> core_ok cfg s"
  using assms
  by (simp_all add: same_core_def base_ok_def core_ok_def shape_ok_def waits_ok_def locs_ok_def
      barriers_ok_def barrier_waits_ok_def warps_ok_def lane_waits_ok_def)

lemma same_core_refl [simp]: "same_core s s"
  by (simp add: same_core_def)

lemma same_core_pick_next [simp]: "same_core s (pick_next s)"
  by (simp add: same_core_def)

lemma same_core_aborted [simp]: "same_core s (s\<lparr>st_aborted := a\<rparr>)"
  by (simp add: same_core_def)

lemma shape_lengths:
  assumes "base_ok cfg s"
  shows "length (st_status s) = total_threads cfg" "length (st_warp_wait s) = total_threads cfg"
    "length (st_barrier_loc s) = sc_blocks cfg" "length (st_barrier_gen s) = sc_blocks cfg"
    "length (st_warp_gen s) = sc_blocks cfg * sc_warps_per_block cfg"
  using assms by (auto simp: base_ok_def shape_ok_def)

lemma pick_next_turn:
  assumes "cfg_ok cfg" and "base_ok cfg s" and "st_current (pick_next s) = Some c"
  shows "c < total_threads cfg" and "st_status s ! c = Runnable"
proof -
  have ne: "runnable_list s \<noteq> []" and c: "c = fst (choose_next (st_choices s) (st_current s) (runnable_list s))"
    using assms(3) by (auto simp: pick_next_current split: if_splits)
  have "length (runnable_list s) < 2 ^ 64"
    using length_runnable_list [of s] shape_lengths(1) [OF assms(2)] cfg_okD(6) [OF assms(1)] by simp
  from choose_next_runnable [OF ne this] have "c \<in> set (runnable_list s)" by (simp add: c)
  then show "c < total_threads cfg" and "st_status s ! c = Runnable"
    using shape_lengths(1) [OF assms(2)] by (auto simp: set_runnable_list)
qed

lemma pick_next_None:
  assumes "base_ok cfg s"
  shows "st_current (pick_next s) = None \<longleftrightarrow> (\<forall>i < total_threads cfg. st_status s ! i \<noteq> Runnable)"
proof -
  have "runnable_list s = [] \<longleftrightarrow> set (runnable_list s) = {}" by simp
  then show ?thesis using shape_lengths(1) [OF assms] by (auto simp: pick_next_current set_runnable_list)
qed

section \<open>Deadlock detection always has something to say\<close>

lemma ex_warp_coords:
  assumes "cfg_ok cfg" and "i < total_threads cfg"
  shows "(block_of cfg i, warp_of cfg i) \<in> set (List.product [0..<sc_blocks cfg] [0..<sc_warps_per_block cfg])"
  using assms warp_of_less [OF assms(1), of i] by (simp add: block_of_less_iff)

lemma stuck_warp_Some:
  assumes ok: "cfg_ok cfg" and base: "base_ok cfg s" and b: "b < sc_blocks cfg"
  shows "stuck_warp cfg s b wp = Some d \<longleftrightarrow>
    (\<exists>i wt. block_of cfg i = b \<and> warp_of cfg i = wp \<and> st_warp_wait s ! i = Some wt
        \<and> st_status s ! i = AtWarp \<and> d = warp_divergence_of cfg s b wp wt
        \<and> (\<forall>l < lane_of cfg i. st_status s ! (warp_base cfg b wp + l) \<noteq> AtWarp))"
proof -
  let ?P = "\<lambda>l. st_status s ! (warp_base cfg b wp + l) = AtWarp"
  let ?ls = "filter ?P [0..<lanes_in cfg wp]"
  have lt: "warp_base cfg b wp + l < total_threads cfg" if "l < lanes_in cfg wp" for l
    using lane_coords(1) [OF ok that, of b] b by (simp add: block_of_less_iff [OF ok])
  have some: "st_warp_wait s ! (warp_base cfg b wp + l) \<noteq> None" if "l < lanes_in cfg wp" "?P l" for l
    using base lt [OF that(1)] that(2) by (auto simp: base_ok_def waits_ok_def)
  have hd: "?ls = l # rest \<Longrightarrow> l < lanes_in cfg wp \<and> ?P l \<and> (\<forall>k < l. \<not> ?P k)" for l rest
  proof -
    assume eq: "?ls = l # rest"
    then have "l \<in> set ?ls" by simp
    moreover have "sorted_wrt (<) ?ls" by (simp add: sorted_wrt_filter)
    then have "\<forall>k \<in> set rest. l < k" using eq by simp
    then have "k \<in> set ?ls \<Longrightarrow> l \<le> k" for k using eq by auto
    then have "\<forall>k < l. \<not> (k < lanes_in cfg wp \<and> ?P k)" by fastforce
    ultimately show ?thesis by auto
  qed
  show ?thesis (is "?L \<longleftrightarrow> ?R")
  proof
    assume ?L
    then obtain l rest wt where ls: "?ls = l # rest"
      and wt: "st_warp_wait s ! (warp_base cfg b wp + l) = Some wt"
      and d: "d = warp_divergence_of cfg s b wp wt"
      by (auto simp: stuck_warp_def Let_def split: list.splits option.splits)
    have l: "l < lanes_in cfg wp" "?P l" "\<forall>k < l. \<not> ?P k" using hd [OF ls] by auto
    show ?R
      using l wt d lane_coords [OF ok l(1), of b] by (intro exI [of _ "warp_base cfg b wp + l"]) auto
  next
    assume ?R
    then obtain i wt where i: "block_of cfg i = b" "warp_of cfg i = wp" "st_warp_wait s ! i = Some wt"
      "st_status s ! i = AtWarp" "d = warp_divergence_of cfg s b wp wt"
      "\<forall>l < lane_of cfg i. \<not> ?P l" by blast
    have ibase: "warp_base cfg b wp + lane_of cfg i = i" using base_plus_lane [of cfg i] i by simp
    have il: "lane_of cfg i < lanes_in cfg wp" using lane_of_less [OF ok, of i] i by simp
    then have "lane_of cfg i \<in> set ?ls" using i ibase by simp
    then obtain l rest where ls: "?ls = l # rest" by (cases ?ls) auto
    have "l = lane_of cfg i"
    proof -
      have "?P l" "\<forall>k < l. \<not> ?P k" using hd [OF ls] by auto
      then show ?thesis using i(4,6) ibase by (metis linorder_neqE_nat)
    qed
    then show ?L using ls i ibase by (simp add: stuck_warp_def Let_def)
  qed
qed

lemma in_stuck_warps:
  "d \<in> set (stuck_warps cfg s) \<longleftrightarrow>
     (\<exists>b < sc_blocks cfg. \<exists>wp < sc_warps_per_block cfg. stuck_warp cfg s b wp = Some d)"
  unfolding stuck_warps_def in_map_filter set_product by (simp add: Bex_def)

lemma stuck_warps_empty:
  assumes ok: "cfg_ok cfg" and base: "base_ok cfg s"
  shows "stuck_warps cfg s = [] \<longleftrightarrow> (\<forall>i < total_threads cfg. st_status s ! i \<noteq> AtWarp)"
proof -
  have "stuck_warp cfg s b wp = None \<longleftrightarrow>
      (\<forall>l < lanes_in cfg wp. st_status s ! (warp_base cfg b wp + l) \<noteq> AtWarp)"
    if b: "b < sc_blocks cfg" for b wp
  proof -
    let ?ls = "filter (\<lambda>l. st_status s ! (warp_base cfg b wp + l) = AtWarp) [0..<lanes_in cfg wp]"
    have "st_warp_wait s ! (warp_base cfg b wp + l) \<noteq> None" if "l \<in> set ?ls" for l
    proof -
      have "warp_base cfg b wp + l < total_threads cfg"
        using that lane_coords(1) [OF ok, of l wp b] b by (simp add: block_of_less_iff [OF ok])
      then show ?thesis using that base by (auto simp: base_ok_def waits_ok_def)
    qed
    then have "stuck_warp cfg s b wp = None \<longleftrightarrow> ?ls = []"
      by (cases ?ls) (fastforce simp: stuck_warp_def Let_def)+
    then show ?thesis by (auto simp: filter_empty_conv)
  qed
  then have "stuck_warps cfg s = [] \<longleftrightarrow> (\<forall>b < sc_blocks cfg. \<forall>wp < sc_warps_per_block cfg.
      \<forall>l < lanes_in cfg wp. st_status s ! (warp_base cfg b wp + l) \<noteq> AtWarp)"
    by (auto simp: stuck_warps_def map_filter_empty)
  also have "\<dots> \<longleftrightarrow> (\<forall>i < total_threads cfg. st_status s ! i \<noteq> AtWarp)"
    using lane_coords [OF ok] base_plus_lane [of cfg] lane_of_less [OF ok] warp_of_less [OF ok]
    by (metis block_of_less_iff [OF ok])
  finally show ?thesis .
qed

lemma stuck_barriers_empty:
  assumes ok: "cfg_ok cfg"
  shows "stuck_barriers cfg s = [] \<longleftrightarrow> (\<forall>i < total_threads cfg. st_status s ! i \<noteq> AtBarrier)"
  by (auto simp: stuck_barriers_def filter_empty_conv set_block_range [OF ok] block_of_less_iff [OF ok])

section \<open>Passing the turn keeps the invariant\<close>

lemma world_fields [simp]:
  "w_st (wake cfg w) = w_st w" "w_rep (wake cfg w) = w_rep w"
  "w_st (push_finding d w) = w_st w" "w_rep (push_finding d w) = reporter_push (w_rep w) d"
  "w_st (set_aborted w) = (w_st w)\<lparr>st_aborted := True\<rparr>" "w_rep (set_aborted w) = w_rep w"
  by (simp_all add: wake_def push_finding_def set_aborted_def)

lemma world_ok_wake [simp]: "world_ok cfg (wake cfg w) \<longleftrightarrow> world_ok cfg w"
  by (simp add: world_ok_def)

lemma fail_ok:
  assumes "base_ok cfg (w_st w)" and "reporter_ok (w_rep w)"
  shows "world_ok cfg (fail cfg d w)" and "st_aborted (w_st (fail cfg d w))"
  using assms sink.push_ok sink.push_nonempty
  by (simp_all add: fail_def world_ok_def same_core_ok(1) [OF same_core_aborted])

lemma detect_stuck_ok:
  assumes ok: "cfg_ok cfg" and base: "base_ok cfg (w_st w)" and rep: "reporter_ok (w_rep w)"
    and parked: "\<exists>i < total_threads cfg. st_status (w_st w) ! i = AtWarp \<or> st_status (w_st w) ! i = AtBarrier"
  shows "world_ok cfg (detect_stuck cfg w)" and "st_aborted (w_st (detect_stuck cfg w))"
proof -
  let ?reported = "stuck_warps cfg (w_st w)"
  let ?ds = "if ?reported = [] then stuck_barriers cfg (w_st w) else ?reported"
  have ne: "?ds \<noteq> []"
    using parked stuck_warps_empty [OF ok base] stuck_barriers_empty [OF ok, of "w_st w"] by auto
  have eq: "detect_stuck cfg w = set_aborted (w\<lparr>w_rep := foldl reporter_push (w_rep w) ?ds\<rparr>)"
    by (simp add: detect_stuck_def Let_def)
  show "st_aborted (w_st (detect_stuck cfg w))" by (simp add: eq)
  have "rep_diags (foldl reporter_push (w_rep w) ?ds) \<noteq> []"
    using sink.pushes_nonempty [OF rep, of ?ds] ne by blast
  moreover have "reporter_ok (foldl reporter_push (w_rep w) ?ds)"
    using sink.pushes_ok [OF rep] by blast
  ultimately show "world_ok cfg (detect_stuck cfg w)"
    unfolding eq using base by (simp add: world_ok_def same_core_ok(1) [OF same_core_aborted])
qed

text \<open>
  Choosing when the core of the invariant holds: somebody runs, everybody has left, or the deadlock
  is reported.
\<close>

lemma pick_or_stuck_ok:
  assumes ok: "cfg_ok cfg" and core: "core_ok cfg (w_st w)" and rep: "reporter_ok (w_rep w)"
    and run: "\<not> st_aborted (w_st w)"
    and w': "w' = w\<lparr>w_st := pick_next (w_st w)\<rparr>"
    and stuck: "stuck \<longleftrightarrow> st_current (w_st w') = None \<and> \<not> (\<forall>i < total_threads cfg. st_status (w_st w) ! i = Finished)"
  shows "world_ok cfg (if stuck then detect_stuck cfg w' else w')"
proof -
  have base: "base_ok cfg (w_st w)" using core by (simp add: core_ok_def)
  have base': "base_ok cfg (w_st w')"
    using base by (simp add: w' same_core_ok(1) [OF same_core_pick_next])
  have core': "core_ok cfg (w_st w')"
    using core by (simp add: w' same_core_ok(2) [OF same_core_pick_next])
  show ?thesis
  proof (cases stuck)
    case True
    then obtain i where i: "i < total_threads cfg" "st_status (w_st w) ! i \<noteq> Finished"
      using stuck by blast
    have "st_current (pick_next (w_st w)) = None" using True stuck w' by simp
    then have "st_status (w_st w) ! i \<noteq> Runnable" using pick_next_None [OF base] i(1) by blast
    then have "st_status (w_st w) ! i = AtWarp \<or> st_status (w_st w) ! i = AtBarrier"
      using i(2) by (cases "st_status (w_st w) ! i") auto
    then show ?thesis
      using True detect_stuck_ok(1) [OF ok base'] rep i(1) by (auto simp: w')
  next
    case False
    have "turn_ok cfg (w_st w')"
    proof (cases "st_current (w_st w')")
      case None
      then show ?thesis using False stuck by (simp add: turn_ok_def w')
    next
      case (Some c)
      then show ?thesis using pick_next_turn [OF ok base, of c] by (simp add: turn_ok_def w')
    qed
    then show ?thesis using False run core' rep base' by (simp add: world_ok_def w')
  qed
qed

lemma hand_off_ok:
  assumes ok: "cfg_ok cfg" and core: "core_ok cfg (w_st w)" and rep: "reporter_ok (w_rep w)"
    and run: "\<not> st_aborted (w_st w)" and me: "me < total_threads cfg" "st_status (w_st w) ! me \<noteq> Finished"
  shows "world_ok cfg (fst (hand_off cfg w me))"
proof -
  let ?w' = "w\<lparr>w_st := pick_next (w_st w)\<rparr>"
  have "world_ok cfg (if st_current (w_st ?w') = None then detect_stuck cfg ?w' else ?w')"
    by (rule pick_or_stuck_ok [OF ok core rep run refl]) (use me in auto)
  then show ?thesis by (simp add: hand_off_def Let_def)
qed

lemma hand_off_turn: "snd (hand_off cfg w me) = turn_of (w_st (fst (hand_off cfg w me))) me"
  by (simp add: hand_off_def Let_def)

section \<open>Barriers keep the invariant\<close>

lemma arrive_fields [simp]:
  "st_status (arrive_at_barrier me b loc s) = (st_status s)[me := AtBarrier]"
  "st_barrier_loc (arrive_at_barrier me b loc s) =
     (st_barrier_loc s)[b := get_or_insert (st_barrier_loc s ! b) loc]"
  "st_barrier_gen (arrive_at_barrier me b loc s) = st_barrier_gen s"
  "st_warp_wait (arrive_at_barrier me b loc s) = st_warp_wait s"
  "st_warp_gen (arrive_at_barrier me b loc s) = st_warp_gen s"
  "st_aborted (arrive_at_barrier me b loc s) = st_aborted s"
  by (simp_all add: arrive_at_barrier_def)

lemma release_barrier_fields [simp]:
  "st_status (release_barrier cfg b s) = set_all (block_range cfg b) Runnable (st_status s)"
  "st_barrier_loc (release_barrier cfg b s) = (st_barrier_loc s)[b := None]"
  "st_barrier_gen (release_barrier cfg b s) = (st_barrier_gen s)[b := st_barrier_gen s ! b + 1]"
  "st_warp_wait (release_barrier cfg b s) = st_warp_wait s"
  "st_warp_gen (release_barrier cfg b s) = st_warp_gen s"
  "st_aborted (release_barrier cfg b s) = st_aborted s"
  by (simp_all add: release_barrier_def)

lemma get_or_insert_not_None [simp]: "get_or_insert x v \<noteq> None"
  by (simp add: get_or_insert_def split: option.split)

lemma status_at:
  "i < length xs \<Longrightarrow> xs[me := v] ! i = (if i = me then v else xs ! i)"
  by (simp add: nth_list_update)

lemma blockE:
  assumes "cfg_ok cfg" and "block_of cfg j = block_of cfg i" and "i < total_threads cfg"
  shows "j < total_threads cfg"
  using assms by (simp add: block_of_less_iff)

lemma arrive_base:
  assumes ok: "cfg_ok cfg" and base: "base_ok cfg s" and me: "me < total_threads cfg"
    and run: "st_status s ! me = Runnable"
  shows "base_ok cfg (arrive_at_barrier me (block_of cfg me) loc s)" (is "base_ok cfg ?s")
proof -
  have len: "length (st_status s) = total_threads cfg" "length (st_barrier_loc s) = sc_blocks cfg"
    using shape_lengths [OF base] by auto
  have b: "block_of cfg me < sc_blocks cfg" using me by (simp add: block_of_less_iff [OF ok])
  have "shape_ok cfg ?s" using base by (simp add: base_ok_def shape_ok_def)
  moreover have "waits_ok cfg ?s"
    using base run me by (auto simp: base_ok_def waits_ok_def status_at len)
  moreover have "locs_ok cfg ?s"
    unfolding locs_ok_def
  proof (intro allI impI)
    fix c
    assume c: "c < sc_blocks cfg"
    have old: "st_barrier_loc s ! c \<noteq> None \<longleftrightarrow> (\<exists>i. block_of cfg i = c \<and> st_status s ! i = AtBarrier)"
      using base c by (simp add: base_ok_def locs_ok_def)
    have at: "st_status ?s ! i = (if i = me then AtBarrier else st_status s ! i)"
      if "block_of cfg i = c" for i
      using that c by (simp add: status_at len block_of_less_iff [OF ok])
    show "st_barrier_loc ?s ! c \<noteq> None \<longleftrightarrow> (\<exists>i. block_of cfg i = c \<and> st_status ?s ! i = AtBarrier)"
    proof (cases "c = block_of cfg me")
      case True
      then have "st_status ?s ! me = AtBarrier" using at [of me] by simp
      then show ?thesis using True b by (auto simp: len)
    next
      case False
      then have "i \<noteq> me" if "block_of cfg i = c" for i using that by blast
      then have "(\<exists>i. block_of cfg i = c \<and> st_status ?s ! i = AtBarrier)
          \<longleftrightarrow> (\<exists>i. block_of cfg i = c \<and> st_status s ! i = AtBarrier)"
        using at by metis
      then show ?thesis using old False by (simp add: len)
    qed
  qed
  ultimately show ?thesis by (simp add: base_ok_def)
qed

text \<open>A thread that goes to a barrier changes nothing for parked warps and for other blocks.\<close>

lemma lane_waits_ok_mono:
  assumes "lane_waits_ok cfg s i wt" and "st_warp_wait s' = st_warp_wait s"
    and "\<And>j. mates cfg i j \<Longrightarrow> st_status s ! j \<noteq> Finished \<Longrightarrow> st_status s' ! j \<noteq> Finished"
  shows "lane_waits_ok cfg s' i wt"
  using assms(1,3) unfolding lane_waits_ok_def assms(2) by blast

lemma arrive_warps:
  assumes core: "core_ok cfg s"
  shows "warps_ok cfg (arrive_at_barrier me b loc s)"
proof -
  have keeps: "st_status s ! j \<noteq> Finished \<Longrightarrow> (st_status s)[me := AtBarrier] ! j \<noteq> Finished" for j
    by (cases "me = j"; cases "me < length (st_status s)") (auto simp: list_update_beyond not_less)
  show ?thesis
    unfolding warps_ok_def
  proof (intro allI impI)
    fix i wt
    assume "i < total_threads cfg" "st_warp_wait (arrive_at_barrier me b loc s) ! i = Some wt"
    then have "lane_waits_ok cfg s i wt" using core by (simp add: core_ok_def warps_ok_def)
    then show "lane_waits_ok cfg (arrive_at_barrier me b loc s) i wt"
      by (rule lane_waits_ok_mono) (simp_all add: keeps)
  qed
qed

lemma arrive_other_block:
  assumes ok: "cfg_ok cfg" and core: "core_ok cfg s"
    and i: "i < total_threads cfg" "block_of cfg i \<noteq> block_of cfg me" "st_status s ! i = AtBarrier"
  shows "barrier_waits_ok cfg (arrive_at_barrier me b loc s) i"
proof -
  have "barrier_waits_ok cfg s i" using core i by (simp add: core_ok_def barriers_ok_def)
  moreover have "(st_status s)[me := AtBarrier] ! j = st_status s ! j" if "block_of cfg j = block_of cfg i" for j
    using that i(2) by (metis nth_list_update_neq)
  ultimately show ?thesis by (simp add: barrier_waits_ok_def) metis
qed

lemma arrive_core:
  assumes ok: "cfg_ok cfg" and core: "core_ok cfg s" and me: "me < total_threads cfg"
    and run: "st_status s ! me = Runnable"
    and s1: "s1 = arrive_at_barrier me (block_of cfg me) loc s"
    and nofin: "\<forall>i. block_of cfg i = block_of cfg me \<longrightarrow> st_status s1 ! i \<noteq> Finished"
    and some: "\<exists>i. block_of cfg i = block_of cfg me \<and> st_status s1 ! i \<noteq> AtBarrier"
  shows "core_ok cfg s1"
proof -
  have base: "base_ok cfg s" and len: "length (st_status s) = total_threads cfg"
    using core shape_lengths by (auto simp: core_ok_def)
  have "barrier_waits_ok cfg s1 i" if i: "i < total_threads cfg" "st_status s1 ! i = AtBarrier" for i
  proof (cases "block_of cfg i = block_of cfg me")
    case True
    then show ?thesis using nofin some by (simp add: barrier_waits_ok_def)
  next
    case False
    then have "i \<noteq> me" by blast
    then have "st_status s ! i = AtBarrier" using i s1 by simp
    then show ?thesis unfolding s1 by (rule arrive_other_block [OF ok core i(1) False])
  qed
  then have "barriers_ok cfg s1" by (simp add: barriers_ok_def)
  then show ?thesis
    using arrive_base [OF ok base me run] arrive_warps [OF core] by (simp add: core_ok_def s1)
qed

lemma released_status:
  assumes "cfg_ok cfg" and "length (st_status s) = total_threads cfg" and "i < total_threads cfg"
  shows "st_status (release_barrier cfg b s) ! i = (if block_of cfg i = b then Runnable else st_status s ! i)"
  using assms by (simp add: nth_set_all set_block_range)

lemma release_core:
  assumes ok: "cfg_ok cfg" and core: "core_ok cfg s" and me: "me < total_threads cfg"
    and run: "st_status s ! me = Runnable"
    and s1: "s1 = arrive_at_barrier me (block_of cfg me) loc s"
    and all: "\<forall>i. block_of cfg i = block_of cfg me \<longrightarrow> st_status s1 ! i = AtBarrier"
  shows "core_ok cfg (release_barrier cfg (block_of cfg me) s1)" (is "core_ok cfg ?s")
proof -
  let ?b = "block_of cfg me"
  have base: "base_ok cfg s1"
    using core arrive_base [OF ok _ me run] by (simp add: core_ok_def s1)
  have len: "length (st_status s1) = total_threads cfg" "length (st_barrier_loc s1) = sc_blocks cfg"
    using shape_lengths [OF base] by auto
  note st = released_status [OF ok len(1), of _ ?b]
  have other: "st_status ?s ! j = st_status s1 ! j" if "block_of cfg j \<noteq> ?b" "j < total_threads cfg" for j
    using that st by simp
  have "shape_ok cfg ?s" using base by (simp add: base_ok_def shape_ok_def)
  moreover have "waits_ok cfg ?s"
    unfolding waits_ok_def
  proof (intro allI impI)
    fix i
    assume i: "i < total_threads cfg"
    have "st_status s1 ! i = AtWarp \<longleftrightarrow> st_warp_wait s1 ! i \<noteq> None"
      using base i by (simp add: base_ok_def waits_ok_def)
    then show "st_status ?s ! i = AtWarp \<longleftrightarrow> st_warp_wait ?s ! i \<noteq> None"
      using st [OF i] all by auto
  qed
  moreover have "locs_ok cfg ?s"
    unfolding locs_ok_def
  proof (intro allI impI)
    fix c
    assume c: "c < sc_blocks cfg"
    have old: "st_barrier_loc s1 ! c \<noteq> None \<longleftrightarrow> (\<exists>i. block_of cfg i = c \<and> st_status s1 ! i = AtBarrier)"
      using base c by (simp add: base_ok_def locs_ok_def)
    have lt: "i < total_threads cfg" if "block_of cfg i = c" for i
      using that c by (simp add: block_of_less_iff [OF ok])
    show "st_barrier_loc ?s ! c \<noteq> None \<longleftrightarrow> (\<exists>i. block_of cfg i = c \<and> st_status ?s ! i = AtBarrier)"
    proof (cases "c = ?b")
      case True
      then have "st_status ?s ! i = Runnable" if "block_of cfg i = c" for i
        using that st [OF lt [OF that]] by simp
      then show ?thesis using True c by (auto simp: len)
    next
      case False
      then have "(\<exists>i. block_of cfg i = c \<and> st_status ?s ! i = AtBarrier)
          \<longleftrightarrow> (\<exists>i. block_of cfg i = c \<and> st_status s1 ! i = AtBarrier)"
        using other lt by metis
      then show ?thesis using old False by simp
    qed
  qed
  moreover have "barriers_ok cfg ?s"
    unfolding barriers_ok_def
  proof (intro allI impI)
    fix i
    assume i: "i < total_threads cfg" and at: "st_status ?s ! i = AtBarrier"
    then have nb: "block_of cfg i \<noteq> ?b" using st [OF i] by auto
    then have "i \<noteq> me" by blast
    then have "st_status s ! i = AtBarrier" using at other [OF nb i] by (simp add: s1)
    then have "barrier_waits_ok cfg s1 i" unfolding s1 by (rule arrive_other_block [OF ok core i nb])
    moreover have "st_status ?s ! j = st_status s1 ! j" if "block_of cfg j = block_of cfg i" for j
      using other [of j] nb that blockE [OF ok that i] by simp
    ultimately show "barrier_waits_ok cfg ?s i" by (simp add: barrier_waits_ok_def) metis
  qed
  moreover have "warps_ok cfg ?s"
  proof -
    have warps1: "warps_ok cfg s1" unfolding s1 by (rule arrive_warps [OF core])
    have keeps: "st_status ?s ! j \<noteq> Finished" if "st_status s1 ! j \<noteq> Finished" "j < total_threads cfg" for j
      using st [OF that(2)] that(1) by simp
    show ?thesis
      unfolding warps_ok_def
    proof (intro allI impI)
      fix i wt
      assume i: "i < total_threads cfg" and "st_warp_wait ?s ! i = Some wt"
      then have "lane_waits_ok cfg s1 i wt" using warps1 by (simp add: warps_ok_def)
      then show "lane_waits_ok cfg ?s i wt"
      proof (rule lane_waits_ok_mono)
        fix j
        assume "mates cfg i j" and nf: "st_status s1 ! j \<noteq> Finished"
        then show "st_status ?s ! j \<noteq> Finished" using keeps [OF nf] mates_less [OF ok _ i] by blast
      qed simp
    qed
  qed
  ultimately show ?thesis by (simp add: core_ok_def base_ok_def)
qed

lemma barrier_unfold:
  assumes ok: "cfg_ok cfg" and s1: "s1 = arrive_at_barrier me (block_of cfg me) loc (w_st w)"
  shows "barrier cfg w me loc =
    (if \<exists>i. block_of cfg i = block_of cfg me \<and> st_status s1 ! i = Finished
     then (barrier_divergence cfg (w\<lparr>w_st := s1\<rparr>) (block_of cfg me), Unwind)
     else hand_off cfg (w\<lparr>w_st :=
       (if \<forall>i. block_of cfg i = block_of cfg me \<longrightarrow> st_status s1 ! i = AtBarrier
        then release_barrier cfg (block_of cfg me) s1 else s1)\<rparr>) me)"
  unfolding barrier_def Let_def block_of_def [of cfg me, symmetric] s1 [symmetric] list_ex_iff
    list_all_iff set_block_range [OF ok]
  by (simp only: Ball_def Bex_def mem_Collect_eq)

lemma barrier_ok:
  assumes ok: "cfg_ok cfg" and wok: "world_ok cfg w" and run: "\<not> st_aborted (w_st w)"
    and turn: "st_current (w_st w) = Some me"
  shows "world_ok cfg (fst (barrier cfg w me loc))"
proof -
  have core: "core_ok cfg (w_st w)" and rep: "reporter_ok (w_rep w)"
    and me: "me < total_threads cfg" "st_status (w_st w) ! me = Runnable"
    using wok run turn by (auto simp: world_ok_def turn_ok_def)
  have base: "base_ok cfg (w_st w)" using core by (simp add: core_ok_def)
  let ?b = "block_of cfg me"
  define s1 where "s1 = arrive_at_barrier me ?b loc (w_st w)"
  note eq = barrier_unfold [OF ok s1_def]
  have base1: "base_ok cfg s1" unfolding s1_def by (rule arrive_base [OF ok base me])
  have run1: "\<not> st_aborted s1" using run by (simp add: s1_def)
  consider (gone) "\<exists>i. block_of cfg i = ?b \<and> st_status s1 ! i = Finished"
    | (all) "\<forall>i. block_of cfg i = ?b \<longrightarrow> st_status s1 ! i = AtBarrier"
        "\<not> (\<exists>i. block_of cfg i = ?b \<and> st_status s1 ! i = Finished)"
    | (wait) "\<forall>i. block_of cfg i = ?b \<longrightarrow> st_status s1 ! i \<noteq> Finished"
        "\<exists>i. block_of cfg i = ?b \<and> st_status s1 ! i \<noteq> AtBarrier"
    by (metis status.distinct(9))
  then show ?thesis
  proof cases
    case gone
    then have "fst (barrier cfg w me loc) = barrier_divergence cfg (w\<lparr>w_st := s1\<rparr>) ?b"
      unfolding eq by (simp only: if_True fst_conv)
    then show ?thesis using fail_ok(1) base1 rep by (simp add: barrier_divergence_def)
  next
    case all
    then have "fst (barrier cfg w me loc) = fst (hand_off cfg (w\<lparr>w_st := release_barrier cfg ?b s1\<rparr>) me)"
      unfolding eq if_P [OF all(1)] if_not_P [OF all(2)] by simp
    moreover have "core_ok cfg (release_barrier cfg ?b s1)"
      by (rule release_core [OF ok core me s1_def all(1)])
    moreover have "st_status (release_barrier cfg ?b s1) ! me = Runnable"
      using released_status [OF ok shape_lengths(1) [OF base1] me(1)] by simp
    ultimately show ?thesis using hand_off_ok [OF ok] rep me run1 by simp
  next
    case wait
    then have "\<not> (\<exists>i. block_of cfg i = ?b \<and> st_status s1 ! i = Finished)"
      "\<not> (\<forall>i. block_of cfg i = ?b \<longrightarrow> st_status s1 ! i = AtBarrier)" by blast+
    then have "fst (barrier cfg w me loc) = fst (hand_off cfg (w\<lparr>w_st := s1\<rparr>) me)"
      unfolding eq by (simp only: if_False)
    moreover have "core_ok cfg s1" by (rule arrive_core [OF ok core me s1_def wait])
    moreover have "st_status s1 ! me \<noteq> Finished" using wait(1) by blast
    ultimately show ?thesis using hand_off_ok [OF ok] rep me run1 by simp
  qed
qed

section \<open>Warp collectives keep the invariant\<close>

lemma park_fields [simp]:
  "st_status (park_at_warp me wt s) = (st_status s)[me := AtWarp]"
  "st_warp_wait (park_at_warp me wt s) = (st_warp_wait s)[me := Some wt]"
  "st_barrier_loc (park_at_warp me wt s) = st_barrier_loc s"
  "st_barrier_gen (park_at_warp me wt s) = st_barrier_gen s"
  "st_warp_gen (park_at_warp me wt s) = st_warp_gen s"
  "st_aborted (park_at_warp me wt s) = st_aborted s"
  by (simp_all add: park_at_warp_def)

lemma release_warp_fields [simp]:
  "st_status (release_warp cfg b wp wt ps s) = set_all ps Runnable (st_status s)"
  "st_warp_wait (release_warp cfg b wp wt ps s) = set_all ps None (st_warp_wait s)"
  "st_barrier_loc (release_warp cfg b wp wt ps s) = st_barrier_loc s"
  "st_barrier_gen (release_warp cfg b wp wt ps s) = st_barrier_gen s"
  "length (st_warp_gen (release_warp cfg b wp wt ps s)) = length (st_warp_gen s)"
  "st_aborted (release_warp cfg b wp wt ps s) = st_aborted s"
  by (simp_all add: release_warp_def Let_def)

text \<open>
  Barriers see parked, running and released lanes alike: what matters to them is who waits at a
  barrier and who has left.
\<close>

definition same_barriers :: "sched_config \<Rightarrow> sched_state \<Rightarrow> sched_state \<Rightarrow> bool" where
  "same_barriers cfg s s' \<longleftrightarrow> st_barrier_loc s' = st_barrier_loc s
     \<and> (\<forall>i < total_threads cfg.
          (st_status s' ! i = AtBarrier \<longleftrightarrow> st_status s ! i = AtBarrier)
          \<and> (st_status s' ! i = Finished \<longleftrightarrow> st_status s ! i = Finished))"

lemma same_barriers_ok:
  assumes ok: "cfg_ok cfg" and same: "same_barriers cfg s s'"
  shows "locs_ok cfg s \<Longrightarrow> locs_ok cfg s'" and "barriers_ok cfg s \<Longrightarrow> barriers_ok cfg s'"
proof -
  have eq: "st_status s' ! i = AtBarrier \<longleftrightarrow> st_status s ! i = AtBarrier"
    "st_status s' ! i = Finished \<longleftrightarrow> st_status s ! i = Finished"
    if "block_of cfg i < sc_blocks cfg" for i
    using same that by (auto simp: same_barriers_def block_of_less_iff [OF ok])
  have loc: "st_barrier_loc s' = st_barrier_loc s" using same by (simp add: same_barriers_def)
  show "locs_ok cfg s'" if old: "locs_ok cfg s"
    unfolding locs_ok_def loc
  proof (intro allI impI)
    fix b
    assume b: "b < sc_blocks cfg"
    have "(\<exists>i. block_of cfg i = b \<and> st_status s' ! i = AtBarrier)
        \<longleftrightarrow> (\<exists>i. block_of cfg i = b \<and> st_status s ! i = AtBarrier)"
      using eq(1) b by metis
    then show "(st_barrier_loc s ! b \<noteq> None) \<longleftrightarrow> (\<exists>i. block_of cfg i = b \<and> st_status s' ! i = AtBarrier)"
      using old b by (simp add: locs_ok_def)
  qed
  show "barriers_ok cfg s'" if old: "barriers_ok cfg s"
    unfolding barriers_ok_def
  proof (intro allI impI)
    fix i
    assume i: "i < total_threads cfg" and "st_status s' ! i = AtBarrier"
    then have bi: "block_of cfg i < sc_blocks cfg" by (simp add: block_of_less_iff [OF ok])
    then have "barrier_waits_ok cfg s i"
      using old i \<open>st_status s' ! i = AtBarrier\<close> eq(1) by (simp add: barriers_ok_def)
    then show "barrier_waits_ok cfg s' i"
      unfolding barrier_waits_ok_def using eq bi by metis
  qed
qed

definition call_ok :: "sched_config \<Rightarrow> nat \<Rightarrow> u32 \<Rightarrow> bool" where
  "call_ok cfg me msk \<longleftrightarrow>
     has_lane msk (lane_of cfg me) \<and> msk AND NOT (valid_mask cfg (warp_of cfg me)) = 0"

lemma park_base:
  assumes ok: "cfg_ok cfg" and base: "base_ok cfg s" and me: "me < total_threads cfg"
    and run: "st_status s ! me = Runnable"
  shows "base_ok cfg (park_at_warp me wt s)"
    and "same_barriers cfg s (park_at_warp me wt s)"
proof -
  have len: "length (st_status s) = total_threads cfg" "length (st_warp_wait s) = total_threads cfg"
    using shape_lengths [OF base] by auto
  show same: "same_barriers cfg s (park_at_warp me wt s)"
    using run by (auto simp: same_barriers_def status_at len)
  have "shape_ok cfg (park_at_warp me wt s)" using base by (simp add: base_ok_def shape_ok_def)
  moreover have "waits_ok cfg (park_at_warp me wt s)"
    using base by (auto simp: base_ok_def waits_ok_def status_at len)
  ultimately show "base_ok cfg (park_at_warp me wt s)"
    using same_barriers_ok(1) [OF ok same] base by (simp add: base_ok_def)
qed

lemma no_clash:
  assumes ok: "cfg_ok cfg" and base: "base_ok cfg s"
    and me: "me < total_threads cfg"
    and none: "find (mask_clash cfg s me (block_of cfg me) (warp_of cfg me) (lane_of cfg me) wt)
        [0..<lanes_in cfg (warp_of cfg me)] = None"
    and p: "mates cfg me p" "p \<noteq> me" "st_warp_wait s ! p = Some other"
    and same: "ww_phase other = ww_phase wt" "ww_at other = ww_at wt"
    and claims: "has_lane (ww_mask wt) (lane_of cfg p) \<or> has_lane (ww_mask other) (lane_of cfg me)"
  shows "ww_mask other = ww_mask wt"
proof (rule ccontr)
  assume ne: "ww_mask other \<noteq> ww_mask wt"
  have "warp_base cfg (block_of cfg me) (warp_of cfg me) + lane_of cfg p = p"
    using base_plus_lane [of cfg p] p(1) by (simp add: mates_def)
  moreover have "p < total_threads cfg" using mates_less [OF ok p(1) me] .
  then have "st_status s ! p = AtWarp" using base p(3) by (auto simp: base_ok_def waits_ok_def)
  ultimately have "mask_clash cfg s me (block_of cfg me) (warp_of cfg me) (lane_of cfg me) wt (lane_of cfg p)"
    using p same claims ne by (simp add: mask_clash_def Let_def)
  moreover have "lane_of cfg p < lanes_in cfg (warp_of cfg me)"
    using lane_of_less [OF ok, of p] p(1) by (simp add: mates_def)
  ultimately show False using none by (auto simp: find_None_iff)
qed

lemma park_core:
  assumes ok: "cfg_ok cfg" and core: "core_ok cfg s" and me: "me < total_threads cfg"
    and run: "st_status s ! me = Runnable" and call: "call_ok cfg me (ww_mask wt)"
    and s1: "s1 = park_at_warp me wt s"
    and nofin: "\<forall>p. mates cfg me p \<and> has_lane (ww_mask wt) (lane_of cfg p) \<longrightarrow> st_status s1 ! p \<noteq> Finished"
    and none: "find (mask_clash cfg s1 me (block_of cfg me) (warp_of cfg me) (lane_of cfg me) wt)
        [0..<lanes_in cfg (warp_of cfg me)] = None"
    and missing: "\<exists>p. mates cfg me p \<and> has_lane (ww_mask wt) (lane_of cfg p) \<and> st_warp_wait s1 ! p \<noteq> Some wt"
  shows "core_ok cfg s1"
proof -
  have base: "base_ok cfg s" using core by (simp add: core_ok_def)
  have len: "length (st_status s) = total_threads cfg" "length (st_warp_wait s) = total_threads cfg"
    using shape_lengths [OF base] by auto
  have base1: "base_ok cfg s1" and same: "same_barriers cfg s s1"
    unfolding s1 by (rule park_base [OF ok base me run])+
  have wait1: "st_warp_wait s1 ! j = (if j = me then Some wt else st_warp_wait s ! j)" for j
    using me by (cases "j = me") (simp_all add: s1 len)
  have stat1: "st_status s1 ! j = (if j = me then AtWarp else st_status s ! j)" for j
    using me by (cases "j = me") (simp_all add: s1 len)
  note agree = no_clash [OF ok base1 me none]
  have "lane_waits_ok cfg s1 i wi" if i: "i < total_threads cfg" "st_warp_wait s1 ! i = Some wi" for i wi
  proof (cases "i = me")
    case True
    then have wi: "wi = wt" using i wait1 by simp
    have "ww_mask w' = ww_mask wt" if "mates cfg me j" "st_warp_wait s1 ! j = Some w'"
      "ww_phase w' = ww_phase wt" "ww_at w' = ww_at wt" "has_lane (ww_mask wt) (lane_of cfg j)" for j w'
      using that agree [of j w'] wait1 [of j] by (cases "j = me") auto
    then show ?thesis
      unfolding lane_waits_ok_def using True wi call nofin missing by (auto simp: call_ok_def)
  next
    case False
    then have wi: "st_warp_wait s ! i = Some wi" using i wait1 by simp
    then have old: "lane_waits_ok cfg s i wi" using core i(1) by (simp add: core_ok_def warps_ok_def)
    have "st_status s1 ! j \<noteq> Finished" if "mates cfg i j" "has_lane (ww_mask wi) (lane_of cfg j)" for j
      using old that stat1 [of j] by (auto simp: lane_waits_ok_def)
    moreover have "ww_mask w' = ww_mask wi"
      if j: "mates cfg i j" "st_warp_wait s1 ! j = Some w'" "ww_phase w' = ww_phase wi"
        "ww_at w' = ww_at wi" "has_lane (ww_mask wi) (lane_of cfg j)" for j w'
    proof (cases "j = me")
      case True
      then have "w' = wt" using j wait1 by simp
      then show ?thesis
        using agree [of i wi] j True False i by (auto simp: mates_sym)
    next
      case False
      then show ?thesis using old j wait1 unfolding lane_waits_ok_def by metis
    qed
    moreover have "\<exists>j. mates cfg i j \<and> has_lane (ww_mask wi) (lane_of cfg j) \<and> st_warp_wait s1 ! j \<noteq> Some wi"
    proof -
      obtain j where j: "mates cfg i j" "has_lane (ww_mask wi) (lane_of cfg j)" "st_warp_wait s ! j \<noteq> Some wi"
        using old unfolding lane_waits_ok_def by blast
      show ?thesis
      proof (cases "j = me \<and> wi = wt")
        case True
        then obtain p where "mates cfg me p" "has_lane (ww_mask wt) (lane_of cfg p)"
          "st_warp_wait s1 ! p \<noteq> Some wt" using missing by blast
        then show ?thesis using True j(1) mates_trans by blast
      next
        case False
        then show ?thesis using j wait1 [of j] by (intro exI [of _ j]) auto
      qed
    qed
    ultimately show ?thesis using old unfolding lane_waits_ok_def by blast
  qed
  then have "warps_ok cfg s1" by (simp add: warps_ok_def)
  then show ?thesis
    using base1 same_barriers_ok(2) [OF ok same] core by (simp add: core_ok_def)
qed

text \<open>The lanes a complete collective releases, seen from the state before the last lane parked.\<close>

lemma released_warp:
  assumes ok: "cfg_ok cfg" and base: "base_ok cfg s" and me: "me < total_threads cfg"
    and call: "has_lane (ww_mask wt) (lane_of cfg me)"
    and s2: "s2 = release_warp cfg (block_of cfg me) (warp_of cfg me) wt
        (members cfg (block_of cfg me) (warp_of cfg me) (ww_mask wt)) (park_at_warp me wt s)"
    and j: "j < total_threads cfg"
  shows "st_status s2 ! j =
      (if mates cfg me j \<and> has_lane (ww_mask wt) (lane_of cfg j) then Runnable else st_status s ! j)"
    and "st_warp_wait s2 ! j =
      (if mates cfg me j \<and> has_lane (ww_mask wt) (lane_of cfg j) then None else st_warp_wait s ! j)"
proof -
  have len: "length (st_status s) = total_threads cfg" "length (st_warp_wait s) = total_threads cfg"
    using shape_lengths [OF base] by auto
  show "st_status s2 ! j =
      (if mates cfg me j \<and> has_lane (ww_mask wt) (lane_of cfg j) then Runnable else st_status s ! j)"
    "st_warp_wait s2 ! j =
      (if mates cfg me j \<and> has_lane (ww_mask wt) (lane_of cfg j) then None else st_warp_wait s ! j)"
    using j call by (cases "j = me"; simp add: s2 nth_set_all len set_members [OF ok])+
qed

lemma release_warp_core:
  assumes ok: "cfg_ok cfg" and core: "core_ok cfg s" and me: "me < total_threads cfg"
    and run: "st_status s ! me = Runnable" and call: "call_ok cfg me (ww_mask wt)"
    and s2: "s2 = release_warp cfg (block_of cfg me) (warp_of cfg me) wt
        (members cfg (block_of cfg me) (warp_of cfg me) (ww_mask wt)) (park_at_warp me wt s)"
    and all: "\<forall>p. mates cfg me p \<and> has_lane (ww_mask wt) (lane_of cfg p)
        \<longrightarrow> st_warp_wait (park_at_warp me wt s) ! p = Some wt"
  shows "core_ok cfg s2"
proof -
  have base: "base_ok cfg s" using core by (simp add: core_ok_def)
  have len: "length (st_status s) = total_threads cfg" "length (st_warp_wait s) = total_threads cfg"
    using shape_lengths [OF base] by auto
  have own: "has_lane (ww_mask wt) (lane_of cfg me)" using call by (simp add: call_ok_def)
  note rel = released_warp [OF ok base me own s2]
  have parked: "st_status s ! p = AtWarp \<or> p = me"
    if "mates cfg me p" "has_lane (ww_mask wt) (lane_of cfg p)" for p
  proof (cases "p = me")
    case False
    then have "st_warp_wait s ! p = Some wt" using all that by auto
    then show ?thesis
      using base mates_less [OF ok that(1) me] by (auto simp: base_ok_def waits_ok_def)
  qed simp
  have same: "same_barriers cfg s s2"
    unfolding same_barriers_def
  proof (intro conjI allI impI)
    show "st_barrier_loc s2 = st_barrier_loc s" by (simp add: s2)
  next
    fix i
    assume i: "i < total_threads cfg"
    show "(st_status s2 ! i = AtBarrier) = (st_status s ! i = AtBarrier)"
      "(st_status s2 ! i = Finished) = (st_status s ! i = Finished)"
      using rel(1) [OF i] parked [of i] run by auto
  qed
  have "shape_ok cfg s2" using base by (simp add: base_ok_def shape_ok_def s2)
  moreover have "waits_ok cfg s2"
    unfolding waits_ok_def
  proof (intro allI impI)
    fix i
    assume i: "i < total_threads cfg"
    have "st_status s ! i = AtWarp \<longleftrightarrow> st_warp_wait s ! i \<noteq> None"
      using base i by (simp add: base_ok_def waits_ok_def)
    then show "st_status s2 ! i = AtWarp \<longleftrightarrow> st_warp_wait s2 ! i \<noteq> None" using rel [OF i] by auto
  qed
  moreover have "locs_ok cfg s2" "barriers_ok cfg s2"
    using same_barriers_ok [OF ok same] core base by (simp_all add: core_ok_def base_ok_def)
  moreover have "warps_ok cfg s2"
    unfolding warps_ok_def
  proof (intro allI impI)
    fix i wi
    assume i: "i < total_threads cfg" and wi: "st_warp_wait s2 ! i = Some wi"
    have "st_warp_wait s ! i = Some wi" using wi rel(2) [OF i] by (simp split: if_splits)
    then have old: "lane_waits_ok cfg s i wi" using core i by (simp add: core_ok_def warps_ok_def)
    have lt: "j < total_threads cfg" if "mates cfg i j" for j using mates_less [OF ok that i] .
    have "st_status s2 ! j \<noteq> Finished" if "mates cfg i j" "has_lane (ww_mask wi) (lane_of cfg j)" for j
      using old that rel(1) [OF lt [OF that(1)]] by (simp add: lane_waits_ok_def)
    moreover have "st_warp_wait s ! j = Some w'" if "mates cfg i j" "st_warp_wait s2 ! j = Some w'" for j w'
      using that(2) rel(2) [OF lt [OF that(1)]] by (simp split: if_splits)
    moreover have "st_warp_wait s2 ! j \<noteq> Some wi" if "mates cfg i j" "st_warp_wait s ! j \<noteq> Some wi" for j
      using that(2) rel(2) [OF lt [OF that(1)]] by simp
    ultimately show "lane_waits_ok cfg s2 i wi" using old unfolding lane_waits_ok_def by blast
  qed
  ultimately show ?thesis by (simp add: core_ok_def base_ok_def)
qed

text \<open>The four ways out of \<^verbatim>\<open>warp_rendezvous\<close>, over warp-mates.\<close>

lemma rendezvous_unfold:
  assumes ok: "cfg_ok cfg"
    and wt: "wt = \<lparr>ww_phase = phase, ww_mask = msk, ww_at = loc, ww_op = op\<rparr>"
    and s1: "s1 = park_at_warp me wt (w_st w)"
  shows "warp_rendezvous cfg w me phase msk loc op =
    (if \<exists>p. mates cfg me p \<and> has_lane msk (lane_of cfg p) \<and> st_status s1 ! p = Finished
     then (fail cfg (warp_divergence_of cfg s1 (block_of cfg me) (warp_of cfg me) wt) (w\<lparr>w_st := s1\<rparr>), Unwind)
     else
       (case find (mask_clash cfg s1 me (block_of cfg me) (warp_of cfg me) (lane_of cfg me) wt)
              [0..<lanes_in cfg (warp_of cfg me)] of
          Some l \<Rightarrow>
            (fail cfg (mismatch_of cfg s1 (block_of cfg me) (warp_of cfg me) (lane_of cfg me) wt l)
               (w\<lparr>w_st := s1\<rparr>), Unwind)
        | None \<Rightarrow>
            hand_off cfg (w\<lparr>w_st :=
              (if \<forall>p. mates cfg me p \<and> has_lane msk (lane_of cfg p)
                    \<longrightarrow> st_status s1 ! p = AtWarp \<and> st_warp_wait s1 ! p = Some wt
               then release_warp cfg (block_of cfg me) (warp_of cfg me) wt
                      (members cfg (block_of cfg me) (warp_of cfg me) msk) s1
               else s1)\<rparr>) me))"
  unfolding warp_rendezvous_def locate_eq Let_def prod.case wt [symmetric] s1 [symmetric] list_ex_iff
    list_all_iff set_members [OF ok]
  by (simp only: Ball_def Bex_def mem_Collect_eq conj_assoc)

lemma rendezvous_ok:
  assumes ok: "cfg_ok cfg" and wok: "world_ok cfg w" and run: "\<not> st_aborted (w_st w)"
    and turn: "st_current (w_st w) = Some me" and call: "call_ok cfg me msk"
  shows "world_ok cfg (fst (warp_rendezvous cfg w me phase msk loc op))"
proof -
  have core: "core_ok cfg (w_st w)" and rep: "reporter_ok (w_rep w)"
    and me: "me < total_threads cfg" "st_status (w_st w) ! me = Runnable"
    using wok run turn by (auto simp: world_ok_def turn_ok_def)
  have base: "base_ok cfg (w_st w)" using core by (simp add: core_ok_def)
  define wt where "wt = \<lparr>ww_phase = phase, ww_mask = msk, ww_at = loc, ww_op = op\<rparr>"
  define s1 where "s1 = park_at_warp me wt (w_st w)"
  have msk: "ww_mask wt = msk" by (simp add: wt_def)
  note eq = rendezvous_unfold [OF ok wt_def s1_def]
  have base1: "base_ok cfg s1" unfolding s1_def by (rule park_base [OF ok base me])
  have run1: "\<not> st_aborted s1" using run by (simp add: s1_def)
  let ?gone = "\<exists>p. mates cfg me p \<and> has_lane msk (lane_of cfg p) \<and> st_status s1 ! p = Finished"
  let ?find = "find (mask_clash cfg s1 me (block_of cfg me) (warp_of cfg me) (lane_of cfg me) wt)
              [0..<lanes_in cfg (warp_of cfg me)]"
  let ?all = "\<forall>p. mates cfg me p \<and> has_lane msk (lane_of cfg p)
                \<longrightarrow> st_status s1 ! p = AtWarp \<and> st_warp_wait s1 ! p = Some wt"
  consider (gone) ?gone | (clash) l where "\<not> ?gone" "?find = Some l"
    | (all) "\<not> ?gone" "?find = None" ?all | (wait) "\<not> ?gone" "?find = None" "\<not> ?all"
    by (cases ?find) blast+
  then show ?thesis
  proof cases
    case gone
    then show ?thesis unfolding eq if_P [OF gone] using fail_ok(1) base1 rep by simp
  next
    case clash
    then show ?thesis unfolding eq if_not_P [OF clash(1)] using fail_ok(1) base1 rep by simp
  next
    case all
    define s2 where "s2 = release_warp cfg (block_of cfg me) (warp_of cfg me) wt
        (members cfg (block_of cfg me) (warp_of cfg me) msk) s1"
    then have s2: "s2 = release_warp cfg (block_of cfg me) (warp_of cfg me) wt
        (members cfg (block_of cfg me) (warp_of cfg me) (ww_mask wt)) (park_at_warp me wt (w_st w))"
      by (simp add: msk s1_def)
    have "core_ok cfg s2"
      by (rule release_warp_core [OF ok core me _ s2]) (use call all(3) in \<open>auto simp: msk s1_def\<close>)
    moreover have "st_status s2 ! me \<noteq> Finished"
      using released_warp(1) [OF ok base me(1) _ s2 me(1)] call by (simp add: call_ok_def msk)
    moreover have "\<not> st_aborted s2" using run1 by (simp add: s2_def)
    moreover have "fst (warp_rendezvous cfg w me phase msk loc op) = fst (hand_off cfg (w\<lparr>w_st := s2\<rparr>) me)"
      unfolding eq if_not_P [OF all(1)] all(2) option.case if_P [OF all(3)] s2_def by (rule refl)
    ultimately show ?thesis using hand_off_ok [OF ok] rep me(1) by simp
  next
    case wait
    have waits: "st_status s1 ! p = AtWarp" if "st_warp_wait s1 ! p = Some wt" "mates cfg me p" for p
      using base1 mates_less [OF ok that(2) me(1)] that(1) by (auto simp: base_ok_def waits_ok_def)
    have "core_ok cfg s1"
    proof (rule park_core [OF ok core me _ s1_def])
      show "\<exists>p. mates cfg me p \<and> has_lane (ww_mask wt) (lane_of cfg p) \<and> st_warp_wait s1 ! p \<noteq> Some wt"
        using wait(3) waits unfolding msk by blast
    qed (use call wait(1,2) in \<open>auto simp: msk\<close>)
    moreover have "st_status s1 ! me \<noteq> Finished"
      using me shape_lengths(1) [OF base] by (simp add: s1_def)
    moreover have "fst (warp_rendezvous cfg w me phase msk loc op) = fst (hand_off cfg (w\<lparr>w_st := s1\<rparr>) me)"
      unfolding eq if_not_P [OF wait(1)] wait(2) option.case if_not_P [OF wait(3)] by (rule refl)
    ultimately show ?thesis using hand_off_ok [OF ok] rep run1 me(1) by simp
  qed
qed

section \<open>Leaving the kernel keeps the invariant\<close>

lemma no_abandoned:
  assumes ok: "cfg_ok cfg" and base: "base_ok cfg s" and me: "me < total_threads cfg"
    and none: "find (abandoned cfg s (block_of cfg me) (warp_of cfg me) (lane_of cfg me))
        [0..<lanes_in cfg (warp_of cfg me)] = None"
    and p: "mates cfg me p" "st_warp_wait s ! p = Some wt"
  shows "\<not> has_lane (ww_mask wt) (lane_of cfg me)"
proof
  assume lane: "has_lane (ww_mask wt) (lane_of cfg me)"
  have "warp_base cfg (block_of cfg me) (warp_of cfg me) + lane_of cfg p = p"
    using base_plus_lane [of cfg p] p(1) by (simp add: mates_def)
  moreover have "st_status s ! p = AtWarp"
    using base mates_less [OF ok p(1) me] p(2) by (auto simp: base_ok_def waits_ok_def)
  ultimately have "abandoned cfg s (block_of cfg me) (warp_of cfg me) (lane_of cfg me) (lane_of cfg p)"
    using p lane by (simp add: abandoned_def Let_def)
  moreover have "lane_of cfg p < lanes_in cfg (warp_of cfg me)"
    using lane_of_less [OF ok, of p] p(1) by (simp add: mates_def)
  ultimately show False using none by (auto simp: find_None_iff)
qed

lemma finish_base:
  assumes ok: "cfg_ok cfg" and base: "base_ok cfg s" and me: "me < total_threads cfg"
    and run: "st_status s ! me = Runnable" and s1: "s1 = s\<lparr>st_status := (st_status s)[me := Finished]\<rparr>"
  shows "base_ok cfg s1"
proof -
  have len: "length (st_status s) = total_threads cfg" by (rule shape_lengths [OF base])
  have "shape_ok cfg s1" using base by (simp add: base_ok_def shape_ok_def s1)
  moreover have "waits_ok cfg s1"
    using base run by (auto simp: base_ok_def waits_ok_def status_at len s1)
  moreover have "locs_ok cfg s1"
  proof -
    have "st_status s1 ! i = AtBarrier \<longleftrightarrow> st_status s ! i = AtBarrier" for i
      using run me len by (cases "i = me") (auto simp: s1)
    then show ?thesis using base by (simp add: base_ok_def locs_ok_def) (simp add: s1)
  qed
  ultimately show ?thesis by (simp add: base_ok_def)
qed

lemma finish_core:
  assumes ok: "cfg_ok cfg" and core: "core_ok cfg s" and me: "me < total_threads cfg"
    and run: "st_status s ! me = Runnable" and s1: "s1 = s\<lparr>st_status := (st_status s)[me := Finished]\<rparr>"
    and none: "find (abandoned cfg s1 (block_of cfg me) (warp_of cfg me) (lane_of cfg me))
        [0..<lanes_in cfg (warp_of cfg me)] = None"
    and free: "\<forall>i. block_of cfg i = block_of cfg me \<longrightarrow> st_status s1 ! i \<noteq> AtBarrier"
  shows "core_ok cfg s1"
proof -
  have base: "base_ok cfg s" using core by (simp add: core_ok_def)
  have base1: "base_ok cfg s1" by (rule finish_base [OF ok base me run s1])
  have len: "length (st_status s) = total_threads cfg" by (rule shape_lengths [OF base])
  have stat1: "st_status s1 ! i = (if i = me then Finished else st_status s ! i)" for i
    using me len by (cases "i = me") (simp_all add: s1)
  have wait1: "st_warp_wait s1 = st_warp_wait s" by (simp add: s1)
  have "barriers_ok cfg s1"
    unfolding barriers_ok_def
  proof (intro allI impI)
    fix i
    assume i: "i < total_threads cfg" and at: "st_status s1 ! i = AtBarrier"
    then have nb: "block_of cfg i \<noteq> block_of cfg me" using free by blast
    have "st_status s ! i = AtBarrier" using at stat1 [of i] by (simp split: if_splits)
    then have "barrier_waits_ok cfg s i" using core i by (simp add: core_ok_def barriers_ok_def)
    moreover have "st_status s1 ! j = st_status s ! j" if "block_of cfg j = block_of cfg i" for j
      using that nb stat1 [of j] by (cases "j = me") auto
    ultimately show "barrier_waits_ok cfg s1 i" unfolding barrier_waits_ok_def by metis
  qed
  moreover have "warps_ok cfg s1"
    unfolding warps_ok_def
  proof (intro allI impI)
    fix i wt
    assume i: "i < total_threads cfg" and wt: "st_warp_wait s1 ! i = Some wt"
    then have old: "lane_waits_ok cfg s i wt" using core wait1 by (simp add: core_ok_def warps_ok_def)
    have "st_status s1 ! j \<noteq> Finished" if j: "mates cfg i j" "has_lane (ww_mask wt) (lane_of cfg j)" for j
    proof (cases "j = me")
      case True
      then have "\<not> has_lane (ww_mask wt) (lane_of cfg me)"
        using no_abandoned [OF ok base1 me none _ wt] j(1) mates_sym by blast
      then show ?thesis using True j(2) by simp
    next
      case False
      then show ?thesis using old j stat1 [of j] by (simp add: lane_waits_ok_def)
    qed
    then show "lane_waits_ok cfg s1 i wt" using old unfolding lane_waits_ok_def wait1 by blast
  qed
  ultimately show ?thesis using base1 by (simp add: core_ok_def)
qed

end
