(* ===== verification/Sched_Run.thy ===== *)
theory Sched_Run
  imports Sched_Steps
begin

text \<open>
  What a launch can do to its scheduler. Only the holder of the turn runs, so a launch is a sequence
  of actions of the current thread; a thread that is waiting does nothing, and after an abort every
  thread unwinds without touching the scheduler again. \<open>sched_step\<close> allows any action the kernel side
  can take (\<^verbatim>\<open>warp.rs\<close> checks a mask before it reaches the scheduler), so the properties of reachable
  states hold for every kernel, every seed and every replayed plan.
\<close>

section \<open>Actions\<close>

datatype sched_act =
    ActYield
  | ActBarrier location
  | ActWarp u8 u32 location string
  | ActFinish
  | ActReport diagnostic
  | ActTrap diagnostic

fun act_ok :: "sched_config \<Rightarrow> nat \<Rightarrow> sched_act \<Rightarrow> bool" where
  "act_ok cfg me (ActWarp phase msk loc op) \<longleftrightarrow> call_ok cfg me msk"
| "act_ok cfg me _ \<longleftrightarrow> True"

text \<open>A trap and a kernel panic push their finding and abort the launch.\<close>

fun sched_exec :: "sched_config \<Rightarrow> world \<Rightarrow> nat \<Rightarrow> sched_act \<Rightarrow> world" where
  "sched_exec cfg w me ActYield = fst (yield_now cfg w me)"
| "sched_exec cfg w me (ActBarrier loc) = fst (barrier cfg w me loc)"
| "sched_exec cfg w me (ActWarp phase msk loc op) = fst (warp_rendezvous cfg w me phase msk loc op)"
| "sched_exec cfg w me ActFinish = finish cfg w me"
| "sched_exec cfg w me (ActReport d) = push_finding d w"
| "sched_exec cfg w me (ActTrap d) = abort cfg (push_finding d w)"

inductive sched_step :: "sched_config \<Rightarrow> world \<Rightarrow> world \<Rightarrow> bool" for cfg where
  act: "\<not> st_aborted (w_st w) \<Longrightarrow> st_current (w_st w) = Some me \<Longrightarrow> act_ok cfg me a
     \<Longrightarrow> sched_step cfg w (sched_exec cfg w me a)"

inductive_cases sched_stepE: "sched_step cfg w w'"

inductive_simps sched_step_simps: "sched_step cfg w w'"

definition initial_world :: "sched_config \<Rightarrow> world \<Rightarrow> bool" where
  "initial_world cfg w \<longleftrightarrow> (\<exists>ch. w_st w = sched_init cfg ch) \<and> reporter_ok (w_rep w)"

section \<open>Systems with an invariant\<close>

locale invariant_system =
  fixes init :: "'s \<Rightarrow> bool"
    and step :: "'s \<Rightarrow> 's \<Rightarrow> bool"
    and inv :: "'s \<Rightarrow> bool"
  assumes init_inv: "init s \<Longrightarrow> inv s"
    and step_inv: "inv s \<Longrightarrow> step s s' \<Longrightarrow> inv s'"
begin

definition reachable :: "'s \<Rightarrow> bool" where
  "reachable s \<longleftrightarrow> (\<exists>s0. init s0 \<and> step\<^sup>*\<^sup>* s0 s)"

lemma steps_inv: "step\<^sup>*\<^sup>* s s' \<Longrightarrow> inv s \<Longrightarrow> inv s'"
  by (induction rule: rtranclp_induct) (auto intro: step_inv)

lemma reachable_inv: "reachable s \<Longrightarrow> inv s"
  unfolding reachable_def using init_inv steps_inv by blast

lemma reachable_init: "init s \<Longrightarrow> reachable s"
  unfolding reachable_def by blast

lemma reachable_step: "reachable s \<Longrightarrow> step s s' \<Longrightarrow> reachable s'"
  unfolding reachable_def by (meson rtranclp.rtrancl_into_rtrancl)

text \<open>What a step cannot undo is kept for good.\<close>

lemma steps_stable:
  assumes "\<And>s s'. inv s \<Longrightarrow> step s s' \<Longrightarrow> P s \<Longrightarrow> P s'"
    and "step\<^sup>*\<^sup>* s s'" and "inv s" and "P s"
  shows "P s'"
proof -
  have "inv s' \<and> P s'"
    using assms(2) by (induction rule: rtranclp_induct) (use assms step_inv in auto)
  then show ?thesis ..
qed

end

section \<open>Every action keeps the invariant\<close>

lemma finish_unfold:
  assumes "s1 = (w_st w)\<lparr>st_status := (st_status (w_st w))[me := Finished]\<rparr>"
  shows "finish cfg w me =
    (case find (abandoned cfg s1 (block_of cfg me) (warp_of cfg me) (lane_of cfg me))
            [0..<lanes_in cfg (warp_of cfg me)] of
       Some l \<Rightarrow> fail cfg (warp_divergence_of cfg s1 (block_of cfg me) (warp_of cfg me)
           (the (st_warp_wait s1 ! (warp_base cfg (block_of cfg me) (warp_of cfg me) + l)))) (w\<lparr>w_st := s1\<rparr>)
     | None \<Rightarrow>
         if list_ex (\<lambda>i. st_status s1 ! i = AtBarrier) (block_range cfg (block_of cfg me))
         then barrier_divergence cfg (w\<lparr>w_st := s1\<rparr>) (block_of cfg me)
         else wake cfg
           (if st_current (w_st (w\<lparr>w_st := pick_next s1\<rparr>)) = None
               \<and> list_ex (\<lambda>st. st \<noteq> Finished) (st_status (w_st (w\<lparr>w_st := pick_next s1\<rparr>)))
            then detect_stuck cfg (w\<lparr>w_st := pick_next s1\<rparr>) else w\<lparr>w_st := pick_next s1\<rparr>))"
  unfolding finish_def Let_def locate_eq prod.case assms by (rule refl)

lemma finish_ok:
  assumes ok: "cfg_ok cfg" and wok: "world_ok cfg w" and run: "\<not> st_aborted (w_st w)"
    and turn: "st_current (w_st w) = Some me"
  shows "world_ok cfg (finish cfg w me)"
proof -
  have core: "core_ok cfg (w_st w)" and rep: "reporter_ok (w_rep w)"
    and me: "me < total_threads cfg" "st_status (w_st w) ! me = Runnable"
    using wok run turn by (auto simp: world_ok_def turn_ok_def)
  have base: "base_ok cfg (w_st w)" using core by (simp add: core_ok_def)
  define s1 where "s1 = (w_st w)\<lparr>st_status := (st_status (w_st w))[me := Finished]\<rparr>"
  have base1: "base_ok cfg s1" by (rule finish_base [OF ok base me s1_def])
  have run1: "\<not> st_aborted s1" using run by (simp add: s1_def)
  let ?b = "block_of cfg me"
  let ?find = "find (abandoned cfg s1 ?b (warp_of cfg me) (lane_of cfg me)) [0..<lanes_in cfg (warp_of cfg me)]"
  let ?at = "list_ex (\<lambda>i. st_status s1 ! i = AtBarrier) (block_range cfg ?b)"
  let ?w2 = "w\<lparr>w_st := pick_next s1\<rparr>"
  note eq = finish_unfold [OF s1_def]
  show ?thesis
  proof (cases ?find)
    case (Some l)
    then show ?thesis unfolding eq using fail_ok(1) base1 rep by simp
  next
    case None
    show ?thesis
    proof (cases ?at)
      case True
      then show ?thesis unfolding eq None using fail_ok(1) base1 rep by (simp add: barrier_divergence_def)
    next
      case False
      then have "core_ok cfg s1"
        using finish_core [OF ok core me s1_def None] set_block_range [OF ok, of ?b]
        by (auto simp: list_ex_iff)
      moreover have "list_ex (\<lambda>st. st \<noteq> Finished) (st_status s1)
          \<longleftrightarrow> \<not> (\<forall>i < total_threads cfg. st_status s1 ! i = Finished)"
        using all_set_conv_all_nth [of "st_status s1" "\<lambda>st. st = Finished"] shape_lengths(1) [OF base1]
        unfolding list_ex_iff by metis
      ultimately have "world_ok cfg
          (if st_current (w_st ?w2) = None \<and> list_ex (\<lambda>st. st \<noteq> Finished) (st_status (w_st ?w2))
           then detect_stuck cfg ?w2 else ?w2)"
        using pick_or_stuck_ok [OF ok, of "w\<lparr>w_st := s1\<rparr>" ?w2] rep run1 by simp
      then show ?thesis unfolding eq None using False by simp
    qed
  qed
qed

lemma yield_ok:
  assumes ok: "cfg_ok cfg" and wok: "world_ok cfg w" and run: "\<not> st_aborted (w_st w)"
    and turn: "st_current (w_st w) = Some me"
  shows "world_ok cfg (fst (yield_now cfg w me))"
  unfolding yield_now_def
  by (rule hand_off_ok [OF ok]) (use wok run turn in \<open>auto simp: world_ok_def turn_ok_def\<close>)

lemma report_ok: "world_ok cfg w \<Longrightarrow> world_ok cfg (push_finding d w)"
  using sink.push_ok sink.push_nonempty by (auto simp: world_ok_def)

lemma trap_ok: "world_ok cfg w \<Longrightarrow> world_ok cfg (abort cfg (push_finding d w))"
  using sink.push_ok sink.push_nonempty
  by (auto simp: abort_def world_ok_def same_core_ok(1) [OF same_core_aborted])

lemma step_ok:
  assumes ok: "cfg_ok cfg" and wok: "world_ok cfg w" and step: "sched_step cfg w w'"
  shows "world_ok cfg w'"
  using step
proof cases
  case (act me a)
  then show ?thesis
    using yield_ok [OF ok wok] barrier_ok [OF ok wok] rendezvous_ok [OF ok wok] finish_ok [OF ok wok]
      report_ok [OF wok] trap_ok [OF wok]
    by (cases a) auto
qed

lemma init_base:
  assumes ok: "cfg_ok cfg"
    and s: "st_status s = replicate (total_threads cfg) Runnable"
      "st_barrier_gen s = replicate (sc_blocks cfg) 0"
      "st_barrier_loc s = replicate (sc_blocks cfg) None"
      "st_warp_wait s = replicate (total_threads cfg) None"
      "st_warp_gen s = replicate (sc_blocks cfg * sc_warps_per_block cfg) 0"
  shows "core_ok cfg s"
proof -
  have "\<not> (\<exists>i. block_of cfg i = b \<and> st_status s ! i = AtBarrier)" if "b < sc_blocks cfg" for b
    using that block_of_less_iff [OF ok] by (auto simp: s)
  then show ?thesis
    by (auto simp: core_ok_def base_ok_def shape_ok_def waits_ok_def locs_ok_def barriers_ok_def
        warps_ok_def s)
qed

lemma init_ok:
  assumes ok: "cfg_ok cfg" and init: "initial_world cfg w"
  shows "world_ok cfg w" and "\<not> st_aborted (w_st w)"
proof -
  obtain ch where ch: "w_st w = sched_init cfg ch" and rep: "reporter_ok (w_rep w)"
    using init by (auto simp: initial_world_def)
  define s0 where "s0 = \<lparr>st_current = None, st_status = replicate (total_threads cfg) Runnable,
      st_barrier_gen = replicate (sc_blocks cfg) 0, st_barrier_loc = replicate (sc_blocks cfg) None,
      st_warp_wait = replicate (total_threads cfg) None,
      st_warp_gen = replicate (sc_blocks cfg * sc_warps_per_block cfg) 0,
      st_choices = ch, st_trace = [], st_trace_complete = True, st_aborted = False\<rparr>"
  have s: "w_st w = pick_next s0" by (simp add: ch sched_init_def s0_def Let_def)
  have core: "core_ok cfg s0" by (rule init_base [OF ok]) (simp_all add: s0_def)
  show run: "\<not> st_aborted (w_st w)" by (simp add: s) (simp add: s0_def)
  have base: "base_ok cfg s0" using core by (simp add: core_ok_def)
  have "0 < total_threads cfg" using cfg_okD(1,2) [OF ok] by (simp add: total_threads_def)
  then have "st_current (pick_next s0) \<noteq> None"
    unfolding pick_next_None [OF base] by (auto simp: s0_def)
  then obtain c where "st_current (pick_next s0) = Some c" by blast
  then have "turn_ok cfg (w_st w)"
    using pick_next_turn [OF ok base] by (simp add: s turn_ok_def)
  then show "world_ok cfg w"
    using core base run rep by (simp add: world_ok_def s same_core_ok [OF same_core_pick_next])
qed

interpretation launches: invariant_system "initial_world cfg" "sched_step cfg"
  "\<lambda>w. cfg_ok cfg \<longrightarrow> world_ok cfg w" for cfg
  by unfold_locales (use init_ok(1) step_ok in blast)+

text \<open>The states a launch can get its scheduler into.\<close>

definition reachable_world :: "sched_config \<Rightarrow> world \<Rightarrow> bool" where
  "reachable_world cfg w \<longleftrightarrow> cfg_ok cfg \<and> (\<exists>w0. initial_world cfg w0 \<and> (sched_step cfg)\<^sup>*\<^sup>* w0 w)"

lemma reachable_ok: "reachable_world cfg w \<Longrightarrow> world_ok cfg w"
  using launches.steps_inv init_ok(1) unfolding reachable_world_def by blast

lemma reachable_cfg: "reachable_world cfg w \<Longrightarrow> cfg_ok cfg"
  by (simp add: reachable_world_def)

lemma reachable_running:
  assumes "reachable_world cfg w" and "\<not> st_aborted (w_st w)" and "st_current (w_st w) = Some me"
  shows "core_ok cfg (w_st w)" "reporter_ok (w_rep w)" "me < total_threads cfg"
    "st_status (w_st w) ! me = Runnable" "base_ok cfg (w_st w)"
  using reachable_ok [OF assms(1)] assms(2,3) by (auto simp: world_ok_def turn_ok_def)

section \<open>Nobody is ever stuck\<close>

text \<open>
  C12: whatever the kernel does, under every seed and every plan, a launch is never wedged: it has been
  aborted with a finding in its report, or the turn is held by a thread that can run, or every thread
  has returned.
\<close>

theorem launch_never_wedged:
  assumes "reachable_world cfg w"
  shows "(st_aborted (w_st w) \<and> rep_diags (w_rep w) \<noteq> [])
    \<or> (\<exists>c < total_threads cfg. st_current (w_st w) = Some c \<and> st_status (w_st w) ! c = Runnable)
    \<or> (\<forall>i < total_threads cfg. st_status (w_st w) ! i = Finished)"
  using reachable_ok [OF assms]
  by (auto simp: world_ok_def turn_ok_def split: if_splits option.splits)

text \<open>Two threads, one block, one warp of two lanes, under the plan that never switches by itself.\<close>

definition pair_cfg :: sched_config where
  "pair_cfg = sched_config_of 1 2 2"

definition pair_world :: world where
  "pair_world = \<lparr>w_st = sched_init pair_cfg (Replay [] 0), w_rep = reporter_new, w_woken = []\<rparr>"

lemma pair_cfg_ok [simp]: "cfg_ok pair_cfg"
  by (simp add: cfg_ok_def pair_cfg_def sched_config_of_def total_threads_def)

lemma pair_reachable [simp]: "reachable_world pair_cfg pair_world"
  unfolding reachable_world_def initial_world_def
  by (auto simp: pair_world_def intro!: exI [of _ pair_world])

lemmas pair_eval = pair_world_def pair_cfg_def sched_config_of_def sched_init_def total_threads_def
  pick_next_def runnable_list_def choose_next_def nth_option_def record_choice_def max_trace_def
  Let_def div_ceil_def upt_conv_Cons

lemma pair_running [simp]:
  "\<not> st_aborted (w_st pair_world)" "st_current (w_st pair_world) = Some 0"
  "st_status (w_st pair_world) = [Runnable, Runnable]"
  by (simp_all add: pair_eval numeral_2_eq_2)

theorem launch_never_wedged_witness:
  "(st_aborted (w_st pair_world) \<and> rep_diags (w_rep pair_world) \<noteq> [])
    \<or> (\<exists>c < total_threads pair_cfg. st_current (w_st pair_world) = Some c
        \<and> st_status (w_st pair_world) ! c = Runnable)
    \<or> (\<forall>i < total_threads pair_cfg. st_status (w_st pair_world) ! i = Finished)"
  by (rule launch_never_wedged) simp

section \<open>What a barrier does\<close>

lemma detect_stuck_fields [simp]:
  "st_status (w_st (detect_stuck cfg w)) = st_status (w_st w)"
  "st_barrier_gen (w_st (detect_stuck cfg w)) = st_barrier_gen (w_st w)"
  "st_warp_gen (w_st (detect_stuck cfg w)) = st_warp_gen (w_st w)"
  "st_warp_wait (w_st (detect_stuck cfg w)) = st_warp_wait (w_st w)"
  by (simp_all add: detect_stuck_def Let_def)

lemma hand_off_fields [simp]:
  "st_status (w_st (fst (hand_off cfg w me))) = st_status (w_st w)"
  "st_barrier_gen (w_st (fst (hand_off cfg w me))) = st_barrier_gen (w_st w)"
  "st_warp_gen (w_st (fst (hand_off cfg w me))) = st_warp_gen (w_st w)"
  "st_warp_wait (w_st (fst (hand_off cfg w me))) = st_warp_wait (w_st w)"
  by (simp_all add: hand_off_def Let_def)

lemma hand_off_quiet:
  assumes "base_ok cfg (w_st w)" and "i < total_threads cfg" and "st_status (w_st w) ! i = Runnable"
  shows "st_aborted (w_st (fst (hand_off cfg w me))) = st_aborted (w_st w)"
    and "w_rep (fst (hand_off cfg w me)) = w_rep w"
proof -
  have "st_current (pick_next (w_st w)) \<noteq> None" using pick_next_None [OF assms(1)] assms(2,3) by blast
  then show "st_aborted (w_st (fst (hand_off cfg w me))) = st_aborted (w_st w)"
    and "w_rep (fst (hand_off cfg w me)) = w_rep w"
    by (auto simp: hand_off_def Let_def)
qed

lemma fail_fields [simp]:
  "st_status (w_st (fail cfg d w)) = st_status (w_st w)"
  "st_aborted (w_st (fail cfg d w))"
  "w_rep (fail cfg d w) = reporter_push (w_rep w) d"
  by (simp_all add: fail_def)


definition pair_waiting :: "location \<Rightarrow> world" where
  "pair_waiting loc = sched_exec pair_cfg pair_world 0 (ActBarrier loc)"

lemmas op_eval = pair_eval hand_off_def barrier_def arrive_at_barrier_def block_range_def wake_def
  release_barrier_def set_all_def get_or_insert_def turn_of_def numeral_2_eq_2

lemma pair_waiting_state [simp]:
  "\<not> st_aborted (w_st (pair_waiting loc))" "st_current (w_st (pair_waiting loc)) = Some 1"
  "st_status (w_st (pair_waiting loc)) = [AtBarrier, Runnable]"
  "st_barrier_gen (w_st (pair_waiting loc)) = [0]"
  "w_rep (pair_waiting loc) = reporter_new"
  by (simp_all add: pair_waiting_def op_eval)

lemma reachable_act:
  assumes "reachable_world cfg w" and "\<not> st_aborted (w_st w)" and "st_current (w_st w) = Some me"
    and "act_ok cfg me a"
  shows "reachable_world cfg (sched_exec cfg w me a)"
  using assms sched_step.act [OF assms(2-4)] unfolding reachable_world_def
  by (meson rtranclp.rtrancl_into_rtrancl)

lemma pair_waiting_reachable [simp]: "reachable_world pair_cfg (pair_waiting loc)"
  unfolding pair_waiting_def by (rule reachable_act) simp_all

lemma pair_block: "block_of pair_cfg j = 0 \<longleftrightarrow> j < 2"
  by (auto simp: block_of_def pair_cfg_def sched_config_of_def div_eq_0_iff)


text \<open>
  Two threads that wait at different \<^verbatim>\<open>sync_threads\<close> calls release each other: the barrier counts
  arrivals of the block and does not compare call sites, so code in which half a block stops at one
  barrier and half at another ends without a finding.
\<close>

theorem barriers_at_different_sites_meet:
  "st_status (w_st (fst (barrier pair_cfg (fst (barrier pair_cfg pair_world 0 here)) 1 there)))
     = [Runnable, Runnable]
   \<and> \<not> st_aborted (w_st (fst (barrier pair_cfg (fst (barrier pair_cfg pair_world 0 here)) 1 there)))
   \<and> rep_diags (w_rep (fst (barrier pair_cfg (fst (barrier pair_cfg pair_world 0 here)) 1 there))) = []"
  by (simp add: op_eval reporter_new_def)

end
