(* ===== verification/Sched_Warp.thy ===== *)
theory Sched_Warp
  imports Sched_Run
begin

text \<open>
  What a warp rendezvous and the end of a thread do, on every branch, and what deadlock detection
  says.
\<close>

section \<open>A rendezvous\<close>

text \<open>A parked warp-mate at the same place that disagrees with the caller about who takes part.\<close>

definition disagrees :: "sched_config \<Rightarrow> sched_state \<Rightarrow> nat \<Rightarrow> warp_wait \<Rightarrow> nat \<Rightarrow> bool" where
  "disagrees cfg s me wt j \<longleftrightarrow> mates cfg me j \<and> (\<exists>other. st_warp_wait s ! j = Some other
     \<and> ww_phase other = ww_phase wt \<and> ww_at other = ww_at wt \<and> ww_mask other \<noteq> ww_mask wt
     \<and> (has_lane (ww_mask wt) (lane_of cfg j) \<or> has_lane (ww_mask other) (lane_of cfg me)))"

lemma clash_found_iff:
  assumes ok: "cfg_ok cfg" and base: "base_ok cfg s" and me: "me < total_threads cfg"
    and run: "st_status s ! me = Runnable" and s1: "s1 = park_at_warp me wt s"
  shows "find (mask_clash cfg s1 me (block_of cfg me) (warp_of cfg me) (lane_of cfg me) wt)
        [0..<lanes_in cfg (warp_of cfg me)] = None \<longleftrightarrow> \<not> (\<exists>j. disagrees cfg s me wt j)"
    (is "?none \<longleftrightarrow> _")
proof
  have base1: "base_ok cfg s1" unfolding s1 by (rule park_base [OF ok base me run])
  have len: "length (st_warp_wait s) = total_threads cfg" by (rule shape_lengths [OF base])
  have wait1: "st_warp_wait s1 ! j = (if j = me then Some wt else st_warp_wait s ! j)" for j
    using me by (cases "j = me") (simp_all add: s1 len)
  have free: "st_warp_wait s ! me = None" using base me run by (auto simp: base_ok_def waits_ok_def)
  {
    assume ?none
    show "\<not> (\<exists>j. disagrees cfg s me wt j)"
    proof
      assume "\<exists>j. disagrees cfg s me wt j"
      then obtain j other where j: "mates cfg me j" "st_warp_wait s ! j = Some other"
        "ww_phase other = ww_phase wt" "ww_at other = ww_at wt" "ww_mask other \<noteq> ww_mask wt"
        "has_lane (ww_mask wt) (lane_of cfg j) \<or> has_lane (ww_mask other) (lane_of cfg me)"
        unfolding disagrees_def by blast
      then have "j \<noteq> me" using free by auto
      then show False using no_clash [OF ok base1 me \<open>?none\<close> j(1), of other] j wait1 by simp
    qed
  next
    assume dis: "\<not> (\<exists>j. disagrees cfg s me wt j)"
    show ?none
    proof (rule ccontr)
      assume "\<not> ?none"
      then obtain l where l: "l < lanes_in cfg (warp_of cfg me)"
        and clash: "mask_clash cfg s1 me (block_of cfg me) (warp_of cfg me) (lane_of cfg me) wt l"
        by (auto simp: find_None_iff)
      let ?p = "warp_base cfg (block_of cfg me) (warp_of cfg me) + l"
      have "mates cfg me ?p" "lane_of cfg ?p = l" using lane_coords [OF ok l] by (simp_all add: mates_def)
      then have "disagrees cfg s me wt ?p"
        using clash wait1 [of ?p]
        by (auto simp: disagrees_def mask_clash_def Let_def split: option.splits if_splits)
      then show False using dis by blast
    qed
  }
qed

lemma rendezvous_branches:
  assumes "reachable_world cfg w" and "\<not> st_aborted (w_st w)" and "st_current (w_st w) = Some me"
    and "call_ok cfg me msk" and "w' = fst (warp_rendezvous cfg w me phase msk loc op)"
    and "wt = \<lparr>ww_phase = phase, ww_mask = msk, ww_at = loc, ww_op = op\<rparr>"
    and "team = (\<lambda>j. mates cfg me j \<and> has_lane msk (lane_of cfg j))"
    and "g = warp_gen_index cfg (block_of cfg me) (warp_of cfg me)"
  shows "if \<exists>j. team j \<and> st_status (w_st w) ! j = Finished
    then st_aborted (w_st w') \<and> (\<exists>arrived. w_rep w' = reporter_push (w_rep w)
        (WarpDivergence (of_nat (block_of cfg me)) (of_nat (warp_of cfg me)) op msk arrived loc))
    else if \<exists>j. disagrees cfg (w_st w) me wt j
    then st_aborted (w_st w') \<and> (\<exists>l other. w_rep w' = reporter_push (w_rep w)
        (WarpMaskMismatch (of_nat (block_of cfg me)) (of_nat (warp_of cfg me)) op loc
           (of_nat (lane_of cfg me)) msk l other))
    else if \<forall>j. team j \<and> j \<noteq> me \<longrightarrow> st_warp_wait (w_st w) ! j = Some wt
    then \<not> st_aborted (w_st w') \<and> w_rep w' = w_rep w
      \<and> (\<forall>j < total_threads cfg.
           st_status (w_st w') ! j = (if team j then Runnable else st_status (w_st w) ! j)
           \<and> st_warp_wait (w_st w') ! j = (if team j then None else st_warp_wait (w_st w) ! j))
      \<and> st_warp_gen (w_st w') =
          (if phase = phase_depart \<and> msk = valid_mask cfg (warp_of cfg me)
           then (st_warp_gen (w_st w))[g := st_warp_gen (w_st w) ! g + 1] else st_warp_gen (w_st w))
    else st_status (w_st w') = (st_status (w_st w))[me := AtWarp]
      \<and> st_warp_wait (w_st w') = (st_warp_wait (w_st w))[me := Some wt]
      \<and> st_warp_gen (w_st w') = st_warp_gen (w_st w)"
    (is "if ?gone then ?A else if ?dis then ?B else if ?all then ?C else ?D")
proof -
  note r = reachable_running [OF assms(1-3)] and ok = reachable_cfg [OF assms(1)]
  have len: "length (st_status (w_st w)) = total_threads cfg"
    "length (st_warp_wait (w_st w)) = total_threads cfg" using shape_lengths [OF r(5)] by auto
  define s1 where "s1 = park_at_warp me wt (w_st w)"
  have msk: "ww_mask wt = msk" by (simp add: assms(6))
  note eq = rendezvous_unfold [OF ok assms(6) s1_def]
  have base1: "base_ok cfg s1" unfolding s1_def by (rule park_base [OF ok r(5,3,4)])
  have stat1: "st_status s1 ! j = (if j = me then AtWarp else st_status (w_st w) ! j)" for j
    using r(3) len by (cases "j = me") (simp_all add: s1_def)
  have wait1: "st_warp_wait s1 ! j = (if j = me then Some wt else st_warp_wait (w_st w) ! j)" for j
    using r(3) len by (cases "j = me") (simp_all add: s1_def)
  have gone: "(\<exists>p. mates cfg me p \<and> has_lane msk (lane_of cfg p) \<and> st_status s1 ! p = Finished) \<longleftrightarrow> ?gone"
    using stat1 r(4) unfolding assms(7) by (metis status.distinct(5,11))
  have all: "(\<forall>p. mates cfg me p \<and> has_lane msk (lane_of cfg p)
        \<longrightarrow> st_status s1 ! p = AtWarp \<and> st_warp_wait s1 ! p = Some wt) \<longleftrightarrow> ?all"
  proof -
    have "st_status s1 ! p = AtWarp" if "mates cfg me p" "st_warp_wait s1 ! p = Some wt" for p
      using base1 mates_less [OF ok that(1) r(3)] that(2) by (auto simp: base_ok_def waits_ok_def)
    then show ?thesis unfolding assms(7) using wait1 by metis
  qed
  note dis = clash_found_iff [OF ok r(5,3,4) s1_def]
  show ?thesis
  proof (cases ?gone)
    case True
    then show ?thesis
      unfolding if_P [OF True] using gone by (auto simp: assms(5) eq warp_divergence_of_def assms(6))
  next
    case nogone: False
    show ?thesis
    proof (cases ?dis)
      case True
      then obtain l where "find (mask_clash cfg s1 me (block_of cfg me) (warp_of cfg me) (lane_of cfg me) wt)
        [0..<lanes_in cfg (warp_of cfg me)] = Some l" using dis by auto
      then have "w' = fail cfg (mismatch_of cfg s1 (block_of cfg me) (warp_of cfg me) (lane_of cfg me) wt l)
               (w\<lparr>w_st := s1\<rparr>)"
        unfolding assms(5) eq gone if_not_P [OF nogone] by simp
      then show ?thesis
        unfolding if_not_P [OF nogone] if_P [OF True] by (auto simp: mismatch_of_def assms(6))
    next
      case agree: False
      then have none: "find (mask_clash cfg s1 me (block_of cfg me) (warp_of cfg me) (lane_of cfg me) wt)
        [0..<lanes_in cfg (warp_of cfg me)] = None" using dis by blast
      show ?thesis
      proof (cases ?all)
        case True
        define s2 where "s2 = release_warp cfg (block_of cfg me) (warp_of cfg me) wt
            (members cfg (block_of cfg me) (warp_of cfg me) msk) s1"
        then have s2: "s2 = release_warp cfg (block_of cfg me) (warp_of cfg me) wt
            (members cfg (block_of cfg me) (warp_of cfg me) (ww_mask wt)) (park_at_warp me wt (w_st w))"
          by (simp add: msk s1_def)
        have w': "w' = fst (hand_off cfg (w\<lparr>w_st := s2\<rparr>) me)"
          unfolding assms(5) eq gone all if_not_P [OF nogone] none if_P [OF True] option.case s2_def ..
        have call: "call_ok cfg me (ww_mask wt)" using assms(4) msk by simp
        have "\<forall>p. mates cfg me p \<and> has_lane msk (lane_of cfg p) \<longrightarrow> st_warp_wait s1 ! p = Some wt"
          using all True by blast
        then have "core_ok cfg s2"
          by (intro release_warp_core [OF ok r(1,3,4) call s2]) (simp add: msk s1_def)
        then have base2: "base_ok cfg s2" by (simp add: core_ok_def)
        have own: "has_lane (ww_mask wt) (lane_of cfg me)" using call by (simp add: call_ok_def)
        note rel = released_warp [OF ok r(5,3) own s2]
        have "st_status s2 ! me = Runnable" using rel(1) [OF r(3)] own by simp
        then have "\<not> st_aborted (w_st w')" "w_rep w' = w_rep w"
          using hand_off_quiet [of cfg "w\<lparr>w_st := s2\<rparr>" me me] base2 r(3) assms(2)
          by (simp_all add: w' s2)
        moreover have "st_status (w_st w') ! j = (if team j then Runnable else st_status (w_st w) ! j)"
          "st_warp_wait (w_st w') ! j = (if team j then None else st_warp_wait (w_st w) ! j)"
          if "j < total_threads cfg" for j
          using rel [OF that] by (simp_all add: w' assms(7) msk)
        moreover have "st_warp_gen (w_st w') =
          (if phase = phase_depart \<and> msk = valid_mask cfg (warp_of cfg me)
           then (st_warp_gen (w_st w))[g := st_warp_gen (w_st w) ! g + 1] else st_warp_gen (w_st w))"
          by (simp add: w' s2 release_warp_def Let_def assms(6,8))
        ultimately show ?thesis
          unfolding if_not_P [OF nogone] if_not_P [OF agree] if_P [OF True] by blast
      next
        case False
        have "w' = fst (hand_off cfg (w\<lparr>w_st := s1\<rparr>) me)"
          unfolding assms(5) eq gone all if_not_P [OF nogone] none if_not_P [OF False] option.case ..
        then show ?thesis
          unfolding if_not_P [OF nogone] if_not_P [OF agree] if_not_P [OF False] by (simp add: s1_def)
      qed
    qed
  qed
qed

text \<open>
  C19: a warp rendezvous, on every branch. If a lane of the mask has left the kernel, the launch is
  aborted with a warp divergence. If a warp-mate parked at the same place disagrees about the mask and
  either of the two claims the other, it is aborted with a mask mismatch, whichever parked first. If
  every other lane of the mask is parked with the same wait, they are released together and the warp
  epoch goes up by one exactly when the collective is being left and the mask is the whole warp.
  Otherwise the caller parks.
\<close>

theorem rendezvous_outcomes:
  assumes "reachable_world cfg w" and "\<not> st_aborted (w_st w)" and "st_current (w_st w) = Some me"
    and "call_ok cfg me msk" and "w' = fst (warp_rendezvous cfg w me phase msk loc op)"
    and "wt = \<lparr>ww_phase = phase, ww_mask = msk, ww_at = loc, ww_op = op\<rparr>"
    and "team = (\<lambda>j. mates cfg me j \<and> has_lane msk (lane_of cfg j))"
    and "g = warp_gen_index cfg (block_of cfg me) (warp_of cfg me)"
  shows "if \<exists>j. team j \<and> st_status (w_st w) ! j = Finished
    then st_aborted (w_st w') \<and> (\<exists>arrived. w_rep w' = reporter_push (w_rep w)
        (WarpDivergence (of_nat (block_of cfg me)) (of_nat (warp_of cfg me)) op msk arrived loc))
    else if \<exists>j. disagrees cfg (w_st w) me wt j
    then st_aborted (w_st w') \<and> (\<exists>l other. w_rep w' = reporter_push (w_rep w)
        (WarpMaskMismatch (of_nat (block_of cfg me)) (of_nat (warp_of cfg me)) op loc
           (of_nat (lane_of cfg me)) msk l other))
    else if \<forall>j. team j \<and> j \<noteq> me \<longrightarrow> st_warp_wait (w_st w) ! j = Some wt
    then \<not> st_aborted (w_st w') \<and> w_rep w' = w_rep w
      \<and> (\<forall>j < total_threads cfg.
           st_status (w_st w') ! j = (if team j then Runnable else st_status (w_st w) ! j)
           \<and> st_warp_wait (w_st w') ! j = (if team j then None else st_warp_wait (w_st w) ! j))
      \<and> st_warp_gen (w_st w') =
          (if phase = phase_depart \<and> msk = valid_mask cfg (warp_of cfg me)
           then (st_warp_gen (w_st w))[g := st_warp_gen (w_st w) ! g + 1] else st_warp_gen (w_st w))
    else st_status (w_st w') = (st_status (w_st w))[me := AtWarp]
      \<and> st_warp_wait (w_st w') = (st_warp_wait (w_st w))[me := Some wt]
      \<and> st_warp_gen (w_st w') = st_warp_gen (w_st w)"
  by (rule rendezvous_branches [OF assms])

lemmas warp_eval = op_eval warp_rendezvous_def park_at_warp_def members_def mask_clash_def
  release_warp_def lanes_in_def warp_base_def warp_gen_index_def phase_arrive_def phase_depart_def
  block_of_def warp_of_def lane_of_def

lemma pair_masks [simp]:
  "has_lane 3 0" "has_lane 3 (Suc 0)" "valid_mask pair_cfg 0 = 3"
  by (code_simp, code_simp) (simp add: valid_mask_def lanes_in_def pair_cfg_def sched_config_of_def
      Let_def lane_bit_def)

lemma pair_coords [simp]:
  "warp_of pair_cfg 0 = 0" "warp_of pair_cfg (Suc 0) = 0" "lane_of pair_cfg 0 = 0"
  "lane_of pair_cfg (Suc 0) = 1" "block_of pair_cfg 0 = 0" "block_of pair_cfg (Suc 0) = 0"
  "warp_of pair_cfg 1 = 0" "lane_of pair_cfg 1 = 1" "block_of pair_cfg 1 = 0"
  by (simp_all add: warp_of_def lane_of_def block_of_def pair_cfg_def sched_config_of_def)

definition pair_wait :: "location \<Rightarrow> string \<Rightarrow> warp_wait" where
  "pair_wait loc op = \<lparr>ww_phase = phase_depart, ww_mask = 3, ww_at = loc, ww_op = op\<rparr>"

definition pair_parked :: "location \<Rightarrow> string \<Rightarrow> world" where
  "pair_parked loc op = sched_exec pair_cfg pair_world 0 (ActWarp phase_depart 3 loc op)"

lemma pair_call_ok [simp]: "call_ok pair_cfg 0 3" "call_ok pair_cfg 1 3" "call_ok pair_cfg (Suc 0) 3"
  by (simp_all add: call_ok_def)

lemma pair_parked_state [simp]:
  "\<not> st_aborted (w_st (pair_parked loc op))" "st_current (w_st (pair_parked loc op)) = Some 1"
  "st_status (w_st (pair_parked loc op)) = [AtWarp, Runnable]"
  "st_warp_wait (w_st (pair_parked loc op)) = [Some (pair_wait loc op), None]"
  "st_warp_gen (w_st (pair_parked loc op)) = [0]"
  by (simp_all add: pair_parked_def pair_wait_def warp_eval)

lemma pair_parked_reachable [simp]: "reachable_world pair_cfg (pair_parked loc op)"
  unfolding pair_parked_def by (rule reachable_act) simp_all

lemma pair_mates: "mates pair_cfg 1 j \<Longrightarrow> j = 0 \<or> j = 1"
  by (auto simp: mates_def pair_block less_2_cases_iff)

theorem rendezvous_outcomes_witness:
  "st_warp_gen (w_st (fst (warp_rendezvous pair_cfg (pair_parked (Location ''k.rs'' 4 9) ''sync_warp'') 1
      phase_depart 3 (Location ''k.rs'' 4 9) ''sync_warp''))) = [1]"
proof -
  let ?w = "pair_parked (Location ''k.rs'' 4 9) ''sync_warp''"
  let ?wt = "pair_wait (Location ''k.rs'' 4 9) ''sync_warp''"
  note out = rendezvous_outcomes [OF pair_parked_reachable pair_parked_state(1,2) pair_call_ok(2) refl
      pair_wait_def refl refl, of "Location ''k.rs'' 4 9" "''sync_warp''" "Location ''k.rs'' 4 9" "''sync_warp''"]
  have gone: "\<not> (\<exists>j. (mates pair_cfg 1 j \<and> has_lane 3 (lane_of pair_cfg j)) \<and> st_status (w_st ?w) ! j = Finished)"
    using pair_mates by fastforce
  have agree: "\<not> (\<exists>j. disagrees pair_cfg (w_st ?w) 1 ?wt j)"
    using pair_mates by (fastforce simp: disagrees_def)
  have all: "\<forall>j. (mates pair_cfg 1 j \<and> has_lane 3 (lane_of pair_cfg j)) \<and> j \<noteq> 1
      \<longrightarrow> st_warp_wait (w_st ?w) ! j = Some ?wt"
    using pair_mates by fastforce
  have g: "warp_gen_index pair_cfg (block_of pair_cfg 1) (warp_of pair_cfg 1) = 0"
    by (simp add: warp_gen_index_def)
  show ?thesis
    using out unfolding if_not_P [OF gone] if_not_P [OF agree] if_P [OF all] g by simp
qed

section \<open>Leaving the kernel\<close>

lemma bit_arrived:
  assumes ok: "cfg_ok cfg"
  shows "bit (arrived_mask cfg s (block_of cfg i) (warp_of cfg i) wt) l \<longleftrightarrow>
    (\<exists>j w'. mates cfg i j \<and> lane_of cfg j = l \<and> st_status s ! j = AtWarp \<and> st_warp_wait s ! j = Some w'
       \<and> ww_phase w' = ww_phase wt \<and> ww_at w' = ww_at wt)"
proof -
  let ?P = "\<lambda>p. st_status s ! p = AtWarp
      \<and> (case st_warp_wait s ! p of Some w \<Rightarrow> ww_phase w = ww_phase wt \<and> ww_at w = ww_at wt | None \<Rightarrow> False)"
  have "bit (arrived_mask cfg s (block_of cfg i) (warp_of cfg i) wt) l \<longleftrightarrow> l < 32 \<and>
      (\<exists>k < lanes_in cfg (warp_of cfg i).
         k = l \<and> ?P (warp_base cfg (block_of cfg i) (warp_of cfg i) + k))"
    by (auto simp: arrived_mask_def Let_def bit_mask_of)
  also have "\<dots> \<longleftrightarrow> l < 32 \<and> (\<exists>p. mates cfg i p \<and> lane_of cfg p = l \<and> ?P p)"
    using ex_lane_iff [OF ok, of i "\<lambda>p k. k = l \<and> ?P p"] by simp
  also have "\<dots> \<longleftrightarrow> (\<exists>p. mates cfg i p \<and> lane_of cfg p = l \<and> ?P p)"
    using lane_of_less_32 [OF ok] by auto
  finally show ?thesis by (auto split: option.splits)
qed

lemma abandoned_found:
  assumes ok: "cfg_ok cfg" and base: "base_ok cfg s" and me: "me < total_threads cfg"
  shows "find (abandoned cfg s (block_of cfg me) (warp_of cfg me) (lane_of cfg me))
      [0..<lanes_in cfg (warp_of cfg me)] = None
    \<longleftrightarrow> \<not> (\<exists>j wt. mates cfg me j \<and> st_warp_wait s ! j = Some wt \<and> has_lane (ww_mask wt) (lane_of cfg me))"
    (is "?none \<longleftrightarrow> _")
proof
  assume ?none
  then show "\<not> (\<exists>j wt. mates cfg me j \<and> st_warp_wait s ! j = Some wt \<and> has_lane (ww_mask wt) (lane_of cfg me))"
    using no_abandoned [OF ok base me] by blast
next
  assume no: "\<not> (\<exists>j wt. mates cfg me j \<and> st_warp_wait s ! j = Some wt \<and> has_lane (ww_mask wt) (lane_of cfg me))"
  have "\<not> abandoned cfg s (block_of cfg me) (warp_of cfg me) (lane_of cfg me) l"
    if "l < lanes_in cfg (warp_of cfg me)" for l
  proof -
    have "mates cfg me (warp_base cfg (block_of cfg me) (warp_of cfg me) + l)"
      using lane_coords [OF ok that] by (simp add: mates_def)
    then show ?thesis using no by (auto simp: abandoned_def Let_def split: option.splits)
  qed
  then show ?none by (auto simp: find_None_iff)
qed



section \<open>What deadlock detection says\<close>

text \<open>Lanes of a warp that are parked at the same place are there for the same operation.\<close>

definition one_op_per_site :: "sched_config \<Rightarrow> sched_state \<Rightarrow> bool" where
  "one_op_per_site cfg s \<longleftrightarrow> (\<forall>i < total_threads cfg. \<forall>j wi wj. mates cfg i j \<and> st_warp_wait s ! i = Some wi
     \<and> st_warp_wait s ! j = Some wj \<and> ww_at wi = ww_at wj \<longrightarrow> ww_op wi = ww_op wj)"

text \<open>
  C24: the report of a deadlock. In every state that keeps the invariant, when nobody can run and
  somebody has not returned, deadlock detection aborts the launch and pushes at least one finding, and
  every finding it pushes is a warp divergence (the barrier loop of \<^verbatim>\<open>detect_stuck\<close> is never reached),
  which, as long as no two operations share a call site, names a lane of the mask that did not arrive.
\<close>

theorem deadlock_report:
  assumes "cfg_ok cfg" and "core_ok cfg (w_st w)" and "one_op_per_site cfg (w_st w)"
    and "\<forall>i < total_threads cfg. st_status (w_st w) ! i \<noteq> Runnable"
    and "\<exists>i < total_threads cfg. st_status (w_st w) ! i \<noteq> Finished"
  shows "st_aborted (w_st (detect_stuck cfg w))
    \<and> (\<exists>ds. ds \<noteq> [] \<and> w_rep (detect_stuck cfg w) = foldl reporter_push (w_rep w) ds
        \<and> (\<forall>d \<in> set ds. \<exists>b wp op msk arrived at.
             d = WarpDivergence b wp op msk arrived at \<and> msk AND NOT arrived \<noteq> 0))"
proof -
  let ?s = "w_st w"
  have base: "base_ok cfg ?s" using assms(2) by (simp add: core_ok_def)
  have "\<exists>i < total_threads cfg. st_status ?s ! i = AtWarp"
  proof (rule ccontr)
    assume no: "\<not> ?thesis"
    obtain i where i: "i < total_threads cfg" "st_status ?s ! i \<noteq> Finished" using assms(5) by blast
    have "st_status ?s ! i = AtBarrier"
      using i no assms(4) by (cases "st_status ?s ! i") auto
    then have b: "barrier_waits_ok cfg ?s i" using assms(2) i by (simp add: core_ok_def barriers_ok_def)
    then obtain j where j: "block_of cfg j = block_of cfg i" "st_status ?s ! j \<noteq> AtBarrier"
      "st_status ?s ! j \<noteq> Finished" unfolding barrier_waits_ok_def by blast
    then have "j < total_threads cfg" using i(1) by (simp add: block_of_less_iff [OF assms(1)])
    then show False using j no assms(4) by (cases "st_status ?s ! j") auto
  qed
  then have ne: "stuck_warps cfg ?s \<noteq> []" using stuck_warps_empty [OF assms(1) base] by blast
  have missing: "\<exists>b wp op msk arrived at. d = WarpDivergence b wp op msk arrived at \<and> msk AND NOT arrived \<noteq> 0"
    if d: "d \<in> set (stuck_warps cfg ?s)" for d
  proof -
    obtain b wp where b: "b < sc_blocks cfg" and "stuck_warp cfg ?s b wp = Some d"
      using d by (auto simp: in_stuck_warps)
    then obtain i wt where i: "block_of cfg i = b" "warp_of cfg i = wp" "st_warp_wait ?s ! i = Some wt"
      and d: "d = warp_divergence_of cfg ?s b wp wt"
      using stuck_warp_Some [OF assms(1) base b] by blast
    have lt: "i < total_threads cfg" using i b by (simp add: block_of_less_iff [OF assms(1)])
    then have wok: "lane_waits_ok cfg ?s i wt" using assms(2) i by (simp add: core_ok_def warps_ok_def)
    then obtain j where j: "mates cfg i j" "has_lane (ww_mask wt) (lane_of cfg j)" "st_warp_wait ?s ! j \<noteq> Some wt"
      unfolding lane_waits_ok_def by blast
    have "\<not> bit (arrived_mask cfg ?s b wp wt) (lane_of cfg j)"
    proof
      assume "bit (arrived_mask cfg ?s b wp wt) (lane_of cfg j)"
      then obtain k w' where k: "mates cfg i k" "lane_of cfg k = lane_of cfg j" "st_warp_wait ?s ! k = Some w'"
        "ww_phase w' = ww_phase wt" "ww_at w' = ww_at wt"
        using bit_arrived [OF assms(1), of ?s i wt "lane_of cfg j"] unfolding i(1,2) by blast
      have "k = j" by (rule mates_same_lane [OF k(1) j(1) k(2)])
      moreover have "ww_mask w' = ww_mask wt"
      proof -
        have "has_lane (ww_mask wt) (lane_of cfg k)" using j(2) k(2) by simp
        then show ?thesis using wok k unfolding lane_waits_ok_def by blast
      qed
      moreover have "ww_op wt = ww_op w'"
        using assms(3) lt i(3) k(1,3,5) unfolding one_op_per_site_def by metis
      ultimately show False using k j(3) by simp
    qed
    then have "bit (ww_mask wt AND NOT (arrived_mask cfg ?s b wp wt)) (lane_of cfg j)"
      using j(2) lane_of_less_32 [OF assms(1)] by (simp add: bit_simps mask_simps)
    then have "ww_mask wt AND NOT (arrived_mask cfg ?s b wp wt) \<noteq> 0" by (metis bit_0_eq bot_apply bot_bool_def)
    then show ?thesis unfolding d warp_divergence_of_def by blast
  qed
  have "detect_stuck cfg w = set_aborted (w\<lparr>w_rep := foldl reporter_push (w_rep w) (stuck_warps cfg ?s)\<rparr>)"
    using ne by (simp add: detect_stuck_def Let_def)
  then have ab: "st_aborted (w_st (detect_stuck cfg w))"
    and rep: "w_rep (detect_stuck cfg w) = foldl reporter_push (w_rep w) (stuck_warps cfg ?s)"
    by simp_all
  show ?thesis
    by (intro conjI exI [of _ "stuck_warps cfg ?s"] ballI) (fact ab ne rep, fact ab ne rep, fact rep, erule missing)
qed

text \<open>Each of the two lanes waits for the other, at different calls.\<close>

definition crossed :: world where
  "crossed = (pair_parked (Location ''k.rs'' 4 9) ''any_sync'')\<lparr>w_st :=
     park_at_warp 1 (pair_wait (Location ''k.rs'' 6 9) ''all_sync'')
       (w_st (pair_parked (Location ''k.rs'' 4 9) ''any_sync''))\<rparr>"

lemma crossed_state [simp]:
  "st_status (w_st crossed) = [AtWarp, AtWarp]"
  "st_warp_wait (w_st crossed) = [Some (pair_wait (Location ''k.rs'' 4 9) ''any_sync''),
     Some (pair_wait (Location ''k.rs'' 6 9) ''all_sync'')]"
  by (simp_all add: crossed_def)

lemma pair_total [simp]: "total_threads pair_cfg = 2"
  by (simp add: total_threads_def pair_cfg_def sched_config_of_def)

lemma crossed_core: "core_ok pair_cfg (w_st crossed)"
proof -
  let ?w = "pair_parked (Location ''k.rs'' 4 9) ''any_sync''"
  let ?wt = "pair_wait (Location ''k.rs'' 6 9) ''all_sync''"
  note r = reachable_running [OF pair_parked_reachable pair_parked_state(1,2)]
  have s1: "w_st crossed = park_at_warp 1 ?wt (w_st ?w)" by (simp add: crossed_def)
  have msk: "ww_mask ?wt = 3" by (simp add: pair_wait_def)
  have "\<not> (\<exists>j. disagrees pair_cfg (w_st ?w) 1 ?wt j)"
    using pair_mates by (fastforce simp: disagrees_def pair_wait_def)
  then have none: "find (mask_clash pair_cfg (w_st crossed) 1 (block_of pair_cfg 1) (warp_of pair_cfg 1)
      (lane_of pair_cfg 1) ?wt) [0..<lanes_in pair_cfg (warp_of pair_cfg 1)] = None"
    using clash_found_iff [OF pair_cfg_ok r(5,3,4) s1] by blast
  show ?thesis
  proof (rule park_core [OF pair_cfg_ok r(1,3,4) _ s1 _ none])
    show "\<forall>p. mates pair_cfg 1 p \<and> has_lane (ww_mask ?wt) (lane_of pair_cfg p)
        \<longrightarrow> st_status (w_st crossed) ! p \<noteq> Finished"
      using pair_mates by fastforce
    show "\<exists>p. mates pair_cfg 1 p \<and> has_lane (ww_mask ?wt) (lane_of pair_cfg p)
        \<and> st_warp_wait (w_st crossed) ! p \<noteq> Some ?wt"
      by (rule exI [of _ 0]) (simp add: mates_def pair_wait_def)
  qed (simp add: msk)
qed

theorem deadlock_report_witness:
  "st_aborted (w_st (detect_stuck pair_cfg crossed))
    \<and> (\<exists>ds. ds \<noteq> [] \<and> w_rep (detect_stuck pair_cfg crossed) = foldl reporter_push (w_rep crossed) ds
        \<and> (\<forall>d \<in> set ds. \<exists>b wp op msk arrived at.
             d = WarpDivergence b wp op msk arrived at \<and> msk AND NOT arrived \<noteq> 0))"
proof (rule deadlock_report [OF pair_cfg_ok crossed_core])
  have "j = 0 \<or> j = 1" if "mates pair_cfg i j" "i < 2" for i j
    using that pair_block [of i] pair_block [of j] by (auto simp: mates_def less_2_cases_iff)
  then have mates: "j = 0 \<or> j = 1" if "mates pair_cfg i j" "i < 2" for i j
    using that by blast
  show "one_op_per_site pair_cfg (w_st crossed)"
    unfolding one_op_per_site_def
  proof (intro allI impI)
    fix i j wi wj
    assume "i < total_threads pair_cfg" and w: "mates pair_cfg i j \<and> st_warp_wait (w_st crossed) ! i = Some wi
      \<and> st_warp_wait (w_st crossed) ! j = Some wj \<and> ww_at wi = ww_at wj"
    then have "i = 0 \<or> i = 1" "j = 0 \<or> j = 1" using mates [of i j] by (auto simp: less_2_cases_iff)
    then show "ww_op wi = ww_op wj" using w by (elim disjE) (auto simp: pair_wait_def)
  qed
  show "\<forall>i < total_threads pair_cfg. st_status (w_st crossed) ! i \<noteq> Runnable"
    by (auto simp: less_2_cases_iff)
  show "\<exists>i < total_threads pair_cfg. st_status (w_st crossed) ! i \<noteq> Finished"
    by (rule exI [of _ 0]) simp
qed

text \<open>
  The condition of \<open>deadlock_report\<close> is needed. A rendezvous completes only when phase, mask,
  place and operation agree, but the lanes that "arrived" are counted by phase and place alone: two
  lanes that reach different operations through one tracked call site deadlock, and the finding says
  that lanes 0-1 were named and lanes 0-1 arrived, so none is missing.
\<close>

theorem two_operations_at_one_site:
  "rep_diags (w_rep (fst (warp_rendezvous pair_cfg
      (fst (warp_rendezvous pair_cfg pair_world 0 phase_arrive 3 here ''any_sync''))
      1 phase_arrive 3 here ''all_sync'')))
   = [WarpDivergence 0 0 ''any_sync'' 3 3 here]"
proof -
  have three: "push_bit 0 1 OR push_bit (Suc 0) 1 = (3 :: u32)" by code_simp
  show ?thesis
    by (simp add: warp_eval detect_stuck_def stuck_warps_def stuck_warp_def map_filter_simps
        warp_divergence_of_def arrived_mask_def mask_of_def lane_bit_def set_aborted_def reporter_push_def
        reporter_new_def max_diagnostics_def three)
qed

section \<open>Nobody sleeps through its turn\<close>

lemma wake_covers:
  "j < total_threads cfg \<Longrightarrow> turn_of (w_st (wake cfg w)) j \<noteq> Block \<Longrightarrow>
     j \<in> set (w_woken (wake cfg w)) \<and> (\<not> st_aborted (w_st (wake cfg w)) \<longrightarrow> w_woken (wake cfg w) = [j])"
  by (auto simp: wake_def turn_of_def split: if_splits)

lemma exec_wakes:
  assumes "\<forall>d. a \<noteq> ActReport d"
  shows "\<exists>w0. sched_exec cfg w me a = wake cfg w0"
proof -
  have h: "\<exists>w0. fst (hand_off cfg v me) = wake cfg w0" for v by (auto simp: hand_off_def Let_def)
  have f: "\<exists>w0. fail cfg d v = wake cfg w0" for d v by (auto simp: fail_def)
  show ?thesis
    using assms h f
    by (cases a) (auto simp: yield_now_def barrier_def barrier_divergence_def warp_rendezvous_def finish_def
        abort_def Let_def split: option.splits)
qed

text \<open>
  C23: no lost wakeup. A thread that was waiting and may go on after a step, because it now holds the
  turn or because the launch was aborted, has been notified by that step; and without an abort the
  notification went to that thread alone.
\<close>

theorem waiting_threads_are_woken:
  assumes "sched_step cfg w w'" and "j < total_threads cfg"
    and "turn_of (w_st w) j = Block" and "turn_of (w_st w') j \<noteq> Block"
  shows "j \<in> set (w_woken w') \<and> (\<not> st_aborted (w_st w') \<longrightarrow> w_woken w' = [j])"
  using assms(1)
proof cases
  case (act me a)
  have "\<forall>d. a \<noteq> ActReport d" using assms(3,4) act by auto
  then obtain w0 where "w' = wake cfg w0" using exec_wakes [of a cfg w me] act by blast
  then show ?thesis using wake_covers assms(2,4) by blast
qed

theorem waiting_threads_are_woken_witness:
  "w_woken (pair_waiting (Location ''k.rs'' 7 5)) = [1]"
proof -
  let ?w = "pair_waiting (Location ''k.rs'' 7 5)"
  have "sched_step pair_cfg pair_world ?w"
    unfolding pair_waiting_def by (rule sched_step.act) simp_all
  then have "1 \<in> set (w_woken ?w) \<and> (\<not> st_aborted (w_st ?w) \<longrightarrow> w_woken ?w = [1])"
    by (rule waiting_threads_are_woken) (simp_all add: turn_of_def)
  then show ?thesis by simp
qed

end
