(* ===== verification/Sched_Replay.thy ===== *)
theory Sched_Replay
  imports Sched_Run "HOL-Library.Sublist"
begin

text \<open>
  Record and replay. A launch runs a kernel on the scheduler: from the memory and the epochs it can
  see, the thread that holds the turn determines its next action. Replaying the recorded trace of a
  launch reproduces it: the scheduler goes through the same states, so the kernel does the same.
\<close>

section \<open>A state that follows a plan\<close>

definition plan_state :: "u32 list \<Rightarrow> sched_state \<Rightarrow> sched_state" where
  "plan_state full s = s\<lparr>st_choices := Replay full (length (st_trace s))\<rparr>"

definition with_plan :: "u32 list \<Rightarrow> world \<Rightarrow> world" where
  "with_plan full w = w\<lparr>w_st := plan_state full (w_st w)\<rparr>"

lemma plan_state_fields [simp]:
  "st_current (plan_state full s) = st_current s" "st_status (plan_state full s) = st_status s"
  "st_barrier_gen (plan_state full s) = st_barrier_gen s"
  "st_barrier_loc (plan_state full s) = st_barrier_loc s"
  "st_warp_wait (plan_state full s) = st_warp_wait s" "st_warp_gen (plan_state full s) = st_warp_gen s"
  "st_trace (plan_state full s) = st_trace s"
  "st_trace_complete (plan_state full s) = st_trace_complete s"
  "st_aborted (plan_state full s) = st_aborted s"
  by (simp_all add: plan_state_def)

lemma with_plan_fields [simp]:
  "w_st (with_plan full w) = plan_state full (w_st w)" "w_rep (with_plan full w) = w_rep w"
  "w_woken (with_plan full w) = w_woken w"
  by (simp_all add: with_plan_def)

lemma with_plan_update:
  "(with_plan full w)\<lparr>w_st := plan_state full s\<rparr> = with_plan full (w\<lparr>w_st := s\<rparr>)"
  by (simp add: with_plan_def)

text \<open>Everything the operations do around the choice commutes with following a plan.\<close>

lemma plan_commutes:
  "arrive_at_barrier me b loc (plan_state full s) = plan_state full (arrive_at_barrier me b loc s)"
  "release_barrier cfg b (plan_state full s) = plan_state full (release_barrier cfg b s)"
  "park_at_warp me wt (plan_state full s) = plan_state full (park_at_warp me wt s)"
  "release_warp cfg b wp wt ps (plan_state full s) = plan_state full (release_warp cfg b wp wt ps s)"
  "(plan_state full s)\<lparr>st_status := st\<rparr> = plan_state full (s\<lparr>st_status := st\<rparr>)"
  "(plan_state full s)\<lparr>st_aborted := ab\<rparr> = plan_state full (s\<lparr>st_aborted := ab\<rparr>)"
  by (simp_all add: plan_state_def arrive_at_barrier_def release_barrier_def park_at_warp_def
      release_warp_def Let_def)

lemma plan_reads:
  "arrived_mask cfg (plan_state full s) = arrived_mask cfg s"
  "warp_divergence_of cfg (plan_state full s) = warp_divergence_of cfg s"
  "barrier_finding cfg (plan_state full s) = barrier_finding cfg s"
  "mask_clash cfg (plan_state full s) = mask_clash cfg s"
  "mismatch_of cfg (plan_state full s) = mismatch_of cfg s"
  "abandoned cfg (plan_state full s) = abandoned cfg s"
  "stuck_warps cfg (plan_state full s) = stuck_warps cfg s"
  "stuck_barriers cfg (plan_state full s) = stuck_barriers cfg s"
proof -
  show am: "arrived_mask cfg (plan_state full s) = arrived_mask cfg s" by (rule ext)+ (simp add: arrived_mask_def)
  show wd: "warp_divergence_of cfg (plan_state full s) = warp_divergence_of cfg s"
    by (rule ext)+ (simp add: warp_divergence_of_def am)
  show bf: "barrier_finding cfg (plan_state full s) = barrier_finding cfg s"
    by (rule ext)+ (simp add: barrier_finding_def)
  show "mask_clash cfg (plan_state full s) = mask_clash cfg s" by (rule ext)+ (simp add: mask_clash_def)
  show "mismatch_of cfg (plan_state full s) = mismatch_of cfg s" by (rule ext)+ (simp add: mismatch_of_def)
  show "abandoned cfg (plan_state full s) = abandoned cfg s" by (rule ext)+ (simp add: abandoned_def)
  have "stuck_warp cfg (plan_state full s) = stuck_warp cfg s" by (rule ext)+ 
      (simp add: stuck_warp_def wd Let_def cong: list.case_cong option.case_cong)
  then show "stuck_warps cfg (plan_state full s) = stuck_warps cfg s" by (simp add: stuck_warps_def)
  show "stuck_barriers cfg (plan_state full s) = stuck_barriers cfg s" by (simp add: stuck_barriers_def bf)
qed

lemma plan_world_commutes:
  "wake cfg (with_plan full w) = with_plan full (wake cfg w)"
  "push_finding d (with_plan full w) = with_plan full (push_finding d w)"
  "set_aborted (with_plan full w) = with_plan full (set_aborted w)"
  "fail cfg d (with_plan full w) = with_plan full (fail cfg d w)"
  "detect_stuck cfg (with_plan full w) = with_plan full (detect_stuck cfg w)"
  by (simp_all add: with_plan_def wake_def push_finding_def set_aborted_def fail_def detect_stuck_def
      plan_reads plan_commutes Let_def)

section \<open>Choosing along a recorded trace\<close>

definition traced :: "u32 list \<Rightarrow> sched_state \<Rightarrow> bool" where
  "traced full s \<longleftrightarrow> st_trace_complete s \<and> prefix (st_trace s) full"

lemma pick_next_trace:
  "st_trace (pick_next s) =
     (if runnable_list s = [] \<or> \<not> length (st_trace s) < max_trace then st_trace s
      else st_trace s @ [of_nat (fst (choose_next (st_choices s) (st_current s) (runnable_list s)))])"
  "st_trace_complete (pick_next s) \<longleftrightarrow>
     st_trace_complete s \<and> (runnable_list s = [] \<or> length (st_trace s) < max_trace)"
  by (auto simp: pick_next_def Let_def record_choice_def split: prod.splits)

lemma runnable_list_plan [simp]: "runnable_list (plan_state full s) = runnable_list s"
  by (simp add: runnable_list_def)

lemma runnable_list_choices [simp]: "runnable_list (s\<lparr>st_choices := ch\<rparr>) = runnable_list s"
  by (simp add: runnable_list_def)

lemma pick_next_split:
  assumes "runnable_list s \<noteq> []"
    and "choose_next (st_choices s) (st_current s) (runnable_list s) = (c, ch)"
  shows "pick_next s = (record_choice (s\<lparr>st_choices := ch\<rparr>) c)\<lparr>st_current := Some c\<rparr>"
  using assms by (simp add: pick_next_def Let_def)

lemma pick_next_plan:
  assumes len: "length (st_status s) < 2 ^ 32" and tr: "traced full (pick_next s)"
  shows "pick_next (plan_state full s) = plan_state full (pick_next s)"
proof (cases "runnable_list s = []")
  case True
  then show ?thesis by (simp add: pick_next_def plan_state_def)
next
  case False
  define c where "c = fst (choose_next (st_choices s) (st_current s) (runnable_list s))"
  have "length (runnable_list s) < 2 ^ 64" using length_runnable_list [of s] len by simp
  then have mem: "c \<in> set (runnable_list s)" using choose_next_runnable [OF False] by (simp add: c_def)
  then have "c < 2 ^ 32" using len by (auto simp: set_runnable_list)
  then have uc: "unat (of_nat c :: u32) = c" by (simp add: unat_of_nat)
  have room: "length (st_trace s) < max_trace"
    using tr False by (simp add: traced_def pick_next_trace)
  then have "prefix (st_trace s @ [of_nat c]) full"
    using tr False by (simp add: traced_def pick_next_trace c_def)
  then have at: "nth_option full (length (st_trace s)) = Some (of_nat c)"
    by (auto simp: prefix_def nth_option_def nth_append)
  have "choose_next (Replay full (length (st_trace s))) (st_current s) (runnable_list s)
      = (c, Replay full (length (st_trace s) + 1))"
    using mem by (simp add: choose_next_def Let_def at uc)
  then have "pick_next (plan_state full s) = (record_choice
      (s\<lparr>st_choices := Replay full (length (st_trace s) + 1)\<rparr>) c)\<lparr>st_current := Some c\<rparr>"
    using pick_next_split [of "plan_state full s"] False by (simp add: plan_state_def)
  moreover obtain ch where "choose_next (st_choices s) (st_current s) (runnable_list s) = (c, ch)"
    using c_def by (metis prod.collapse)
  then have "pick_next s = (record_choice (s\<lparr>st_choices := ch\<rparr>) c)\<lparr>st_current := Some c\<rparr>"
    by (rule pick_next_split [OF False])
  ultimately show ?thesis using room by (simp add: plan_state_def record_choice_def)
qed

lemma traced_wake [simp]: "traced full (w_st (wake cfg w)) \<longleftrightarrow> traced full (w_st w)"
  by simp

lemma detect_stuck_trace [simp]:
  "st_trace (w_st (detect_stuck cfg w)) = st_trace (w_st w)"
  "st_trace_complete (w_st (detect_stuck cfg w)) = st_trace_complete (w_st w)"
  by (simp_all add: detect_stuck_def Let_def)

lemma hand_off_plan:
  assumes "length (st_status (w_st w)) < 2 ^ 32" and "traced full (w_st (fst (hand_off cfg w me)))"
  shows "fst (hand_off cfg (with_plan full w) me) = with_plan full (fst (hand_off cfg w me))"
proof -
  have "traced full (pick_next (w_st w))"
    using assms(2) by (simp add: hand_off_def Let_def traced_def split: if_splits)
  then have "pick_next (plan_state full (w_st w)) = plan_state full (pick_next (w_st w))"
    using assms(1) by (rule pick_next_plan [rotated])
  then show ?thesis
    by (simp add: hand_off_def Let_def with_plan_update plan_world_commutes)
qed

lemma status_lengths [simp]:
  "length (st_status (arrive_at_barrier me b loc s)) = length (st_status s)"
  "length (st_status (release_barrier cfg b s)) = length (st_status s)"
  "length (st_status (park_at_warp me wt s)) = length (st_status s)"
  "length (st_status (release_warp cfg b wp wt ps s)) = length (st_status s)"
  by simp_all

lemma exec_plan:
  assumes ok: "cfg_ok cfg" and len: "length (st_status (w_st w)) < 2 ^ 32"
    and tr: "traced full (w_st (sched_exec cfg w me a))"
  shows "sched_exec cfg (with_plan full w) me a = with_plan full (sched_exec cfg w me a)"
proof (cases a)
  case ActYield
  then show ?thesis using hand_off_plan [OF len] tr by (simp add: yield_now_def)
next
  case (ActBarrier loc)
  define s1 where "s1 = arrive_at_barrier me (block_of cfg me) loc (w_st w)"
  have s1p: "plan_state full s1 = arrive_at_barrier me (block_of cfg me) loc (w_st (with_plan full w))"
    by (simp add: s1_def plan_commutes)
  note e1 = barrier_unfold [OF ok s1_def] and e2 = barrier_unfold [OF ok s1p]
  have "length (st_status s1) < 2 ^ 32" using len by (simp add: s1_def)
  then show ?thesis
    using tr hand_off_plan [of "w\<lparr>w_st := s1\<rparr>" full cfg me]
      hand_off_plan [of "w\<lparr>w_st := release_barrier cfg (block_of cfg me) s1\<rparr>" full cfg me]
    unfolding ActBarrier sched_exec.simps e1 e2
    by (auto simp: plan_commutes(2) plan_reads with_plan_update plan_world_commutes barrier_divergence_def
        split: if_splits)
next
  case (ActWarp phase msk loc op)
  define wt where "wt = \<lparr>ww_phase = phase, ww_mask = msk, ww_at = loc, ww_op = op\<rparr>"
  define s1 where "s1 = park_at_warp me wt (w_st w)"
  have s1p: "plan_state full s1 = park_at_warp me wt (w_st (with_plan full w))"
    by (simp add: s1_def plan_commutes)
  note e1 = rendezvous_unfold [OF ok wt_def s1_def] and e2 = rendezvous_unfold [OF ok wt_def s1p]
  have "length (st_status s1) < 2 ^ 32" using len by (simp add: s1_def)
  then show ?thesis
    using tr hand_off_plan [of "w\<lparr>w_st := s1\<rparr>" full cfg me]
      hand_off_plan [of "w\<lparr>w_st := release_warp cfg (block_of cfg me) (warp_of cfg me) wt
        (members cfg (block_of cfg me) (warp_of cfg me) msk) s1\<rparr>" full cfg me]
    unfolding ActWarp sched_exec.simps e1 e2
    by (auto simp: plan_commutes(4) plan_reads with_plan_update plan_world_commutes
        split: option.splits if_splits)
next
  case ActFinish
  define s1 where "s1 = (w_st w)\<lparr>st_status := (st_status (w_st w))[me := Finished]\<rparr>"
  have s1p: "plan_state full s1 = (w_st (with_plan full w))
      \<lparr>st_status := (st_status (w_st (with_plan full w)))[me := Finished]\<rparr>"
    by (simp add: s1_def plan_commutes)
  note e1 = finish_unfold [OF s1_def] and e2 = finish_unfold [OF s1p]
  have len1: "length (st_status s1) < 2 ^ 32" using len by (simp add: s1_def)
  then show ?thesis
    using tr pick_next_plan [of s1 full]
    unfolding ActFinish sched_exec.simps e1 e2
    by (auto simp: plan_reads with_plan_update plan_world_commutes barrier_divergence_def traced_def
        split: option.splits if_splits)
next
  case (ActReport d)
  then show ?thesis by (simp add: plan_world_commutes)
next
  case (ActTrap d)
  then show ?thesis by (simp add: abort_def plan_world_commutes)
qed

section \<open>Traces only grow\<close>

text \<open>At most \<open>n\<close> decisions were made between the two states, and recorded while there was room.\<close>

definition extends :: "nat \<Rightarrow> sched_state \<Rightarrow> sched_state \<Rightarrow> bool" where
  "extends n s s' \<longleftrightarrow> prefix (st_trace s) (st_trace s') \<and> (st_trace_complete s' \<longrightarrow> st_trace_complete s)
     \<and> length (st_status s') = length (st_status s) \<and> length (st_trace s') \<le> length (st_trace s) + n
     \<and> (st_trace_complete s \<and> length (st_trace s) + n \<le> max_trace \<longrightarrow> st_trace_complete s')"

lemma extends_refl [simp]: "extends n s s"
  by (simp add: extends_def)

lemma extendsD:
  assumes "extends n s s'"
  shows "prefix (st_trace s) (st_trace s')" "st_trace_complete s' \<Longrightarrow> st_trace_complete s"
    "length (st_status s') = length (st_status s)" "length (st_trace s') \<le> length (st_trace s) + n"
    "st_trace_complete s \<Longrightarrow> length (st_trace s) + n \<le> max_trace \<Longrightarrow> st_trace_complete s'"
  using assms unfolding extends_def by blast+

lemma extends_trans:
  assumes x: "extends a s s'" and y: "extends b s' s''"
  shows "extends (a + b) s s''"
  unfolding extends_def
proof (intro conjI impI)
  show "prefix (st_trace s) (st_trace s'')"
    by (rule prefix_order.order_trans [OF extendsD(1) [OF x] extendsD(1) [OF y]])
  show "st_trace_complete s" if "st_trace_complete s''"
    using extendsD(2) [OF y that] by (rule extendsD(2) [OF x])
  show "length (st_status s'') = length (st_status s)" using extendsD(3) [OF x] extendsD(3) [OF y] by (rule trans [rotated])
  show "length (st_trace s'') \<le> length (st_trace s) + (a + b)"
    using extendsD(4) [OF x] extendsD(4) [OF y] by linarith
  assume r: "st_trace_complete s \<and> length (st_trace s) + (a + b) \<le> max_trace"
  then have "st_trace_complete s'" using extendsD(5) [OF x] by linarith
  moreover have "length (st_trace s') + b \<le> max_trace" using r extendsD(4) [OF x] by linarith
  ultimately show "st_trace_complete s''" by (rule extendsD(5) [OF y])
qed

lemma extends_mono:
  assumes x: "extends a s s'" and le: "a \<le> b"
  shows "extends b s s'"
  unfolding extends_def
proof (intro conjI impI)
  assume r: "st_trace_complete s \<and> length (st_trace s) + b \<le> max_trace"
  then have "length (st_trace s) + a \<le> max_trace" using le by linarith
  with r show "st_trace_complete s'" using extendsD(5) [OF x] by blast
next
  show "length (st_trace s') \<le> length (st_trace s) + b" using extendsD(4) [OF x] le by linarith
qed (rule extendsD [OF x], assumption?)+

lemma extends_pick_next: "extends 1 s (pick_next s)"
  by (auto simp: extends_def pick_next_trace)

lemma extends_traced: "extends n s s' \<Longrightarrow> traced full s' \<Longrightarrow> traced full s"
  unfolding traced_def using extendsD(1,2) prefix_order.order_trans by metis

lemma extends_hand_off: "extends 1 (w_st w) (w_st (fst (hand_off cfg w me)))"
proof -
  have "extends 0 (pick_next (w_st w)) (w_st (fst (hand_off cfg w me)))"
    by (simp add: hand_off_def Let_def extends_def)
  then show ?thesis using extends_trans [OF extends_pick_next, of 0] by simp
qed

lemma extends_fail [simp]: "extends n s (w_st (fail cfg d w)) \<longleftrightarrow> extends n s (w_st w)"
  by (simp add: fail_def extends_def)

lemma extends_fields:
  "extends 0 s (arrive_at_barrier me b loc s)" "extends 0 s (release_barrier cfg b s)"
  "extends 0 s (park_at_warp me wt s)" "extends 0 s (release_warp cfg b wp wt ps s)"
  "extends 0 s (s\<lparr>st_status := (st_status s)[me := st]\<rparr>)"
  by (simp_all add: extends_def arrive_at_barrier_def release_barrier_def park_at_warp_def
      release_warp_def Let_def)

lemma extends_then_hand_off:
  assumes "extends 0 (w_st w) s"
  shows "extends 1 (w_st w) (w_st (fst (hand_off cfg (w\<lparr>w_st := s\<rparr>) me)))"
  using extends_trans [OF assms extends_hand_off [of "w\<lparr>w_st := s\<rparr>", simplified]] by simp

lemma exec_extends:
  assumes ok: "cfg_ok cfg"
  shows "extends 1 (w_st w) (w_st (sched_exec cfg w me a))"
proof (cases a)
  case ActYield
  then show ?thesis using extends_hand_off by (simp add: yield_now_def)
next
  case (ActBarrier loc)
  define s1 where "s1 = arrive_at_barrier me (block_of cfg me) loc (w_st w)"
  have x1: "extends 0 (w_st w) s1" by (simp add: s1_def extends_fields)
  then have x2: "extends 0 (w_st w) (release_barrier cfg (block_of cfg me) s1)"
    using extends_trans [OF _ extends_fields(2), of 0] by simp
  show ?thesis
    unfolding ActBarrier sched_exec.simps barrier_unfold [OF ok s1_def]
    using extends_mono [OF x1] extends_then_hand_off [OF x1] extends_then_hand_off [OF x2]
    by (simp add: barrier_divergence_def)
next
  case (ActWarp phase msk loc op)
  define wt where "wt = \<lparr>ww_phase = phase, ww_mask = msk, ww_at = loc, ww_op = op\<rparr>"
  define s1 where "s1 = park_at_warp me wt (w_st w)"
  define s2 where "s2 = release_warp cfg (block_of cfg me) (warp_of cfg me) wt
      (members cfg (block_of cfg me) (warp_of cfg me) msk) s1"
  have x1: "extends 0 (w_st w) s1" by (simp add: s1_def extends_fields)
  then have x2: "extends 0 (w_st w) s2"
    using extends_trans [OF _ extends_fields(4), of 0] by (simp add: s2_def)
  show ?thesis
    unfolding ActWarp sched_exec.simps rendezvous_unfold [OF ok wt_def s1_def] s2_def [symmetric]
    using extends_mono [OF x1] extends_then_hand_off [OF x1] extends_then_hand_off [OF x2]
    by (simp split: option.split)
next
  case ActFinish
  define s1 where "s1 = (w_st w)\<lparr>st_status := (st_status (w_st w))[me := Finished]\<rparr>"
  have x1: "extends 0 (w_st w) s1" by (simp add: s1_def extends_fields)
  then have x2: "extends 1 (w_st w) (pick_next s1)" using extends_trans [OF _ extends_pick_next, of 0] by simp
  then have x3: "extends 1 (w_st w) (w_st (detect_stuck cfg (w\<lparr>w_st := pick_next s1\<rparr>)))"
    by (simp add: extends_def)
  show ?thesis
    unfolding ActFinish sched_exec.simps finish_unfold [OF s1_def]
    using extends_mono [OF x1] x2 x3 by (simp add: barrier_divergence_def split: option.split)
next
  case (ActReport d)
  then show ?thesis by simp
next
  case (ActTrap d)
  then show ?thesis by (simp add: abort_def extends_def)
qed

section \<open>Running a kernel\<close>

text \<open>
  The kernel, with all the memory of the launch, is a function from that memory, the epochs of the
  thread that holds the turn, and the thread, to the thread's next action and the memory after it.
\<close>

fun run_kernel :: "sched_config \<Rightarrow> ('m \<Rightarrow> nat \<times> nat \<Rightarrow> nat \<Rightarrow> sched_act \<times> 'm) \<Rightarrow> nat \<Rightarrow> world \<Rightarrow> 'm
    \<Rightarrow> world \<times> 'm" where
  "run_kernel cfg k 0 w m = (w, m)"
| "run_kernel cfg k (Suc n) w m =
     (if st_aborted (w_st w) then (w, m)
      else case st_current (w_st w) of
             None \<Rightarrow> (w, m)
           | Some me \<Rightarrow>
               (case k m (epochs cfg (w_st w) (block_of cfg me) (warp_of cfg me)) me of
                  (a, m') \<Rightarrow> run_kernel cfg k n (sched_exec cfg w me a) m'))"

lemma run_extends:
  "cfg_ok cfg \<Longrightarrow> extends n (w_st w) (w_st (fst (run_kernel cfg k n w m)))"
proof (induction n arbitrary: w m)
  case (Suc n)
  have "extends (Suc n) (w_st w) (w_st (fst (run_kernel cfg k n (sched_exec cfg w me a) m')))" for me a m'
    using extends_trans [OF exec_extends [OF Suc.prems] Suc.IH [OF Suc.prems]] by simp
  then show ?case by (simp split: option.split prod.split)
qed simp

lemma run_plan:
  assumes "cfg_ok cfg" and "length (st_status (w_st w)) < 2 ^ 32"
    and "traced full (w_st (fst (run_kernel cfg k n w m)))"
  shows "run_kernel cfg k n (with_plan full w) m =
    (with_plan full (fst (run_kernel cfg k n w m)), snd (run_kernel cfg k n w m))"
  using assms(2,3)
proof (induction n arbitrary: w m)
  case (Suc n)
  show ?case
  proof (cases "st_aborted (w_st w) \<or> st_current (w_st w) = None")
    case True
    then show ?thesis by (auto split: option.split)
  next
    case False
    then obtain me where me: "st_current (w_st w) = Some me" "\<not> st_aborted (w_st w)" by auto
    obtain a m' where k: "k m (epochs cfg (w_st w) (block_of cfg me) (warp_of cfg me)) me = (a, m')"
      by (cases "k m (epochs cfg (w_st w) (block_of cfg me) (warp_of cfg me)) me")
    have ep: "epochs cfg (plan_state full (w_st w)) = epochs cfg (w_st w)"
      by (rule ext)+ (simp add: epochs_def)
    let ?w = "sched_exec cfg w me a"
    have run: "run_kernel cfg k (Suc n) w m = run_kernel cfg k n ?w m'" using me k by simp
    have "traced full (w_st (fst (run_kernel cfg k n ?w m')))" using Suc.prems(2) run by simp
    moreover from this have "traced full (w_st ?w)" by (rule extends_traced [OF run_extends [OF assms(1)]])
    then have "sched_exec cfg (with_plan full w) me a = with_plan full ?w"
      by (rule exec_plan [OF assms(1) Suc.prems(1)])
    moreover have "length (st_status (w_st ?w)) < 2 ^ 32"
      using exec_extends [OF assms(1), of w me a] Suc.prems(1) by (simp add: extends_def)
    ultimately show ?thesis using Suc.IH [of ?w m'] me k by (simp add: ep run)
  qed
qed simp

definition launch_world :: "sched_config \<Rightarrow> choices \<Rightarrow> world" where
  "launch_world cfg ch = \<lparr>w_st = sched_init cfg ch, w_rep = reporter_new, w_woken = []\<rparr>"

text \<open>A launch that is to follow a plan starts as one that follows it.\<close>

lemma init_plan:
  assumes "cfg_ok cfg" and "traced full (sched_init cfg ch)"
  shows "sched_init cfg (Replay full 0) = plan_state full (sched_init cfg ch)"
proof -
  define s0 where "s0 = \<lparr>st_current = None, st_status = replicate (total_threads cfg) Runnable,
      st_barrier_gen = replicate (sc_blocks cfg) 0, st_barrier_loc = replicate (sc_blocks cfg) None,
      st_warp_wait = replicate (total_threads cfg) None,
      st_warp_gen = replicate (sc_blocks cfg * sc_warps_per_block cfg) 0,
      st_choices = ch, st_trace = [], st_trace_complete = True, st_aborted = False\<rparr>"
  have init: "sched_init cfg ch = pick_next s0" by (simp add: sched_init_def s0_def Let_def)
  have "plan_state full s0 = s0\<lparr>st_choices := Replay full 0\<rparr>" by (simp add: plan_state_def s0_def)
  then have "sched_init cfg (Replay full 0) = pick_next (plan_state full s0)"
    by (simp add: sched_init_def s0_def Let_def)
  moreover have "length (st_status s0) < 2 ^ 32" using cfg_okD(6) [OF assms(1)] by (simp add: s0_def)
  ultimately show ?thesis using pick_next_plan [of s0 full] assms(2) by (simp add: init)
qed

lemma replay_same:
  assumes "cfg_ok cfg" and "run_kernel cfg k n (launch_world cfg ch) m = (w, m')"
    and "fst (fst (take_trace (w_st w))) = trace" and "snd (fst (take_trace (w_st w)))"
  shows "run_kernel cfg k n (launch_world cfg (Replay trace 0)) m =
    (w\<lparr>w_st := (w_st w)\<lparr>st_choices := Replay trace (length trace)\<rparr>\<rparr>, m')"
proof -
  have final: "traced trace (w_st w)" using assms(3,4) by (simp add: traced_def take_trace_def)
  then have "traced trace (sched_init cfg ch)"
    using extends_traced [OF run_extends [OF assms(1), where w = "launch_world cfg ch" and k = k and n = n and m = m]] assms(2)
    by (simp add: launch_world_def)
  then have "launch_world cfg (Replay trace 0) = with_plan trace (launch_world cfg ch)"
    by (simp add: launch_world_def with_plan_def init_plan [OF assms(1)])
  moreover have "length (st_status (w_st (launch_world cfg ch))) < 2 ^ 32"
    using cfg_okD(6) [OF assms(1)] by (simp add: launch_world_def sched_init_def Let_def)
  ultimately have "run_kernel cfg k n (launch_world cfg (Replay trace 0)) m = (with_plan trace w, m')"
    using run_plan [OF assms(1), of "launch_world cfg ch" trace k n m] final assms(2) by simp
  then show ?thesis using assms(3) by (simp add: with_plan_def plan_state_def take_trace_def)
qed

text \<open>
  Replay reproduces. Take any launch of any deterministic kernel, under any seed or plan, for any
  number of steps, whose trace was recorded completely. Replaying that trace gives the same memory, the
  same findings and the same scheduler state, with the plan used up to its end.
\<close>

theorem replay_reproduces:
  assumes "cfg_ok cfg" and "run_kernel cfg k n (launch_world cfg ch) m = (w, m')"
    and "fst (fst (take_trace (w_st w))) = trace" and "snd (fst (take_trace (w_st w)))"
  shows "run_kernel cfg k n (launch_world cfg (Replay trace 0)) m =
    (w\<lparr>w_st := (w_st w)\<lparr>st_choices := Replay trace (length trace)\<rparr>\<rparr>, m')"
  by (rule replay_same [OF assms])

text \<open>A kernel that yields twice and returns, and counts the actions taken.\<close>

definition counting_kernel :: "nat \<Rightarrow> nat \<times> nat \<Rightarrow> nat \<Rightarrow> sched_act \<times> nat" where
  "counting_kernel m ep me = (if m < 2 then ActYield else ActFinish, m + 1)"

lemma short_launch_complete:
  assumes "cfg_ok cfg" and "n < 2 ^ 20"
  shows "snd (fst (take_trace (w_st (fst (run_kernel cfg k n (launch_world cfg ch) m)))))"
proof -
  have "st_trace_complete (sched_init cfg ch)" "length (st_trace (sched_init cfg ch)) \<le> 1"
    by (auto simp: sched_init_def Let_def pick_next_trace max_trace_def)
  then show ?thesis
    using run_extends [OF assms(1), where w = "launch_world cfg ch" and k = k and n = n and m = m] assms(2)
    by (simp add: extends_def launch_world_def take_trace_def max_trace_def)
qed

theorem replay_reproduces_witness:
  "\<exists>w m' trace. run_kernel pair_cfg counting_kernel 5 (launch_world pair_cfg (Random 7)) 0 = (w, m')
     \<and> run_kernel pair_cfg counting_kernel 5 (launch_world pair_cfg (Replay trace 0)) 0 =
         (w\<lparr>w_st := (w_st w)\<lparr>st_choices := Replay trace (length trace)\<rparr>\<rparr>, m')"
proof -
  obtain w m' where run: "run_kernel pair_cfg counting_kernel 5 (launch_world pair_cfg (Random 7)) 0 = (w, m')"
    by (cases "run_kernel pair_cfg counting_kernel 5 (launch_world pair_cfg (Random 7)) (0 :: nat)")
  have "snd (fst (take_trace (w_st w)))"
    using short_launch_complete [OF pair_cfg_ok, of 5 counting_kernel "Random 7" 0] run by simp
  from replay_reproduces [OF pair_cfg_ok run refl this] run show ?thesis by blast
qed

end
