(* ===== verification/Launch.thy ===== *)
theory Launch
  imports Dim Sched_Inv
begin

text \<open>
  \<^verbatim>\<open>src/launch.rs\<close>: the launch configuration and its checks, the waves a grid is run in, and the
  identity of each simulated thread. The threads of one wave are run by the scheduler (\<open>Sched\<close>);
  here a wave is an argument, \<open>run_wave\<close>, that takes the state shared by the waves and the source of
  decisions and returns the state after it, the recorded trace, and whether the wave was aborted.
\<close>

section \<open>Configuration\<close>

definition max_threads :: u32 where
  "max_threads = 16384"

definition default_warp_size :: u32 where
  "default_warp_size = 32"

record launch_config =
  lc_grid :: dim3
  lc_block :: dim3
  lc_seed :: u64
  lc_warp_size :: u32
  lc_resident :: "u32 option"

definition launch_config_new :: "dim3 \<Rightarrow> dim3 \<Rightarrow> launch_config" where
  "launch_config_new grid block =
     \<lparr>lc_grid = grid, lc_block = block, lc_seed = 0, lc_warp_size = default_warp_size,
      lc_resident = None\<rparr>"

definition with_seed :: "launch_config \<Rightarrow> u64 \<Rightarrow> launch_config" where
  "with_seed c s = c\<lparr>lc_seed := s\<rparr>"

definition is_power_of_two :: "u32 \<Rightarrow> bool" where
  "is_power_of_two w \<longleftrightarrow> w \<noteq> 0 \<and> w AND (w - 1) = 0"

definition with_warp_size :: "launch_config \<Rightarrow> u32 \<Rightarrow> launch_config res" where
  "with_warp_size c lanes =
     res_bind (assert_that (is_power_of_two lanes \<and> lanes \<le> 32)
        ''riri: warp size must be a power of two no greater than 32'') (\<lambda>_.
     Inr (c\<lparr>lc_warp_size := lanes\<rparr>))"

definition with_resident_blocks :: "launch_config \<Rightarrow> u32 \<Rightarrow> launch_config res" where
  "with_resident_blocks c blocks =
     res_bind (assert_that (blocks > 0) ''riri: at least one block must be resident'') (\<lambda>_.
     Inr (c\<lparr>lc_resident := Some blocks\<rparr>))"

section \<open>The checks of a launch\<close>

record launch_plan =
  lp_blocks :: nat
  lp_tpb :: nat
  lp_total :: nat
  lp_warp_size :: nat
  lp_warps_per_block :: nat
  lp_resident :: nat
  lp_waves :: nat

definition clamp_u32 :: "u32 \<Rightarrow> u32 \<Rightarrow> u32 \<Rightarrow> u32" where
  "clamp_u32 x lo hi = (if x < lo then lo else if x > hi then hi else x)"

definition expect_u32 :: "u32 option \<Rightarrow> string \<Rightarrow> u32 res" where
  "expect_u32 x msg = (case x of Some v \<Rightarrow> Inr v | None \<Rightarrow> Inl (AssertFailed msg))"

definition launch_setup :: "bool \<Rightarrow> launch_config \<Rightarrow> launch_plan res" where
  "launch_setup checks c =
     res_bind (dim3_count checks (lc_grid c)) (\<lambda>blocks.
     res_bind (dim3_count checks (lc_block c)) (\<lambda>tpb.
     res_bind (assert_that (blocks > 0 \<and> tpb > 0) ''riri: grid and block must be non-empty'') (\<lambda>_.
     res_bind (assert_that (is_power_of_two (lc_warp_size c) \<and> lc_warp_size c \<le> 32)
        ''riri: warp size must be a power of two no greater than 32'') (\<lambda>_.
     res_bind (expect_u32 (checked_mul_u32 blocks tpb) ''riri: launch too large'') (\<lambda>total.
     let ws = unat (lc_warp_size c);
         resident = clamp_u32 (case lc_resident c of Some r \<Rightarrow> r | None \<Rightarrow> blocks) 1 blocks
     in res_bind (expect_u32 (checked_mul_u32 resident tpb) ''riri: wave too large'') (\<lambda>wave_threads.
     res_bind (assert_that (wave_threads \<le> max_threads)
        ''riri: resident threads exceed the limit'') (\<lambda>_.
     Inr \<lparr>lp_blocks = unat blocks, lp_tpb = unat tpb, lp_total = unat total, lp_warp_size = ws,
          lp_warps_per_block = div_ceil (unat tpb) ws, lp_resident = unat resident,
          lp_waves = div_ceil (unat blocks) (unat resident)\<rparr>)))))))"

section \<open>Waves\<close>

definition wave_sched :: "launch_plan \<Rightarrow> nat \<Rightarrow> sched_config" where
  "wave_sched p wave_blocks = sched_config_of wave_blocks (lp_tpb p) (lp_warp_size p)"

text \<open>The first block and the number of blocks of each wave, as the loop computes them.\<close>

fun waves_from :: "launch_plan \<Rightarrow> nat \<Rightarrow> nat \<Rightarrow> (nat \<times> nat) list" where
  "waves_from p 0 first = []"
| "waves_from p (Suc n) first =
     (let wave_blocks = min (lp_resident p) (lp_blocks p - first)
      in (first, wave_blocks) # waves_from p n (first + wave_blocks))"

definition wave_list :: "launch_plan \<Rightarrow> (nat \<times> nat) list" where
  "wave_list p = waves_from p (lp_waves p) 0"

record 's wave_end =
  we_state :: 's
  we_trace :: "u32 list"
  we_complete :: bool
  we_aborted :: bool

record 's launch_end =
  le_state :: 's
  le_trace :: "u32 list"
  le_complete :: bool
  le_aborted :: bool

text \<open>
  The wave loop. The first wave uses the given decisions; the others draw from the seed plus the wave's
  number. Only a single wave keeps its trace, and an aborted wave ends the launch.
\<close>

fun run_waves ::
  "(nat \<Rightarrow> nat \<Rightarrow> choices \<Rightarrow> 's \<Rightarrow> 's wave_end) \<Rightarrow> bool \<Rightarrow> u64 \<Rightarrow> nat \<Rightarrow> (nat \<times> nat) list
     \<Rightarrow> choices option \<Rightarrow> 's launch_end \<Rightarrow> 's launch_end" where
  "run_waves run_wave single seed wave [] ch acc = acc"
| "run_waves run_wave single seed wave ((first, n) # rest) ch acc =
     (let picks = (case ch of Some c \<Rightarrow> c | None \<Rightarrow> Random (seed + of_nat wave));
          e = run_wave first n picks (le_state acc);
          acc1 = acc\<lparr>le_state := we_state e\<rparr>;
          acc2 = (if single then acc1\<lparr>le_trace := we_trace e, le_complete := we_complete e\<rparr> else acc1)
      in if we_aborted e then acc2\<lparr>le_aborted := True\<rparr>
         else run_waves run_wave single seed (wave + 1) rest None acc2)"

definition run_shared ::
  "(nat \<Rightarrow> nat \<Rightarrow> choices \<Rightarrow> 's \<Rightarrow> 's wave_end) \<Rightarrow> launch_config \<Rightarrow> launch_plan \<Rightarrow> choices \<Rightarrow> 's
     \<Rightarrow> 's launch_end" where
  "run_shared run_wave c p ch s =
     run_waves run_wave (lp_waves p = 1) (lc_seed c) 0 (wave_list p) (Some ch)
       \<lparr>le_state = s, le_trace = [], le_complete = (lp_waves p = 1), le_aborted = False\<rparr>"

section \<open>The identity of a simulated thread\<close>

record thread_ctx =
  tc_block :: u32
  tc_thread :: u32
  tc_gid :: nat
  tc_slot :: nat

definition thread_ctx_of :: "nat \<Rightarrow> nat \<Rightarrow> nat \<Rightarrow> thread_ctx" where
  "thread_ctx_of tpb first_block slot =
     (let block = of_nat first_block + of_nat (slot div tpb);
          thread = of_nat (slot mod tpb)
      in \<lparr>tc_block = block, tc_thread = thread, tc_gid = unat block * tpb + unat thread, tc_slot = slot\<rparr>)"

section \<open>Accepted launches\<close>

definition plan_ok :: "launch_plan \<Rightarrow> bool" where
  "plan_ok p \<longleftrightarrow> 0 < lp_blocks p \<and> 0 < lp_tpb p \<and> 0 < lp_warp_size p \<and> lp_warp_size p \<le> 32
     \<and> lp_total p = lp_blocks p * lp_tpb p \<and> lp_total p < 2 ^ 32
     \<and> 0 < lp_resident p \<and> lp_resident p \<le> lp_blocks p \<and> lp_resident p * lp_tpb p \<le> 16384
     \<and> lp_warps_per_block p = div_ceil (lp_tpb p) (lp_warp_size p)
     \<and> lp_waves p = div_ceil (lp_blocks p) (lp_resident p)"

lemma expect_u32_Inr [simp]: "expect_u32 x msg = Inr v \<longleftrightarrow> x = Some v"
  by (simp add: expect_u32_def split: option.split)

lemma clamp_u32_bounds:
  assumes "(0 :: u32) < hi"
  shows "0 < unat (clamp_u32 x 1 hi)" and "unat (clamp_u32 x 1 hi) \<le> unat hi"
proof -
  have "unat (1 :: u32) = 1" by simp
  have hi: "1 \<le> unat hi" using assms by (simp add: word_less_nat_alt)
  show "0 < unat (clamp_u32 x 1 hi)"
    using hi by (auto simp: clamp_u32_def word_less_nat_alt)
  show "unat (clamp_u32 x 1 hi) \<le> unat hi"
    using hi by (auto simp: clamp_u32_def word_less_nat_alt)
qed

lemma launch_setup_ok:
  assumes "launch_setup checks c = Inr p"
  shows "plan_ok p"
proof -
  obtain blocks tpb total wt where bt: "blocks > 0" "tpb > 0"
    and ws: "is_power_of_two (lc_warp_size c)" "lc_warp_size c \<le> 32"
    and total: "checked_mul_u32 blocks tpb = Some total"
    and wt: "checked_mul_u32 (clamp_u32 (case lc_resident c of Some r \<Rightarrow> r | None \<Rightarrow> blocks) 1 blocks) tpb = Some wt"
    and lim: "wt \<le> max_threads"
    and p: "p = \<lparr>lp_blocks = unat blocks, lp_tpb = unat tpb, lp_total = unat total,
          lp_warp_size = unat (lc_warp_size c),
          lp_warps_per_block = div_ceil (unat tpb) (unat (lc_warp_size c)),
          lp_resident = unat (clamp_u32 (case lc_resident c of Some r \<Rightarrow> r | None \<Rightarrow> blocks) 1 blocks),
          lp_waves = div_ceil (unat blocks)
            (unat (clamp_u32 (case lc_resident c of Some r \<Rightarrow> r | None \<Rightarrow> blocks) 1 blocks))\<rparr>"
    using assms by (auto simp: launch_setup_def Let_def)
  have "0 < unat (lc_warp_size c)" using ws(1) by (auto simp: is_power_of_two_def unat_gt_0)
  moreover have "unat (lc_warp_size c) \<le> 32" using ws(2) by (simp add: word_le_nat_alt)
  moreover have "0 < unat blocks" "0 < unat tpb" using bt by (simp_all add: word_less_nat_alt)
  moreover have "unat wt \<le> 16384" using lim by (simp add: max_threads_def word_le_nat_alt)
  ultimately show ?thesis
    using checked_mul_u32_Some [OF total] checked_mul_u32_Some [OF wt] clamp_u32_bounds [OF bt(1)]
    by (simp add: plan_ok_def p)
qed

text \<open>
  Every launch that passes the checks runs on schedulers that satisfy what the scheduler's own
  correctness assumes: at least one block and thread, warps of 1 to 32 lanes, thread numbers that fit
  \<^verbatim>\<open>u32\<close>; and no wave holds more than 16384 threads.
\<close>

theorem accepted_launch_is_schedulable:
  assumes "launch_setup checks c = Inr p" and "(first, n) \<in> set (wave_list p)" and "0 < n"
  shows "cfg_ok (wave_sched p n) \<and> n * lp_tpb p \<le> 16384"
proof -
  have p: "plan_ok p" by (rule launch_setup_ok [OF assms(1)])
  have "n \<le> lp_resident p"
  proof -
    have "(f, m) \<in> set (waves_from p k s) \<Longrightarrow> m \<le> lp_resident p" for f m k s
      by (induction k arbitrary: s) (auto simp: Let_def)
    then show ?thesis using assms(2) by (simp add: wave_list_def)
  qed
  then have "n * lp_tpb p \<le> lp_resident p * lp_tpb p" by (rule mult_le_mono1)
  moreover have "lp_resident p * lp_tpb p \<le> 16384" using p by (simp add: plan_ok_def)
  ultimately have lim: "n * lp_tpb p \<le> 16384" by (rule le_trans)
  then show ?thesis
    using p assms(3)
    by (simp add: cfg_ok_def wave_sched_def sched_config_of_def plan_ok_def total_threads_def)
qed

definition small_config :: launch_config where
  "small_config = (launch_config_new (dim3_from_u32 5) (dim3_from_u32 3))
     \<lparr>lc_warp_size := 2, lc_resident := Some 2\<rparr>"

definition small_plan :: launch_plan where
  "small_plan = \<lparr>lp_blocks = 5, lp_tpb = 3, lp_total = 15, lp_warp_size = 2, lp_warps_per_block = 2,
     lp_resident = 2, lp_waves = 3\<rparr>"

lemma small_setup: "launch_setup True small_config = Inr small_plan"
  by (simp add: launch_setup_def small_config_def small_plan_def launch_config_new_def dim3_from_u32_def
      dim3_new_def dim3_count_def mul_u32_def is_power_of_two_def checked_mul_u32_def clamp_u32_def
      max_threads_def default_warp_size_def Let_def div_ceil_def expect_u32_def)

lemma small_waves: "wave_list small_plan = [(0, 2), (2, 2), (4, 1)]"
  by (simp add: wave_list_def small_plan_def numeral_eq_Suc)

theorem accepted_launch_is_schedulable_witness:
  "cfg_ok (wave_sched small_plan 1) \<and> 1 * lp_tpb small_plan \<le> 16384"
  by (rule accepted_launch_is_schedulable [OF small_setup, of 4]) (simp_all add: small_waves)

section \<open>The waves cover the grid\<close>

lemma upt_join: "a \<le> b \<Longrightarrow> b \<le> c \<Longrightarrow> [a..<b] @ [b..<c] = [a..<c]"
  by (metis le_Suc_ex upt_add_eq_append)

lemma waves_from_scaled:
  assumes "s \<le> lp_blocks p"
  shows "concat (map (\<lambda>(f, n). [f * t..<f * t + n * t]) (waves_from p k s))
       = [s * t..<min (s + k * lp_resident p) (lp_blocks p) * t]"
  using assms
proof (induction k arbitrary: s)
  case (Suc k)
  let ?n = "min (lp_resident p) (lp_blocks p - s)"
  let ?e = "min (s + ?n + k * lp_resident p) (lp_blocks p)"
  have le: "s + ?n \<le> lp_blocks p" using Suc.prems by simp
  have "concat (map (\<lambda>(f, n). [f * t..<f * t + n * t]) (waves_from p (Suc k) s))
      = [s * t..<(s + ?n) * t] @ [(s + ?n) * t..<?e * t]"
    using Suc.IH [OF le] by (simp add: Let_def distrib_right)
  also have "\<dots> = [s * t..<?e * t]"
    using le by (intro upt_join mult_le_mono1) auto
  also have "?e = min (s + Suc k * lp_resident p) (lp_blocks p)"
  proof (cases "lp_resident p \<le> lp_blocks p - s")
    case True
    then show ?thesis by (simp add: min_absorb1 add.assoc)
  next
    case False
    then have "lp_blocks p \<le> s + Suc k * lp_resident p" "s + ?n = lp_blocks p" using Suc.prems by auto
    then show ?thesis by (simp add: min_absorb2)
  qed
  finally show ?case .
qed simp

lemma waves_cover:
  assumes "plan_ok p"
  shows "concat (map (\<lambda>(f, n). [f * t..<f * t + n * t]) (wave_list p)) = [0..<lp_blocks p * t]"
proof -
  have "lp_blocks p \<le> lp_waves p * lp_resident p"
    using div_ceil_bounds(1) [of "lp_resident p" "lp_blocks p"] assms by (simp add: plan_ok_def)
  then show ?thesis
    using waves_from_scaled [of 0 p t "lp_waves p"] by (simp add: wave_list_def min_absorb2)
qed

lemma waves_from_bounds:
  "s \<le> lp_blocks p \<Longrightarrow> (f, n) \<in> set (waves_from p k s) \<Longrightarrow> f + n \<le> lp_blocks p"
proof (induction k arbitrary: s)
  case (Suc k)
  let ?n = "min (lp_resident p) (lp_blocks p - s)"
  have "s + ?n \<le> lp_blocks p" using Suc.prems(1) by simp
  moreover have "(f, n) = (s, ?n) \<or> (f, n) \<in> set (waves_from p k (s + ?n))"
    using Suc.prems(2) by (simp add: Let_def)
  ultimately show ?case using Suc.IH by blast
qed simp

lemma wave_list_bounds: "(f, n) \<in> set (wave_list p) \<Longrightarrow> f + n \<le> lp_blocks p"
  unfolding wave_list_def by (rule waves_from_bounds) simp_all

lemma thread_ctx_values:
  assumes p: "plan_ok p" and f: "f + n \<le> lp_blocks p" and slot: "slot < n * lp_tpb p"
  shows "unat (tc_block (thread_ctx_of (lp_tpb p) f slot)) = f + slot div lp_tpb p"
    and "unat (tc_thread (thread_ctx_of (lp_tpb p) f slot)) = slot mod lp_tpb p"
    and "tc_gid (thread_ctx_of (lp_tpb p) f slot) = f * lp_tpb p + slot"
proof -
  have tpb: "0 < lp_tpb p" and tot: "lp_blocks p * lp_tpb p < 2 ^ 32" using p by (auto simp: plan_ok_def)
  have blt: "lp_blocks p < 2 ^ 32"
    using tot tpb by (metis Suc_leI le_less_trans mult_le_mono2 nat_mult_1_right One_nat_def)
  have "lp_tpb p \<le> lp_blocks p * lp_tpb p" using p by (simp add: plan_ok_def)
  then have tlt: "slot mod lp_tpb p < 2 ^ 32" using tot tpb mod_less_divisor [of "lp_tpb p" slot] by linarith
  have "slot div lp_tpb p < n" using slot by (simp add: less_mult_imp_div_less)
  then have lt: "f + slot div lp_tpb p < 2 ^ 32" using f blt by linarith
  show b: "unat (tc_block (thread_ctx_of (lp_tpb p) f slot)) = f + slot div lp_tpb p"
  proof -
    have "unat (of_nat (f + slot div lp_tpb p) :: u32) = f + slot div lp_tpb p"
      using lt by (simp only: unat_of_nat) simp
    then show ?thesis by (simp add: thread_ctx_of_def Let_def)
  qed
  show t: "unat (tc_thread (thread_ctx_of (lp_tpb p) f slot)) = slot mod lp_tpb p"
    using tlt by (simp add: thread_ctx_of_def Let_def unat_of_nat)
  have "tc_gid (thread_ctx_of (lp_tpb p) f slot)
      = unat (tc_block (thread_ctx_of (lp_tpb p) f slot)) * lp_tpb p
        + unat (tc_thread (thread_ctx_of (lp_tpb p) f slot))"
    by (simp add: thread_ctx_of_def Let_def)
  then show "tc_gid (thread_ctx_of (lp_tpb p) f slot) = f * lp_tpb p + slot"
    using b t by (simp add: distrib_right)
qed

lemma map_shift_upt: "map (\<lambda>i. a + i) [0..<n] = [a..<a + n]"
  using map_add_upt [of a n] by (simp add: add.commute)



section \<open>The size of a grid in a release build\<close>

text \<open>
  Without overflow checks the product of the extents wraps around before any check sees it: a grid
  of 65536 by 65537 blocks, more than \<^verbatim>\<open>u32\<close> can count, is accepted and only 65536 blocks are run; with
  overflow checks the same launch panics.
\<close>

theorem oversized_grid_wraps:
  "launch_setup True ((launch_config_new (dim3_from_pair (65536, 65537)) (dim3_from_u32 1))
       \<lparr>lc_resident := Some 1\<rparr>) = Inl Overflow
   \<and> (\<exists>p. launch_setup False ((launch_config_new (dim3_from_pair (65536, 65537)) (dim3_from_u32 1))
       \<lparr>lc_resident := Some 1\<rparr>) = Inr p \<and> lp_blocks p = 65536)
   \<and> volume (dim3_from_pair (65536, 65537)) = 65536 * 65537"
  by (simp add: launch_setup_def launch_config_new_def dim3_from_u32_def dim3_from_pair_def
      dim3_new_def dim3_count_def mul_u32_def is_power_of_two_def checked_mul_u32_def clamp_u32_def
      max_threads_def default_warp_size_def Let_def expect_u32_def volume_def)

end
