(* ===== verification/Ctx.thy ===== *)
theory Ctx
  imports Launch Sched_Run Shadow
begin

text \<open>
  \<^verbatim>\<open>src/ctx.rs\<close>: what a simulated thread can do with the launch it belongs to. The state of a launch is
  the scheduler with the reporter (\<open>world\<close>), the vector clocks, and the fixed identity and configuration
  of the wave. An operation that can lose the turn comes in two halves: what the thread does up to its
  wait, and what it does when it holds the turn again.
\<close>

section \<open>State\<close>

record launch_state =
  ls_id :: nat
  ls_config :: launch_config
  ls_sched :: sched_config
  ls_world :: world
  ls_sync :: sync_state

definition ls_st :: "launch_state \<Rightarrow> sched_state" where
  "ls_st l = w_st (ls_world l)"

definition block_count :: "launch_state \<Rightarrow> nat" where
  "block_count l =
     (let d = lc_block (ls_config l) in unat (dim_x d * dim_y d * dim_z d))"

section \<open>The thread's own coordinates\<close>

definition wave_block :: "launch_state \<Rightarrow> thread_ctx \<Rightarrow> nat" where
  "wave_block l c = tc_slot c div block_count l"

definition thread_idx :: "bool \<Rightarrow> launch_state \<Rightarrow> thread_ctx \<Rightarrow> dim3 res" where
  "thread_idx checks l c = from_linear checks (tc_thread c) (lc_block (ls_config l))"

definition block_idx :: "bool \<Rightarrow> launch_state \<Rightarrow> thread_ctx \<Rightarrow> dim3 res" where
  "block_idx checks l c = from_linear checks (tc_block c) (lc_grid (ls_config l))"

definition global_linear :: "thread_ctx \<Rightarrow> nat" where
  "global_linear c = tc_gid c"

definition warp_size :: "launch_state \<Rightarrow> u32" where
  "warp_size l = lc_warp_size (ls_config l)"

definition warp_id :: "launch_state \<Rightarrow> thread_ctx \<Rightarrow> u32" where
  "warp_id l c = tc_thread c div warp_size l"

definition lane_id :: "launch_state \<Rightarrow> thread_ctx \<Rightarrow> u32" where
  "lane_id l c = tc_thread c mod warp_size l"

definition warp_valid_mask :: "launch_state \<Rightarrow> thread_ctx \<Rightarrow> u32" where
  "warp_valid_mask l c = valid_mask (ls_sched l) (unat (warp_id l c))"

definition block_dim :: "launch_state \<Rightarrow> dim3" where
  "block_dim l = lc_block (ls_config l)"

definition grid_dim :: "launch_state \<Rightarrow> dim3" where
  "grid_dim l = lc_grid (ls_config l)"

definition thread_linear :: "thread_ctx \<Rightarrow> nat" where
  "thread_linear c = unat (tc_thread c)"

definition block_linear :: "thread_ctx \<Rightarrow> nat" where
  "block_linear c = unat (tc_block c)"

definition launch_id :: "launch_state \<Rightarrow> nat" where
  "launch_id l = ls_id l"

text \<open>Which warp's exchange slots a thread uses, in the list of all warps of the launch.\<close>

definition warp_slots_index :: "nat \<Rightarrow> launch_state \<Rightarrow> thread_ctx \<Rightarrow> nat" where
  "warp_slots_index warps_per_block l c = unat (tc_block c) * warps_per_block + unat (warp_id l c)"

section \<open>Reports, traps and scheduling points\<close>

definition ctx_report :: "diagnostic \<Rightarrow> launch_state \<Rightarrow> launch_state" where
  "ctx_report d l = l\<lparr>ls_world := push_finding d (ls_world l)\<rparr>"

definition ctx_trap :: "diagnostic \<Rightarrow> launch_state \<Rightarrow> launch_state" where
  "ctx_trap d l = l\<lparr>ls_world := abort (ls_sched l) (push_finding d (ls_world l))\<rparr>"

definition schedule_point :: "launch_state \<Rightarrow> thread_ctx \<Rightarrow> launch_state \<times> turn" where
  "schedule_point l c =
     (case yield_now (ls_sched l) (ls_world l) (tc_slot c) of (w, t) \<Rightarrow> (l\<lparr>ls_world := w\<rparr>, t))"

section \<open>Synchronisation\<close>

definition sync_threads_enter :: "launch_state \<Rightarrow> thread_ctx \<Rightarrow> location \<Rightarrow> launch_state \<times> turn" where
  "sync_threads_enter l c loc =
     (let l1 = l\<lparr>ls_sync := barrier_arrive (ls_sync l) (tc_gid c) (unat (tc_block c))\<rparr>
      in case barrier (ls_sched l1) (ls_world l1) (tc_slot c) loc of
           (w, t) \<Rightarrow> (l1\<lparr>ls_world := w\<rparr>, t))"

definition sync_threads_leave :: "launch_state \<Rightarrow> thread_ctx \<Rightarrow> launch_state" where
  "sync_threads_leave l c =
     l\<lparr>ls_sync := barrier_depart (ls_sync l) (tc_gid c) (unat (tc_block c))\<rparr>"

definition ctx_fence :: "launch_state \<Rightarrow> thread_ctx \<Rightarrow> mem_ordering \<Rightarrow> launch_state" where
  "ctx_fence l c ord = l\<lparr>ls_sync := fence (ls_sync l) (tc_gid c) ord\<rparr>"

definition threadfence :: "launch_state \<Rightarrow> thread_ctx \<Rightarrow> launch_state" where
  "threadfence l c = ctx_fence l c AcqRel"

definition release_into :: "launch_state \<Rightarrow> thread_ctx \<Rightarrow> clock \<Rightarrow> mem_ordering \<Rightarrow> clock" where
  "release_into l c target ord = release (ls_sync l) (tc_gid c) target ord"

definition acquire_from :: "launch_state \<Rightarrow> thread_ctx \<Rightarrow> clock \<Rightarrow> mem_ordering \<Rightarrow> launch_state" where
  "acquire_from l c source ord = l\<lparr>ls_sync := acquire (ls_sync l) (tc_gid c) source ord\<rparr>"

definition ctx_warp_rendezvous ::
  "launch_state \<Rightarrow> thread_ctx \<Rightarrow> u8 \<Rightarrow> u32 \<Rightarrow> location \<Rightarrow> string \<Rightarrow> launch_state \<times> turn" where
  "ctx_warp_rendezvous l c phase msk loc op =
     (case warp_rendezvous (ls_sched l) (ls_world l) (tc_slot c) phase msk loc op of
        (w, t) \<Rightarrow> (l\<lparr>ls_world := w\<rparr>, t))"

section \<open>The end of a thread\<close>

text \<open>
  How the kernel left a simulated thread: it returned, it was unwound because the launch was aborted,
  or it panicked with a message.
\<close>

datatype kernel_end = Returned_ok | Unwound_abort | Panicked string

definition run_thread_end :: "launch_state \<Rightarrow> thread_ctx \<Rightarrow> kernel_end \<Rightarrow> launch_state" where
  "run_thread_end l c e =
     (case e of
        Returned_ok \<Rightarrow> l\<lparr>ls_world := finish (ls_sched l) (ls_world l) (tc_slot c)\<rparr>
      | Unwound_abort \<Rightarrow> l
      | Panicked message \<Rightarrow>
          l\<lparr>ls_world := abort (ls_sched l)
             (push_finding (KernelPanic (tc_block c) (tc_thread c) message) (ls_world l))\<rparr>)"

section \<open>Recording an access\<close>

definition ctx_access ::
  "launch_state \<Rightarrow> thread_ctx \<Rightarrow> access_kind \<Rightarrow> location \<Rightarrow> access \<times> clock \<times> launch_state" where
  "ctx_access l c kind loc =
     (case epochs (ls_sched l) (ls_st l) (wave_block l c) (unat (warp_id l c)) of (ep, wep) \<Rightarrow>
      case tick (ls_sync l) (tc_gid c) (key (tc_block c) (tc_thread c)) of (n, s) \<Rightarrow>
        (\<lparr>acc_block = tc_block c, acc_thread = tc_thread c, acc_epoch = ep, acc_warp = warp_id l c,
          acc_warp_epoch = wep, acc_seq = n, acc_kind = kind, acc_loc = loc\<rparr>,
         clock_of s (tc_gid c),
         l\<lparr>ls_sync := s\<rparr>))"

section \<open>Shared arrays of a block\<close>

text \<open>
  An entry of a block's map is an array behind \<^verbatim>\<open>dyn Any\<close>: the element type it was made with, and its
  length; the array itself is a parameter.
\<close>

record 'v shared_entry =
  se_type :: string
  se_len :: nat
  se_array :: 'v

definition shared_lookup ::
  "(string \<rightharpoonup> 'v shared_entry) \<Rightarrow> string \<Rightarrow> string \<Rightarrow> nat \<Rightarrow> 'v
     \<Rightarrow> 'v res \<times> (string \<rightharpoonup> 'v shared_entry)" where
  "shared_lookup m name ty len fresh =
     (let entry = (case m name of Some e \<Rightarrow> e
                   | None \<Rightarrow> \<lparr>se_type = ty, se_len = len, se_array = fresh\<rparr>);
          m1 = m(name \<mapsto> entry)
      in (if se_type entry \<noteq> ty
          then Inl (AssertFailed (''riri: shared array `'' @ name @ ''` reused with a different element type''))
          else if se_len entry \<noteq> len
          then Inl (AssertFailed (''riri: shared array `'' @ name @ ''` reused with a different length''))
          else Inr (se_array entry),
          m1))"

section \<open>What the operations keep\<close>

lemma ctx_report_fields [simp]:
  "ls_id (ctx_report d l) = ls_id l" "ls_config (ctx_report d l) = ls_config l"
  "ls_sched (ctx_report d l) = ls_sched l" "ls_sync (ctx_report d l) = ls_sync l"
  "w_rep (ls_world (ctx_report d l)) = reporter_push (w_rep (ls_world l)) d"
  "w_st (ls_world (ctx_report d l)) = w_st (ls_world l)"
  by (simp_all add: ctx_report_def)

lemma ctx_trap_fields [simp]:
  "ls_id (ctx_trap d l) = ls_id l" "ls_config (ctx_trap d l) = ls_config l"
  "ls_sched (ctx_trap d l) = ls_sched l" "ls_sync (ctx_trap d l) = ls_sync l"
  "w_rep (ls_world (ctx_trap d l)) = reporter_push (w_rep (ls_world l)) d"
  "st_aborted (w_st (ls_world (ctx_trap d l)))"
  by (simp_all add: ctx_trap_def abort_def)

lemma acquire_from_fields [simp]:
  "ls_id (acquire_from l c src ord) = ls_id l" "ls_world (acquire_from l c src ord) = ls_world l"
  "ls_sched (acquire_from l c src ord) = ls_sched l" "ls_config (acquire_from l c src ord) = ls_config l"
  by (simp_all add: acquire_from_def)

lemma ctx_access_fields [simp]:
  "acc_block (fst (ctx_access l c kind loc)) = tc_block c"
  "acc_thread (fst (ctx_access l c kind loc)) = tc_thread c"
  "acc_epoch (fst (ctx_access l c kind loc)) =
     fst (epochs (ls_sched l) (ls_st l) (wave_block l c) (unat (warp_id l c)))"
  "acc_warp_epoch (fst (ctx_access l c kind loc)) =
     snd (epochs (ls_sched l) (ls_st l) (wave_block l c) (unat (warp_id l c)))"
  "acc_warp (fst (ctx_access l c kind loc)) = warp_id l c"
  "acc_seq (fst (ctx_access l c kind loc)) = ss_seq (ls_sync l) ! tc_gid c + 1"
  "acc_kind (fst (ctx_access l c kind loc)) = kind"
  "acc_loc (fst (ctx_access l c kind loc)) = loc"
  "ls_world (snd (snd (ctx_access l c kind loc))) = ls_world l"
  "ls_id (snd (snd (ctx_access l c kind loc))) = ls_id l"
  "ls_sched (snd (snd (ctx_access l c kind loc))) = ls_sched l"
  "ls_config (snd (snd (ctx_access l c kind loc))) = ls_config l"
  by (simp_all add: ctx_access_def tick_def Let_def split: prod.split)

lemma ctx_access_sync:
  "ls_sync (snd (snd (ctx_access l c kind loc))) =
     snd (tick (ls_sync l) (tc_gid c) (key (tc_block c) (tc_thread c)))"
  "fst (snd (ctx_access l c kind loc)) =
     clock_of (snd (tick (ls_sync l) (tc_gid c) (key (tc_block c) (tc_thread c)))) (tc_gid c)"
  by (simp_all add: ctx_access_def split: prod.split)

text \<open>
  A block's shared arrays. The first call with a name creates the array, every later call of the
  block with the same element type and length gets that same array and leaves the map alone, and a
  call with another type or length panics without changing the entry.
\<close>

theorem shared_array_is_shared:
  assumes "shared_lookup m name ty len fresh = (r, m1)" and "m name = None"
  shows "r = Inr fresh
    \<and> shared_lookup m1 name ty len fresh' = (Inr fresh, m1)
    \<and> (ty' \<noteq> ty \<or> len' \<noteq> len \<longrightarrow>
         (\<exists>msg. shared_lookup m1 name ty' len' fresh' = (Inl (AssertFailed msg), m1)))
    \<and> (\<forall>other. other \<noteq> name \<longrightarrow> m1 other = m other)"
  using assms by (auto simp: shared_lookup_def Let_def fun_upd_idem_iff)

theorem shared_array_is_shared_witness:
  "shared_lookup (snd (shared_lookup Map.empty ''tile'' ''f32'' 64 (1 :: nat))) ''tile'' ''f32'' 64 2
     = (Inr 1, [''tile'' \<mapsto> \<lparr>se_type = ''f32'', se_len = 64, se_array = 1\<rparr>])"
proof -
  have eq: "shared_lookup Map.empty ''tile'' ''f32'' 64 (1 :: nat)
      = (Inr 1, [''tile'' \<mapsto> \<lparr>se_type = ''f32'', se_len = 64, se_array = 1\<rparr>])"
    by (simp add: shared_lookup_def Let_def)
  show ?thesis unfolding eq snd_conv using shared_array_is_shared [OF eq, of 2] by blast
qed

end
