(* ===== verification/Launch_Run.thy ===== *)
theory Launch_Run
  imports Ctx
begin

text \<open>
  \<^verbatim>\<open>src/launch.rs\<close>, the launch as a whole: what is created before the first wave and shared by all of them,
  the launch state of one wave, and what a launch returns. What the threads of a wave do is \<open>run_threads\<close>:
  it takes the launch state of the wave and the shared data to what they are when every thread of
  the wave has ended.
\<close>

section \<open>What the waves share\<close>

text \<open>The shared arrays of the blocks, the exchange slots of the warps, and the host's own buffers.\<close>

record ('v, 'd, 'h) launch_data =
  ld_blocks :: "(string \<rightharpoonup> 'v shared_entry) list"
  ld_warps :: "'d option list list"
  ld_host :: 'h

record ('v, 'd, 'h) launch_shared =
  lh_id :: nat
  lh_reporter :: reporter
  lh_sync :: sync_state
  lh_data :: "('v, 'd, 'h) launch_data"

definition launch_begin :: "nat \<Rightarrow> launch_plan \<Rightarrow> 'h \<Rightarrow> ('v, 'd, 'h) launch_shared" where
  "launch_begin lid p host =
     \<lparr>lh_id = lid, lh_reporter = reporter_new, lh_sync = sync_new (lp_total p) (lp_blocks p),
      lh_data = \<lparr>ld_blocks = replicate (lp_blocks p) Map.empty,
                 ld_warps = replicate (lp_blocks p * lp_warps_per_block p) (replicate (lp_warp_size p) None),
                 ld_host = host\<rparr>\<rparr>"

section \<open>One wave\<close>

definition wave_begin :: "launch_config \<Rightarrow> launch_plan \<Rightarrow> nat \<Rightarrow> choices \<Rightarrow> ('v, 'd, 'h) launch_shared \<Rightarrow> launch_state" where
  "wave_begin c p wave_blocks picks sh =
     (let cfg = wave_sched p wave_blocks
      in \<lparr>ls_id = lh_id sh, ls_config = c, ls_sched = cfg,
          ls_world = \<lparr>w_st = sched_init cfg picks, w_rep = lh_reporter sh, w_woken = []\<rparr>,
          ls_sync = lh_sync sh\<rparr>)"

type_synonym ('v, 'd, 'h) wave_threads =
  "nat \<Rightarrow> launch_state \<Rightarrow> ('v, 'd, 'h) launch_data \<Rightarrow> launch_state \<times> ('v, 'd, 'h) launch_data"

definition wave_run ::
  "('v, 'd, 'h) wave_threads \<Rightarrow> launch_config \<Rightarrow> launch_plan \<Rightarrow> nat \<Rightarrow> nat \<Rightarrow> choices
     \<Rightarrow> ('v, 'd, 'h) launch_shared \<Rightarrow> ('v, 'd, 'h) launch_shared wave_end" where
  "wave_run run_threads c p first wave_blocks picks sh =
     (case run_threads first (wave_begin c p wave_blocks picks sh) (lh_data sh) of (l, data) \<Rightarrow>
      case fst (take_trace (ls_st l)) of (recorded, recorded_complete) \<Rightarrow>
        \<lparr>we_state = sh\<lparr>lh_reporter := w_rep (ls_world l), lh_sync := ls_sync l, lh_data := data\<rparr>,
         we_trace = recorded, we_complete = recorded_complete, we_aborted = was_aborted (ls_world l)\<rparr>)"

section \<open>The launch\<close>

text \<open>
  The counter of launches and the host's buffers go in and come out; a rejected configuration panics
  before the counter moves.
\<close>

definition launch_run ::
  "('v, 'd, 'h) wave_threads \<Rightarrow> bool \<Rightarrow> launch_config \<Rightarrow> choices \<Rightarrow> nat \<times> 'h
     \<Rightarrow> ((report \<times> u32 list \<times> bool) \<times> nat \<times> 'h) res" where
  "launch_run run_threads checks c ch s =
     (case s of (next_id, host) \<Rightarrow>
      res_bind (launch_setup checks c) (\<lambda>p.
        let e = run_shared (wave_run run_threads c p) c p ch (launch_begin next_id p host)
        in Inr ((\<lparr>report_seed = lc_seed c, diagnostics = fst (reporter_take (lh_reporter (le_state e))),
                  report_aborted = le_aborted e\<rparr>, le_trace e, le_complete e),
                next_id + 1, ld_host (lh_data (le_state e)))))"

definition launch ::
  "('v, 'd, 'h) wave_threads \<Rightarrow> bool \<Rightarrow> launch_config \<Rightarrow> nat \<times> 'h \<Rightarrow> (report \<times> nat \<times> 'h) res" where
  "launch run_threads checks c s =
     res_bind (launch_run run_threads checks c (Random (lc_seed c)) s) (\<lambda>((r, trace, complete), s1). Inr (r, s1))"

section \<open>How a wave and a launch end\<close>

text \<open>
  Threads that take part in the scheduler's protocol: from the beginning of a wave they take steps of
  the scheduler until none is left to take.
\<close>

definition threads_run_out :: "('v, 'd, 'h) wave_threads \<Rightarrow> bool" where
  "threads_run_out run_threads \<longleftrightarrow>
     (\<forall>first l data l' data'. cfg_ok (ls_sched l) \<longrightarrow> initial_world (ls_sched l) (ls_world l) \<longrightarrow>
        run_threads first l data = (l', data') \<longrightarrow>
        (sched_step (ls_sched l))\<^sup>*\<^sup>* (ls_world l) (ls_world l')
        \<and> (\<forall>w. \<not> sched_step (ls_sched l) (ls_world l') w))"

lemma no_step_left:
  assumes "reachable_world cfg w" and "\<forall>w'. \<not> sched_step cfg w w'"
  shows "(st_aborted (w_st w) \<and> rep_diags (w_rep w) \<noteq> [])
    \<or> \<not> st_aborted (w_st w) \<and> (\<forall>i < total_threads cfg. st_status (w_st w) ! i = Finished)"
proof (cases "st_aborted (w_st w)")
  case True
  then show ?thesis using reachable_ok [OF assms(1)] by (simp add: world_ok_def)
next
  case False
  have "st_current (w_st w) \<noteq> Some me" for me
    using assms(2) sched_step.act [OF False, of me cfg ActYield] by auto
  then have "st_current (w_st w) = None" by (cases "st_current (w_st w)") auto
  then show ?thesis using reachable_ok [OF assms(1)] False by (auto simp: world_ok_def turn_ok_def)
qed

lemma wave_initial:
  assumes "reporter_ok (lh_reporter sh)"
  shows "initial_world (wave_sched p n) (ls_world (wave_begin c p n picks sh))"
    and "ls_sched (wave_begin c p n picks sh) = wave_sched p n"
  using assms by (auto simp: initial_world_def wave_begin_def Let_def)

lemma wave_ends:
  assumes run: "threads_run_out run_threads" and cfg: "cfg_ok (wave_sched p n)"
    and rep: "reporter_ok (lh_reporter sh)"
    and fin: "run_threads first (wave_begin c p n picks sh) data = (l, data')"
  shows "reporter_ok (w_rep (ls_world l))
    \<and> (if was_aborted (ls_world l) then rep_diags (w_rep (ls_world l)) \<noteq> []
       else \<forall>i < total_threads (wave_sched p n). st_status (ls_st l) ! i = Finished)"
proof -
  let ?l = "wave_begin c p n picks sh"
  note init = wave_initial [OF rep, where p = p and n = n and c = c and picks = picks]
  have steps: "(sched_step (wave_sched p n))\<^sup>*\<^sup>* (ls_world ?l) (ls_world l)"
    "\<forall>w. \<not> sched_step (wave_sched p n) (ls_world l) w"
    using run [unfolded threads_run_out_def, rule_format, of ?l first data l data'] init cfg fin by simp_all
  have reach: "reachable_world (wave_sched p n) (ls_world l)"
    unfolding reachable_world_def using cfg init(1) steps(1) by blast
  have "reporter_ok (w_rep (ls_world l))" using reachable_ok [OF reach] by (simp add: world_ok_def)
  with no_step_left [OF reach steps(2)] show ?thesis by (auto simp: was_aborted_def ls_st_def)
qed

lemma waves_from_positive:
  assumes "plan_ok p" and "s \<le> lp_blocks p" and "lp_blocks p - s > (k - 1) * lp_resident p"
    and "(f, n) \<in> set (waves_from p k s)"
  shows "0 < n"
  using assms(2-4)
proof (induction k arbitrary: s)
  case (Suc k)
  let ?n = "min (lp_resident p) (lp_blocks p - s)"
  have res: "0 < lp_resident p" using assms(1) by (simp add: plan_ok_def)
  have pos: "0 < ?n" using res Suc.prems(2) by simp
  have "(f, n) = (s, ?n) \<or> (f, n) \<in> set (waves_from p k (s + ?n))"
    using Suc.prems(3) by (simp add: Let_def)
  then show ?case
  proof
    assume in_rest: "(f, n) \<in> set (waves_from p k (s + ?n))"
    then obtain j where k: "k = Suc j" by (cases k) auto
    have "(k - 1) * lp_resident p < lp_blocks p - (s + ?n)"
      using Suc.prems(2) unfolding k by (auto simp: min_def)
    then show ?thesis using Suc.IH [OF _ _ in_rest] Suc.prems(1) by simp
  qed (use pos in simp)
qed simp

lemma waves_are_schedulable:
  assumes "launch_setup checks c = Inr p" and "(f, n) \<in> set (wave_list p)"
  shows "cfg_ok (wave_sched p n)"
proof -
  have p: "plan_ok p" by (rule launch_setup_ok [OF assms(1)])
  have "(lp_waves p - 1) * lp_resident p < lp_blocks p"
    using div_ceil_bounds(2) [of "lp_resident p" "lp_blocks p"] p by (simp add: plan_ok_def)
  then have pos: "0 < n" using waves_from_positive [OF p, of 0 "lp_waves p" f n] assms(2) by (simp add: wave_list_def)
  have "n \<le> lp_blocks p" using wave_list_bounds [OF assms(2)] by simp
  then have "n * lp_tpb p \<le> lp_blocks p * lp_tpb p" by (rule mult_le_mono1)
  moreover have "lp_blocks p * lp_tpb p < 2 ^ 32" using p unfolding plan_ok_def by (elim conjE) metis
  ultimately have "n * lp_tpb p < 2 ^ 32" by (rule le_less_trans)
  then show ?thesis using p pos
    by (simp add: cfg_ok_def wave_sched_def sched_config_of_def plan_ok_def total_threads_def)
qed

text \<open>What the wave loop keeps of the launch.\<close>

definition launch_ok :: "('v, 'd, 'h) launch_shared launch_end \<Rightarrow> bool" where
  "launch_ok e \<longleftrightarrow> reporter_ok (lh_reporter (le_state e))
     \<and> (le_aborted e \<longrightarrow> rep_diags (lh_reporter (le_state e)) \<noteq> [])"

lemma run_waves_ok:
  assumes "threads_run_out run_threads" and "\<forall>(f, n) \<in> set ws. cfg_ok (wave_sched p n)"
    and "launch_ok acc" and "\<not> le_aborted acc"
  shows "launch_ok (run_waves (wave_run run_threads c p) single seed wave ws ch acc)"
  using assms(2-4)
proof (induction ws arbitrary: wave ch acc)
  case (Cons w ws)
  obtain first n where w: "w = (first, n)" by (rule prod.exhaust)
  define picks where "picks = (case ch of Some c \<Rightarrow> c | None \<Rightarrow> Random (seed + of_nat wave))"
  let ?sh = "le_state acc"
  obtain l data where r: "run_threads first (wave_begin c p n picks ?sh) (lh_data ?sh) = (l, data)"
    by (rule prod.exhaust)
  have cfg: "cfg_ok (wave_sched p n)" using Cons.prems(1) w by simp
  have rep: "reporter_ok (lh_reporter ?sh)" using Cons.prems(2) by (simp add: launch_ok_def)
  note we = wave_ends [OF assms(1) cfg rep r]
  have e: "we_aborted (wave_run run_threads c p first n picks ?sh) = was_aborted (ls_world l)"
    "lh_reporter (we_state (wave_run run_threads c p first n picks ?sh)) = w_rep (ls_world l)"
    by (simp_all add: wave_run_def r split: prod.split)
  show ?case
  proof (cases "was_aborted (ls_world l)")
    case True
    then show ?thesis using we e unfolding w by (simp add: Let_def picks_def [symmetric] launch_ok_def)
  next
    case False
    let ?e = "wave_run run_threads c p first n picks ?sh"
    let ?acc1 = "acc\<lparr>le_state := we_state ?e\<rparr>"
    let ?acc2 = "if single then ?acc1\<lparr>le_trace := we_trace ?e, le_complete := we_complete ?e\<rparr> else ?acc1"
    have "launch_ok ?acc2" "\<not> le_aborted ?acc2"
      using we e Cons.prems(3) by (simp_all add: launch_ok_def)
    from Cons.IH [OF _ this] Cons.prems(1) False e(1) show ?thesis
      unfolding w by (simp add: Let_def picks_def [symmetric])
  qed
qed simp

lemma run_waves_many:
  "le_trace (run_waves rw False seed wave ws ch acc) = le_trace acc
   \<and> le_complete (run_waves rw False seed wave ws ch acc) = le_complete acc"
  by (induction rw "False" seed wave ws ch acc rule: run_waves.induct) (simp_all add: Let_def)

text \<open>
  C21: how a launch ends. For threads that follow the scheduler's protocol, whatever the kernel does, an
  accepted launch returns a report with its own seed and at most 64 findings; a launch that was aborted
  has a finding that says why; every wave either was aborted or ended with all its threads returned;
  and a launch of more than one wave returns no trace and says that it cannot be replayed. A rejected
  configuration panics.
\<close>

theorem launch_ends_explained:
  assumes "threads_run_out run_threads"
    and "launch_run run_threads checks c ch (next_id, host) = Inr ((r, trace, complete), next_id', host')"
  shows "report_seed r = lc_seed c \<and> length (diagnostics r) \<le> 64 \<and> next_id' = next_id + 1
    \<and> (report_aborted r \<longrightarrow> diagnostics r \<noteq> [])
    \<and> (\<exists>p. launch_setup checks c = Inr p \<and> (lp_waves p \<noteq> 1 \<longrightarrow> trace = [] \<and> \<not> complete)
        \<and> (\<forall>(f, n) \<in> set (wave_list p). \<forall>picks sh l data. reporter_ok (lh_reporter sh) \<longrightarrow>
             run_threads f (wave_begin c p n picks sh) (lh_data sh) = (l, data) \<longrightarrow>
             was_aborted (ls_world l) \<or> (\<forall>i < n * lp_tpb p. st_status (ls_st l) ! i = Finished)))"
proof -
  obtain p where p: "launch_setup checks c = Inr p"
    using assms(2) by (cases "launch_setup checks c") (auto simp: launch_run_def)
  define e where "e = run_shared (wave_run run_threads c p) c p ch (launch_begin next_id p host)"
  have r: "r = \<lparr>report_seed = lc_seed c, diagnostics = fst (reporter_take (lh_reporter (le_state e))),
      report_aborted = le_aborted e\<rparr>" "trace = le_trace e" "complete = le_complete e" "next_id' = next_id + 1"
    using assms(2) p by (simp_all add: launch_run_def Let_def e_def)
  have waves: "\<forall>(f, n) \<in> set (wave_list p). cfg_ok (wave_sched p n)"
    using waves_are_schedulable [OF p] by blast
  have "launch_ok e" unfolding e_def run_shared_def
    by (rule run_waves_ok [OF assms(1) waves]) (simp_all add: launch_ok_def launch_begin_def)
  then have "length (diagnostics r) \<le> 64" "report_aborted r \<longrightarrow> diagnostics r \<noteq> []"
    by (simp_all add: launch_ok_def r(1) reporter_take_def reporter_ok_def max_diagnostics_def)
  moreover have "lp_waves p \<noteq> 1 \<longrightarrow> trace = [] \<and> \<not> complete"
    by (simp add: r e_def run_shared_def run_waves_many)
  moreover have "was_aborted (ls_world l) \<or> (\<forall>i < n * lp_tpb p. st_status (ls_st l) ! i = Finished)"
    if "(f, n) \<in> set (wave_list p)" "reporter_ok (lh_reporter sh)"
      "run_threads f (wave_begin c p n picks sh) (lh_data sh) = (l, data)" for f n picks sh l data
    using wave_ends [OF assms(1) _ that(2,3)] waves that(1)
    by (auto simp: total_threads_def wave_sched_def sched_config_of_def split: if_splits)
  then have "\<forall>(f, n) \<in> set (wave_list p). \<forall>picks sh l data. reporter_ok (lh_reporter sh) \<longrightarrow>
      run_threads f (wave_begin c p n picks sh) (lh_data sh) = (l, data) \<longrightarrow>
      was_aborted (ls_world l) \<or> (\<forall>i < n * lp_tpb p. st_status (ls_st l) ! i = Finished)" by blast
  ultimately show ?thesis by (intro conjI exI [of _ p] p) (simp_all add: r(1,4))
qed

text \<open>A kernel that panics in whichever thread of a wave runs first.\<close>

definition panicking_threads :: "(unit, unit, unit) wave_threads" where
  "panicking_threads first l data =
     (case st_current (ls_st l) of
        None \<Rightarrow> (l, data)
      | Some me \<Rightarrow> (if st_aborted (ls_st l) then (l, data)
                   else (run_thread_end l (thread_ctx_of 3 first me) (Panicked ''boom''), data)))"

lemma panicking_run_out: "threads_run_out panicking_threads"
  unfolding threads_run_out_def
proof (intro allI impI)
  fix first l data l' data'
  assume r: "panicking_threads first l data = (l', data')"
  show "(sched_step (ls_sched l))\<^sup>*\<^sup>* (ls_world l) (ls_world l') \<and> (\<forall>w. \<not> sched_step (ls_sched l) (ls_world l') w)"
  proof (cases "st_current (ls_st l) = None \<or> st_aborted (ls_st l)")
    case True
    with r have "l' = l" by (auto simp: panicking_threads_def split: option.splits)
    with True show ?thesis by (auto simp: sched_step_simps ls_st_def)
  next
    case False
    then obtain me where me: "st_current (w_st (ls_world l)) = Some me" "\<not> st_aborted (w_st (ls_world l))"
      by (auto simp: ls_st_def)
    let ?c = "thread_ctx_of 3 first me"
    let ?d = "KernelPanic (tc_block ?c) (tc_thread ?c) ''boom''"
    have w: "ls_world l' = sched_exec (ls_sched l) (ls_world l) me (ActTrap ?d)"
      using r me by (auto simp: panicking_threads_def run_thread_end_def ls_st_def)
    have "sched_step (ls_sched l) (ls_world l) (ls_world l')"
      unfolding w by (rule sched_step.act [OF me(2,1)]) simp
    have "st_aborted (w_st (ls_world l'))" by (simp add: w abort_def)
    then have "\<forall>w1. \<not> sched_step (ls_sched l) (ls_world l') w1" by (simp add: sched_step_simps)
    with \<open>sched_step (ls_sched l) (ls_world l) (ls_world l')\<close> show ?thesis by blast
  qed
qed

theorem launch_ends_explained_witness:
  "\<exists>r trace complete s'. launch_run panicking_threads True small_config (Random 0) (7, ()) = Inr ((r, trace, complete), s')
     \<and> trace = [] \<and> \<not> complete \<and> (report_aborted r \<longrightarrow> diagnostics r \<noteq> []) \<and> fst s' = 8"
proof -
  obtain r trace complete i' h' where l:
    "launch_run panicking_threads True small_config (Random 0) (7, ()) = Inr ((r, trace, complete), i', h')"
    by (simp add: launch_run_def small_setup Let_def)
  have "\<not> lp_waves small_plan = 1" by (simp add: small_plan_def)
  then show ?thesis using launch_ends_explained [OF panicking_run_out l] l small_setup by auto
qed

end
