(* ===== verification/Mem.thy ===== *)
theory Mem
  imports Ctx
begin

text \<open>
  \<^verbatim>\<open>src/mem.rs\<close>: instrumented arrays, the access path every read, write and atomic goes through, and the
  global and shared buffers built on it. The access path starts with a scheduling point; \<open>resume\<close> is
  what the rest of the launch does to the launch state and the array until the thread holds the turn
  again (nothing, when it keeps the turn). The element update \<open>op\<close> takes the old element to the
  returned value and the new element, or panics.
\<close>

section \<open>Instrumented arrays\<close>

record 'a instrumented =
  in_data :: "'a list"
  in_shadow :: "shadow_cell list"
  in_launch :: nat

definition global_new :: "'a list \<Rightarrow> 'a instrumented" where
  "global_new data =
     \<lparr>in_data = data, in_shadow = replicate (length data) cell_initialised, in_launch = 0\<rparr>"

definition global_uninit :: "'a \<Rightarrow> nat \<Rightarrow> 'a instrumented" where
  "global_uninit dflt len =
     \<lparr>in_data = map (\<lambda>_. dflt) [0..<len], in_shadow = replicate len cell_default, in_launch = 0\<rparr>"

definition buf_len :: "'a instrumented \<Rightarrow> nat" where
  "buf_len m = length (in_data m)"

definition buf_is_empty :: "'a instrumented \<Rightarrow> bool" where
  "buf_is_empty m \<longleftrightarrow> buf_len m = 0"

definition to_vec :: "'a instrumented \<Rightarrow> 'a list" where
  "to_vec m = in_data m"

definition global_reset :: "'a instrumented \<Rightarrow> 'a instrumented" where
  "global_reset m =
     m\<lparr>in_shadow := map (\<lambda>c. cell_default\<lparr>cell_init := cell_init c\<rparr>) (in_shadow m)\<rparr>"

definition shared_new :: "'a \<Rightarrow> nat \<Rightarrow> 'a instrumented" where
  "shared_new dflt len =
     \<lparr>in_data = replicate len dflt, in_shadow = replicate len cell_default, in_launch = 0\<rparr>"

definition shared_reset :: "'a instrumented \<Rightarrow> 'a instrumented" where
  "shared_reset m = m\<lparr>in_shadow := map (\<lambda>_. cell_default) (in_shadow m)\<rparr>"

definition shared_len :: "'a instrumented \<Rightarrow> nat" where
  "shared_len m = length (in_data m)"

definition shared_is_empty :: "'a instrumented \<Rightarrow> bool" where
  "shared_is_empty m \<longleftrightarrow> shared_len m = 0"

definition shared_space :: "u32 \<Rightarrow> string \<Rightarrow> mem_space" where
  "shared_space block name = Shared block name"

section \<open>The access path\<close>

datatype 'a outcome = Returned 'a | Trapped | Raised panic | Unwound

definition enter_launch :: "('a instrumented \<Rightarrow> 'a instrumented) \<Rightarrow> nat \<Rightarrow> 'a instrumented \<Rightarrow> 'a instrumented" where
  "enter_launch reset lid m =
     (if in_launch m \<noteq> lid then (reset m)\<lparr>in_launch := lid\<rparr> else m)"

definition access_body ::
  "mem_space \<Rightarrow> ('a instrumented \<Rightarrow> 'a instrumented) \<Rightarrow> thread_ctx \<Rightarrow> nat \<Rightarrow> access_kind \<Rightarrow> location
     \<Rightarrow> mem_ordering option \<Rightarrow> ('a \<Rightarrow> ('a \<times> 'a) res) \<Rightarrow> launch_state \<Rightarrow> 'a instrumented
     \<Rightarrow> 'a outcome \<times> launch_state \<times> 'a instrumented" where
  "access_body space reset c index kind loc ord op l m =
     (let m1 = enter_launch reset (ls_id l) m;
          len = length (in_data m1)
      in if index \<ge> len then
           (case ctx_access l c kind loc of (acc, now, l1) \<Rightarrow>
              (Trapped, ctx_trap (OutOfBounds space index len acc) l1, m1))
         else
           let l1 = (case ord of Some o1 \<Rightarrow> acquire_from l c (cell_release (in_shadow m1 ! index)) o1
                     | None \<Rightarrow> l)
           in case ctx_access l1 c kind loc of (acc, now, l2) \<Rightarrow>
              let cell = in_shadow m1 ! index;
                  was_init = cell_init cell
              in case on_access cell acc now of (conflict, cell1) \<Rightarrow>
                 let m2 = m1\<lparr>in_shadow := (in_shadow m1)[index := cell1]\<rparr>
                 in case op (in_data m1 ! index) of
                      Inl p \<Rightarrow> (Raised p, l2, m2)
                    | Inr (value, new) \<Rightarrow>
                        let cell2 = (case ord of
                              Some o1 \<Rightarrow> cell1\<lparr>cell_release := release_into l2 c (cell_release cell1) o1\<rparr>
                            | None \<Rightarrow> cell1);
                            m3 = m2\<lparr>in_data := (in_data m2)[index := new],
                                    in_shadow := (in_shadow m2)[index := cell2]\<rparr>;
                            l3 = (if kind \<noteq> Write \<and> \<not> was_init
                                  then ctx_report (UninitRead space index acc) l2 else l2);
                            l4 = (case conflict of
                              Some first \<Rightarrow> ctx_report (DataRace space index first acc) l3
                            | None \<Rightarrow> l3)
                        in (Returned value, l4, m3))"

definition checked_access ::
  "(launch_state \<times> 'a instrumented \<Rightarrow> launch_state \<times> 'a instrumented)
     \<Rightarrow> mem_space \<Rightarrow> ('a instrumented \<Rightarrow> 'a instrumented) \<Rightarrow> thread_ctx \<Rightarrow> nat \<Rightarrow> access_kind \<Rightarrow> location
     \<Rightarrow> mem_ordering option \<Rightarrow> ('a \<Rightarrow> ('a \<times> 'a) res) \<Rightarrow> launch_state \<Rightarrow> 'a instrumented
     \<Rightarrow> 'a outcome \<times> launch_state \<times> 'a instrumented" where
  "checked_access resume space reset c index kind loc ord op l m =
     (case schedule_point l c of (l1, t) \<Rightarrow>
      case t of
        Proceed \<Rightarrow> access_body space reset c index kind loc ord op l1 m
      | Unwind \<Rightarrow> (Unwound, l1, m)
      | Block \<Rightarrow>
          (case resume (l1, m) of (l2, m2) \<Rightarrow>
             if st_aborted (ls_st l2) then (Unwound, l2, m2)
             else access_body space reset c index kind loc ord op l2 m2))"

section \<open>The element updates\<close>

definition op_read :: "'a \<Rightarrow> ('a \<times> 'a) res" where
  "op_read v = Inr (v, v)"

definition op_write :: "'a \<Rightarrow> 'a \<Rightarrow> ('a \<times> 'a) res" where
  "op_write value v = Inr (value, value)"

definition op_swap :: "'a \<Rightarrow> 'a \<Rightarrow> ('a \<times> 'a) res" where
  "op_swap value v = Inr (v, value)"

text \<open>\<^verbatim>\<open>==\<close> is the element type's own \<^verbatim>\<open>PartialEq\<close>, \<open>eq\<close>, and \<^verbatim>\<open><\<close> its own \<^verbatim>\<open>PartialOrd\<close>.\<close>

definition op_cas :: "('a \<Rightarrow> 'a \<Rightarrow> bool) \<Rightarrow> 'a \<Rightarrow> 'a \<Rightarrow> 'a \<Rightarrow> ('a \<times> 'a) res" where
  "op_cas eq current new v = Inr (v, if eq v current then new else v)"

definition op_min :: "('a :: ord) \<Rightarrow> 'a \<Rightarrow> ('a \<times> 'a) res" where
  "op_min value v = Inr (v, if value < v then value else v)"

definition op_max :: "('a :: ord) \<Rightarrow> 'a \<Rightarrow> ('a \<times> 'a) res" where
  "op_max value v = Inr (v, if value > v then value else v)"

text \<open>Addition and subtraction are the element type's own; they may panic on overflow.\<close>

definition op_combine :: "('a \<Rightarrow> 'a \<Rightarrow> 'a res) \<Rightarrow> 'a \<Rightarrow> 'a \<Rightarrow> ('a \<times> 'a) res" where
  "op_combine f value v = res_bind (f v value) (\<lambda>new. Inr (v, new))"

section \<open>Buffers\<close>

definition global_space :: "string \<Rightarrow> mem_space" where
  "global_space name = Global name"

definition global_read where
  "global_read resume name c index loc =
     checked_access resume (global_space name) global_reset c index Read loc None op_read"

definition global_write where
  "global_write resume name c index value loc =
     checked_access resume (global_space name) global_reset c index Write loc None (op_write value)"

definition atomic_rmw where
  "atomic_rmw resume name c index ord loc update =
     checked_access resume (global_space name) global_reset c index Atomic loc (Some ord) update"

definition atomic_load where
  "atomic_load resume name c index ord loc = atomic_rmw resume name c index ord loc op_read"

definition atomic_store where
  "atomic_store resume name c index value ord loc =
     atomic_rmw resume name c index ord loc (op_write value)"

definition atomic_swap where
  "atomic_swap resume name c index value ord loc =
     atomic_rmw resume name c index ord loc (op_swap value)"

text \<open>The flag \<^verbatim>\<open>exchanged\<close> of the closure is whether the value read equals \<open>current\<close>.\<close>

definition atomic_compare_exchange where
  "atomic_compare_exchange eq resume name c index current new ord loc l m =
     (case atomic_rmw resume name c index ord loc (op_cas eq current new) l m of (r, l1, m1) \<Rightarrow>
        ((case r of
            Returned previous \<Rightarrow> Returned (if eq previous current then Inr previous else Inl previous)
          | Trapped \<Rightarrow> Trapped | Raised p \<Rightarrow> Raised p | Unwound \<Rightarrow> Unwound),
         l1, m1))"

definition atomic_min where
  "atomic_min resume name c index value ord loc = atomic_rmw resume name c index ord loc (op_min value)"

definition atomic_max where
  "atomic_max resume name c index value ord loc = atomic_rmw resume name c index ord loc (op_max value)"

definition atomic_sub where
  "atomic_sub minus_op resume name c index value ord loc =
     atomic_rmw resume name c index ord loc (op_combine minus_op value)"

definition atomic_add where
  "atomic_add plus_op resume name c index value ord loc =
     atomic_rmw resume name c index ord loc (op_combine plus_op value)"

definition shared_read where
  "shared_read resume block name c index loc =
     checked_access resume (shared_space block name) shared_reset c index Read loc None op_read"

definition shared_write where
  "shared_write resume block name c index value loc =
     checked_access resume (shared_space block name) shared_reset c index Write loc None (op_write value)"

section \<open>Borrowing an element\<close>

text \<open>
  \<^verbatim>\<open>elem_mut\<close> after its scheduling point: the access is recorded first, then the bounds are checked; what
  the caller writes through the borrow is not seen.
\<close>

definition elem_mut_body ::
  "string \<Rightarrow> thread_ctx \<Rightarrow> nat \<Rightarrow> bool \<Rightarrow> location \<Rightarrow> launch_state \<Rightarrow> 'a instrumented
     \<Rightarrow> nat option outcome \<times> launch_state \<times> 'a instrumented" where
  "elem_mut_body name c index checked loc l m =
     (case ctx_access l c Write loc of (acc, now, l1) \<Rightarrow>
      let m1 = enter_launch global_reset (ls_id l1) m;
          len = length (in_data m1)
      in if index \<ge> len then
           (if checked then (Returned None, l1, m1)
            else (Trapped, ctx_trap (OutOfBounds (global_space name) index len acc) l1, m1))
         else
           case on_write (in_shadow m1 ! index) acc now of (conflict, cell1) \<Rightarrow>
             (Returned (Some index),
              (case conflict of
                 Some first \<Rightarrow> ctx_report (DataRace (global_space name) index first acc) l1
               | None \<Rightarrow> l1),
              m1\<lparr>in_shadow := (in_shadow m1)[index := cell1]\<rparr>))"

definition elem_mut ::
  "(launch_state \<times> 'a instrumented \<Rightarrow> launch_state \<times> 'a instrumented)
     \<Rightarrow> string \<Rightarrow> thread_ctx \<Rightarrow> nat \<Rightarrow> bool \<Rightarrow> location \<Rightarrow> launch_state \<Rightarrow> 'a instrumented
     \<Rightarrow> nat option outcome \<times> launch_state \<times> 'a instrumented" where
  "elem_mut resume name c index checked loc l m =
     (case schedule_point l c of (l1, t) \<Rightarrow>
      case t of
        Proceed \<Rightarrow> elem_mut_body name c index checked loc l1 m
      | Unwind \<Rightarrow> (Unwound, l1, m)
      | Block \<Rightarrow>
          (case resume (l1, m) of (l2, m2) \<Rightarrow>
             if st_aborted (ls_st l2) then (Unwound, l2, m2)
             else elem_mut_body name c index checked loc l2 m2))"

definition deref :: "nat \<Rightarrow> 'a instrumented \<Rightarrow> 'a" where
  "deref index m = in_data m ! index"

definition deref_mut :: "nat \<Rightarrow> 'a \<Rightarrow> 'a instrumented \<Rightarrow> 'a instrumented" where
  "deref_mut index v m = m\<lparr>in_data := (in_data m)[index := v]\<rparr>"

end
