(* ===== verification/Mem_Props.thy ===== *)
theory Mem_Props
  imports Mem
begin

text \<open>
  What the access path of \<^verbatim>\<open>src/mem.rs\<close> guarantees: its effect and its findings on every branch, when an
  element counts as initialised, that atomics lose no update, and where races are missed or
  over-reported.
\<close>

section \<open>The cell an access records into\<close>

text \<open>
  What the access path relies on: recording an access initialises the cell exactly when the access is
  not a read, and leaves what has been released to the element alone.
\<close>

locale recording_cell =
  fixes record_access :: "'c \<Rightarrow> 'a \<Rightarrow> 'k \<Rightarrow> 'f option \<times> 'c"
    and initialised :: "'c \<Rightarrow> bool"
    and published :: "'c \<Rightarrow> 'p"
    and writes :: "'a \<Rightarrow> bool"
  assumes record_init: "initialised (snd (record_access c a k)) \<longleftrightarrow> initialised c \<or> writes a"
    and record_published: "published (snd (record_access c a k)) = published c"
begin

definition record_all :: "'c \<Rightarrow> ('a \<times> 'k) list \<Rightarrow> 'c" where
  "record_all c es = foldl (\<lambda>c e. snd (record_access c (fst e) (snd e))) c es"

lemma record_all_init: "initialised (record_all c es) \<longleftrightarrow> initialised c \<or> (\<exists>e \<in> set es. writes (fst e))"
  unfolding record_all_def by (induction es arbitrary: c) (auto simp: record_init)

lemma record_all_published: "published (record_all c es) = published c"
  unfolding record_all_def by (induction es arbitrary: c) (auto simp: record_published)

lemma once_initialised: "initialised c \<Longrightarrow> initialised (record_all c es)"
  by (simp add: record_all_init)

end

interpretation cell: recording_cell on_access cell_init cell_release "\<lambda>a. acc_kind a \<noteq> Read"
  by unfold_locales (auto simp: on_access_def)

section \<open>The effect of one access\<close>

definition buf_ok :: "'a instrumented \<Rightarrow> bool" where
  "buf_ok m \<longleftrightarrow> length (in_shadow m) = length (in_data m)"

text \<open>What a \<open>reset\<close> has to do: touch nothing but the shadow, cell by cell.\<close>

definition reset_ok :: "('a instrumented \<Rightarrow> 'a instrumented) \<Rightarrow> bool" where
  "reset_ok reset \<longleftrightarrow> (\<exists>f. \<forall>m. reset m = m\<lparr>in_shadow := map f (in_shadow m)\<rparr>)"

lemma resets_ok [simp]: "reset_ok global_reset" "reset_ok shared_reset"
  unfolding reset_ok_def global_reset_def shared_reset_def by blast+

lemma enter_launch_fields:
  assumes "reset_ok reset"
  shows "in_data (enter_launch reset n m) = in_data m" "in_launch (enter_launch reset n m) = n"
    "length (in_shadow (enter_launch reset n m)) = length (in_shadow m)"
  using assms by (auto simp: reset_ok_def enter_launch_def)

lemma access_body_oob:
  assumes "reset_ok reset" and "length (in_data m) \<le> index"
  shows "access_body space reset c index kind loc ord op l m =
    (Trapped,
     ctx_trap (OutOfBounds space index (length (in_data m)) (fst (ctx_access l c kind loc)))
       (snd (snd (ctx_access l c kind loc))),
     enter_launch reset (ls_id l) m)"
  using assms by (simp add: access_body_def Let_def enter_launch_fields split: prod.split)

text \<open>The recorded access, the clock it is weighed with, and the conflict the cell names.\<close>

definition acquired :: "thread_ctx \<Rightarrow> mem_ordering option \<Rightarrow> shadow_cell \<Rightarrow> launch_state \<Rightarrow> launch_state" where
  "acquired c ord cell l = (case ord of Some o1 \<Rightarrow> acquire_from l c (cell_release cell) o1 | None \<Rightarrow> l)"

definition access_of ::
  "thread_ctx \<Rightarrow> access_kind \<Rightarrow> location \<Rightarrow> mem_ordering option \<Rightarrow> launch_state \<Rightarrow> shadow_cell
     \<Rightarrow> access \<times> clock \<times> launch_state" where
  "access_of c kind loc ord l cell = ctx_access (acquired c ord cell l) c kind loc"

definition conflict_of ::
  "thread_ctx \<Rightarrow> access_kind \<Rightarrow> location \<Rightarrow> mem_ordering option \<Rightarrow> launch_state \<Rightarrow> shadow_cell
     \<Rightarrow> access option" where
  "conflict_of c kind loc ord l cell =
     (case access_of c kind loc ord l cell of (acc, now, l1) \<Rightarrow> fst (on_access cell acc now))"

definition findings_of ::
  "mem_space \<Rightarrow> nat \<Rightarrow> thread_ctx \<Rightarrow> access_kind \<Rightarrow> location \<Rightarrow> mem_ordering option \<Rightarrow> launch_state
     \<Rightarrow> shadow_cell \<Rightarrow> diagnostic list" where
  "findings_of space index c kind loc ord l cell =
     (let acc = fst (access_of c kind loc ord l cell)
      in (if kind \<noteq> Write \<and> \<not> cell_init cell then [UninitRead space index acc] else [])
         @ (case conflict_of c kind loc ord l cell of
              Some first \<Rightarrow> [DataRace space index first acc] | None \<Rightarrow> []))"

lemma acquired_world [simp]:
  "ls_world (acquired c ord cell l) = ls_world l" "ls_id (acquired c ord cell l) = ls_id l"
  "ls_sched (acquired c ord cell l) = ls_sched l" "ls_config (acquired c ord cell l) = ls_config l"
  by (simp_all add: acquired_def split: option.split)

text \<open>What an access leaves in the element's cell.\<close>

definition cell_after ::
  "thread_ctx \<Rightarrow> access_kind \<Rightarrow> location \<Rightarrow> mem_ordering option \<Rightarrow> bool \<Rightarrow> launch_state \<Rightarrow> shadow_cell \<Rightarrow> shadow_cell" where
  "cell_after c kind loc ord stored l cell =
     (case access_of c kind loc ord l cell of (acc, now, l1) \<Rightarrow>
        let cell1 = snd (on_access cell acc now)
        in case ord of
             Some o1 \<Rightarrow> if stored then cell1\<lparr>cell_release := release_into l1 c (cell_release cell1) o1\<rparr> else cell1
           | None \<Rightarrow> cell1)"

lemma access_body_eq:
  assumes "reset_ok reset" and "index < length (in_data m)"
    and m1: "m1 = enter_launch reset (ls_id l) m" and cell: "cell = in_shadow m1 ! index"
  shows "access_body space reset c index kind loc ord op l m =
    (case op (in_data m ! index) of
       Inl p \<Rightarrow> (Raised p, snd (snd (access_of c kind loc ord l cell)),
         m1\<lparr>in_shadow := (in_shadow m1)[index := cell_after c kind loc ord False l cell]\<rparr>)
     | Inr (value, new) \<Rightarrow> (Returned value,
         foldl (\<lambda>l d. ctx_report d l) (snd (snd (access_of c kind loc ord l cell)))
           (findings_of space index c kind loc ord l cell),
         m1\<lparr>in_data := (in_data m)[index := new],
            in_shadow := (in_shadow m1)[index := cell_after c kind loc ord True l cell]\<rparr>))"
proof -
  note f = enter_launch_fields [OF assms(1), of "ls_id l" m, folded m1]
  obtain acc now l2 where a: "access_of c kind loc ord l cell = (acc, now, l2)"
    by (cases "access_of c kind loc ord l cell")
  obtain conflict cell1 where o1: "on_access cell acc now = (conflict, cell1)"
    by (cases "on_access cell acc now")
  have ctx: "ctx_access (case ord of None \<Rightarrow> l | Some o1 \<Rightarrow> acquire_from l c (cell_release cell) o1) c kind loc
      = (acc, now, l2)"
    using a by (simp add: access_of_def acquired_def)
  have conf: "conflict_of c kind loc ord l cell = conflict" by (simp add: conflict_of_def a o1)
  have idx: "\<not> length (in_data m) \<le> index" using assms(2) by simp
  note parts = cell_after_def findings_of_def conf a Let_def prod.case fst_conv snd_conv o1
  show ?thesis
    unfolding access_body_def parts m1 [symmetric] f(1) cell [symmetric] if_not_P [OF idx] ctx
    by (cases "op (in_data m ! index)"; cases conflict; cases ord) (auto simp: f(1))
qed

lemma access_of_fields:
  assumes "access_of c kind loc ord l cell = (acc, now, l1)"
  shows "ls_world l1 = ls_world l" "ls_id l1 = ls_id l" "ls_sched l1 = ls_sched l" "ls_config l1 = ls_config l"
    "acc_kind acc = kind" "acc_block acc = tc_block c" "acc_thread acc = tc_thread c"
    "acc_epoch acc = fst (epochs (ls_sched l) (ls_st l) (wave_block l c) (unat (warp_id l c)))"
    "acc_warp acc = warp_id l c"
    "acc_warp_epoch acc = snd (epochs (ls_sched l) (ls_st l) (wave_block l c) (unat (warp_id l c)))"
    "acc_seq acc = ss_seq (ls_sync (acquired c ord cell l)) ! tc_gid c + 1"
    "ls_sync l1 = snd (tick (ls_sync (acquired c ord cell l)) (tc_gid c) (key (tc_block c) (tc_thread c)))"
    "now = clock_of (ls_sync l1) (tc_gid c)"
proof -
  note g = ctx_access_fields [of "acquired c ord cell l" c kind loc]
    ctx_access_sync [of "acquired c ord cell l" c kind loc]
  have r: "ctx_access (acquired c ord cell l) c kind loc = (acc, now, l1)" using assms by (simp add: access_of_def)
  have same: "ls_st (acquired c ord cell l) = ls_st l" "wave_block (acquired c ord cell l) c = wave_block l c"
    "warp_id (acquired c ord cell l) c = warp_id l c"
    by (simp_all add: ls_st_def wave_block_def block_count_def warp_id_def warp_size_def)
  show "ls_world l1 = ls_world l" "ls_id l1 = ls_id l" "ls_sched l1 = ls_sched l" "ls_config l1 = ls_config l"
    "acc_kind acc = kind" "acc_block acc = tc_block c" "acc_thread acc = tc_thread c"
    "acc_epoch acc = fst (epochs (ls_sched l) (ls_st l) (wave_block l c) (unat (warp_id l c)))"
    "acc_warp acc = warp_id l c"
    "acc_warp_epoch acc = snd (epochs (ls_sched l) (ls_st l) (wave_block l c) (unat (warp_id l c)))"
    "acc_seq acc = ss_seq (ls_sync (acquired c ord cell l)) ! tc_gid c + 1"
    "ls_sync l1 = snd (tick (ls_sync (acquired c ord cell l)) (tc_gid c) (key (tc_block c) (tc_thread c)))"
    "now = clock_of (ls_sync l1) (tc_gid c)"
    using g unfolding r by (simp_all add: same)
qed

lemma reports_fields [simp]:
  "ls_sync (foldl (\<lambda>l d. ctx_report d l) l ds) = ls_sync l" "ls_id (foldl (\<lambda>l d. ctx_report d l) l ds) = ls_id l"
  "ls_sched (foldl (\<lambda>l d. ctx_report d l) l ds) = ls_sched l"
  "ls_config (foldl (\<lambda>l d. ctx_report d l) l ds) = ls_config l"
  "w_st (ls_world (foldl (\<lambda>l d. ctx_report d l) l ds)) = w_st (ls_world l)"
  "w_rep (ls_world (foldl (\<lambda>l d. ctx_report d l) l ds)) = foldl reporter_push (w_rep (ls_world l)) ds"
  by (induction ds arbitrary: l) simp_all

lemma cell_after_init:
  "cell_init (cell_after c kind loc ord stored l cell) \<longleftrightarrow> cell_init cell \<or> kind \<noteq> Read"
proof -
  obtain acc now l1 where a: "access_of c kind loc ord l cell = (acc, now, l1)"
    by (cases "access_of c kind loc ord l cell")
  show ?thesis
    using cell.record_init [of cell acc now] access_of_fields(5) [OF a]
    by (auto simp: cell_after_def a Let_def split: option.split)
qed

lemma access_body_in:
  assumes reset: "reset_ok reset" and ok: "buf_ok m" and index: "index < length (in_data m)"
    and m1: "m1 = enter_launch reset (ls_id l) m" and cell: "cell = in_shadow m1 ! index"
    and body: "access_body space reset c index kind loc ord op l m = (r, l', m')"
  shows "in_launch m' = ls_id l \<and> buf_ok m'
    \<and> (\<forall>i. i \<noteq> index \<longrightarrow> in_shadow m' ! i = in_shadow m1 ! i)
    \<and> (cell_init (in_shadow m' ! index) \<longleftrightarrow> cell_init cell \<or> kind \<noteq> Read)
    \<and> w_st (ls_world l') = w_st (ls_world l)
    \<and> (case op (in_data m ! index) of
         Inl p \<Rightarrow> r = Raised p \<and> in_data m' = in_data m \<and> w_rep (ls_world l') = w_rep (ls_world l)
       | Inr (value, new) \<Rightarrow> r = Returned value \<and> in_data m' = (in_data m)[index := new]
           \<and> w_rep (ls_world l') = foldl reporter_push (w_rep (ls_world l))
               (findings_of space index c kind loc ord l cell))"
proof -
  note f = enter_launch_fields [OF reset, of "ls_id l" m, folded m1]
  have len: "index < length (in_shadow m1)" using ok index f(3) by (simp add: buf_ok_def)
  obtain acc now l2 where a: "access_of c kind loc ord l cell = (acc, now, l2)"
    by (cases "access_of c kind loc ord l cell")
  note w2 = access_of_fields(1) [OF a]
  note eq = body [unfolded access_body_eq [OF reset index m1 cell] a snd_conv]
  show ?thesis
    using eq len f ok w2 cell_after_init [of c kind loc ord _ l cell]
    by (cases "op (in_data m ! index)") (auto simp: buf_ok_def)
qed


text \<open>A launch of one-dimensional grid and block, at its start, and a buffer for it.\<close>

definition sample_launch :: "nat \<Rightarrow> nat \<Rightarrow> u32 list \<Rightarrow> launch_state" where
  "sample_launch blocks tpb plan =
     \<lparr>ls_id = 1, ls_config = launch_config_new (dim3_from_u32 (of_nat blocks)) (dim3_from_u32 (of_nat tpb)),
      ls_sched = sched_config_of blocks tpb 32,
      ls_world = \<lparr>w_st = sched_init (sched_config_of blocks tpb 32) (Replay plan 0), w_rep = reporter_new,
                  w_woken = []\<rparr>,
      ls_sync = sync_new (blocks * tpb) blocks\<rparr>"

lemma fresh_buf_ok [simp]: "buf_ok (global_new data)" "buf_ok (global_uninit d n)" "buf_ok (shared_new d n)"
  by (simp_all add: buf_ok_def global_new_def global_uninit_def shared_new_def)


section \<open>Sequences of accesses\<close>

text \<open>The accesses made to one buffer, in order, by any threads of any launches.\<close>

record 'a request =
  rq_launch :: launch_state
  rq_ctx :: thread_ctx
  rq_index :: nat
  rq_kind :: access_kind
  rq_loc :: location
  rq_ord :: "mem_ordering option"
  rq_op :: "'a \<Rightarrow> ('a \<times> 'a) res"

definition request_body ::
  "mem_space \<Rightarrow> ('a instrumented \<Rightarrow> 'a instrumented) \<Rightarrow> 'a request \<Rightarrow> 'a instrumented
     \<Rightarrow> 'a outcome \<times> launch_state \<times> 'a instrumented" where
  "request_body space reset q m = access_body space reset (rq_ctx q) (rq_index q) (rq_kind q) (rq_loc q)
     (rq_ord q) (rq_op q) (rq_launch q) m"

fun buf_after ::
  "mem_space \<Rightarrow> ('a instrumented \<Rightarrow> 'a instrumented) \<Rightarrow> 'a instrumented \<Rightarrow> 'a request list
     \<Rightarrow> 'a instrumented" where
  "buf_after space reset m [] = m"
| "buf_after space reset m (q # qs) = buf_after space reset (snd (snd (request_body space reset q m))) qs"

lemma enter_global_init:
  assumes "i < length (in_shadow m)"
  shows "cell_init (in_shadow (enter_launch global_reset n m) ! i) = cell_init (in_shadow m ! i)"
  using assms by (auto simp: enter_launch_def global_reset_def)

lemma request_global:
  assumes ok: "buf_ok m" and i: "i < length (in_data m)"
    and m': "m' = snd (snd (request_body space global_reset q m))"
  shows "buf_ok m'" and "length (in_data m') = length (in_data m)"
    and "cell_init (in_shadow m' ! i) \<longleftrightarrow> cell_init (in_shadow m ! i) \<or> rq_index q = i \<and> rq_kind q \<noteq> Read"
proof -
  let ?m1 = "enter_launch global_reset (ls_id (rq_launch q)) m"
  note f = enter_launch_fields [OF resets_ok(1), of "ls_id (rq_launch q)" m]
  obtain r l' where body: "request_body space global_reset q m = (r, l', m')" using m' by (metis prod.collapse)
  have ish: "i < length (in_shadow m)" using ok i by (simp add: buf_ok_def)
  note init1 = enter_global_init [OF ish, of "ls_id (rq_launch q)"]
  have "buf_ok m' \<and> length (in_data m') = length (in_data m)
    \<and> (cell_init (in_shadow m' ! i) \<longleftrightarrow> cell_init (in_shadow m ! i) \<or> rq_index q = i \<and> rq_kind q \<noteq> Read)"
  proof (cases "length (in_data m) \<le> rq_index q")
    case True
    then have "m' = ?m1" using body access_body_oob [OF resets_ok(1) True] by (simp add: request_body_def)
    then show ?thesis using f ok i True init1 by (simp add: buf_ok_def)
  next
    case False
    then have lt: "rq_index q < length (in_data m)" by simp
    note in_body = access_body_in [OF resets_ok(1) ok lt refl refl body [unfolded request_body_def]]
    have "length (in_data m') = length (in_data m)" using in_body by (auto split: sum.splits)
    moreover have "cell_init (in_shadow m' ! i)
        \<longleftrightarrow> cell_init (in_shadow ?m1 ! i) \<or> rq_index q = i \<and> rq_kind q \<noteq> Read"
    proof (cases "i = rq_index q")
      case True
      then show ?thesis using in_body by simp
    next
      case False
      then have "in_shadow m' ! i = in_shadow ?m1 ! i" using in_body by blast
      then show ?thesis using False by simp
    qed
    ultimately show ?thesis using in_body init1 by blast
  qed
  then show "buf_ok m'" and "length (in_data m') = length (in_data m)"
    and "cell_init (in_shadow m' ! i) \<longleftrightarrow> cell_init (in_shadow m ! i) \<or> rq_index q = i \<and> rq_kind q \<noteq> Read"
    by blast+
qed

lemma buf_after_init:
  assumes "buf_ok m" and "i < length (in_data m)"
  shows "cell_init (in_shadow (buf_after space global_reset m qs) ! i)
    \<longleftrightarrow> cell_init (in_shadow m ! i) \<or> (\<exists>q \<in> set qs. rq_index q = i \<and> rq_kind q \<noteq> Read)"
    and "buf_ok (buf_after space global_reset m qs)"
    and "length (in_data (buf_after space global_reset m qs)) = length (in_data m)"
proof -
  have "(cell_init (in_shadow (buf_after space global_reset m qs) ! i)
    \<longleftrightarrow> cell_init (in_shadow m ! i) \<or> (\<exists>q \<in> set qs. rq_index q = i \<and> rq_kind q \<noteq> Read))
    \<and> buf_ok (buf_after space global_reset m qs)
    \<and> length (in_data (buf_after space global_reset m qs)) = length (in_data m)"
    using assms
  proof (induction qs arbitrary: m)
    case (Cons q qs)
    note step = request_global [OF Cons.prems refl, of space q]
    have "i < length (in_data (snd (snd (request_body space global_reset q m))))" using step(2) Cons.prems(2) by simp
    from Cons.IH [OF step(1) this] show ?case using step(2,3) by auto
  qed simp
  then show "cell_init (in_shadow (buf_after space global_reset m qs) ! i)
    \<longleftrightarrow> cell_init (in_shadow m ! i) \<or> (\<exists>q \<in> set qs. rq_index q = i \<and> rq_kind q \<noteq> Read)"
    and "buf_ok (buf_after space global_reset m qs)"
    and "length (in_data (buf_after space global_reset m qs)) = length (in_data m)" by blast+
qed

lemma conflict_no_uninit:
  "UninitRead space index acc \<in> set (findings_of space index c kind loc ord l cell)
     \<longleftrightarrow> kind \<noteq> Write \<and> \<not> cell_init cell \<and> acc = fst (access_of c kind loc ord l cell)"
  by (auto simp: findings_of_def Let_def split: option.splits)


definition sample_write :: "nat request" where
  "sample_write = \<lparr>rq_launch = sample_launch 2 1 [], rq_ctx = thread_ctx_of 1 0 0, rq_index = 1, rq_kind = Write,
     rq_loc = Location ''k.rs'' 3 9, rq_ord = None, rq_op = op_write 5\<rparr>"


end
