(* ===== verification/Mem_Atomics.thy ===== *)
theory Mem_Atomics
  imports Mem_Props
begin

text \<open>
  Atomics of \<^verbatim>\<open>src/mem.rs\<close>: no update is lost and a compare-and-exchange has one winner, whatever threads
  make the accesses in whatever order; and where the access path reports or hides what it should not.
\<close>

section \<open>Sequences of atomics on one element\<close>

fun outcomes_of ::
  "mem_space \<Rightarrow> ('a instrumented \<Rightarrow> 'a instrumented) \<Rightarrow> 'a instrumented \<Rightarrow> 'a request list \<Rightarrow> 'a outcome list" where
  "outcomes_of space reset m [] = []"
| "outcomes_of space reset m (q # qs) =
     fst (request_body space reset q m) # outcomes_of space reset (snd (snd (request_body space reset q m))) qs"

lemma request_in:
  assumes "reset_ok reset" and "buf_ok m" and "rq_index q < length (in_data m)"
    and "rq_op q (in_data m ! rq_index q) = Inr (v, new)"
  shows "fst (request_body space reset q m) = Returned v"
    and "in_data (snd (snd (request_body space reset q m))) = (in_data m)[rq_index q := new]"
    and "buf_ok (snd (snd (request_body space reset q m)))"
proof -
  obtain r l' m' where body: "request_body space reset q m = (r, l', m')"
    by (cases "request_body space reset q m")
  show "fst (request_body space reset q m) = Returned v"
    "in_data (snd (snd (request_body space reset q m))) = (in_data m)[rq_index q := new]"
    "buf_ok (snd (snd (request_body space reset q m)))"
    using access_body_in [OF assms(1-3) refl refl body [unfolded request_body_def]] assms(4) body by simp_all
qed

text \<open>A request that adds: the update \<^verbatim>\<open>atomic_add\<close> passes to \<^verbatim>\<open>atomic_rmw\<close>.\<close>

definition adds :: "nat \<Rightarrow> ('a :: monoid_add) \<Rightarrow> 'a request \<Rightarrow> bool" where
  "adds i v q \<longleftrightarrow> rq_index q = i \<and> rq_op q = op_combine (\<lambda>a b. Inr (a + b)) v"

text \<open>
  Atomic additions lose nothing. However many threads add to one element and in whatever order
  their additions run, each returns the value left by the ones before it and the element ends up with
  its initial value plus all of them; every other element is unchanged.
\<close>

theorem atomic_adds_accumulate:
  assumes "reset_ok reset" and "buf_ok m" and "i < length (in_data m)"
    and "list_all2 (adds i) vs qs"
  shows "in_data (buf_after space reset m qs) = (in_data m)[i := foldl (+) (in_data m ! i) vs]
    \<and> outcomes_of space reset m qs =
        map (\<lambda>k. Returned (foldl (+) (in_data m ! i) (take k vs))) [0..<length vs]"
  using assms(4,2,3)
proof (induction vs qs arbitrary: m rule: list_all2_induct)
  case Nil
  then show ?case by simp
next
  case (Cons v vs q qs)
  let ?x = "in_data m ! i" and ?m = "snd (snd (request_body space reset q m))"
  have q: "rq_index q = i" "rq_op q ?x = Inr (?x, ?x + v)" using Cons.hyps(1) by (simp_all add: adds_def op_combine_def)
  have step: "fst (request_body space reset q m) = Returned ?x" "in_data ?m = (in_data m)[i := ?x + v]" "buf_ok ?m"
    using request_in [OF assms(1) Cons.prems(1), of q ?x "?x + v"] q Cons.prems(2) by simp_all
  have IH: "in_data (buf_after space reset ?m qs) = (in_data ?m)[i := foldl (+) (in_data ?m ! i) vs]"
    "outcomes_of space reset ?m qs = map (\<lambda>k. Returned (foldl (+) (in_data ?m ! i) (take k vs))) [0..<length vs]"
    using Cons.IH [of ?m] step Cons.prems(2) by simp_all
  have at: "in_data ?m ! i = ?x + v" using step(2) Cons.prems(2) by simp
  have "map (\<lambda>k. Returned (foldl (+) ?x (take k (v # vs)))) [0..<length (v # vs)]
      = Returned ?x # map (\<lambda>k. Returned (foldl (+) (?x + v) (take k vs))) [0..<length vs]"
    by (simp add: upt_conv_Cons map_Suc_upt [symmetric] del: upt_Suc)
  then show ?case using IH step at by simp
qed

definition sample_add :: "nat \<Rightarrow> nat \<Rightarrow> nat request" where
  "sample_add slot v = \<lparr>rq_launch = sample_launch 2 1 [], rq_ctx = thread_ctx_of 1 0 slot, rq_index = 0,
     rq_kind = Atomic, rq_loc = Location ''k.rs'' 3 9, rq_ord = Some Relaxed,
     rq_op = op_combine (\<lambda>a b. Inr (a + b)) v\<rparr>"

theorem atomic_adds_accumulate_witness:
  "in_data (buf_after (Global ''sum'') global_reset (global_new [10]) [sample_add 0 3, sample_add 1 4]) = [17]"
proof -
  have "list_all2 (adds 0) [3, 4] [sample_add 0 3, sample_add 1 4]" by (simp add: adds_def sample_add_def)
  from atomic_adds_accumulate [OF resets_ok(1) fresh_buf_ok(1) _ this, of "[10]"]
  show ?thesis by (simp add: global_new_def)
qed

text \<open>A request that tries to take a lock: a compare-and-exchange from \<open>free\<close> to the caller's token.\<close>

definition tries :: "nat \<Rightarrow> 'a \<Rightarrow> 'a \<Rightarrow> 'a request \<Rightarrow> bool" where
  "tries i free token q \<longleftrightarrow> rq_index q = i \<and> rq_op q = op_cas (=) free token \<and> token \<noteq> free"

lemma tries_taken:
  assumes "reset_ok reset" and "buf_ok m" and "i < length (in_data m)" and "in_data m ! i \<noteq> free"
    and "list_all2 (tries i free) tokens qs"
  shows "in_data (buf_after space reset m qs) = in_data m
    \<and> outcomes_of space reset m qs = map (\<lambda>_. Returned (in_data m ! i)) tokens"
  using assms(5,2-4)
proof (induction tokens qs arbitrary: m rule: list_all2_induct)
  case (Cons t ts q qs)
  let ?x = "in_data m ! i" and ?m = "snd (snd (request_body space reset q m))"
  have q: "rq_index q = i" "rq_op q ?x = Inr (?x, ?x)"
    using Cons.hyps(1) Cons.prems(3) by (simp_all add: tries_def op_cas_def)
  have step: "fst (request_body space reset q m) = Returned ?x" "in_data ?m = in_data m" "buf_ok ?m"
    using request_in [OF assms(1) Cons.prems(1), of q ?x ?x] q Cons.prems(2) by simp_all
  then show ?case using Cons.IH [of ?m] Cons.prems by simp
qed simp

text \<open>
  C35: a compare-and-exchange has exactly one winner. When several threads try to exchange a free element
  for their own token, in any order, the first sees it free, every later one sees the first one's token
  and changes nothing.
\<close>

theorem compare_exchange_has_one_winner:
  assumes "reset_ok reset" and "buf_ok m" and "i < length (in_data m)" and "in_data m ! i = free"
    and "list_all2 (tries i free) (t # ts) qs"
  shows "in_data (buf_after space reset m qs) = (in_data m)[i := t]
    \<and> outcomes_of space reset m qs = Returned free # map (\<lambda>_. Returned t) ts"
proof -
  obtain q qs' where qs: "qs = q # qs'" and q: "tries i free t q" and rest: "list_all2 (tries i free) ts qs'"
    using assms(5) by (auto simp: list_all2_Cons1)
  let ?m = "snd (snd (request_body space reset q m))"
  have "rq_index q = i" "rq_op q free = Inr (free, t)" "t \<noteq> free"
    using q by (simp_all add: tries_def op_cas_def)
  then have step: "fst (request_body space reset q m) = Returned free" "in_data ?m = (in_data m)[i := t]"
    "buf_ok ?m" "in_data ?m ! i = t" "t \<noteq> free"
    using request_in [OF assms(1,2), of q free t] assms(3,4) by simp_all
  then show ?thesis using tries_taken [OF assms(1) step(3) _ _ rest, of space] assms(3) by (simp add: qs)
qed

definition sample_try :: "nat \<Rightarrow> nat \<Rightarrow> nat request" where
  "sample_try slot token = \<lparr>rq_launch = sample_launch 2 1 [], rq_ctx = thread_ctx_of 1 0 slot, rq_index = 0,
     rq_kind = Atomic, rq_loc = Location ''k.rs'' 3 9, rq_ord = Some AcqRel, rq_op = op_cas (=) 0 token\<rparr>"

theorem compare_exchange_has_one_winner_witness:
  "outcomes_of (Global ''lock'') global_reset (global_new [0]) [sample_try 1 2, sample_try 0 1]
     = [Returned 0, Returned 2]"
proof -
  have "list_all2 (tries 0 0) [2, 1] [sample_try 1 2, sample_try 0 1]" by (simp add: tries_def sample_try_def)
  from compare_exchange_has_one_winner [OF resets_ok(1) fresh_buf_ok(1) _ _ this, of "[0]"]
  show ?thesis by (simp add: global_new_def)
qed

section \<open>Launches do not race with each other\<close>

text \<open>
  History is per launch. The first access a launch makes to a buffer last used by another launch never
  names a conflict, whatever the old history was.
\<close>

theorem first_access_of_a_launch_is_clean:
  assumes "in_launch m \<noteq> ls_id l" and "i < length (in_shadow m)"
  shows "conflict_of c kind loc ord l (in_shadow (enter_launch global_reset (ls_id l) m) ! i) = None"
  using assms
  by (auto simp: conflict_of_def enter_launch_def global_reset_def on_access_def on_read_def on_write_def
      cell_default_def filter_option_def Let_def split: prod.split)

theorem first_access_of_a_launch_is_clean_witness:
  "conflict_of (thread_ctx_of 1 0 1) Write (Location ''k.rs'' 5 9) None (sample_launch 2 1 [])
     (in_shadow (enter_launch global_reset 1 (global_new [1 :: nat])) ! 0) = None"
proof -
  have "in_launch (global_new [1 :: nat]) \<noteq> ls_id (sample_launch 2 1 [])"
    by (simp add: global_new_def sample_launch_def)
  from first_access_of_a_launch_is_clean [OF this, of 0] show ?thesis
    by (simp add: global_new_def sample_launch_def)
qed

section \<open>Atomics and initialisation\<close>

definition load_request :: "launch_state \<Rightarrow> thread_ctx \<Rightarrow> location \<Rightarrow> mem_ordering \<Rightarrow> 'a request" where
  "load_request l c loc ord = \<lparr>rq_launch = l, rq_ctx = c, rq_index = 0, rq_kind = Atomic, rq_loc = loc,
     rq_ord = Some ord, rq_op = op_read\<rparr>"

text \<open>
  Atomics and uninitialised elements. An atomic store, which reads nothing, to an element that nothing
  has written is reported as a read of uninitialised memory; an atomic load of it, which writes nothing,
  makes it count as written, so the plain read after it is not reported.
\<close>

theorem atomics_confuse_initialisation:
  "(\<exists>acc. UninitRead space i acc \<in> set (findings_of space i c Atomic loc (Some ord) l cell_default))
   \<and> \<not> (\<exists>acc. UninitRead space 0 acc \<in> set (findings_of space 0 c' Read loc' None l'
        (in_shadow (enter_launch global_reset (ls_id l') (buf_after space global_reset
           (global_uninit d 1) [load_request l c loc ord])) ! 0)))"
proof (rule conjI)
  show "\<exists>acc. UninitRead space i acc \<in> set (findings_of space i c Atomic loc (Some ord) l cell_default)"
    by (simp add: conflict_no_uninit cell_default_def)
next
  let ?q = "load_request l c loc ord"
  let ?m = "buf_after space global_reset (global_uninit d 1) [?q]"
  have i: "0 < length (in_data (global_uninit d 1))" by (simp add: global_uninit_def)
  note after = buf_after_init [OF fresh_buf_ok(2) i, of space "[?q]"]
  have len: "0 < length (in_shadow ?m)" using after(2,3) i by (simp add: buf_ok_def)
  have "cell_init (in_shadow ?m ! 0)" using after(1) by (simp add: load_request_def)
  then have "cell_init (in_shadow (enter_launch global_reset (ls_id l') ?m) ! 0)"
    by (simp only: enter_global_init [OF len])
  then show "\<not> (\<exists>acc. UninitRead space 0 acc \<in> set (findings_of space 0 c' Read loc' None l'
        (in_shadow (enter_launch global_reset (ls_id l') ?m) ! 0)))"
    by (simp only: conflict_no_uninit) simp
qed

section \<open>Loads are not told apart from stores\<close>

lemma report_one [simp]: "rep_diags reporter_new = []" "rep_diags (reporter_push reporter_new d) = [d]"
  by (simp_all add: reporter_new_def reporter_push_def max_diagnostics_def)

lemmas run_eval = sample_launch_def op_eval sync_threads_enter_def sync_threads_leave_def schedule_point_def
  yield_now_def barrier_arrive_def barrier_depart_def sync_new_def thread_ctx_of_def launch_config_new_def
  ls_st_def access_body_def enter_launch_def global_reset_def global_new_def ctx_access_def tick_def
  epochs_def wave_block_def block_count_def warp_id_def warp_size_def clock_of_def warp_gen_index_def
  default_warp_size_def dim3_from_u32_def dim3_new_def op_read_def op_write_def ctx_report_def push_finding_def
  cell_eval

text \<open>
  An atomic load and a plain read of one element by threads of two blocks are reported as a data
  race although neither writes; two plain reads are not.
\<close>

theorem atomic_load_races_with_read:
  "findings_of space 0 (thread_ctx_of 1 0 1) Read (Location ''k.rs'' 5 9) None (sample_launch 2 1 [])
       (in_shadow (buf_after space global_reset (global_new [v])
          [load_request (sample_launch 2 1 []) (thread_ctx_of 1 0 0) (Location ''k.rs'' 3 9) Relaxed]) ! 0)
     = [DataRace space 0 (sample_access 0 0 0 0 1 Atomic\<lparr>acc_loc := Location ''k.rs'' 3 9\<rparr>)
          (sample_access 1 0 0 0 1 Read\<lparr>acc_loc := Location ''k.rs'' 5 9\<rparr>)]"
  by (simp add: findings_of_def conflict_of_def access_of_def load_request_def request_body_def
      acquired_def acquire_from_def acquire_def release_into_def release_def run_eval del: numeral_2_eq_2)

section \<open>A barrier that a fast thread has already reached again\<close>

text \<open>Two threads of a block, one buffer of one element; what a thread does between two waits.\<close>

datatype demo_act = Enter location | Leave | Point | Rd location | Wr location

fun demo_act_run ::
  "thread_ctx \<Rightarrow> demo_act \<Rightarrow> launch_state \<times> nat instrumented \<Rightarrow> launch_state \<times> nat instrumented" where
  "demo_act_run c (Enter loc) (l, m) = (fst (sync_threads_enter l c loc), m)"
| "demo_act_run c Leave (l, m) = (sync_threads_leave l c, m)"
| "demo_act_run c Point (l, m) = (fst (schedule_point l c), m)"
| "demo_act_run c (Rd loc) (l, m) =
     snd (access_body (Global ''x'') global_reset c 0 Read loc None op_read l m)"
| "demo_act_run c (Wr loc) (l, m) =
     snd (access_body (Global ''x'') global_reset c 0 Write loc None (op_write 7) l m)"

text \<open>The threads act one after the other; only the holder of the turn acts.\<close>

fun demo_run ::
  "(nat \<times> demo_act) list \<Rightarrow> launch_state \<times> nat instrumented \<Rightarrow> (launch_state \<times> nat instrumented) option" where
  "demo_run [] s = Some s"
| "demo_run ((slot, a) # as) s =
     (if turn_of (ls_st (fst s)) slot = Proceed
      then demo_run as (demo_act_run (thread_ctx_of 2 0 slot) a s) else None)"

definition demo_findings :: "(nat \<times> demo_act) list \<Rightarrow> u32 list \<Rightarrow> diagnostic list option" where
  "demo_findings as plan = map_option (\<lambda>s. rep_diags (w_rep (ls_world (fst s))))
     (demo_run as (sample_launch 1 2 plan, global_new [1]))"

text \<open>
  A barrier can order what it should not. Both threads of a block pass barrier A; one then writes an
  element and enters barrier B while the other has been released from A but has not run yet. The late
  thread then takes on the block's clock, which by now holds the write, and its own read of the element,
  unordered with that write, is not reported. Under the schedule in which the late thread leaves A
  first, the same two programs give a data race.
\<close>

theorem barrier_overtaken:
  "demo_findings
     [(0, Enter (Location ''k.rs'' 2 5)), (1, Enter (Location ''k.rs'' 2 5)), (1, Leave), (1, Point),
      (1, Wr (Location ''k.rs'' 4 9)), (1, Enter (Location ''k.rs'' 5 9)), (0, Leave), (0, Point),
      (0, Rd (Location ''k.rs'' 7 9))] [0, 1, 1, 1, 0, 0] = Some []
   \<and> demo_findings
     [(0, Enter (Location ''k.rs'' 2 5)), (1, Enter (Location ''k.rs'' 2 5)), (0, Leave), (0, Point),
      (1, Leave), (1, Point), (1, Wr (Location ''k.rs'' 4 9)), (1, Enter (Location ''k.rs'' 5 9)),
      (0, Rd (Location ''k.rs'' 7 9))] [0, 1, 0, 1, 1, 0] =
     Some [DataRace (Global ''x'') 0
       (sample_access 0 1 1 0 1 Write\<lparr>acc_loc := Location ''k.rs'' 4 9\<rparr>)
       (sample_access 0 0 1 0 1 Read\<lparr>acc_loc := Location ''k.rs'' 7 9\<rparr>)]"
  by (rule conjI; simp add: run_eval demo_findings_def del: numeral_2_eq_2)

end
