(* ===== verification/Warp.thy ===== *)
theory Warp
  imports Ctx
begin

text \<open>
  \<^verbatim>\<open>src/warp.rs\<close>: the collectives. Every one of them is a publication of a value in the exchange slots of
  the warp, a rendezvous of the lanes the mask names, a read of what the others published, and a second
  rendezvous. The parts between two waits are definitions of their own; \<open>collective\<close> puts them
  together, with what the rest of the launch does during the wait at each of its three waiting points
  as the argument \<open>resume\<close>.

  A slot holds a \<^verbatim>\<open>Box<dyn Any>\<close>. What such a box is belongs to the standard library: \<open>box\<close> puts a value of
  the caller's type into one and \<open>unbox\<close> is \<^verbatim>\<open>downcast_ref\<close> to that type; the locale \<open>any_box\<close> states the law
  the collectives rely on.
\<close>

section \<open>Boxes of any type\<close>

locale any_box =
  fixes box :: "'t \<Rightarrow> 'd"
    and unbox :: "'d \<Rightarrow> 't option"
  assumes unbox_box: "unbox (box v) = Some v"
begin

lemma box_eq: "box u = box v \<longleftrightarrow> u = v"
  by (metis option.inject unbox_box)

end

text \<open>Boxes over the types the collectives of the crate are used at.\<close>

datatype any_value = AnyUnit | AnyBool bool | AnyU32 u32

fun any_bool :: "any_value \<Rightarrow> bool option" where
  "any_bool (AnyBool b) = Some b"
| "any_bool _ = None"

fun any_u32 :: "any_value \<Rightarrow> u32 option" where
  "any_u32 (AnyU32 w) = Some w"
| "any_u32 _ = None"

interpretation bool_box: any_box AnyBool any_bool
  by unfold_locales simp

interpretation u32_box: any_box AnyU32 any_u32
  by unfold_locales simp

section \<open>Masks and slots\<close>

definition full_mask :: u32 where
  "full_mask = - 1"

text \<open>\<^verbatim>\<open>Lanes::get\<close>.\<close>

definition lanes_get :: "('d \<Rightarrow> 't option) \<Rightarrow> string \<Rightarrow> 'd option list \<Rightarrow> u32 \<Rightarrow> 't res" where
  "lanes_get unbox op slots lane =
     (case Option.bind (nth_option slots (unat lane)) (\<lambda>s. s) of
        None \<Rightarrow> Inl (AssertFailed (''riri: lane '' @ show_u32 lane @ '' published no value to `'' @ op @ ''`''))
      | Some slot \<Rightarrow>
          (case unbox slot of
             None \<Rightarrow> Inl (AssertFailed
               (''riri: `'' @ op @ ''` called with different value types on different lanes''))
           | Some v \<Rightarrow> Inr v))"

definition lane_error ::
  "launch_state \<Rightarrow> thread_ctx \<Rightarrow> string \<Rightarrow> location \<Rightarrow> u32 \<Rightarrow> lane_problem \<Rightarrow> diagnostic" where
  "lane_error l c op at msk problem =
     WarpLaneError (of_nat (block_linear c)) (warp_id l c) op at (lane_id l c) msk problem"

section \<open>A collective\<close>

text \<open>After the scheduling point: the two checks, the publication, and the arrival.\<close>

definition collective_arrive ::
  "launch_state \<Rightarrow> 'd option list \<Rightarrow> thread_ctx \<Rightarrow> u32 \<Rightarrow> string \<Rightarrow> location \<Rightarrow> 'd
     \<Rightarrow> launch_state \<times> 'd option list \<times> turn" where
  "collective_arrive l slots c msk op at value =
     (let lane = lane_id l c;
          valid = warp_valid_mask l c
      in if msk AND NOT valid \<noteq> 0
         then (ctx_trap (lane_error l c op at msk (MaskOutsideBlock valid)) l, slots, Unwind)
         else if \<not> has_lane msk (unat lane)
         then (ctx_trap (lane_error l c op at msk CallerNotInMask) l, slots, Unwind)
         else
           let slots1 = slots[unat lane := Some value]
           in case ctx_warp_rendezvous l c phase_arrive msk at op of (l1, t) \<Rightarrow> (l1, slots1, t))"

text \<open>After the release: the caller's reading of the slots, and the departure.\<close>

definition collective_depart ::
  "launch_state \<Rightarrow> 'd option list \<Rightarrow> thread_ctx \<Rightarrow> u32 \<Rightarrow> string \<Rightarrow> location
     \<Rightarrow> ('d option list \<Rightarrow> launch_state \<Rightarrow> 'r res \<times> launch_state)
     \<Rightarrow> 'r res \<times> launch_state \<times> turn" where
  "collective_depart l slots c msk op at combine =
     (case combine slots l of (r, l1) \<Rightarrow>
        (case r of
           Inl p \<Rightarrow> (Inl p, l1, Unwind)
         | Inr result \<Rightarrow>
             (case ctx_warp_rendezvous l1 c phase_depart msk at op of (l2, t) \<Rightarrow> (Inr result, l2, t))))"

text \<open>Waiting: the state when the thread holds the turn again, unless it unwinds.\<close>

definition await ::
  "(launch_state \<times> 'd option list \<Rightarrow> launch_state \<times> 'd option list) \<Rightarrow> turn
     \<Rightarrow> launch_state \<times> 'd option list \<Rightarrow> bool \<times> launch_state \<times> 'd option list" where
  "await resume t s =
     (case t of
        Proceed \<Rightarrow> (True, s)
      | Unwind \<Rightarrow> (False, s)
      | Block \<Rightarrow> let s1 = resume s in (\<not> st_aborted (ls_st (fst s1)), s1))"

datatype 'r collective_end = Done 'r | Failed panic | Stopped

definition collective ::
  "(nat \<Rightarrow> launch_state \<times> 'd option list \<Rightarrow> launch_state \<times> 'd option list)
     \<Rightarrow> thread_ctx \<Rightarrow> u32 \<Rightarrow> string \<Rightarrow> location \<Rightarrow> 'd
     \<Rightarrow> ('d option list \<Rightarrow> launch_state \<Rightarrow> 'r res \<times> launch_state)
     \<Rightarrow> launch_state \<times> 'd option list \<Rightarrow> 'r collective_end \<times> launch_state \<times> 'd option list" where
  "collective resume c msk op at value combine s =
     (case schedule_point (fst s) c of (l0, t0) \<Rightarrow>
      case await (resume 0) t0 (l0, snd s) of (go, l, slots) \<Rightarrow>
      if \<not> go then (Stopped, l, slots) else
      case collective_arrive l slots c msk op at value of (l1, slots1, t1) \<Rightarrow>
      case await (resume 1) t1 (l1, slots1) of (go1, l2, slots2) \<Rightarrow>
      if \<not> go1 then (Stopped, l2, slots2) else
      case collective_depart l2 slots2 c msk op at combine of (r, l3, t3) \<Rightarrow>
      case r of
        Inl p \<Rightarrow> (Failed p, l3, slots2)
      | Inr result \<Rightarrow>
          (case await (resume 2) t3 (l3, slots2) of (go2, l4, slots4) \<Rightarrow>
             (if go2 then Done result else Stopped, l4, slots4)))"

section \<open>Shuffles\<close>

definition shuffle_combine ::
  "('d \<Rightarrow> 't option) \<Rightarrow> thread_ctx \<Rightarrow> u32 \<Rightarrow> string \<Rightarrow> location \<Rightarrow> 't \<Rightarrow> u32 option
     \<Rightarrow> 'd option list \<Rightarrow> launch_state \<Rightarrow> 't res \<times> launch_state" where
  "shuffle_combine unbox c msk op at value src slots l =
     (case src of
        None \<Rightarrow> (Inr value, l)
      | Some s \<Rightarrow>
          if \<not> has_lane msk (unat s)
          then (Inr value, ctx_report (lane_error l c op at msk (SourceLaneNotInMask s)) l)
          else (lanes_get unbox op slots s, l))"

definition shuffle where
  "shuffle box unbox resume c msk op at value src =
     collective resume c msk op at (box value) (shuffle_combine unbox c msk op at value src)"

definition shfl_src :: "launch_state \<Rightarrow> thread_ctx \<Rightarrow> u32 \<Rightarrow> u32 option" where
  "shfl_src l c src_lane = Some (src_lane mod warp_size l)"

definition shfl_up_src :: "launch_state \<Rightarrow> thread_ctx \<Rightarrow> u32 \<Rightarrow> u32 option" where
  "shfl_up_src l c delta = (if delta \<le> lane_id l c then Some (lane_id l c - delta) else None)"

definition shfl_down_src :: "launch_state \<Rightarrow> thread_ctx \<Rightarrow> u32 \<Rightarrow> u32 option" where
  "shfl_down_src l c delta =
     (if unat (lane_id l c) + unat delta < 2 ^ 32
      then let s = lane_id l c + delta in if s < warp_size l then Some s else None
      else None)"

definition shfl_xor_src :: "launch_state \<Rightarrow> thread_ctx \<Rightarrow> u32 \<Rightarrow> u32 option" where
  "shfl_xor_src l c lane_mask =
     (let s = lane_id l c XOR lane_mask in if s < warp_size l then Some s else None)"

definition shfl_sync where
  "shfl_sync box unbox resume c msk value src_lane at s =
     shuffle box unbox resume c msk ''shfl_sync'' at value (shfl_src (fst s) c src_lane) s"

definition shfl_up_sync where
  "shfl_up_sync box unbox resume c msk value delta at s =
     shuffle box unbox resume c msk ''shfl_up_sync'' at value (shfl_up_src (fst s) c delta) s"

definition shfl_down_sync where
  "shfl_down_sync box unbox resume c msk value delta at s =
     shuffle box unbox resume c msk ''shfl_down_sync'' at value (shfl_down_src (fst s) c delta) s"

definition shfl_xor_sync where
  "shfl_xor_sync box unbox resume c msk value lane_mask at s =
     shuffle box unbox resume c msk ''shfl_xor_sync'' at value (shfl_xor_src (fst s) c lane_mask) s"

section \<open>Votes\<close>

fun ballot_fold :: "(u32 \<Rightarrow> bool res) \<Rightarrow> u32 \<Rightarrow> nat list \<Rightarrow> u32 \<Rightarrow> u32 res" where
  "ballot_fold get msk [] acc = Inr acc"
| "ballot_fold get msk (i # is) acc =
     (if has_lane msk i
      then res_bind (get (of_nat i)) (\<lambda>p. ballot_fold get msk is (if p then acc OR lane_bit i else acc))
      else ballot_fold get msk is acc)"

definition ballot_combine ::
  "('d \<Rightarrow> bool option) \<Rightarrow> string \<Rightarrow> u32 \<Rightarrow> 'd option list \<Rightarrow> launch_state \<Rightarrow> u32 res \<times> launch_state" where
  "ballot_combine unbox op msk slots l = (ballot_fold (lanes_get unbox op slots) msk [0..<32] 0, l)"

definition ballot where
  "ballot box unbox resume c msk pred op at =
     collective resume c msk op at (box pred) (ballot_combine unbox op msk)"

definition map_end :: "('a \<Rightarrow> 'b) \<Rightarrow> 'a collective_end \<Rightarrow> 'b collective_end" where
  "map_end f e = (case e of Done r \<Rightarrow> Done (f r) | Failed p \<Rightarrow> Failed p | Stopped \<Rightarrow> Stopped)"

definition ballot_sync where
  "ballot_sync box unbox resume c msk pred at s = ballot box unbox resume c msk pred ''ballot_sync'' at s"

definition any_sync where
  "any_sync box unbox resume c msk pred at s =
     (case ballot box unbox resume c msk pred ''any_sync'' at s of (e, r) \<Rightarrow> (map_end (\<lambda>b. b \<noteq> 0) e, r))"

definition all_sync where
  "all_sync box unbox resume c msk pred at s =
     (case ballot box unbox resume c msk pred ''all_sync'' at s of (e, r) \<Rightarrow> (map_end (\<lambda>b. b = msk) e, r))"

definition sync_warp where
  "sync_warp unit_box resume c msk at s =
     collective resume c msk ''sync_warp'' at unit_box (\<lambda>slots l. (Inr (), l)) s"

end
