(* ===== verification/Exchange_Lanes.thy ===== *)
theory Exchange_Lanes
  imports Warp Sched_Warp
begin

text \<open>
  Where the lanes of a wave are while they make collectives: the frame of every scheduler action, the
  coordinates a thread and the scheduler give one lane, and the order in which lanes arrive at and
  depart from a collective, kept by every step.
\<close>

section \<open>What an action leaves alone\<close>

text \<open>The statuses and waits of the other threads that are running or parked at a collective.\<close>

lemma quiet_action:
  assumes reach: "reachable_world cfg w" and run: "\<not> st_aborted (w_st w)"
    and turn: "st_current (w_st w) = Some me" and other: "\<forall>phase m at op. a \<noteq> ActWarp phase m at op"
    and w': "w' = sched_exec cfg w me a" and calm: "\<not> st_aborted (w_st w')"
    and j: "j < total_threads cfg" "j \<noteq> me" "st_status (w_st w) ! j \<in> {Runnable, AtWarp}"
  shows "st_status (w_st w') ! j = st_status (w_st w) ! j"
proof -
  note r = reachable_running [OF reach run turn] and ok = reachable_cfg [OF reach]
  have len: "length (st_status (w_st w)) = total_threads cfg" by (rule shape_lengths [OF r(5)])
  show ?thesis
  proof (cases a)
    case ActYield
    then show ?thesis by (simp add: w' yield_now_def)
  next
    case (ActBarrier loc)
    define s1 where "s1 = arrive_at_barrier me (block_of cfg me) loc (w_st w)"
    note eq = barrier_unfold [OF ok s1_def]
    have stat1: "st_status s1 ! j = st_status (w_st w) ! j" using j(2) by (simp add: s1_def)
    show ?thesis
    proof (cases "\<exists>i. block_of cfg i = block_of cfg me \<and> st_status s1 ! i = Finished")
      case True
      then have "st_aborted (w_st w')" by (simp add: w' ActBarrier eq barrier_divergence_def)
      then show ?thesis using calm by simp
    next
      case none: False
      let ?all = "\<forall>i. block_of cfg i = block_of cfg me \<longrightarrow> st_status s1 ! i = AtBarrier"
      have w1: "w' = fst (hand_off cfg (w\<lparr>w_st := (if ?all then release_barrier cfg (block_of cfg me) s1 else s1)\<rparr>) me)"
        unfolding w' ActBarrier sched_exec.simps eq if_not_P [OF none] ..
      show ?thesis
      proof (cases ?all)
        case True
        then have "block_of cfg j \<noteq> block_of cfg me" using stat1 j(3) by auto
        moreover have "length (st_status s1) = total_threads cfg" using len by (simp add: s1_def)
        ultimately have "st_status (release_barrier cfg (block_of cfg me) s1) ! j = st_status s1 ! j"
          using released_status [OF ok _ j(1)] by simp
        then show ?thesis using True stat1 by (simp add: w1 s1_def)
      next
        case False
        have "st_status (w_st w') = st_status s1" "st_warp_wait (w_st w') = st_warp_wait s1"
          unfolding w1 if_not_P [OF False] by simp_all
        then show ?thesis using stat1 by (simp add: s1_def)
      qed
    qed
  next
    case (ActWarp phase m at op)
    then show ?thesis using other by blast
  next
    case ActFinish
    define s1 where "s1 = (w_st w)\<lparr>st_status := (st_status (w_st w))[me := Finished]\<rparr>"
    have s1: "st_status s1 ! j = st_status (w_st w) ! j" "st_warp_wait s1 = st_warp_wait (w_st w)"
      using j(2) by (simp_all add: s1_def)
    show ?thesis
      using calm s1 unfolding w' ActFinish sched_exec.simps finish_unfold [OF s1_def]
      by (auto simp: barrier_divergence_def split: option.splits if_splits)
  next
    case (ActReport d)
    then show ?thesis by (simp add: w' push_finding_def)
  next
    case (ActTrap d)
    then show ?thesis by (simp add: w' abort_def push_finding_def)
  qed
qed

lemma quiet_waits:
  assumes "\<forall>phase m at op. a \<noteq> ActWarp phase m at op"
  shows "st_warp_wait (w_st (sched_exec cfg w me a)) = st_warp_wait (w_st w)"
proof (cases a)
  case (ActBarrier loc)
  then show ?thesis by (simp add: barrier_def barrier_divergence_def fail_def Let_def)
next
  case ActFinish
  then show ?thesis
    by (simp add: finish_def barrier_divergence_def fail_def Let_def split: option.split)
qed (use assms in \<open>simp_all add: yield_now_def abort_def push_finding_def\<close>)

text \<open>A rendezvous that does not abort: the whole team is released, or the caller parks.\<close>

definition rendezvous_done :: "sched_config \<Rightarrow> sched_state \<Rightarrow> sched_state \<Rightarrow> nat \<Rightarrow> warp_wait \<Rightarrow> bool" where
  "rendezvous_done cfg st st' me wt \<longleftrightarrow>
     (let team = (\<lambda>j. mates cfg me j \<and> has_lane (ww_mask wt) (lane_of cfg j))
      in (\<forall>j. team j \<and> j \<noteq> me \<longrightarrow> st_warp_wait st ! j = Some wt)
         \<and> (\<forall>j < total_threads cfg.
              st_status st' ! j = (if team j then Runnable else st_status st ! j)
              \<and> st_warp_wait st' ! j = (if team j then None else st_warp_wait st ! j))
       \<or> st_status st' = (st_status st)[me := AtWarp] \<and> st_warp_wait st' = (st_warp_wait st)[me := Some wt])"

lemma rendezvous_effect:
  assumes reach: "reachable_world cfg w" and run: "\<not> st_aborted (w_st w)"
    and turn: "st_current (w_st w) = Some me" and call: "call_ok cfg me msk"
    and w': "w' = fst (warp_rendezvous cfg w me phase msk loc op)" and calm: "\<not> st_aborted (w_st w')"
    and wt: "wt = \<lparr>ww_phase = phase, ww_mask = msk, ww_at = loc, ww_op = op\<rparr>"
  shows "rendezvous_done cfg (w_st w) (w_st w') me wt"
proof -
  define team where "team = (\<lambda>j. mates cfg me j \<and> has_lane msk (lane_of cfg j))"
  note out = rendezvous_branches [OF reach run turn call w' wt team_def refl]
  have gone: "\<not> (\<exists>j. team j \<and> st_status (w_st w) ! j = Finished)"
  proof
    assume g: "\<exists>j. team j \<and> st_status (w_st w) ! j = Finished"
    show False using out calm unfolding if_P [OF g] by simp
  qed
  note out1 = out [unfolded if_not_P [OF gone]]
  have agree: "\<not> (\<exists>j. disagrees cfg (w_st w) me wt j)"
  proof
    assume g: "\<exists>j. disagrees cfg (w_st w) me wt j"
    show False using out1 calm unfolding if_P [OF g] by simp
  qed
  note out2 = out1 [unfolded if_not_P [OF agree]]
  have msk: "(\<lambda>j. mates cfg me j \<and> has_lane (ww_mask wt) (lane_of cfg j)) = team" by (simp add: team_def wt)
  show ?thesis
  proof (cases "\<forall>j. team j \<and> j \<noteq> me \<longrightarrow> st_warp_wait (w_st w) ! j = Some wt")
    case True
    note out3 = out2 [unfolded if_P [OF True]]
    show ?thesis unfolding rendezvous_done_def msk Let_def using True out3 by blast
  next
    case False
    note out3 = out2 [unfolded if_not_P [OF False]]
    show ?thesis unfolding rendezvous_done_def msk Let_def using out3 by blast
  qed
qed

lemma rendezvous_doneE:
  assumes "rendezvous_done cfg st st' me wt" and "team = (\<lambda>j. mates cfg me j \<and> has_lane (ww_mask wt) (lane_of cfg j))"
  obtains (released) "\<And>j. team j \<Longrightarrow> j \<noteq> me \<Longrightarrow> st_warp_wait st ! j = Some wt"
      "\<And>j. j < total_threads cfg \<Longrightarrow> st_status st' ! j = (if team j then Runnable else st_status st ! j)"
      "\<And>j. j < total_threads cfg \<Longrightarrow> st_warp_wait st' ! j = (if team j then None else st_warp_wait st ! j)"
  | (parked) "st_status st' = (st_status st)[me := AtWarp]" "st_warp_wait st' = (st_warp_wait st)[me := Some wt]"
  using assms(1) unfolding rendezvous_done_def assms(2) [symmetric] Let_def by blast

section \<open>A wave and its coordinates\<close>

text \<open>The state of a launch while it runs the wave of \<open>n\<close> blocks that starts at block \<open>first\<close>.\<close>

definition in_wave :: "launch_plan \<Rightarrow> nat \<Rightarrow> nat \<Rightarrow> launch_state \<Rightarrow> bool" where
  "in_wave p first n l \<longleftrightarrow> plan_ok p \<and> 0 < n \<and> first + n \<le> lp_blocks p \<and> ls_sched l = wave_sched p n
     \<and> cfg_ok (wave_sched p n) \<and> unat (lc_warp_size (ls_config l)) = lp_warp_size p"

abbreviation ctx_of :: "launch_plan \<Rightarrow> nat \<Rightarrow> nat \<Rightarrow> thread_ctx" where
  "ctx_of p first me \<equiv> thread_ctx_of (lp_tpb p) first me"

lemma wave_sched_fields [simp]:
  "sc_tpb (wave_sched p n) = lp_tpb p" "sc_warp_size (wave_sched p n) = lp_warp_size p"
  "sc_blocks (wave_sched p n) = n" "total_threads (wave_sched p n) = n * lp_tpb p"
  by (simp_all add: wave_sched_def sched_config_of_def total_threads_def)

lemma wave_coords:
  assumes wave: "in_wave p first n l" and me: "me < n * lp_tpb p" and cfg: "cfg = wave_sched p n"
  shows "unat (lane_id l (ctx_of p first me)) = lane_of cfg me"
    and "unat (warp_id l (ctx_of p first me)) = warp_of cfg me"
    and "block_linear (ctx_of p first me) = first + block_of cfg me"
    and "tc_slot (ctx_of p first me) = me"
    and "warp_valid_mask l (ctx_of p first me) = valid_mask cfg (warp_of cfg me)"
    and "lane_of cfg me < lp_warp_size p"
proof -
  have p: "plan_ok p" and f: "first + n \<le> lp_blocks p" and ws: "unat (lc_warp_size (ls_config l)) = lp_warp_size p"
    and pos: "0 < lp_warp_size p"
    using wave by (auto simp: in_wave_def plan_ok_def)
  note v = thread_ctx_values [OF p f me]
  show lane: "unat (lane_id l (ctx_of p first me)) = lane_of cfg me"
    by (simp add: lane_id_def warp_size_def unat_mod v(2) ws cfg lane_of_def)
  show warp: "unat (warp_id l (ctx_of p first me)) = warp_of cfg me"
    by (simp add: warp_id_def warp_size_def unat_div v(2) ws cfg warp_of_def)
  show "block_linear (ctx_of p first me) = first + block_of cfg me"
    by (simp add: block_linear_def v(1) cfg block_of_def)
  show "tc_slot (ctx_of p first me) = me" by (simp add: thread_ctx_of_def Let_def)
  show "warp_valid_mask l (ctx_of p first me) = valid_mask cfg (warp_of cfg me)"
    using wave by (simp add: warp_valid_mask_def warp in_wave_def cfg)
  show "lane_of cfg me < lp_warp_size p" using pos by (simp add: cfg lane_of_def)
qed

text \<open>Which slot a thread owns: the warp's list of slots, and the lane in it.\<close>

definition slots_of :: "launch_plan \<Rightarrow> nat \<Rightarrow> nat \<Rightarrow> nat \<Rightarrow> nat" where
  "slots_of p first n me = (first + block_of (wave_sched p n) me) * lp_warps_per_block p + warp_of (wave_sched p n) me"

lemma warp_slots_index_eq:
  assumes "in_wave p first n l" and "me < n * lp_tpb p"
  shows "warp_slots_index (lp_warps_per_block p) l (ctx_of p first me) = slots_of p first n me"
  using wave_coords(2,3) [OF assms refl] by (simp add: warp_slots_index_def slots_of_def block_linear_def)

lemma slots_of_mates:
  assumes ok: "cfg_ok (wave_sched p n)" and k: "lp_warps_per_block p = div_ceil (lp_tpb p) (lp_warp_size p)"
  shows "slots_of p first n i = slots_of p first n j \<longleftrightarrow> mates (wave_sched p n) i j"
proof -
  let ?c = "wave_sched p n" and ?k = "lp_warps_per_block p"
  have "warp_of ?c x < ?k" for x
    using warp_of_less [OF ok, of x] k by (simp add: wave_sched_def sched_config_of_def)
  then have "slots_of p first n x div ?k = first + block_of ?c x \<and> slots_of p first n x mod ?k = warp_of ?c x" for x
    using div_mod_block [of ?k "warp_of ?c x" "first + block_of ?c x"]
    by (metis slots_of_def bot_nat_0.not_eq_extremum not_less_zero)
  then show ?thesis unfolding mates_def by (metis add_left_cancel slots_of_def)
qed

section \<open>Threads in the middle of a collective\<close>

text \<open>Where a thread is: outside, published and arrived, or read and departed.\<close>

datatype 'd lane_pc = Idle | Arrived u32 location string 'd | Departed u32 location string 'd

definition wait_at :: "u8 \<Rightarrow> u32 \<Rightarrow> location \<Rightarrow> string \<Rightarrow> warp_wait" where
  "wait_at phase m at op = \<lparr>ww_phase = phase, ww_mask = m, ww_at = at, ww_op = op\<rparr>"

lemma wait_at_inject [simp]:
  "wait_at ph m at op = wait_at ph' m' at' op' \<longleftrightarrow> ph = ph' \<and> m = m' \<and> at = at' \<and> op = op'"
  by (auto simp: wait_at_def)

lemma phases_differ [simp]: "phase_arrive \<noteq> phase_depart" "phase_depart \<noteq> phase_arrive"
  by (simp_all add: phase_arrive_def phase_depart_def)

text \<open>A lane that a reader may still read: released and not yet departed, or waiting for the reader to depart.\<close>

definition together ::
  "sched_state \<Rightarrow> (nat \<Rightarrow> 'd lane_pc) \<Rightarrow> u32 \<Rightarrow> location \<Rightarrow> string \<Rightarrow> nat \<Rightarrow> bool" where
  "together st pc m at op j \<longleftrightarrow>
     (\<exists>v. pc j = Arrived m at op v \<and> st_status st ! j = Runnable
        \<or> pc j = Departed m at op v \<and> st_warp_wait st ! j = Some (wait_at phase_depart m at op))"

definition lane_ok :: "sched_config \<Rightarrow> sched_state \<Rightarrow> (nat \<Rightarrow> 'd lane_pc) \<Rightarrow> nat \<Rightarrow> bool" where
  "lane_ok cfg st pc i \<longleftrightarrow>
     (case pc i of
        Idle \<Rightarrow> st_warp_wait st ! i = None
      | Arrived m at op v \<Rightarrow> call_ok cfg i m
          \<and> (st_warp_wait st ! i = Some (wait_at phase_arrive m at op)
             \<or> st_status st ! i = Runnable
               \<and> (\<forall>j. mates cfg i j \<and> has_lane m (lane_of cfg j) \<longrightarrow> together st pc m at op j))
      | Departed m at op v \<Rightarrow>
          st_warp_wait st ! i = Some (wait_at phase_depart m at op) \<or> st_status st ! i = Runnable)"

definition pcs_ok :: "sched_config \<Rightarrow> sched_state \<Rightarrow> (nat \<Rightarrow> 'd lane_pc) \<Rightarrow> bool" where
  "pcs_ok cfg st pc \<longleftrightarrow> (\<forall>i < total_threads cfg. lane_ok cfg st pc i)"

lemma lane_okI:
  assumes "pc i = Idle \<Longrightarrow> st_warp_wait st ! i = None"
    and "\<And>m at op v. pc i = Arrived m at op v \<Longrightarrow> call_ok cfg i m
      \<and> (st_warp_wait st ! i = Some (wait_at phase_arrive m at op)
         \<or> st_status st ! i = Runnable
           \<and> (\<forall>j. mates cfg i j \<and> has_lane m (lane_of cfg j) \<longrightarrow> together st pc m at op j))"
    and "\<And>m at op v. pc i = Departed m at op v \<Longrightarrow>
      st_warp_wait st ! i = Some (wait_at phase_depart m at op) \<or> st_status st ! i = Runnable"
  shows "lane_ok cfg st pc i"
  using assms by (cases "pc i") (simp_all add: lane_ok_def)

text \<open>A parked lane is where its wait says it is.\<close>

lemma parked_pc:
  assumes "lane_ok cfg st pc j" and "st_warp_wait st ! j = Some (wait_at ph m at op)"
    and "st_status st ! j \<noteq> Runnable"
  shows "ph = phase_arrive \<and> (\<exists>v. pc j = Arrived m at op v) \<or> ph = phase_depart \<and> (\<exists>v. pc j = Departed m at op v)"
  using assms by (cases "pc j") (auto simp: lane_ok_def)

text \<open>Another thread's lane survives a change that leaves it and its team alone.\<close>

lemma lane_ok_frame:
  assumes "lane_ok cfg st pc i" and "pc' i = pc i"
    and "st_warp_wait st' ! i = st_warp_wait st ! i \<or> (\<exists>m at op v. pc i = Departed m at op v) \<and> st_status st' ! i = Runnable"
    and "st_status st ! i = Runnable \<Longrightarrow> st_status st' ! i = Runnable"
    and "\<And>m at op v j. pc i = Arrived m at op v \<Longrightarrow> st_status st ! i = Runnable \<Longrightarrow> mates cfg i j
      \<Longrightarrow> has_lane m (lane_of cfg j) \<Longrightarrow> together st pc m at op j \<Longrightarrow> together st' pc' m at op j"
  shows "lane_ok cfg st' pc' i"
proof (cases "pc i")
  case Idle
  then show ?thesis using assms(1-3) by (auto simp: lane_ok_def)
next
  case (Arrived m at op v)
  then have i: "call_ok cfg i m" and alt: "st_warp_wait st ! i = Some (wait_at phase_arrive m at op)
      \<or> st_status st ! i = Runnable
        \<and> (\<forall>j. mates cfg i j \<and> has_lane m (lane_of cfg j) \<longrightarrow> together st pc m at op j)"
    using assms(1) by (auto simp: lane_ok_def)
  have "st_warp_wait st' ! i = st_warp_wait st ! i" using assms(3) Arrived by auto
  then show ?thesis using alt i assms(2,4,5) Arrived by (auto simp: lane_ok_def)
next
  case (Departed m at op v)
  then show ?thesis using assms(1-4) by (auto simp: lane_ok_def)
qed

section \<open>Every step keeps the lanes in order\<close>

lemma pcs_quiet:
  assumes ok: "cfg_ok cfg" and inv: "pcs_ok cfg st pc" and idle: "pc me = Idle"
    and wait: "st_warp_wait st' = st_warp_wait st"
    and stat: "\<And>j. j < total_threads cfg \<Longrightarrow> j \<noteq> me \<Longrightarrow> st_status st ! j = Runnable \<Longrightarrow> st_status st' ! j = Runnable"
  shows "pcs_ok cfg st' pc"
  unfolding pcs_ok_def
proof (intro allI impI)
  fix i
  assume i: "i < total_threads cfg"
  then have old: "lane_ok cfg st pc i" using inv by (simp add: pcs_ok_def)
  show "lane_ok cfg st' pc i"
  proof (cases "i = me")
    case True
    then show ?thesis using old idle wait by (simp add: lane_ok_def)
  next
    case False
    show ?thesis
    proof (rule lane_ok_frame [where pc' = pc, OF old refl])
      fix m at op v j
      assume "mates cfg i j" and t: "together st pc m at op j"
      then have "j < total_threads cfg" using mates_less [OF ok _ i] by blast
      moreover have "j \<noteq> me" using t idle by (auto simp: together_def)
      ultimately show "together st' pc m at op j" using t wait stat by (auto simp: together_def)
    qed (use wait stat i False in auto)
  qed
qed

text \<open>A runnable thread waits for nothing.\<close>

lemma runnable_free: "waits_ok cfg st \<Longrightarrow> j < total_threads cfg \<Longrightarrow> st_status st ! j = Runnable \<Longrightarrow> st_warp_wait st ! j = None"
  by (cases "st_warp_wait st ! j") (auto simp: waits_ok_def)

lemma waiting_parked:
  "waits_ok cfg st \<Longrightarrow> j < total_threads cfg \<Longrightarrow> st_warp_wait st ! j = Some wt \<Longrightarrow> st_status st ! j = AtWarp"
  by (simp add: waits_ok_def)

lemma pcs_arrive:
  assumes ok: "cfg_ok cfg" and shape: "shape_ok cfg st" and waits: "waits_ok cfg st" and inv: "pcs_ok cfg st pc"
    and me: "me < total_threads cfg" and idle: "pc me = Idle" and call: "call_ok cfg me m"
    and met: "rendezvous_done cfg st st' me (wait_at phase_arrive m at op)"
    and pc': "pc' = pc(me := Arrived m at op v)"
  shows "pcs_ok cfg st' pc'"
  unfolding pcs_ok_def
proof (intro allI impI)
  fix i
  assume i: "i < total_threads cfg"
  define T where "T = (\<lambda>j. mates cfg me j \<and> has_lane (ww_mask (wait_at phase_arrive m at op)) (lane_of cfg j))"
  have T: "T j \<longleftrightarrow> mates cfg me j \<and> has_lane m (lane_of cfg j)" for j by (simp add: T_def wait_at_def)
  have lanes: "lane_ok cfg st pc j" if "j < total_threads cfg" for j using inv that by (simp add: pcs_ok_def)
  have Tless: "j < total_threads cfg" if "T j" for j using that mates_less [OF ok _ me] T by blast
  have Tme: "T me" using call by (simp add: T call_ok_def)
  from met T_def show "lane_ok cfg st' pc' i"
  proof (cases rule: rendezvous_doneE)
    case released
    have here: "\<exists>u. pc' j = Arrived m at op u \<and> (j \<noteq> me \<longrightarrow> pc j = pc' j)" if "T j" for j
    proof (cases "j = me")
      case False
      then have w: "st_warp_wait st ! j = Some (wait_at phase_arrive m at op)" using released(1) that by blast
      then have "st_status st ! j = AtWarp" using waiting_parked [OF waits Tless [OF that]] by blast
      then show ?thesis using parked_pc [OF lanes [OF Tless [OF that]] w] False pc' by auto
    qed (simp add: pc')
    show ?thesis
    proof (cases "T i")
      case True
      then obtain u where u: "pc' i = Arrived m at op u" "i \<noteq> me \<longrightarrow> pc i = pc' i" using here by blast
      have "call_ok cfg i m" using u call lanes [OF i] by (cases "i = me") (auto simp: lane_ok_def)
      moreover have "together st' pc' m at op j" if "mates cfg i j" "has_lane m (lane_of cfg j)" for j
      proof -
        have "T j" using that True T mates_trans by blast
        then show ?thesis using here [of j] released(2) [OF Tless] by (auto simp: together_def)
      qed
      ultimately show ?thesis using u released(2) [OF i] True by (auto simp: lane_ok_def)
    next
      case False
      then have ime: "i \<noteq> me" using Tme by blast
      show ?thesis
      proof (rule lane_ok_frame [OF lanes [OF i]])
        fix m' at' op' u j
        assume "mates cfg i j" and t: "together st pc m' at' op' j"
        then have jl: "j < total_threads cfg" using mates_less [OF ok _ i] by blast
        have "j \<noteq> me" using t idle by (auto simp: together_def)
        moreover have "\<not> T j"
        proof
          assume Tj: "T j"
          then have w: "st_warp_wait st ! j = Some (wait_at phase_arrive m at op)" using released(1) \<open>j \<noteq> me\<close> by blast
          then have "st_status st ! j = AtWarp" using waiting_parked [OF waits jl] by blast
          then show False using t w by (auto simp: together_def)
        qed
        ultimately show "together st' pc' m' at' op' j"
          using t released(2,3) [OF jl] pc' by (auto simp: together_def)
      qed (use released(2,3) [OF i] False ime pc' in auto)
    qed
  next
    case parked
    have len: "length (st_status st) = total_threads cfg" "length (st_warp_wait st) = total_threads cfg"
      using shape by (auto simp: shape_ok_def)
    show ?thesis
    proof (cases "i = me")
      case True
      then show ?thesis using parked len me call by (simp add: lane_ok_def pc')
    next
      case False
      show ?thesis
      proof (rule lane_ok_frame [OF lanes [OF i]])
        fix m' at' op' u j
        assume t: "together st pc m' at' op' j"
        then have "j \<noteq> me" using idle by (auto simp: together_def)
        then show "together st' pc' m' at' op' j" using t parked pc' by (auto simp: together_def)
      qed (use parked False pc' in auto)
    qed
  qed
qed

lemma pcs_depart:
  assumes ok: "cfg_ok cfg" and shape: "shape_ok cfg st" and waits: "waits_ok cfg st" and inv: "pcs_ok cfg st pc"
    and me: "me < total_threads cfg" and run: "st_status st ! me = Runnable" and at: "pc me = Arrived m at op v"
    and met: "rendezvous_done cfg st st' me (wait_at phase_depart m at op)"
    and pc': "pc' = pc(me := Departed m at op v)"
  shows "pcs_ok cfg st' pc'"
  unfolding pcs_ok_def
proof (intro allI impI)
  fix i
  assume i: "i < total_threads cfg"
  define T where "T = (\<lambda>j. mates cfg me j \<and> has_lane (ww_mask (wait_at phase_depart m at op)) (lane_of cfg j))"
  have T: "T j \<longleftrightarrow> mates cfg me j \<and> has_lane m (lane_of cfg j)" for j by (simp add: T_def wait_at_def)
  have lanes: "lane_ok cfg st pc j" if "j < total_threads cfg" for j using inv that by (simp add: pcs_ok_def)
  have Tless: "j < total_threads cfg" if "T j" for j using that mates_less [OF ok _ me] T by blast
  have free: "st_warp_wait st ! me = None" by (rule runnable_free [OF waits me run])
  have Tme: "T me" using lanes [OF me] at by (simp add: T call_ok_def lane_ok_def)
  text \<open>A reader whose team overlaps this one is in this team.\<close>
  have overlap: "T k" if "pc k = Arrived m at op u" "mates cfg k j" "T j" "k < total_threads cfg" for k j u
  proof -
    have "call_ok cfg k m" using lanes [OF that(4)] that(1) by (simp add: lane_ok_def)
    then show ?thesis using that(2,3) T mates_trans mates_sym by (metis call_ok_def)
  qed
  from met T_def show "lane_ok cfg st' pc' i"
  proof (cases rule: rendezvous_doneE)
    case released
    have gone: "\<exists>u. pc j = Departed m at op u" if "T j" "j \<noteq> me" for j
    proof -
      have w: "st_warp_wait st ! j = Some (wait_at phase_depart m at op)" using released(1) that by blast
      then have "st_status st ! j = AtWarp" using waiting_parked [OF waits Tless [OF that(1)]] by blast
      then show ?thesis using parked_pc [OF lanes [OF Tless [OF that(1)]] w] by auto
    qed
    show ?thesis
    proof (cases "T i")
      case True
      then obtain u where "pc' i = Departed m at op u" using gone [of i] pc' by (cases "i = me") auto
      then show ?thesis using released(2) [OF i] True by (simp add: lane_ok_def)
    next
      case False
      then have ime: "i \<noteq> me" using Tme by blast
      show ?thesis
      proof (rule lane_ok_frame [OF lanes [OF i]])
        fix m' at' op' u j
        assume pci: "pc i = Arrived m' at' op' u" and mt: "mates cfg i j" and t: "together st pc m' at' op' j"
        then have jl: "j < total_threads cfg" using mates_less [OF ok _ i] by blast
        have "\<not> T j"
        proof
          assume Tj: "T j"
          have "m' = m \<and> at' = at \<and> op' = op"
            using t at gone [OF Tj] by (cases "j = me") (auto simp: together_def)
          then show False using overlap [of i u j] pci mt Tj i False by simp
        qed
        then show "together st' pc' m' at' op' j"
          using t released(2,3) [OF jl] pc' Tme by (auto simp: together_def)
      qed (use released(2,3) [OF i] False ime pc' in auto)
    qed
  next
    case parked
    have len: "length (st_status st) = total_threads cfg" "length (st_warp_wait st) = total_threads cfg"
      using shape by (auto simp: shape_ok_def)
    show ?thesis
    proof (cases "i = me")
      case True
      then show ?thesis using parked len me by (simp add: lane_ok_def pc')
    next
      case False
      show ?thesis
      proof (rule lane_ok_frame [OF lanes [OF i]])
        fix m' at' op' u j
        assume t: "together st pc m' at' op' j"
        show "together st' pc' m' at' op' j"
        proof (cases "j = me")
          case True
          then have "m' = m \<and> at' = at \<and> op' = op" using t at by (auto simp: together_def)
          then show ?thesis using True parked len me by (simp add: together_def pc')
        next
          case False
          then show ?thesis using t parked pc' by (auto simp: together_def)
        qed
      qed (use parked False pc' in auto)
    qed
  qed
qed

lemma pcs_leave:
  assumes ok: "cfg_ok cfg" and waits: "waits_ok cfg st" and inv: "pcs_ok cfg st pc"
    and me: "me < total_threads cfg" and run: "st_status st ! me = Runnable" and at: "pc me = Departed m at op v"
  shows "pcs_ok cfg st (pc(me := Idle))"
  unfolding pcs_ok_def
proof (intro allI impI)
  fix i
  assume i: "i < total_threads cfg"
  then have old: "lane_ok cfg st pc i" using inv by (simp add: pcs_ok_def)
  have free: "st_warp_wait st ! me = None" by (rule runnable_free [OF waits me run])
  show "lane_ok cfg st (pc(me := Idle)) i"
  proof (cases "i = me")
    case True
    then show ?thesis using free by (simp add: lane_ok_def)
  next
    case False
    show ?thesis
    proof (rule lane_ok_frame [OF old])
      fix m' at' op' u j
      assume t: "together st pc m' at' op' j"
      then have "j \<noteq> me" using at free by (auto simp: together_def)
      then show "together st (pc(me := Idle)) m' at' op' j" using t by (auto simp: together_def)
    qed (use False in auto)
  qed
qed

end
