(* ===== verification/Exchange.thy ===== *)
theory Exchange
  imports Exchange_Lanes
begin

text \<open>
  What the two rendezvous of a collective are for. The threads of a wave, with the exchange slots of
  their warps, make collectives and anything else in any order the scheduler allows; whoever reads a
  slot reads what its owner published in the very same collective, even when warps loop over
  collectives and other groups of lanes are in the middle of their own.
\<close>

section \<open>The threads of a wave and their slots\<close>

record 'd exchange =
  xc_launch :: launch_state
  xc_slots :: "'d option list list"
  xc_pc :: "nat \<Rightarrow> 'd lane_pc"

definition holds_turn :: "launch_state \<Rightarrow> nat \<Rightarrow> bool" where
  "holds_turn l me \<longleftrightarrow> \<not> st_aborted (ls_st l) \<and> st_current (ls_st l) = Some me"

definition slot_at :: "launch_plan \<Rightarrow> nat \<Rightarrow> nat \<Rightarrow> 'd option list list \<Rightarrow> nat \<Rightarrow> 'd option" where
  "slot_at p first n slots i = slots ! slots_of p first n i ! lane_of (wave_sched p n) i"

text \<open>
  One step of the thread that holds the turn: anything but a collective, the first half of a collective,
  its second half (with the findings \<open>ds\<close> the combine function reports), or its return. A combine
  function that panics, or a trap, ends the launch.
\<close>

inductive exchange_step :: "launch_plan \<Rightarrow> nat \<Rightarrow> nat \<Rightarrow> 'd exchange \<Rightarrow> 'd exchange \<Rightarrow> bool" for p first n where
  other: "holds_turn (xc_launch x) me \<Longrightarrow> xc_pc x me = Idle \<or> (\<exists>d. a = ActTrap d)
     \<Longrightarrow> \<forall>phase m at op. a \<noteq> ActWarp phase m at op
     \<Longrightarrow> ls_world l' = sched_exec (ls_sched (xc_launch x)) (ls_world (xc_launch x)) me a
     \<Longrightarrow> ls_sched l' = ls_sched (xc_launch x) \<Longrightarrow> ls_config l' = ls_config (xc_launch x)
     \<Longrightarrow> exchange_step p first n x (x\<lparr>xc_launch := l'\<rparr>)"
| arrive: "holds_turn (xc_launch x) me \<Longrightarrow> xc_pc x me = Idle
     \<Longrightarrow> i = warp_slots_index (lp_warps_per_block p) (xc_launch x) (ctx_of p first me)
     \<Longrightarrow> collective_arrive (xc_launch x) (xc_slots x ! i) (ctx_of p first me) m op at v = (l', sl, t)
     \<Longrightarrow> exchange_step p first n x
           \<lparr>xc_launch = l', xc_slots = (xc_slots x)[i := sl], xc_pc = (xc_pc x)(me := Arrived m at op v)\<rparr>"
| depart: "holds_turn (xc_launch x) me \<Longrightarrow> xc_pc x me = Arrived m at op v
     \<Longrightarrow> ctx_warp_rendezvous (foldl (\<lambda>l d. ctx_report d l) (xc_launch x) ds) (ctx_of p first me)
           phase_depart m at op = (l', t)
     \<Longrightarrow> exchange_step p first n x
           (x\<lparr>xc_launch := l', xc_pc := (xc_pc x)(me := Departed m at op v)\<rparr>)"
| leave: "holds_turn (xc_launch x) me \<Longrightarrow> xc_pc x me = Departed m at op v
     \<Longrightarrow> exchange_step p first n x (x\<lparr>xc_pc := (xc_pc x)(me := Idle)\<rparr>)"

inductive_cases exchange_stepE: "exchange_step p first n x x'"

definition slots_shape :: "launch_plan \<Rightarrow> 'd option list list \<Rightarrow> bool" where
  "slots_shape p slots \<longleftrightarrow> length slots = lp_blocks p * lp_warps_per_block p
     \<and> (\<forall>sl \<in> set slots. length sl = lp_warp_size p)"

definition exchange_init :: "launch_plan \<Rightarrow> nat \<Rightarrow> nat \<Rightarrow> 'd exchange \<Rightarrow> bool" where
  "exchange_init p first n x \<longleftrightarrow> in_wave p first n (xc_launch x)
     \<and> initial_world (wave_sched p n) (ls_world (xc_launch x))
     \<and> slots_shape p (xc_slots x) \<and> xc_pc x = (\<lambda>_. Idle)"

definition published :: "launch_plan \<Rightarrow> nat \<Rightarrow> nat \<Rightarrow> 'd exchange \<Rightarrow> nat \<Rightarrow> bool" where
  "published p first n x i \<longleftrightarrow>
     (\<forall>m at op v. xc_pc x i = Arrived m at op v \<or> xc_pc x i = Departed m at op v
        \<longrightarrow> slot_at p first n (xc_slots x) i = Some v)"

definition exchange_ok :: "launch_plan \<Rightarrow> nat \<Rightarrow> nat \<Rightarrow> 'd exchange \<Rightarrow> bool" where
  "exchange_ok p first n x \<longleftrightarrow>
     in_wave p first n (xc_launch x) \<and> reachable_world (wave_sched p n) (ls_world (xc_launch x))
     \<and> slots_shape p (xc_slots x)
     \<and> (\<not> st_aborted (ls_st (xc_launch x)) \<longrightarrow>
          pcs_ok (wave_sched p n) (ls_st (xc_launch x)) (xc_pc x)
          \<and> (\<forall>i < n * lp_tpb p. published p first n x i))"

lemma exchange_init_ok:
  assumes "exchange_init p first n x"
  shows "exchange_ok p first n x"
proof -
  let ?w = "ls_world (xc_launch x)" and ?c = "wave_sched p n"
  have cfg: "cfg_ok ?c" and init: "initial_world ?c ?w" using assms by (auto simp: exchange_init_def in_wave_def)
  then obtain ch where "w_st ?w = sched_init ?c ch" by (auto simp: initial_world_def)
  then have "st_warp_wait (ls_st (xc_launch x)) ! i = None" if "i < total_threads ?c" for i
    using that by (simp add: ls_st_def sched_init_def Let_def)
  moreover have "reachable_world ?c ?w" using cfg init by (auto simp: reachable_world_def)
  ultimately show ?thesis
    using assms by (auto simp: exchange_ok_def exchange_init_def pcs_ok_def lane_ok_def published_def)
qed

lemma reports_world:
  "ls_sched (foldl (\<lambda>l d. ctx_report d l) l ds) = ls_sched l"
  "ls_config (foldl (\<lambda>l d. ctx_report d l) l ds) = ls_config l"
  "w_st (ls_world (foldl (\<lambda>l d. ctx_report d l) l ds)) = w_st (ls_world l)"
  by (induction ds arbitrary: l) simp_all

lemma reports_reachable:
  assumes "reachable_world (ls_sched l) (ls_world l)" and "holds_turn l me"
  shows "reachable_world (ls_sched l) (ls_world (foldl (\<lambda>l d. ctx_report d l) l ds))"
  using assms
proof (induction ds arbitrary: l)
  case (Cons d ds)
  have run: "\<not> st_aborted (w_st (ls_world l))" "st_current (w_st (ls_world l)) = Some me"
    using Cons.prems(2) by (simp_all add: holds_turn_def ls_st_def)
  have "act_ok (ls_sched l) me (ActReport d)" by simp
  from reachable_act [OF Cons.prems(1) run this]
  have "reachable_world (ls_sched (ctx_report d l)) (ls_world (ctx_report d l))" by (simp add: ctx_report_def)
  moreover have "holds_turn (ctx_report d l) me" using Cons.prems(2) by (simp add: holds_turn_def ls_st_def)
  ultimately show ?case using Cons.IH [of "ctx_report d l"] by simp
qed simp

lemma slots_of_less:
  assumes wave: "in_wave p first n l" and i: "i < n * lp_tpb p"
  shows "slots_of p first n i < lp_blocks p * lp_warps_per_block p"
proof -
  let ?c = "wave_sched p n"
  have ok: "cfg_ok ?c" using wave by (simp add: in_wave_def)
  have "warp_of ?c i < lp_warps_per_block p"
    using warp_of_less [OF ok, of i] wave by (simp add: in_wave_def plan_ok_def wave_sched_def sched_config_of_def)
  moreover have "block_of ?c i < n" using block_of_less_iff [OF ok, of i] i by simp
  then have "Suc (first + block_of ?c i) \<le> lp_blocks p" using wave by (simp add: in_wave_def)
  then have "Suc (first + block_of ?c i) * lp_warps_per_block p \<le> lp_blocks p * lp_warps_per_block p"
    by (rule mult_le_mono1)
  ultimately show ?thesis by (simp add: slots_of_def)
qed

text \<open>A publication changes the caller's own slot and no other.\<close>

lemma slot_at_publish:
  assumes wave: "in_wave p first n l" and shape: "slots_shape p slots"
    and me: "me < n * lp_tpb p" and i: "i < n * lp_tpb p"
    and k: "k = slots_of p first n me"
  shows "slot_at p first n (slots[k := (slots ! k)[lane_of (wave_sched p n) me := v]]) i
      = (if i = me then v else slot_at p first n slots i)"
proof -
  let ?c = "wave_sched p n"
  have ok: "cfg_ok ?c" and wpb: "lp_warps_per_block p = div_ceil (lp_tpb p) (lp_warp_size p)"
    using wave by (auto simp: in_wave_def plan_ok_def)
  have lk: "k < length slots" using slots_of_less [OF wave me] shape k by (simp add: slots_shape_def)
  then have ll: "lane_of ?c me < length (slots ! k)"
    using shape wave_coords(6) [OF wave me refl] by (simp add: slots_shape_def)
  have mates: "slots_of p first n i = k \<longleftrightarrow> mates ?c me i"
    using slots_of_mates [OF ok wpb, of first me i] k by auto
  show ?thesis
  proof (cases "slots_of p first n i = k")
    case True
    then have "lane_of ?c i = lane_of ?c me \<Longrightarrow> i = me" using mates mates_same_lane [of ?c me i me] by simp
    then show ?thesis using True lk ll by (auto simp: slot_at_def nth_list_update k)
  next
    case False
    then have "i \<noteq> me" using k by blast
    then show ?thesis using False by (simp add: slot_at_def)
  qed
qed

section \<open>The invariant holds throughout\<close>

lemma holder_facts:
  assumes "exchange_ok p first n x" and "holds_turn (xc_launch x) me" and "cfg = wave_sched p n"
    and "w = ls_world (xc_launch x)"
  shows "cfg_ok cfg" "ls_sched (xc_launch x) = cfg" "reachable_world cfg w" "\<not> st_aborted (w_st w)"
    "st_current (w_st w) = Some me" "me < total_threads cfg" "me < n * lp_tpb p" "st_status (w_st w) ! me = Runnable"
    "shape_ok cfg (w_st w)" "waits_ok cfg (w_st w)" "pcs_ok cfg (w_st w) (xc_pc x)"
    "in_wave p first n (xc_launch x)"
proof -
  have reach: "reachable_world cfg w" and run: "\<not> st_aborted (w_st w)" and cur: "st_current (w_st w) = Some me"
    and wave: "in_wave p first n (xc_launch x)"
    using assms by (auto simp: exchange_ok_def holds_turn_def ls_st_def)
  show "reachable_world cfg w" "\<not> st_aborted (w_st w)" "st_current (w_st w) = Some me"
    "in_wave p first n (xc_launch x)" by (fact reach run cur wave)+
  show "cfg_ok cfg" "ls_sched (xc_launch x) = cfg" using wave assms(3) by (auto simp: in_wave_def)
  note r = reachable_running [OF reach run cur]
  show "me < total_threads cfg" "st_status (w_st w) ! me = Runnable" by (fact r)+
  then show "me < n * lp_tpb p" by (simp add: assms(3))
  show "shape_ok cfg (w_st w)" "waits_ok cfg (w_st w)" using r(5) by (auto simp: base_ok_def)
  show "pcs_ok cfg (w_st w) (xc_pc x)" using assms run by (simp add: exchange_ok_def ls_st_def)
qed

lemma in_wave_cong:
  "in_wave p first n l \<Longrightarrow> ls_sched l' = ls_sched l \<Longrightarrow> ls_config l' = ls_config l \<Longrightarrow> in_wave p first n l'"
  by (simp add: in_wave_def)

lemma other_ok:
  assumes ok: "exchange_ok p first n x" and turn: "holds_turn (xc_launch x) me"
    and idle: "xc_pc x me = Idle \<or> (\<exists>d. a = ActTrap d)" and other: "\<forall>phase m at op. a \<noteq> ActWarp phase m at op"
    and w': "ls_world l' = sched_exec (ls_sched (xc_launch x)) (ls_world (xc_launch x)) me a"
    and same: "ls_sched l' = ls_sched (xc_launch x)" "ls_config l' = ls_config (xc_launch x)"
  shows "exchange_ok p first n (x\<lparr>xc_launch := l'\<rparr>)"
proof -
  let ?c = "wave_sched p n"
  note h = holder_facts [OF ok turn refl refl]
  have "act_ok ?c me a" using other by (cases a) auto
  from reachable_act [OF h(3,4,5) this] have reach: "reachable_world ?c (ls_world l')" by (simp add: w' h(2))
  have "pcs_ok ?c (ls_st l') (xc_pc x)" if calm: "\<not> st_aborted (ls_st l')"
  proof -
    have "a \<noteq> ActTrap d" for d using calm by (auto simp: ls_st_def w' abort_def)
    then have idle: "xc_pc x me = Idle" using idle by blast
    have calm': "\<not> st_aborted (w_st (ls_world l'))" using calm by (simp add: ls_st_def)
    show ?thesis unfolding ls_st_def
    proof (rule pcs_quiet [OF h(1,11) idle])
      show "st_warp_wait (w_st (ls_world l')) = st_warp_wait (w_st (ls_world (xc_launch x)))"
        unfolding w' by (rule quiet_waits [OF other])
      fix j
      assume j: "j < total_threads ?c" "j \<noteq> me" "st_status (w_st (ls_world (xc_launch x))) ! j = Runnable"
      have "st_status (w_st (ls_world (xc_launch x))) ! j \<in> {Runnable, AtWarp}" using j(3) by simp
      from quiet_action [OF h(3,4,5) other _ calm' j(1,2) this] show "st_status (w_st (ls_world l')) ! j = Runnable"
        using w' h(2) j(3) by simp
    qed
  qed
  then show ?thesis
    using ok reach in_wave_cong [OF h(12) same] turn
    by (auto simp: exchange_ok_def published_def holds_turn_def)
qed

lemma collective_arrive_wave:
  assumes wave: "in_wave p first n l" and me: "me < n * lp_tpb p" and cfg: "cfg = wave_sched p n"
    and step: "collective_arrive l sl (ctx_of p first me) m op at v = (l', sl', t)"
  shows "ls_sched l' = ls_sched l" "ls_config l' = ls_config l"
    "call_ok cfg me m \<and> sl' = sl[lane_of cfg me := Some v]
        \<and> ls_world l' = fst (warp_rendezvous cfg (ls_world l) me phase_arrive m at op)
     \<or> \<not> call_ok cfg me m \<and> sl' = sl \<and> (\<exists>d. ls_world l' = abort cfg (push_finding d (ls_world l)))"
proof -
  note c = wave_coords [OF wave me cfg]
  have s: "ls_sched l = cfg" using wave cfg by (simp add: in_wave_def)
  have call: "call_ok cfg me m \<longleftrightarrow> m AND NOT (warp_valid_mask l (ctx_of p first me)) = 0
      \<and> has_lane m (unat (lane_id l (ctx_of p first me)))"
    by (auto simp: call_ok_def c)
  show "ls_sched l' = ls_sched l" "ls_config l' = ls_config l"
    "call_ok cfg me m \<and> sl' = sl[lane_of cfg me := Some v]
        \<and> ls_world l' = fst (warp_rendezvous cfg (ls_world l) me phase_arrive m at op)
     \<or> \<not> call_ok cfg me m \<and> sl' = sl \<and> (\<exists>d. ls_world l' = abort cfg (push_finding d (ls_world l)))"
    using step unfolding call
    by (auto simp: collective_arrive_def Let_def c s ctx_warp_rendezvous_def ctx_trap_def ctx_report_def
        split: if_splits prod.splits)
qed

lemma reachable_warp:
  assumes "reachable_world cfg w" and "\<not> st_aborted (w_st w)" and "st_current (w_st w) = Some me"
    and "call_ok cfg me m"
  shows "reachable_world cfg (fst (warp_rendezvous cfg w me phase m at op))"
  using reachable_act [OF assms(1-3), of "ActWarp phase m at op"] assms(4) by simp

lemma arrive_ok:
  assumes ok: "exchange_ok p first n x" and turn: "holds_turn (xc_launch x) me" and idle: "xc_pc x me = Idle"
    and i: "i = warp_slots_index (lp_warps_per_block p) (xc_launch x) (ctx_of p first me)"
    and step: "collective_arrive (xc_launch x) (xc_slots x ! i) (ctx_of p first me) m op at v = (l', sl, t)"
  shows "exchange_ok p first n
    \<lparr>xc_launch = l', xc_slots = (xc_slots x)[i := sl], xc_pc = (xc_pc x)(me := Arrived m at op v)\<rparr>"
proof -
  let ?c = "wave_sched p n"
  note h = holder_facts [OF ok turn refl refl]
  note a = collective_arrive_wave [OF h(12,7) refl step]
  have wave': "in_wave p first n l'" by (rule in_wave_cong [OF h(12) a(1,2)])
  have shape: "slots_shape p (xc_slots x)" using ok by (simp add: exchange_ok_def)
  have idx: "i = slots_of p first n me" using warp_slots_index_eq [OF h(12,7)] i by simp
  have il: "i < length (xc_slots x)" using slots_of_less [OF h(12,7)] shape idx by (simp add: slots_shape_def)
  then have "length (xc_slots x ! i) = lp_warp_size p" using shape by (simp add: slots_shape_def)
  then have "length sl = lp_warp_size p" using a(3) by auto
  then have shape': "slots_shape p ((xc_slots x)[i := sl])"
    using shape by (auto simp: slots_shape_def dest!: set_update_subset_insert [THEN subsetD])
  show ?thesis
  proof (cases "call_ok ?c me m")
    case True
    then have sl: "sl = (xc_slots x ! i)[lane_of ?c me := Some v]"
      and w': "ls_world l' = fst (warp_rendezvous ?c (ls_world (xc_launch x)) me phase_arrive m at op)"
      using a(3) by auto
    have reach: "reachable_world ?c (ls_world l')" unfolding w' by (rule reachable_warp [OF h(3,4,5) True])
    have "pcs_ok ?c (ls_st l') ((xc_pc x)(me := Arrived m at op v))" if "\<not> st_aborted (ls_st l')"
    proof -
      have "\<not> st_aborted (w_st (ls_world l'))" using that by (simp add: ls_st_def)
      from rendezvous_effect [OF h(3,4,5) True w' this wait_at_def]
      show ?thesis unfolding ls_st_def by (rule pcs_arrive [OF h(1,9,10,11,6) idle True _ refl])
    qed
    moreover have "published p first n
        \<lparr>xc_launch = l', xc_slots = (xc_slots x)[i := sl], xc_pc = (xc_pc x)(me := Arrived m at op v)\<rparr> j"
      if "j < n * lp_tpb p" "\<not> st_aborted (ls_st l')" for j
      using slot_at_publish [OF h(12) shape h(7) that(1) idx] ok that(1) turn
      by (auto simp: published_def sl exchange_ok_def holds_turn_def)
    ultimately show ?thesis using wave' reach shape' by (simp add: exchange_ok_def)
  next
    case False
    then obtain d where w': "ls_world l' = abort ?c (push_finding d (ls_world (xc_launch x)))" using a(3) by blast
    have "reachable_world ?c (ls_world l')"
      using reachable_act [OF h(3,4,5), of "ActTrap d"] by (simp add: w')
    moreover have "st_aborted (ls_st l')" by (simp add: ls_st_def w' abort_def)
    ultimately show ?thesis using wave' shape' by (simp add: exchange_ok_def)
  qed
qed

lemma depart_ok:
  assumes ok: "exchange_ok p first n x" and turn: "holds_turn (xc_launch x) me"
    and at: "xc_pc x me = Arrived m at op v"
    and step: "ctx_warp_rendezvous (foldl (\<lambda>l d. ctx_report d l) (xc_launch x) ds) (ctx_of p first me)
           phase_depart m at op = (l', t)"
  shows "exchange_ok p first n (x\<lparr>xc_launch := l', xc_pc := (xc_pc x)(me := Departed m at op v)\<rparr>)"
proof -
  let ?c = "wave_sched p n" and ?l = "foldl (\<lambda>l d. ctx_report d l) (xc_launch x) ds"
  note h = holder_facts [OF ok turn refl refl]
  have l: "ls_sched ?l = ?c" "w_st (ls_world ?l) = w_st (ls_world (xc_launch x))" using h(2) by (simp_all add: reports_world)
  have reach: "reachable_world ?c (ls_world ?l)"
    using reports_reachable [of "xc_launch x" me ds] h(2,3) turn by simp
  have call: "call_ok ?c me m" using h(11,6) at by (auto simp: pcs_ok_def lane_ok_def)
  have w': "ls_world l' = fst (warp_rendezvous ?c (ls_world ?l) me phase_depart m at op)"
    and same: "ls_sched l' = ls_sched ?l" "ls_config l' = ls_config ?l"
    using step wave_coords(4) [OF h(12,7) refl] l(1) by (auto simp: ctx_warp_rendezvous_def split: prod.splits)
  have wave': "in_wave p first n l'"
    using in_wave_cong [OF h(12), of l'] same by (simp add: reports_world)
  have run: "\<not> st_aborted (w_st (ls_world ?l))" "st_current (w_st (ls_world ?l)) = Some me" using h(4,5) l(2) by simp_all
  have reach': "reachable_world ?c (ls_world l')" unfolding w' by (rule reachable_warp [OF reach run call])
  have "pcs_ok ?c (ls_st l') ((xc_pc x)(me := Departed m at op v))" if "\<not> st_aborted (ls_st l')"
  proof -
    have "\<not> st_aborted (w_st (ls_world l'))" using that by (simp add: ls_st_def)
    from rendezvous_effect [OF reach run call w' this wait_at_def, unfolded l(2)]
    show ?thesis unfolding ls_st_def by (rule pcs_depart [OF h(1,9,10,11,6,8) at _ refl])
  qed
  moreover have "published p first n (x\<lparr>xc_launch := l', xc_pc := (xc_pc x)(me := Departed m at op v)\<rparr>) j"
    if "j < n * lp_tpb p" for j
    using ok that at turn by (auto simp: published_def exchange_ok_def holds_turn_def)
  ultimately show ?thesis using wave' reach' ok by (simp add: exchange_ok_def)
qed

lemma leave_ok:
  assumes ok: "exchange_ok p first n x" and turn: "holds_turn (xc_launch x) me"
    and at: "xc_pc x me = Departed m at op v"
  shows "exchange_ok p first n (x\<lparr>xc_pc := (xc_pc x)(me := Idle)\<rparr>)"
proof -
  note h = holder_facts [OF ok turn refl refl]
  have "pcs_ok (wave_sched p n) (ls_st (xc_launch x)) ((xc_pc x)(me := Idle))"
    unfolding ls_st_def by (rule pcs_leave [OF h(1,10,11,6,8) at])
  then show ?thesis using ok turn by (auto simp: exchange_ok_def published_def holds_turn_def)
qed

interpretation exchanges: invariant_system "exchange_init p first n" "exchange_step p first n" "exchange_ok p first n"
  for p first n
proof
  show "exchange_init p first n x \<Longrightarrow> exchange_ok p first n x" for x :: "'a exchange" by (rule exchange_init_ok)
  show "exchange_ok p first n x \<Longrightarrow> exchange_step p first n x x' \<Longrightarrow> exchange_ok p first n x'" for x x' :: "'a exchange"
    by (auto elim!: exchange_stepE intro: other_ok arrive_ok depart_ok leave_ok)
qed

section \<open>A lane reads what was published for it\<close>

text \<open>
  C20: the exchange of a collective is sound. In every state a wave can reach, under any schedule and
  with any other collectives, barriers and exits around it, a lane that has been released from the
  arrival of a collective and shuffles from a lane of its mask gets the value that very lane published
  in that very collective (same mask, call site and operation, not yet left by it): no lane has raced
  ahead and overwritten its slot, and none has stayed behind and left an old value in it.
\<close>

theorem collective_reads_this_round:
  assumes "exchange_init p first n x0" and "(exchange_step p first n)\<^sup>*\<^sup>* x0 x"
    and "holds_turn (xc_launch x) me" and "xc_pc x me = Arrived m at op v"
    and "has_lane m (unat src)" and "c = ctx_of p first me" and "cfg = wave_sched p n"
    and "sl = xc_slots x ! warp_slots_index (lp_warps_per_block p) (xc_launch x) c"
  shows "\<exists>j u. mates cfg me j \<and> lane_of cfg j = unat src
    \<and> (xc_pc x j = Arrived m at op u \<or> xc_pc x j = Departed m at op u)
    \<and> shuffle_combine unbox c m op at own (Some src) sl (xc_launch x) =
        ((case unbox u of
            Some y \<Rightarrow> Inr y
          | None \<Rightarrow> Inl (AssertFailed (''riri: `'' @ op @ ''` called with different value types on different lanes''))),
         xc_launch x)"
proof -
  have ok: "exchange_ok p first n x"
    using exchanges.steps_inv [OF assms(2)] exchange_init_ok [OF assms(1)] by blast
  note h = holder_facts [OF ok assms(3,7) refl]
  have wpb: "lp_warps_per_block p = div_ceil (lp_tpb p) (lp_warp_size p)"
    using h(12) by (auto simp: in_wave_def plan_ok_def)
  have me: "lane_ok cfg (w_st (ls_world (xc_launch x))) (xc_pc x) me" using h(6,11) by (simp add: pcs_ok_def)
  moreover have "st_warp_wait (w_st (ls_world (xc_launch x))) ! me = None" by (rule runnable_free [OF h(10,6,8)])
  ultimately have call: "call_ok cfg me m" and team: "\<And>j. mates cfg me j \<Longrightarrow> has_lane m (lane_of cfg j)
      \<Longrightarrow> together (w_st (ls_world (xc_launch x))) (xc_pc x) m at op j"
    using assms(4) by (auto simp: lane_ok_def)
  have "bit (valid_mask cfg (warp_of cfg me)) (unat src)"
    using call assms(5) bit_u32_less by (auto simp: call_ok_def mask_subset_iff has_lane_bit)
  then have src: "unat src < lanes_in cfg (warp_of cfg me)" by (simp add: bit_valid_mask [OF h(1)])
  define j where "j = warp_base cfg (block_of cfg me) (warp_of cfg me) + unat src"
  have j: "mates cfg me j" "lane_of cfg j = unat src"
    using lane_coords [OF h(1) src] by (simp_all add: j_def mates_def)
  have jl: "j < n * lp_tpb p" using mates_less [OF h(1) j(1) h(6)] by (simp add: assms(7))
  obtain u where u: "xc_pc x j = Arrived m at op u \<or> xc_pc x j = Departed m at op u"
    using team [OF j(1)] assms(5) j(2) by (auto simp: together_def)
  then have "slot_at p first n (xc_slots x) j = Some u"
    using ok jl assms(3) by (auto simp: exchange_ok_def holds_turn_def published_def)
  moreover have "slots_of p first n j = slots_of p first n me"
    using slots_of_mates [OF h(1) [unfolded assms(7)] wpb] j(1) mates_sym unfolding assms(7) by blast
  ultimately have slot: "sl ! unat src = Some u"
    using j(2) by (simp add: slot_at_def assms(6,7,8) warp_slots_index_eq [OF h(12,7)])
  have "unat src < length sl"
  proof -
    have "slots_of p first n me < length (xc_slots x)"
      using slots_of_less [OF h(12,7)] ok by (simp add: exchange_ok_def slots_shape_def)
    then have "length sl = lp_warp_size p"
      using ok by (simp add: exchange_ok_def slots_shape_def assms(6,8) warp_slots_index_eq [OF h(12,7)])
    then show ?thesis using wave_coords(6) [OF h(12) jl assms(7)] j(2) by simp
  qed
  then have "lanes_get unbox op sl src = (case unbox u of
            Some y \<Rightarrow> Inr y
          | None \<Rightarrow> Inl (AssertFailed (''riri: `'' @ op @ ''` called with different value types on different lanes'')))"
    using slot by (simp add: lanes_get_def nth_option_def)
  then show ?thesis using j u assms(5) by (intro exI [of _ j] exI [of _ u]) (auto simp: shuffle_combine_def)
qed

text \<open>Two lanes of one block shuffle; the second to arrive releases both, and lane 0 runs first.\<close>

definition duo_plan :: launch_plan where
  "duo_plan = \<lparr>lp_blocks = 1, lp_tpb = 2, lp_total = 2, lp_warp_size = 2, lp_warps_per_block = 1,
     lp_resident = 1, lp_waves = 1\<rparr>"

definition duo :: "any_value exchange" where
  "duo = \<lparr>xc_launch = \<lparr>ls_id = 1,
        ls_config = (launch_config_new (dim3_from_u32 1) (dim3_from_u32 2))\<lparr>lc_warp_size := 2\<rparr>,
        ls_sched = wave_sched duo_plan 1,
        ls_world = \<lparr>w_st = sched_init (wave_sched duo_plan 1) (Replay [0, 1, 0] 0), w_rep = reporter_new,
          w_woken = []\<rparr>,
        ls_sync = sync_new 2 1\<rparr>,
      xc_slots = [[None, None]], xc_pc = (\<lambda>_. Idle)\<rparr>"

definition duo_arrive :: "nat \<Rightarrow> any_value \<Rightarrow> any_value exchange \<Rightarrow> any_value exchange" where
  "duo_arrive me v x =
     (case collective_arrive (xc_launch x) (xc_slots x ! 0) (ctx_of duo_plan 0 me) 3 ''shfl_sync''
        (Location ''k.rs'' 4 9) v of (l', sl, t) \<Rightarrow>
      \<lparr>xc_launch = l', xc_slots = (xc_slots x)[0 := sl],
       xc_pc = (xc_pc x)(me := Arrived 3 (Location ''k.rs'' 4 9) ''shfl_sync'' v)\<rparr>)"

lemma duo_arrive_step:
  assumes "holds_turn (xc_launch x) me" and "xc_pc x me = Idle"
    and "warp_slots_index 1 (xc_launch x) (ctx_of duo_plan 0 me) = 0"
  shows "exchange_step duo_plan 0 1 x (duo_arrive me v x)"
proof -
  obtain l' sl t where c: "collective_arrive (xc_launch x) (xc_slots x ! 0) (ctx_of duo_plan 0 me) 3 ''shfl_sync''
        (Location ''k.rs'' 4 9) v = (l', sl, t)" by (metis prod_cases3)
  have "lp_warps_per_block duo_plan = 1" by (simp add: duo_plan_def)
  then show ?thesis
    using exchange_step.arrive [of x me 0 duo_plan 0 3 "''shfl_sync''" "Location ''k.rs'' 4 9" v l' sl t 1] assms c
    by (simp add: duo_arrive_def)
qed

lemmas duo_eval = duo_def duo_plan_def wave_sched_def warp_eval thread_ctx_of_def
  launch_config_new_def dim3_from_u32_def dim3_new_def default_warp_size_def holds_turn_def ls_st_def
  warp_slots_index_def warp_id_def lane_id_def warp_size_def duo_arrive_def collective_arrive_def
  warp_valid_mask_def valid_mask_def lane_bit_def has_lane_def ctx_warp_rendezvous_def locate_def mask_of_def

lemma duo_init: "exchange_init duo_plan 0 1 duo"
  unfolding exchange_init_def
proof (intro conjI)
  show "in_wave duo_plan 0 1 (xc_launch duo)"
    by (simp add: in_wave_def plan_ok_def duo_def duo_plan_def cfg_ok_def wave_sched_def sched_config_of_def
        total_threads_def div_ceil_def)
  show "initial_world (wave_sched duo_plan 1) (ls_world (xc_launch duo))"
    by (auto simp: initial_world_def duo_def)
  show "slots_shape duo_plan (xc_slots duo)" by (simp add: slots_shape_def duo_def duo_plan_def)
  show "xc_pc duo = (\<lambda>_. Idle)" by (simp add: duo_def)
qed

lemma duo_first: "exchange_step duo_plan 0 1 duo (duo_arrive 0 (AnyU32 7) duo)"
  by (rule duo_arrive_step) (simp_all add: duo_eval del: numeral_2_eq_2)

lemma duo_second:
  "exchange_step duo_plan 0 1 (duo_arrive 0 (AnyU32 7) duo) (duo_arrive 1 (AnyU32 9) (duo_arrive 0 (AnyU32 7) duo))"
  by (rule duo_arrive_step) (simp_all add: duo_eval del: numeral_2_eq_2)

lemma duo_released:
  "holds_turn (xc_launch (duo_arrive 1 (AnyU32 9) (duo_arrive 0 (AnyU32 7) duo))) 0"
  by (simp add: duo_eval del: numeral_2_eq_2)

theorem collective_reads_this_round_witness:
  "fst (shuffle_combine any_u32 (ctx_of duo_plan 0 0) 3 ''shfl_sync'' (Location ''k.rs'' 4 9) 7 (Some 1)
      (xc_slots (duo_arrive 1 (AnyU32 9) (duo_arrive 0 (AnyU32 7) duo)) ! 0)
      (xc_launch (duo_arrive 1 (AnyU32 9) (duo_arrive 0 (AnyU32 7) duo)))) = Inr 9"
proof -
  let ?x = "duo_arrive 1 (AnyU32 9) (duo_arrive 0 (AnyU32 7) duo)"
  have steps: "(exchange_step duo_plan 0 1)\<^sup>*\<^sup>* duo ?x"
    using duo_first duo_second by (meson rtranclp.rtrancl_into_rtrancl rtranclp.rtrancl_refl)
  have pc0: "xc_pc ?x 0 = Arrived 3 (Location ''k.rs'' 4 9) ''shfl_sync'' (AnyU32 7)"
    and pc1: "xc_pc ?x 1 = Arrived 3 (Location ''k.rs'' 4 9) ''shfl_sync'' (AnyU32 9)"
    by (simp_all add: duo_arrive_def split: prod.splits)
  have lane: "has_lane 3 (unat (1 :: u32))" by simp
  have idx: "warp_slots_index (lp_warps_per_block duo_plan) (xc_launch ?x) (ctx_of duo_plan 0 0) = 0"
    by (simp add: duo_eval del: numeral_2_eq_2)
  obtain j u where j: "mates (wave_sched duo_plan 1) 0 j" "lane_of (wave_sched duo_plan 1) j = unat (1 :: u32)"
    and u: "xc_pc ?x j = Arrived 3 (Location ''k.rs'' 4 9) ''shfl_sync'' u
      \<or> xc_pc ?x j = Departed 3 (Location ''k.rs'' 4 9) ''shfl_sync'' u"
    and r: "shuffle_combine any_u32 (ctx_of duo_plan 0 0) 3 ''shfl_sync'' (Location ''k.rs'' 4 9) 7 (Some 1)
      (xc_slots ?x ! 0) (xc_launch ?x) =
        ((case any_u32 u of
            Some y \<Rightarrow> Inr y
          | None \<Rightarrow> Inl (AssertFailed (''riri: `'' @ ''shfl_sync'' @ ''` called with different value types on different lanes''))),
         xc_launch ?x)"
    using collective_reads_this_round [where unbox = any_u32 and own = 7,
        OF duo_init steps duo_released pc0 lane refl refl refl] unfolding idx by auto
  have "j = 1" using j
    by (auto simp: mates_def block_of_def warp_of_def lane_of_def duo_plan_def)
  then show ?thesis using u pc1 r by auto
qed

end
