(* ===== verification/Warp_Props.thy ===== *)
theory Warp_Props
  imports Exchange_Lanes
begin

text \<open>
  What the collectives of \<^verbatim>\<open>src/warp.rs\<close> compute: the votes, and the butterfly of \<^verbatim>\<open>shfl_xor_sync\<close> that
  warp reductions are made of.
\<close>

section \<open>Votes\<close>

text \<open>Every lane of the mask has published the boxed predicate \<open>ps\<close> of its lane.\<close>

definition voted :: "(bool \<Rightarrow> 'd) \<Rightarrow> u32 \<Rightarrow> (nat \<Rightarrow> bool) \<Rightarrow> 'd option list \<Rightarrow> bool" where
  "voted box msk ps slots \<longleftrightarrow>
     (\<forall>i. has_lane msk i \<longrightarrow> i < length slots \<and> slots ! i = Some (box (ps i)))"

lemma ballot_fold_bits:
  assumes "\<And>i. i \<in> set is \<Longrightarrow> has_lane msk i \<Longrightarrow> get (of_nat i) = Inr (ps i)"
  shows "\<exists>b. ballot_fold get msk is acc = Inr b
    \<and> (\<forall>k. bit b k \<longleftrightarrow> bit acc k \<or> k \<in> set is \<and> has_lane msk k \<and> ps k)"
  using assms
proof (induction "is" arbitrary: acc)
  case (Cons i "is")
  let ?acc = "if has_lane msk i \<and> ps i then acc OR lane_bit i else acc"
  obtain b where b: "ballot_fold get msk is ?acc = Inr b"
    and bits: "\<forall>k. bit b k \<longleftrightarrow> bit ?acc k \<or> k \<in> set is \<and> has_lane msk k \<and> ps k"
    using Cons.IH [of ?acc] Cons.prems by auto
  have "ballot_fold get msk (i # is) acc = Inr b" using b Cons.prems [of i] by (auto split: if_splits)
  moreover have "bit b k \<longleftrightarrow> bit acc k \<or> k \<in> set (i # is) \<and> has_lane msk k \<and> ps k" for k
    using bits bit_u32_less [of msk i] by (auto simp: bit_simps mask_simps split: if_splits)
  ultimately show ?case by blast
qed simp

text \<open>
  The votes. Once every lane of the mask has published its predicate, the ballot every member
  computes has exactly the bits of the member lanes whose predicate holds; so \<^verbatim>\<open>any_sync\<close> is true exactly
  when some member's is and \<^verbatim>\<open>all_sync\<close> exactly when every member's is. Values of another type, or a
  member without a value, cannot slip in: the read would have panicked.
\<close>

theorem votes_count_members:
  assumes "voted box msk ps slots" and "\<And>b. unbox (box b) = Some b"
  shows "\<exists>b. ballot_combine unbox op msk slots l = (Inr b, l)
    \<and> (\<forall>k. bit b k \<longleftrightarrow> has_lane msk k \<and> ps k)
    \<and> (b \<noteq> 0 \<longleftrightarrow> (\<exists>k. has_lane msk k \<and> ps k))
    \<and> (b = msk \<longleftrightarrow> (\<forall>k. has_lane msk k \<longrightarrow> ps k))"
proof -
  have get: "lanes_get unbox op slots (of_nat i) = Inr (ps i)" if "i \<in> set [0..<32]" "has_lane msk i" for i
  proof -
    have "unat (of_nat i :: u32) = i" using that(1) by (simp add: unat_of_nat)
    then show ?thesis using assms that(2) by (auto simp: voted_def lanes_get_def nth_option_def)
  qed
  obtain b where b: "ballot_fold (lanes_get unbox op slots) msk [0..<32] 0 = Inr b"
    and bits: "\<forall>k. bit b k \<longleftrightarrow> k \<in> set [0..<32] \<and> has_lane msk k \<and> ps k"
    using ballot_fold_bits [of "[0..<32]" msk "lanes_get unbox op slots" ps 0] get by auto
  have bit: "bit b k \<longleftrightarrow> has_lane msk k \<and> ps k" for k
    using bits bit_u32_less [of msk k] by (auto simp: has_lane_bit)
  have "b \<noteq> 0 \<longleftrightarrow> (\<exists>k. bit b k)" using bit_u32_less [of b] by (auto simp: bit_eq_iff)
  moreover have "b = msk \<longleftrightarrow> (\<forall>k. bit b k \<longleftrightarrow> bit msk k)"
    using bit_u32_less [of b] bit_u32_less [of msk] by (auto simp: bit_eq_iff)
  ultimately show ?thesis using b bit by (auto simp: ballot_combine_def has_lane_bit)
qed

theorem votes_count_members_witness:
  "\<forall>l. \<exists>b. ballot_combine any_bool ''any_sync'' 3 [Some (AnyBool False), Some (AnyBool True)] l = (Inr b, l) \<and> b \<noteq> 0"
proof
  fix l
  have "voted AnyBool 3 (\<lambda>i. i = 1) [Some (AnyBool False), Some (AnyBool True)]"
  proof -
    have "i = 0 \<or> i = 1" if "has_lane 3 i" for i
    proof -
      have "(3 :: u32) = mask 2" by (simp add: mask_eq_exp_minus_1)
      then have "i < 2" using that unfolding has_lane_bit by (metis bit_mask_iff)
      then show ?thesis by auto
    qed
    then show ?thesis by (fastforce simp: voted_def)
  qed
  from votes_count_members [OF this bool_box.unbox_box]
  obtain b where "ballot_combine any_bool ''any_sync'' 3 [Some (AnyBool False), Some (AnyBool True)] l = (Inr b, l)"
    "b \<noteq> 0 \<longleftrightarrow> (\<exists>k. has_lane 3 k \<and> k = 1)" by blast
  moreover have "has_lane 3 1" by simp
  ultimately show "\<exists>b. ballot_combine any_bool ''any_sync'' 3 [Some (AnyBool False), Some (AnyBool True)] l = (Inr b, l) \<and> b \<noteq> 0"
    by blast
qed

section \<open>The butterfly\<close>

text \<open>
  One exchange of a full warp, in which every lane adds what it reads from its partner; the lanes of the
  warp are the threads \<open>0\<close> to \<open>lp_warp_size p - 1\<close> of a block of one warp.
\<close>

definition butterfly_round ::
  "launch_plan \<Rightarrow> launch_state \<Rightarrow> u32 \<Rightarrow> (nat \<Rightarrow> 'a :: comm_monoid_add) \<Rightarrow> nat \<Rightarrow> 'a" where
  "butterfly_round p l lane_mask v i =
     v i + (case shfl_xor_src l (ctx_of p 0 i) lane_mask of Some s \<Rightarrow> v (unat s) | None \<Rightarrow> v i)"

text \<open>The rounds of a reduction: lane masks \<open>2 ^ (k - 1)\<close> down to 1.\<close>

fun butterfly :: "launch_plan \<Rightarrow> launch_state \<Rightarrow> nat \<Rightarrow> (nat \<Rightarrow> 'a :: comm_monoid_add) \<Rightarrow> nat \<Rightarrow> 'a" where
  "butterfly p l 0 v = v"
| "butterfly p l (Suc k) v = butterfly p l k (butterfly_round p l (2 ^ k) v)"

text \<open>The lanes that agree with \<open>i\<close> on the low \<open>j\<close> bits.\<close>

definition agree :: "nat \<Rightarrow> nat \<Rightarrow> nat \<Rightarrow> nat set" where
  "agree k j i = {x. x < 2 ^ k \<and> take_bit j x = take_bit j i}"

lemma agree_finite [simp]: "finite (agree k j i)"
  by (simp add: agree_def)

lemma agree_flip:
  fixes i :: nat
  shows "take_bit j i = take_bit j (flip_bit j i)" "take_bit (Suc j) i \<noteq> take_bit (Suc j) (flip_bit j i)"
    "take_bit j x = take_bit j i \<Longrightarrow> take_bit (Suc j) x = take_bit (Suc j) i \<or> take_bit (Suc j) x = take_bit (Suc j) (flip_bit j i)"
proof -
  show "take_bit j i = take_bit j (flip_bit j i)" by (rule bit_eqI) (auto simp: bit_simps)
  have "bit (take_bit (Suc j) i) j \<noteq> bit (take_bit (Suc j) (flip_bit j i)) j" by (auto simp: bit_simps)
  then show "take_bit (Suc j) i \<noteq> take_bit (Suc j) (flip_bit j i)" by metis
  assume eq: "take_bit j x = take_bit j i"
  then have low: "bit x b = bit i b" if "b < j" for b using that by (metis bit_take_bit_iff)
  show "take_bit (Suc j) x = take_bit (Suc j) i \<or> take_bit (Suc j) x = take_bit (Suc j) (flip_bit j i)"
  proof (cases "bit x j = bit i j")
    case True
    then have "take_bit (Suc j) x = take_bit (Suc j) i"
      using low by (intro bit_eqI) (auto simp: bit_take_bit_iff less_Suc_eq)
    then show ?thesis by blast
  next
    case False
    then have "take_bit (Suc j) x = take_bit (Suc j) (flip_bit j i)"
      using low by (intro bit_eqI) (auto simp: bit_take_bit_iff less_Suc_eq bit_flip_bit_iff)
    then show ?thesis by blast
  qed
qed

lemma agree_split: "agree k j i = agree k (Suc j) i \<union> agree k (Suc j) (flip_bit j i)"
  "agree k (Suc j) i \<inter> agree k (Suc j) (flip_bit j i) = {}"
proof -
  have down: "take_bit j x = take_bit j y" if "take_bit (Suc j) x = take_bit (Suc j) y" for x y :: nat
  proof -
    have "take_bit j (take_bit (Suc j) x) = take_bit j (take_bit (Suc j) y)" using that by simp
    then show ?thesis by (simp add: min_def)
  qed
  show "agree k j i = agree k (Suc j) i \<union> agree k (Suc j) (flip_bit j i)"
  proof (rule set_eqI)
    fix x
    have "take_bit j x = take_bit j i \<longleftrightarrow>
        take_bit (Suc j) x = take_bit (Suc j) i \<or> take_bit (Suc j) x = take_bit (Suc j) (flip_bit j i)"
      using agree_flip(1) [of j i] agree_flip(3) [of j x i] down [of x i] down [of x "flip_bit j i"] by metis
    then show "x \<in> agree k j i \<longleftrightarrow> x \<in> agree k (Suc j) i \<union> agree k (Suc j) (flip_bit j i)"
      unfolding agree_def by blast
  qed
  show "agree k (Suc j) i \<inter> agree k (Suc j) (flip_bit j i) = {}"
    unfolding agree_def using agree_flip(2) [of j i] by auto
qed

lemma flip_less: "(i :: nat) < 2 ^ k \<Longrightarrow> j < k \<Longrightarrow> flip_bit j i < 2 ^ k"
proof -
  assume i: "i < 2 ^ k" and j: "j < k"
  have "take_bit k (flip_bit j i) = flip_bit j i"
  proof (rule bit_eqI)
    fix b
    have "bit i b \<Longrightarrow> b < k" using i by (metis bit_take_bit_iff take_bit_nat_eq_self)
    then show "bit (take_bit k (flip_bit j i)) b = bit (flip_bit j i) b"
      using j by (auto simp: bit_take_bit_iff bit_flip_bit_iff)
  qed
  then show ?thesis by (metis take_bit_nat_less_exp)
qed

text \<open>The partner of a lane: the lane with one bit flipped, which exists.\<close>

lemma xor_partner:
  assumes wave: "in_wave p 0 1 l" and full: "lp_tpb p = 2 ^ k" "lp_warp_size p = 2 ^ k"
    and i: "i < 2 ^ k" and j: "j < k"
  shows "\<exists>s. shfl_xor_src l (ctx_of p 0 i) (2 ^ j) = Some s \<and> unat s = flip_bit j i"
proof -
  have me: "i < 1 * lp_tpb p" using i full by simp
  have lane: "unat (lane_id l (ctx_of p 0 i)) = i"
    using wave_coords(1) [OF wave me refl] i full by (simp add: lane_of_def)
  have "(2::nat) ^ k \<le> 32" using wave full(2) by (simp add: in_wave_def plan_ok_def)
  then have "(2::nat) ^ k \<le> 2 ^ 5" by simp
  then have k: "k \<le> 5" by (simp only: power_increasing_iff [where b = "2 :: nat"])
  let ?s = "lane_id l (ctx_of p 0 i) XOR 2 ^ j"
  have "unat (2 ^ j :: u32) = 2 ^ j"
  proof -
    have "(2::nat) ^ j < 2 ^ 32" using j k by (intro power_strict_increasing) simp_all
    then have "unat (of_nat (2 ^ j) :: u32) = 2 ^ j" by (simp only: unat_of_nat) simp
    then show ?thesis by simp
  qed
  then have s: "unat ?s = flip_bit j i"
    by (simp add: unsigned_xor_eq lane flip_bit_eq_xor push_bit_eq_mult)
  have "?s < warp_size l"
    using s flip_less [OF i j] wave full(2) by (simp add: word_less_nat_alt in_wave_def warp_size_def)
  then show ?thesis using s by (simp add: shfl_xor_src_def Let_def)
qed

lemma butterfly_sums:
  assumes wave: "in_wave p 0 1 l" and full: "lp_tpb p = 2 ^ k" "lp_warp_size p = 2 ^ k"
    and "j \<le> k" and "i < 2 ^ k" and "\<And>i. i < 2 ^ k \<Longrightarrow> v i = sum v0 (agree k j i)"
  shows "butterfly p l j v i = sum v0 {..<2 ^ k}"
  using assms(4-6)
proof (induction j arbitrary: v)
  case 0
  have "agree k 0 i = {..<2 ^ k}" by (auto simp: agree_def)
  then show ?case using 0 by simp
next
  case (Suc j)
  have "butterfly_round p l (2 ^ j) v i = sum v0 (agree k j i)" if below: "i < 2 ^ k" for i
  proof -
    obtain s where s: "shfl_xor_src l (ctx_of p 0 i) (2 ^ j) = Some s" "unat s = flip_bit j i"
      using xor_partner [OF wave full below, of j] Suc.prems(1) by auto
    have "flip_bit j i < 2 ^ k" using flip_less [OF below, of j] Suc.prems(1) by simp
    then have "butterfly_round p l (2 ^ j) v i = sum v0 (agree k (Suc j) i) + sum v0 (agree k (Suc j) (flip_bit j i))"
      using Suc.prems(3) below s by (simp add: butterfly_round_def)
    also have "\<dots> = sum v0 (agree k j i)"
      unfolding agree_split(1) [of k j i] by (rule sum.union_disjoint [symmetric]) (simp_all add: agree_split(2))
    finally show ?thesis .
  qed
  then show ?case using Suc.IH [of "butterfly_round p l (2 ^ j) v"] Suc.prems(1,2) by simp
qed


definition quad_plan :: launch_plan where
  "quad_plan = \<lparr>lp_blocks = 1, lp_tpb = 4, lp_total = 4, lp_warp_size = 4, lp_warps_per_block = 1,
     lp_resident = 1, lp_waves = 1\<rparr>"

definition quad_launch :: launch_state where
  "quad_launch = \<lparr>ls_id = 1,
     ls_config = (launch_config_new (dim3_from_u32 1) (dim3_from_u32 4))\<lparr>lc_warp_size := 4\<rparr>,
     ls_sched = wave_sched quad_plan 1,
     ls_world = \<lparr>w_st = sched_init (wave_sched quad_plan 1) (Replay [] 0), w_rep = reporter_new, w_woken = []\<rparr>,
     ls_sync = sync_new 4 1\<rparr>"


section \<open>Findings of later waves\<close>

text \<open>
  The scheduler numbers the blocks of a wave from zero and puts that number into the divergences it
  reports, while every other finding names the block of the grid: in a wave that starts at block
  \<open>first\<close>, a barrier divergence is \<open>first\<close> too low.
\<close>

theorem later_wave_misnames_block:
  assumes wave: "in_wave p first n l" and me: "me < n * lp_tpb p"
    and j: "block_of (wave_sched p n) j = block_of (wave_sched p n) me" "j \<noteq> me"
      "st_status (w_st (ls_world l)) ! j = Finished"
  shows "\<exists>b waiting exited at.
      w_rep (ls_world (fst (sync_threads_enter l (ctx_of p first me) loc)))
        = reporter_push (w_rep (ls_world l)) (BarrierDivergence b waiting exited at)
    \<and> unat b + first = unat (tc_block (ctx_of p first me))"
proof -
  let ?c = "wave_sched p n"
  have ok: "cfg_ok ?c" and sched: "ls_sched l = ?c" using wave by (auto simp: in_wave_def)
  define s1 where "s1 = arrive_at_barrier me (block_of ?c me) loc (w_st (ls_world l))"
  have gone: "\<exists>i. block_of ?c i = block_of ?c me \<and> st_status s1 ! i = Finished"
    using j by (intro exI [of _ j]) (simp add: s1_def)
  have "w_rep (fst (barrier ?c (ls_world l) me loc))
      = reporter_push (w_rep (ls_world l)) (barrier_finding ?c s1 (block_of ?c me) (Location ''src/sched.rs'' 371 61))"
    unfolding barrier_unfold [OF ok s1_def] if_P [OF gone] by (simp add: barrier_divergence_def)
  then have rep: "w_rep (ls_world (fst (sync_threads_enter l (ctx_of p first me) loc)))
      = reporter_push (w_rep (ls_world l)) (barrier_finding ?c s1 (block_of ?c me) (Location ''src/sched.rs'' 371 61))"
    using wave_coords(4) [OF wave me refl] sched
    by (cases "barrier ?c (ls_world l) me loc") (simp add: sync_threads_enter_def Let_def)
  have bl: "block_linear (ctx_of p first me) = first + block_of ?c me" by (rule wave_coords(3) [OF wave me refl])
  have "unat (tc_block (ctx_of p first me)) < 2 ^ LENGTH(32)" by (rule unsigned_less)
  then have "first + block_of ?c me < 2 ^ 32" using bl by (simp add: block_linear_def)
  then have "unat (of_nat (block_of ?c me) :: u32) = block_of ?c me" by (simp add: unat_of_nat)
  then show ?thesis using rep bl by (auto simp: barrier_finding_def block_linear_def)
qed

end
