(* ===== verification/Oxide.thy ===== *)
theory Oxide
  imports Mem_Props Warp
begin

text \<open>
  \<^verbatim>\<open>src/oxide.rs\<close>: the surface for kernels that take their identity from free functions. \<^verbatim>\<open>CURRENT\<close> is a
  variable of each operating-system thread, and a simulated thread has one to itself: it is \<open>cur\<close>, an
  argument of every device function. The launch it names is passed along as everywhere else; \<open>resume\<close> is what
  the rest of the launch does while the thread waits, as in \<open>Mem\<close> and \<open>Warp\<close>.
\<close>

section \<open>The binding of a thread\<close>

record bound =
  bd_block :: u32
  bd_thread :: u32
  bd_gid :: nat
  bd_slot :: nat

definition bound_of :: "thread_ctx \<Rightarrow> bound" where
  "bound_of c = \<lparr>bd_block = tc_block c, bd_thread = tc_thread c, bd_gid = tc_gid c, bd_slot = tc_slot c\<rparr>"

definition ctx_of_bound :: "bound \<Rightarrow> thread_ctx" where
  "ctx_of_bound b = \<lparr>tc_block = bd_block b, tc_thread = bd_thread b, tc_gid = bd_gid b, tc_slot = bd_slot b\<rparr>"

definition with_ctx :: "bound option \<Rightarrow> (thread_ctx \<Rightarrow> 'r) \<Rightarrow> 'r res" where
  "with_ctx cur f = (case cur of
      None \<Rightarrow> Inl (AssertFailed ''riri: a cuda-oxide device function was called outside riri::oxide::launch'')
    | Some b \<Rightarrow> Inr (f (ctx_of_bound b)))"

lemma bound_roundtrip [simp]: "ctx_of_bound (bound_of c) = c"
  by (simp add: ctx_of_bound_def bound_of_def)

lemma with_ctx_bound [simp]: "with_ctx (Some (bound_of c)) f = Inr (f c)"
  by (simp add: with_ctx_def)

text \<open>
  One thread of \<^verbatim>\<open>launch\<close>: the binding is set, the kernel runs, and the binding is cleared however the
  kernel leaves.
\<close>

definition oxide_thread :: "(bound option \<Rightarrow> 's \<Rightarrow> kernel_end \<times> 's) \<Rightarrow> thread_ctx \<Rightarrow> bound option \<Rightarrow> 's
    \<Rightarrow> kernel_end \<times> bound option \<times> 's" where
  "oxide_thread entry c cur s = (case entry (Some (bound_of c)) s of (e, s1) \<Rightarrow> (e, None, s1))"

section \<open>Identity\<close>

text \<open>A \<^verbatim>\<open>ThreadIndex\<close> is the index it stands for.\<close>

datatype thread_index = ThreadIndex (index_get: nat)

definition index_1d :: "bound option \<Rightarrow> thread_index res" where
  "index_1d cur = res_bind (with_ctx cur global_linear) (\<lambda>i. Inr (ThreadIndex i))"

text \<open>The coordinates; \<open>checks\<close> says whether \<^verbatim>\<open>from_linear\<close> was built with overflow checks.\<close>

definition thread_idx_x :: "bool \<Rightarrow> launch_state \<Rightarrow> bound option \<Rightarrow> u32 res" where
  "thread_idx_x checks l cur = res_bind (with_ctx cur (thread_idx checks l)) (\<lambda>r. res_bind r (\<lambda>d. Inr (dim_x d)))"

definition thread_idx_y :: "bool \<Rightarrow> launch_state \<Rightarrow> bound option \<Rightarrow> u32 res" where
  "thread_idx_y checks l cur = res_bind (with_ctx cur (thread_idx checks l)) (\<lambda>r. res_bind r (\<lambda>d. Inr (dim_y d)))"

definition thread_idx_z :: "bool \<Rightarrow> launch_state \<Rightarrow> bound option \<Rightarrow> u32 res" where
  "thread_idx_z checks l cur = res_bind (with_ctx cur (thread_idx checks l)) (\<lambda>r. res_bind r (\<lambda>d. Inr (dim_z d)))"

definition block_idx_x :: "bool \<Rightarrow> launch_state \<Rightarrow> bound option \<Rightarrow> u32 res" where
  "block_idx_x checks l cur = res_bind (with_ctx cur (block_idx checks l)) (\<lambda>r. res_bind r (\<lambda>d. Inr (dim_x d)))"

definition block_idx_y :: "bool \<Rightarrow> launch_state \<Rightarrow> bound option \<Rightarrow> u32 res" where
  "block_idx_y checks l cur = res_bind (with_ctx cur (block_idx checks l)) (\<lambda>r. res_bind r (\<lambda>d. Inr (dim_y d)))"

definition block_idx_z :: "bool \<Rightarrow> launch_state \<Rightarrow> bound option \<Rightarrow> u32 res" where
  "block_idx_z checks l cur = res_bind (with_ctx cur (block_idx checks l)) (\<lambda>r. res_bind r (\<lambda>d. Inr (dim_z d)))"

definition block_dim_x :: "launch_state \<Rightarrow> bound option \<Rightarrow> u32 res" where
  "block_dim_x l cur = with_ctx cur (\<lambda>c. dim_x (block_dim l))"

definition block_dim_y :: "launch_state \<Rightarrow> bound option \<Rightarrow> u32 res" where
  "block_dim_y l cur = with_ctx cur (\<lambda>c. dim_y (block_dim l))"

definition block_dim_z :: "launch_state \<Rightarrow> bound option \<Rightarrow> u32 res" where
  "block_dim_z l cur = with_ctx cur (\<lambda>c. dim_z (block_dim l))"

definition grid_dim_x :: "launch_state \<Rightarrow> bound option \<Rightarrow> u32 res" where
  "grid_dim_x l cur = with_ctx cur (\<lambda>c. dim_x (grid_dim l))"

definition oxide_warp_size :: "launch_state \<Rightarrow> bound option \<Rightarrow> u32 res" where
  "oxide_warp_size l cur = with_ctx cur (\<lambda>c. warp_size l)"

text \<open>\<^verbatim>\<open>sync_threads\<close> up to its wait; the binding does not change while the thread waits.\<close>

definition oxide_sync_enter :: "launch_state \<Rightarrow> bound option \<Rightarrow> location \<Rightarrow> (launch_state \<times> turn) res" where
  "oxide_sync_enter l cur loc = with_ctx cur (\<lambda>c. sync_threads_enter l c loc)"

definition oxide_sync_leave :: "launch_state \<Rightarrow> bound option \<Rightarrow> launch_state res" where
  "oxide_sync_leave l cur = with_ctx cur (sync_threads_leave l)"

text \<open>Both thread fences.\<close>

definition oxide_threadfence :: "launch_state \<Rightarrow> bound option \<Rightarrow> launch_state res" where
  "oxide_threadfence l cur = with_ctx cur (threadfence l)"

section \<open>Disjoint slices\<close>

text \<open>A slice is the buffer it wraps, named \<open>name\<close>; cloning shares the buffer.\<close>

definition slice_len :: "'a instrumented \<Rightarrow> nat" where
  "slice_len m = buf_len m"

definition slice_is_empty :: "'a instrumented \<Rightarrow> bool" where
  "slice_is_empty m \<longleftrightarrow> buf_is_empty m"

definition get_mut_indexed ::
  "(launch_state \<times> 'a instrumented \<Rightarrow> launch_state \<times> 'a instrumented)
     \<Rightarrow> string \<Rightarrow> bound option \<Rightarrow> location \<Rightarrow> launch_state \<Rightarrow> 'a instrumented
     \<Rightarrow> ((nat \<times> thread_index) option outcome \<times> launch_state \<times> 'a instrumented) res" where
  "get_mut_indexed resume name cur loc l m =
     res_bind (with_ctx cur global_linear) (\<lambda>index.
     res_bind (with_ctx cur (\<lambda>c. elem_mut resume name c index True loc l m)) (\<lambda>(r, l1, m1).
       Inr (case r of
              Returned elem \<Rightarrow> Returned (map_option (\<lambda>e. (e, ThreadIndex index)) elem)
            | Trapped \<Rightarrow> Trapped | Raised p \<Rightarrow> Raised p | Unwound \<Rightarrow> Unwound,
            l1, m1)))"

definition get_mut ::
  "(launch_state \<times> 'a instrumented \<Rightarrow> launch_state \<times> 'a instrumented)
     \<Rightarrow> string \<Rightarrow> bound option \<Rightarrow> thread_index \<Rightarrow> location \<Rightarrow> launch_state \<Rightarrow> 'a instrumented
     \<Rightarrow> (nat option outcome \<times> launch_state \<times> 'a instrumented) res" where
  "get_mut resume name cur idx loc l m =
     with_ctx cur (\<lambda>c. elem_mut resume name c (index_get idx) True loc l m)"

definition get_unchecked_mut ::
  "(launch_state \<times> 'a instrumented \<Rightarrow> launch_state \<times> 'a instrumented)
     \<Rightarrow> string \<Rightarrow> bound option \<Rightarrow> nat \<Rightarrow> location \<Rightarrow> launch_state \<Rightarrow> 'a instrumented
     \<Rightarrow> (nat outcome \<times> launch_state \<times> 'a instrumented) res" where
  "get_unchecked_mut resume name cur index loc l m =
     res_bind (with_ctx cur (\<lambda>c. elem_mut resume name c index False loc l m)) (\<lambda>(r, l1, m1).
       Inr (case r of
              Returned (Some e) \<Rightarrow> Returned e
            | Returned None \<Rightarrow> Raised (AssertFailed ''riri: unchecked access is never None'')
            | Trapped \<Rightarrow> Trapped | Raised p \<Rightarrow> Raised p | Unwound \<Rightarrow> Unwound,
            l1, m1))"

section \<open>Device atomics\<close>

text \<open>A handle is the index of the element it names in the buffer.\<close>

datatype device_atomic = DeviceAtomic (da_index: nat)

definition da_load where
  "da_load resume name da cur ord loc l m =
     with_ctx cur (\<lambda>c. atomic_load resume name c (da_index da) ord loc l m)"

definition da_store where
  "da_store resume name da cur v ord loc l m =
     with_ctx cur (\<lambda>c. atomic_store resume name c (da_index da) v ord loc l m)"

definition da_swap where
  "da_swap resume name da cur v ord loc l m =
     with_ctx cur (\<lambda>c. atomic_swap resume name c (da_index da) v ord loc l m)"

definition da_compare_exchange where
  "da_compare_exchange eq resume name da cur current new ord loc l m =
     with_ctx cur (\<lambda>c. atomic_compare_exchange eq resume name c (da_index da) current new ord loc l m)"

definition da_fetch_min where
  "da_fetch_min resume name da cur v ord loc l m =
     with_ctx cur (\<lambda>c. atomic_min resume name c (da_index da) v ord loc l m)"

definition da_fetch_max where
  "da_fetch_max resume name da cur v ord loc l m =
     with_ctx cur (\<lambda>c. atomic_max resume name c (da_index da) v ord loc l m)"

definition da_fetch_add where
  "da_fetch_add plus_op resume name da cur v ord loc l m =
     with_ctx cur (\<lambda>c. atomic_add plus_op resume name c (da_index da) v ord loc l m)"

definition da_fetch_sub where
  "da_fetch_sub minus_op resume name da cur v ord loc l m =
     with_ctx cur (\<lambda>c. atomic_sub minus_op resume name c (da_index da) v ord loc l m)"

definition atomic_slice :: "'a instrumented \<Rightarrow> device_atomic list" where
  "atomic_slice m = map DeviceAtomic [0..<buf_len m]"

definition atomic_slice_index :: "device_atomic list \<Rightarrow> nat \<Rightarrow> device_atomic res" where
  "atomic_slice_index handles i = (if i < length handles then Inr (handles ! i) else Inl IndexOutOfBounds)"

section \<open>Warp primitives without a mask\<close>

definition oxide_lane_id :: "launch_state \<Rightarrow> bound option \<Rightarrow> u32 res" where
  "oxide_lane_id l cur = with_ctx cur (lane_id l)"

definition oxide_warp_id :: "launch_state \<Rightarrow> bound option \<Rightarrow> u32 res" where
  "oxide_warp_id l cur = with_ctx cur (warp_id l)"

definition oxide_shuffle where
  "oxide_shuffle box unbox resume cur v src_lane at s =
     with_ctx cur (\<lambda>c. shfl_sync box unbox resume c (warp_valid_mask (fst s) c) v src_lane at s)"

definition oxide_shuffle_up where
  "oxide_shuffle_up box unbox resume cur v delta at s =
     with_ctx cur (\<lambda>c. shfl_up_sync box unbox resume c (warp_valid_mask (fst s) c) v delta at s)"

definition oxide_shuffle_down where
  "oxide_shuffle_down box unbox resume cur v delta at s =
     with_ctx cur (\<lambda>c. shfl_down_sync box unbox resume c (warp_valid_mask (fst s) c) v delta at s)"

definition oxide_shuffle_xor where
  "oxide_shuffle_xor box unbox resume cur v lane_mask at s =
     with_ctx cur (\<lambda>c. shfl_xor_sync box unbox resume c (warp_valid_mask (fst s) c) v lane_mask at s)"

text \<open>The valid mask depends only on the configuration of the wave, which no wait changes.\<close>

definition oxide_ballot where
  "oxide_ballot box unbox resume cur predicate op at s =
     with_ctx cur (\<lambda>c. ballot box unbox resume c (warp_valid_mask (fst s) c) predicate op at s)"

definition oxide_all where
  "oxide_all box unbox resume cur predicate at s =
     with_ctx cur (\<lambda>c. case ballot box unbox resume c (warp_valid_mask (fst s) c) predicate ''all'' at s of
       (e, s1) \<Rightarrow> (map_end (\<lambda>b. b = warp_valid_mask (fst s1) c) e, s1))"

definition oxide_any where
  "oxide_any box unbox resume cur predicate at s =
     with_ctx cur (\<lambda>c. case ballot box unbox resume c (warp_valid_mask (fst s) c) predicate ''any'' at s of
       (e, s1) \<Rightarrow> (map_end (\<lambda>b. b \<noteq> 0) e, s1))"

definition count_ones :: "u32 \<Rightarrow> nat" where
  "count_ones w = length (filter (bit w) [0..<32])"

definition oxide_popc where
  "oxide_popc box unbox resume cur predicate at s =
     res_bind (oxide_ballot box unbox resume cur predicate ''ballot'' at s) (\<lambda>(e, s1).
       Inr (map_end count_ones e, s1))"

end
