(* ===== verification/Oxide_Props.thy ===== *)
theory Oxide_Props
  imports Oxide
begin

text \<open>
  What the claims of a \<^verbatim>\<open>DisjointSlice\<close> guarantee: claims through the checked accessors, one element per
  thread, never race and report nothing; a raw index claimed twice is reported exactly when the two
  claims are unordered, with both lines; and where the one-dimensional index of a thread is not what
  the comment says.
\<close>

section \<open>Claims by thread index\<close>

text \<open>A context whose number is made of its block and thread, as \<^verbatim>\<open>run_thread\<close> builds it.\<close>

definition own_ctx :: "nat \<Rightarrow> thread_ctx \<Rightarrow> bool" where
  "own_ctx tpb c \<longleftrightarrow> unat (tc_thread c) < tpb \<and> tc_gid c = unat (tc_block c) * tpb + unat (tc_thread c)"

lemma own_ctx_launched:
  assumes "plan_ok p" and "f + n \<le> lp_blocks p" and "slot < n * lp_tpb p"
  shows "own_ctx (lp_tpb p) (thread_ctx_of (lp_tpb p) f slot)"
proof -
  have "0 < lp_tpb p" using assms(1) by (simp add: plan_ok_def)
  with thread_ctx_values [OF assms] show ?thesis by (simp add: own_ctx_def distrib_right)
qed

text \<open>Every access an element remembers is by the thread with the element's number.\<close>

definition owned :: "nat \<Rightarrow> 'a instrumented \<Rightarrow> bool" where
  "owned tpb m \<longleftrightarrow> buf_ok m \<and> (\<forall>i < length (in_shadow m).
     \<forall>a. cell_last_write (in_shadow m ! i) = Some a \<or> a \<in> set (cell_readers (in_shadow m ! i)) \<longrightarrow>
       unat (acc_thread a) < tpb \<and> i = unat (acc_block a) * tpb + unat (acc_thread a))"

lemma owned_enter:
  assumes "buf_ok m" and "in_launch m \<noteq> n \<or> owned tpb m"
  shows "owned tpb (enter_launch global_reset n m)"
  using assms by (auto simp: owned_def buf_ok_def enter_launch_def global_reset_def cell_default_def)

lemma same_number_same_thread:
  assumes "unat (t :: u32) < tpb" and "unat t' < tpb" and "unat (b :: u32) * tpb + unat t = unat b' * tpb + unat t'"
  shows "b = b' \<and> t = t'"
proof -
  have "0 < tpb" using assms(1) by simp
  then have "unat b = unat b'" "unat t = unat t'"
    using div_mod_block [OF _ assms(1), of "unat b"] div_mod_block [OF _ assms(2), of "unat b'"] assms(3) by metis+
  then show ?thesis by (metis unsigned_word_eqI)
qed

text \<open>What a claim does to the launch and the buffer.\<close>

lemma claim_effect:
  assumes acc: "ctx_access l c Write loc = (acc, now, l1)" and m1: "m1 = enter_launch global_reset (ls_id l) m"
  shows "elem_mut_body name c index checked loc l m =
    (if length (in_data m) \<le> index
     then (if checked then (Returned None, l1, m1)
           else (Trapped, ctx_trap (OutOfBounds (Global name) index (length (in_data m)) acc) l1, m1))
     else (Returned (Some index),
       (case fst (on_write (in_shadow m1 ! index) acc now) of
          Some first \<Rightarrow> ctx_report (DataRace (Global name) index first acc) l1 | None \<Rightarrow> l1),
       m1\<lparr>in_shadow := (in_shadow m1)[index := snd (on_write (in_shadow m1 ! index) acc now)]\<rparr>))"
proof -
  have id: "ls_id l1 = ls_id l" using ctx_access_fields(10) [of l c Write loc] acc by simp
  have len: "length (in_data m1) = length (in_data m)"
    unfolding m1 by (simp add: enter_launch_fields [OF resets_ok(1)])
  show ?thesis
    unfolding elem_mut_body_def acc prod.case id m1 [symmetric] Let_def len global_space_def
    by (simp split: prod.split option.split)
qed

lemma own_claim:
  assumes own: "own_ctx tpb c" and ok: "buf_ok m" and inv: "in_launch m \<noteq> ls_id l \<or> owned tpb m"
    and body: "elem_mut_body name c (tc_gid c) True loc l m = (r, l', m')"
  shows "owned tpb m' \<and> in_launch m' = ls_id l \<and> in_data m' = in_data m \<and> ls_world l' = ls_world l
    \<and> r = Returned (if tc_gid c < length (in_data m) then Some (tc_gid c) else None)"
proof -
  obtain acc now l1 where acc: "ctx_access l c Write loc = (acc, now, l1)" by (metis prod_cases3)
  define m1 where "m1 = enter_launch global_reset (ls_id l) m"
  have m1_owned: "owned tpb m1" unfolding m1_def by (rule owned_enter [OF ok inv])
  have f: "in_data m1 = in_data m" "in_launch m1 = ls_id l" "length (in_shadow m1) = length (in_shadow m)"
    unfolding m1_def by (simp_all add: enter_launch_fields [OF resets_ok(1)])
  have a: "acc_block acc = tc_block c" "acc_thread acc = tc_thread c" "ls_world l1 = ls_world l"
    using ctx_access_fields(1,2,9) [of l c Write loc] acc by simp_all
  note eff = claim_effect [OF acc m1_def, of name "tc_gid c" True]
  show ?thesis
  proof (cases "length (in_data m) \<le> tc_gid c")
    case True
    with eff body m1_owned f a show ?thesis by simp
  next
    case False
    let ?cell = "in_shadow m1 ! tc_gid c"
    have lt: "tc_gid c < length (in_shadow m1)" using False ok f by (simp add: buf_ok_def)
    have "\<not> concurrent w acc now" if "cell_last_write ?cell = Some w \<or> w \<in> set (cell_readers ?cell)" for w
    proof -
      have "unat (acc_thread w) < tpb" "tc_gid c = unat (acc_block w) * tpb + unat (acc_thread w)"
        using m1_owned lt that by (auto simp: owned_def)
      then have "acc_block w = tc_block c \<and> acc_thread w = tc_thread c"
        using own by (intro same_number_same_thread [of _ tpb]) (simp_all add: own_ctx_def)
      then show ?thesis by (simp add: concurrent_def a)
    qed
    then have "fst (on_write ?cell acc now) = None" by (auto simp: on_write_conflict_None)
    with eff body False have b: "r = Returned (Some (tc_gid c))" "l' = l1"
      "m' = m1\<lparr>in_shadow := (in_shadow m1)[tc_gid c := snd (on_write ?cell acc now)]\<rparr>" by simp_all
    have "owned tpb m'"
      using m1_owned own a lt unfolding b(3) owned_def
      by (auto simp: buf_ok_def own_ctx_def nth_list_update)
    with b f a False show ?thesis by simp
  qed
qed

record claim =
  cl_launch :: launch_state
  cl_ctx :: thread_ctx
  cl_loc :: location

definition claim_body :: "string \<Rightarrow> 'a instrumented \<Rightarrow> claim \<Rightarrow> nat option outcome \<times> launch_state \<times> 'a instrumented" where
  "claim_body name m q = elem_mut_body name (cl_ctx q) (global_linear (cl_ctx q)) True (cl_loc q) (cl_launch q) m"

definition slice_after :: "string \<Rightarrow> 'a instrumented \<Rightarrow> claim list \<Rightarrow> 'a instrumented" where
  "slice_after name m qs = foldl (\<lambda>m q. snd (snd (claim_body name m q))) m qs"

lemma slice_after_owned:
  assumes "buf_ok m" and "in_launch m \<noteq> n" and "\<forall>q \<in> set qs. ls_id (cl_launch q) = n \<and> own_ctx tpb (cl_ctx q)"
  shows "buf_ok (slice_after name m qs) \<and> (in_launch (slice_after name m qs) \<noteq> n \<or> owned tpb (slice_after name m qs))
    \<and> in_data (slice_after name m qs) = in_data m"
  using assms(3)
proof (induction qs rule: rev_induct)
  case Nil
  then show ?case using assms(1,2) by (simp add: slice_after_def)
next
  case (snoc q qs)
  obtain r l' m' where b: "claim_body name (slice_after name m qs) q = (r, l', m')" by (metis prod_cases3)
  have q: "ls_id (cl_launch q) = n" "own_ctx tpb (cl_ctx q)" using snoc.prems by simp_all
  have "owned tpb m' \<and> in_data m' = in_data (slice_after name m qs)"
    using own_claim [OF q(2) _ _ b [unfolded claim_body_def global_linear_def]] snoc q(1) by auto
  moreover have "slice_after name m (qs @ [q]) = m'" using b by (simp add: slice_after_def)
  ultimately show ?case using snoc by (simp add: owned_def)
qed

text \<open>
  C33: disjoint slices are race free. When the threads of a launch claim elements by their own index, as
  \<^verbatim>\<open>get_mut_indexed\<close> does, in any order and any number of times, no claim reports anything: each thread gets
  the element with its number, or nothing when its number is past the end, and no element changes by
  the claim itself.
\<close>

theorem own_claims_never_race:
  assumes "buf_ok m" and "in_launch m \<noteq> n"
    and "\<forall>q \<in> set (qs @ [q]). ls_id (cl_launch q) = n \<and> own_ctx tpb (cl_ctx q)"
    and "claim_body name (slice_after name m qs) q = (r, l', m')"
  shows "ls_world l' = ls_world (cl_launch q) \<and> in_data m' = in_data m
    \<and> r = Returned (if global_linear (cl_ctx q) < buf_len m then Some (global_linear (cl_ctx q)) else None)"
proof -
  have qs: "\<forall>q \<in> set qs. ls_id (cl_launch q) = n \<and> own_ctx tpb (cl_ctx q)" "own_ctx tpb (cl_ctx q)"
    "ls_id (cl_launch q) = n" using assms(3) by simp_all
  note inv = slice_after_owned [OF assms(1,2) qs(1), of name]
  show ?thesis
    using own_claim [OF qs(2) _ _ assms(4) [unfolded claim_body_def global_linear_def]] inv qs(3)
    by (auto simp: global_linear_def buf_len_def)
qed

definition sample_claim :: "nat \<Rightarrow> claim" where
  "sample_claim slot = \<lparr>cl_launch = sample_launch 2 2 [], cl_ctx = thread_ctx_of 2 0 slot, cl_loc = Location ''k.rs'' 4 9\<rparr>"

lemma sample_claim_ok:
  assumes "slot < 4"
  shows "ls_id (cl_launch (sample_claim slot)) = 1 \<and> own_ctx 2 (cl_ctx (sample_claim slot))"
proof -
  have "slot = 0 \<or> slot = 1 \<or> slot = 2 \<or> slot = 3" using assms by auto
  then show ?thesis
    by (auto simp: sample_claim_def sample_launch_def own_ctx_def thread_ctx_of_def Let_def unat_of_nat)
qed

theorem own_claims_never_race_witness:
  "fst (claim_body ''c'' (slice_after ''c'' (global_new [5, 6, 7 :: nat]) [sample_claim 0, sample_claim 3, sample_claim 1])
      (sample_claim 2)) = Returned (Some 2)"
proof -
  let ?qs = "[sample_claim 0, sample_claim 3, sample_claim 1]" and ?m = "global_new [5, 6, 7 :: nat]"
  obtain r l' m' where b: "claim_body ''c'' (slice_after ''c'' ?m ?qs) (sample_claim 2) = (r, l', m')"
    by (metis prod_cases3)
  have new: "in_launch ?m \<noteq> 1" by (simp add: global_new_def)
  have all: "\<forall>q \<in> set (?qs @ [sample_claim 2]). ls_id (cl_launch q) = 1 \<and> own_ctx 2 (cl_ctx q)"
    using sample_claim_ok by simp
  have "global_linear (cl_ctx (sample_claim 2)) = 2"
    by (simp add: sample_claim_def global_linear_def thread_ctx_of_def Let_def)
  with own_claims_never_race [OF fresh_buf_ok(1) new all b] show ?thesis
    unfolding b by (simp add: buf_len_def global_new_def)
qed

section \<open>Claims by a raw index\<close>

text \<open>
  C34: a raw index claimed twice. When two threads of a launch claim one element of a buffer by its raw
  index, one after the other, the second claim is reported as a data race exactly when the first is not
  ordered before it, and the finding names the element and both claims with their lines; either way the
  second claim gets the element. An index past the end aborts the launch with an out-of-bounds finding.
\<close>

theorem second_raw_claim_is_checked:
  assumes "buf_ok m" and "ls_id l2 = ls_id l1"
    and "elem_mut_body name c1 i False loc1 l1 m = (r1, l1', m1)"
    and "elem_mut_body name c2 i False loc2 l2 m1 = (r2, l2', m2)"
    and "ctx_access l1 c1 Write loc1 = (a1, now1, k1)" and "ctx_access l2 c2 Write loc2 = (a2, now2, k2)"
  shows "if i < buf_len m
    then r2 = Returned (Some i) \<and> acc_loc a1 = loc1 \<and> acc_loc a2 = loc2
      \<and> w_rep (ls_world l2') = (if concurrent a1 a2 now2
            then reporter_push (w_rep (ls_world l2)) (DataRace (Global name) i a1 a2) else w_rep (ls_world l2))
    else r2 = Trapped \<and> st_aborted (ls_st l2')
      \<and> w_rep (ls_world l2') = reporter_push (w_rep (ls_world l2)) (OutOfBounds (Global name) i (buf_len m) a2)"
proof -
  define n1 where "n1 = enter_launch global_reset (ls_id l1) m"
  have f: "in_data n1 = in_data m" "in_launch n1 = ls_id l1" "length (in_shadow n1) = length (in_shadow m)"
    unfolding n1_def by (simp_all add: enter_launch_fields [OF resets_ok(1)])
  note one = claim_effect [OF assms(5) n1_def, of name i False, unfolded assms(3)]
  have m1: "m1 = (if buf_len m \<le> i then n1
      else n1\<lparr>in_shadow := (in_shadow n1)[i := snd (on_write (in_shadow n1 ! i) a1 now1)]\<rparr>)"
    using one by (simp add: buf_len_def split: if_splits)
  then have same: "in_data m1 = in_data m" "in_launch m1 = ls_id l2" using f assms(2) by simp_all
  then have enter: "m1 = enter_launch global_reset (ls_id l2) m1" by (simp add: enter_launch_def)
  note two = claim_effect [OF assms(6) enter, of name i False, unfolded assms(4)]
  have w: "ls_world k2 = ls_world l2" "acc_loc a1 = loc1" "acc_loc a2 = loc2"
    using ctx_access_fields(9) [of l2 c2 Write loc2] ctx_access_fields(8) [of l1 c1 Write loc1]
      ctx_access_fields(8) [of l2 c2 Write loc2] assms(5,6) by simp_all
  show ?thesis
  proof (cases "i < buf_len m")
    case True
    then have lt: "i < length (in_shadow n1)" using assms(1) f by (simp add: buf_ok_def buf_len_def)
    with True m1 have cell: "in_shadow m1 ! i = snd (on_write (in_shadow n1 ! i) a1 now1)" by simp
    have "fst (on_write (in_shadow m1 ! i) a2 now2) = (if concurrent a1 a2 now2 then Some a1 else None)"
      unfolding cell by (simp add: on_write_def filter_option_def Let_def)
    with True two same w show ?thesis by (simp add: buf_len_def)
  next
    case False
    with two same w show ?thesis by (simp add: buf_len_def ls_st_def)
  qed
qed

theorem second_raw_claim_is_checked_witness:
  "\<exists>r l' m' r2 l2' m2 a1 a2.
     elem_mut_body ''c'' (thread_ctx_of 2 0 0) 1 False (Location ''k.rs'' 4 9) (sample_launch 2 2 []) (global_new [5, 6 :: nat]) = (r, l', m')
     \<and> elem_mut_body ''c'' (thread_ctx_of 2 0 2) 1 False (Location ''k.rs'' 7 9) (sample_launch 2 2 []) m' = (r2, l2', m2)
     \<and> w_rep (ls_world l2') = reporter_push (w_rep (ls_world (sample_launch 2 2 []))) (DataRace (Global ''c'') 1 a1 a2)
     \<and> acc_loc a1 = Location ''k.rs'' 4 9 \<and> acc_loc a2 = Location ''k.rs'' 7 9"
proof -
  let ?l = "sample_launch 2 2 []" and ?m = "global_new [5, 6 :: nat]"
  let ?c1 = "thread_ctx_of 2 0 0" and ?c2 = "thread_ctx_of 2 0 2"
  obtain r l' m' where one: "elem_mut_body ''c'' ?c1 1 False (Location ''k.rs'' 4 9) ?l ?m = (r, l', m')" by (metis prod_cases3)
  obtain r2 l2' m2 where two: "elem_mut_body ''c'' ?c2 1 False (Location ''k.rs'' 7 9) ?l m' = (r2, l2', m2)" by (metis prod_cases3)
  obtain a1 now1 k1 where a1: "ctx_access ?l ?c1 Write (Location ''k.rs'' 4 9) = (a1, now1, k1)" by (metis prod_cases3)
  obtain a2 now2 k2 where a2: "ctx_access ?l ?c2 Write (Location ''k.rs'' 7 9) = (a2, now2, k2)" by (metis prod_cases3)
  note f1 = ctx_access_fields [of ?l ?c1 Write "Location ''k.rs'' 4 9", unfolded a1 fst_conv]
  note f2 = ctx_access_fields [of ?l ?c2 Write "Location ''k.rs'' 7 9", unfolded a2 fst_conv]
  have blocks: "acc_block a1 = 0" "acc_block a2 = 1"
    using f1(1) f2(1) by (simp_all add: thread_ctx_of_def Let_def)
  have parts: "acc_thread a1 = 0" "acc_seq a1 = 1" "acc_kind a1 = Write"
    using f1(2,6,7) by (simp_all add: thread_ctx_of_def sample_launch_def sync_new_def Let_def)
  have "clock_get now2 (key 0 0) = 0"
    using a2 by (auto simp: ctx_access_def tick_def sample_launch_def sync_new_def clock_of_def thread_ctx_of_def Let_def
      split: prod.splits)
  then have conc: "concurrent a1 a2 now2" using blocks parts by (simp add: concurrent_def)
  have lt: "1 < buf_len ?m" by (simp add: buf_len_def global_new_def)
  show ?thesis
    using second_raw_claim_is_checked [OF fresh_buf_ok(1) refl one two a1 a2] conc one two
    unfolding if_P [OF lt] by auto
qed

section \<open>The one-dimensional index\<close>

text \<open>
  \<^verbatim>\<open>index_1d\<close> is the global number of the thread. In a block of more than one dimension that is not
  \<^verbatim>\<open>blockIdx.x * blockDim.x + threadIdx.x\<close>, as its comment has it: thread (0, 1) of a block of 2 by 2 has
  index 2, where the formula gives 0.
\<close>

theorem index_is_not_the_formula:
  assumes "cur = Some (bound_of (thread_ctx_of 4 0 2))"
    and "l = (sample_launch 1 4 [])\<lparr>ls_config := launch_config_new (dim3_from_u32 1) (dim3_from_pair (2, 2))\<rparr>"
  shows "index_1d cur = Inr (ThreadIndex 2) \<and> block_idx_x True l cur = Inr 0 \<and> block_dim_x l cur = Inr 2
    \<and> thread_idx_x True l cur = Inr 0"
  using assms
  by (simp add: index_1d_def block_idx_x_def block_dim_x_def thread_idx_x_def global_linear_def block_idx_def
    thread_idx_def block_dim_def thread_ctx_of_def from_linear_def launch_config_new_def dim3_from_u32_def
    dim3_from_pair_def dim3_new_def Let_def div_u32_def rem_u32_def mul_u32_def)

end
