(* ===== verification/Explore.thy ===== *)
theory Explore
  imports Launch
begin

text \<open>
  \<^verbatim>\<open>src/explore.rs\<close>: searching seeds for a schedule that finds something, and shrinking the schedule that
  does. \<open>run\<close> is \<^verbatim>\<open>run_once\<close>, the launch: it takes the configuration and the source of decisions and returns
  the report, the recorded trace and whether it is complete. It may read and change the host's state
  (the buffers the kernel captures), which is passed through.
\<close>

section \<open>Schedules\<close>

datatype schedule = Schedule (schedule_plan: "u32 list")

definition schedule_len :: "schedule \<Rightarrow> nat" where
  "schedule_len s = length (schedule_plan s)"

definition schedule_is_empty :: "schedule \<Rightarrow> bool" where
  "schedule_is_empty s \<longleftrightarrow> schedule_plan s = []"

fun windows2 :: "'a list \<Rightarrow> ('a \<times> 'a) list" where
  "windows2 (x # y # xs) = (x, y) # windows2 (y # xs)"
| "windows2 _ = []"

definition switches :: "schedule \<Rightarrow> nat" where
  "switches s = length (filter (\<lambda>(a, b). a \<noteq> b) (windows2 (schedule_plan s)))"

datatype shrink =
    Minimised schedule
  | Disabled
  | TraceTruncated
  | NotReproducible

definition shrink_schedule :: "shrink \<Rightarrow> schedule option" where
  "shrink_schedule s = (case s of Minimised sch \<Rightarrow> Some sch | _ \<Rightarrow> None)"

record failure =
  fail_seed :: u64
  fail_report :: report
  fail_shrink :: shrink
  fail_decisions :: nat

definition first_fingerprint :: "report \<Rightarrow> string option" where
  "first_fingerprint r = (case diagnostics r of [] \<Rightarrow> None | d # _ \<Rightarrow> Some (fingerprint d))"

definition failure_target :: "failure \<Rightarrow> string option" where
  "failure_target f = first_fingerprint (fail_report f)"

record exploration =
  seeds_tried :: u64
  found_failure :: "failure option"

definition exploration_is_clean :: "exploration \<Rightarrow> bool" where
  "exploration_is_clean e \<longleftrightarrow> found_failure e = None"

section \<open>The builder\<close>

record explore_opts =
  ex_base :: launch_config
  ex_seeds :: u64
  ex_minimise :: bool
  ex_budget :: nat

definition explore_new :: "launch_config \<Rightarrow> explore_opts" where
  "explore_new config = \<lparr>ex_base = config, ex_seeds = 64, ex_minimise = True, ex_budget = 256\<rparr>"

definition with_seeds :: "explore_opts \<Rightarrow> u64 \<Rightarrow> explore_opts" where
  "with_seeds ex n = ex\<lparr>ex_seeds := n\<rparr>"

definition with_minimise :: "explore_opts \<Rightarrow> bool \<Rightarrow> explore_opts" where
  "with_minimise ex b = ex\<lparr>ex_minimise := b\<rparr>"

definition with_budget :: "explore_opts \<Rightarrow> nat \<Rightarrow> explore_opts" where
  "with_budget ex n = ex\<lparr>ex_budget := n\<rparr>"

section \<open>Shrinking\<close>

type_synonym 's launcher = "launch_config \<Rightarrow> choices \<Rightarrow> 's \<Rightarrow> (report \<times> u32 list \<times> bool) \<times> 's"

text \<open>
  A test of a plan: whether it reproduces the target, with the budget that is left and the host's state.
\<close>

type_synonym 's tester = "u32 list \<Rightarrow> nat \<times> 's \<Rightarrow> bool \<times> nat \<times> 's"

definition reproduces :: "'s launcher \<Rightarrow> launch_config \<Rightarrow> string \<Rightarrow> 's tester" where
  "reproduces run config target plan bs =
     (case bs of (budget, s) \<Rightarrow>
        if budget = 0 then (False, budget, s)
        else case run config (Replay plan 0) s of ((report, trace, complete), s1) \<Rightarrow>
               (contains report target, budget - 1, s1))"

text \<open>The doubling loop; the step starts at 1. It returns \<^verbatim>\<open>lo\<close> and \<^verbatim>\<open>hi\<close>.\<close>

function double_loop :: "'s tester \<Rightarrow> u32 list \<Rightarrow> nat \<Rightarrow> nat \<Rightarrow> nat \<times> 's \<Rightarrow> (nat \<times> nat) \<times> nat \<times> 's" where
  "double_loop test trace lo step bs =
     (if 0 < step \<and> step < length trace
      then case test (take step trace) bs of (found, bs1) \<Rightarrow>
             if found then ((lo, step), bs1) else double_loop test trace step (step * 2) bs1
      else ((lo, length trace), bs))"
  by pat_completeness auto
termination
  by (relation "measure (\<lambda>(test, trace, lo, step, bs). length trace - step)") auto

declare double_loop.simps [simp del]

function bisect_loop :: "'s tester \<Rightarrow> u32 list \<Rightarrow> nat \<Rightarrow> nat \<Rightarrow> nat \<times> 's \<Rightarrow> nat \<times> nat \<times> 's" where
  "bisect_loop test trace lo hi bs =
     (if lo + 1 < hi
      then let mid = lo + (hi - lo) div 2
           in case test (take mid trace) bs of (found, bs1) \<Rightarrow>
                if found then bisect_loop test trace lo mid bs1 else bisect_loop test trace mid hi bs1
      else (hi, bs))"
  by pat_completeness auto
termination
  by (relation "measure (\<lambda>(test, trace, lo, hi, bs). hi - lo)") auto

declare bisect_loop.simps [simp del]

text \<open>One turn of each loop.\<close>

lemma double_go:
  assumes "0 < step" and "step < length trace" and "test (take step trace) bs = (found, bs1)"
  shows "double_loop test trace lo step bs =
    (if found then ((lo, step), bs1) else double_loop test trace step (step * 2) bs1)"
  using assms by (subst double_loop.simps) simp

lemma double_stop:
  assumes "\<not> (0 < step \<and> step < length trace)"
  shows "double_loop test trace lo step bs = ((lo, length trace), bs)"
  by (subst double_loop.simps) (simp only: if_not_P [OF assms])

lemma bisect_go:
  assumes "lo + 1 < hi" and "mid = lo + (hi - lo) div 2" and "test (take mid trace) bs = (found, bs1)"
  shows "bisect_loop test trace lo hi bs =
    (if found then bisect_loop test trace lo mid bs1 else bisect_loop test trace mid hi bs1)"
  using assms by (subst bisect_loop.simps) (simp add: Let_def)

lemma bisect_stop: "\<not> lo + 1 < hi \<Longrightarrow> bisect_loop test trace lo hi bs = (hi, bs)"
  by (subst bisect_loop.simps) simp

lemma bisect_mid:
  assumes "lo + 1 < (hi :: nat)" and "mid = lo + (hi - lo) div 2"
  shows "lo < mid" "mid < hi" "mid - lo < hi - lo" "hi - mid < hi - lo"
  using assms by auto

definition shortest_prefix :: "'s tester \<Rightarrow> u32 list \<Rightarrow> nat \<times> 's \<Rightarrow> nat \<times> nat \<times> 's" where
  "shortest_prefix test trace bs =
     (case test [] bs of (found, bs1) \<Rightarrow>
        if found then (0, bs1)
        else case double_loop test trace 0 1 bs1 of ((lo, hi), bs2) \<Rightarrow> bisect_loop test trace lo hi bs2)"

fun drop_switches :: "'s tester \<Rightarrow> nat list \<Rightarrow> u32 list \<Rightarrow> nat \<times> 's \<Rightarrow> u32 list \<times> nat \<times> 's" where
  "drop_switches test [] plan bs = (plan, bs)"
| "drop_switches test (i # is) plan bs =
     (if fst bs = 0 then (plan, bs)
      else if plan ! i = plan ! (i - 1) then drop_switches test is plan bs
      else let candidate = plan[i := plan ! (i - 1)]
           in case test candidate bs of (found, bs1) \<Rightarrow>
                drop_switches test is (if found then candidate else plan) bs1)"

definition shrink_failure ::
  "explore_opts \<Rightarrow> 's launcher \<Rightarrow> launch_config \<Rightarrow> report \<Rightarrow> u32 list \<Rightarrow> bool \<Rightarrow> 's \<Rightarrow> shrink \<times> 's" where
  "shrink_failure ex run config report trace complete s =
     (if \<not> ex_minimise ex then (Disabled, s)
      else if \<not> complete then (TraceTruncated, s)
      else case first_fingerprint report of
        None \<Rightarrow> (Disabled, s)
      | Some target \<Rightarrow>
          let test = reproduces run config target
          in case test trace (ex_budget ex, s) of (found, bs) \<Rightarrow>
             if \<not> found then (NotReproducible, snd bs)
             else case shortest_prefix test trace bs of (hi, bs1) \<Rightarrow>
                  case drop_switches test [1..<length (take hi trace)] (take hi trace) bs1 of (plan, bs2) \<Rightarrow>
                    (Minimised (Schedule plan), snd bs2))"

section \<open>Searching\<close>

fun search_from :: "explore_opts \<Rightarrow> 's launcher \<Rightarrow> nat \<Rightarrow> nat \<Rightarrow> 's \<Rightarrow> exploration \<times> 's" where
  "search_from ex run i 0 s = (\<lparr>seeds_tried = ex_seeds ex, found_failure = None\<rparr>, s)"
| "search_from ex run i (Suc n) s =
     (let seed = lc_seed (ex_base ex) + of_nat i;
          config = (ex_base ex)\<lparr>lc_seed := seed\<rparr>
      in case run config (Random seed) s of ((report, trace, complete), s1) \<Rightarrow>
         if is_clean report then search_from ex run (i + 1) n s1
         else case shrink_failure ex run config report trace complete s1 of (sh, s2) \<Rightarrow>
           (\<lparr>seeds_tried = of_nat i + 1,
             found_failure = Some \<lparr>fail_seed = seed, fail_report = report, fail_shrink = sh,
               fail_decisions = length trace\<rparr>\<rparr>, s2))"

definition search :: "explore_opts \<Rightarrow> 's launcher \<Rightarrow> 's \<Rightarrow> exploration \<times> 's" where
  "search ex run s = search_from ex run 0 (unat (ex_seeds ex)) s"

definition explore :: "'s launcher \<Rightarrow> launch_config \<Rightarrow> u64 \<Rightarrow> 's \<Rightarrow> exploration \<times> 's" where
  "explore run config seeds s = search (with_seeds (explore_new config) seeds) run s"

definition replay :: "'s launcher \<Rightarrow> launch_config \<Rightarrow> schedule \<Rightarrow> 's \<Rightarrow> report \<times> 's" where
  "replay run config sch s =
     (case run config (Replay (schedule_plan sch) 0) s of ((report, trace, complete), s1) \<Rightarrow> (report, s1))"

end
