(* ===== verification/Explore_Props.thy ===== *)
theory Explore_Props
  imports Explore Sched_Replay
begin

text \<open>
  What exploration promises: the first failing seed is the one reported, a shrunk schedule reproduces the
  finding and is never longer or less readable than the recording, shrinking stays within its budget, the
  prefix it keeps is as short as its search can see, and a deterministic kernel is never called
  irreproducible.
\<close>

section \<open>What every test keeps\<close>

text \<open>
  The loops of the shrinker do nothing with the budget and the host's state but pass them to the test; so
  whatever every test keeps, the whole of shrinking keeps.
\<close>

locale tester_invariant =
  fixes test :: "'s tester" and keeps :: "nat \<times> 's \<Rightarrow> bool"
  assumes test_keeps: "keeps bs \<Longrightarrow> keeps (snd (test plan bs))"
begin

lemma double_keeps: "keeps bs \<Longrightarrow> keeps (snd (double_loop test trace lo step bs))"
proof (induction "length trace - step" arbitrary: lo step bs rule: less_induct)
  case less
  show ?case
  proof (cases "0 < step \<and> step < length trace")
    case True
    obtain found bs1 where t: "test (take step trace) bs = (found, bs1)" by (cases "test (take step trace) bs")
    then have "keeps bs1" using test_keeps [OF less.prems, of "take step trace"] by simp
    moreover have "length trace - step * 2 < length trace - step" using True by arith
    ultimately show ?thesis
      using less.hyps [of "step * 2" bs1 step] True t by (simp add: double_go)
  next
    case False
    show ?thesis unfolding double_stop [OF False] using less.prems by simp
  qed
qed

lemma bisect_keeps: "keeps bs \<Longrightarrow> keeps (snd (bisect_loop test trace lo hi bs))"
proof (induction "hi - lo" arbitrary: lo hi bs rule: less_induct)
  case less
  show ?case
  proof (cases "lo + 1 < hi")
    case True
    define mid where "mid = lo + (hi - lo) div 2"
    obtain found bs1 where t: "test (take mid trace) bs = (found, bs1)" by (cases "test (take mid trace) bs")
    then have k: "keeps bs1" using test_keeps [OF less.prems, of "take mid trace"] by simp
    note m = bisect_mid [OF True mid_def]
    show ?thesis
      unfolding bisect_go [where test = test, OF True mid_def t]
      using less.hyps [OF m(3) k] less.hyps [OF m(4) k] by simp
  next
    case False
    then show ?thesis using less.prems by (simp add: bisect_stop)
  qed
qed

lemma prefix_keeps:
  assumes "keeps bs"
  shows "keeps (snd (shortest_prefix test trace bs))"
proof -
  obtain found bs1 where t: "test [] bs = (found, bs1)" by (cases "test [] bs")
  then have k1: "keeps bs1" using test_keeps [OF assms, of "[]"] by simp
  obtain lo hi bs2 where d: "double_loop test trace 0 1 bs1 = ((lo, hi), bs2)" by (metis surj_pair)
  then have "keeps bs2" using double_keeps [OF k1, of trace 0 1] by simp
  from bisect_keeps [OF this] show ?thesis using t k1 d by (simp add: shortest_prefix_def)
qed

lemma drop_keeps: "keeps bs \<Longrightarrow> keeps (snd (drop_switches test idx plan bs))"
proof (induction idx arbitrary: plan bs)
  case (Cons i idx)
  then show ?case using test_keeps [of bs "plan[i := plan ! (i - 1)]"]
    by (auto simp: Let_def split: prod.split)
qed simp

end

section \<open>The budget\<close>

text \<open>A launcher that counts its runs.\<close>

definition counted :: "'s launcher \<Rightarrow> ('s \<times> nat) launcher" where
  "counted run config ch sk =
     (case sk of (s, k) \<Rightarrow> case run config ch s of (r, s1) \<Rightarrow> (r, (s1, k + 1)))"

interpretation counted_test: tester_invariant "reproduces (counted run) config target"
    "\<lambda>bs. fst bs + snd (snd bs) = total"
  for run :: "'s launcher" and config target total
  by unfold_locales (auto simp: reproduces_def counted_def split: prod.splits)

text \<open>
  Shrinking spends at most its budget: whatever the launches do, no more than \<open>ex_budget\<close> of them are
  made after the failing one.
\<close>

theorem shrinking_within_budget:
  "snd (snd (shrink_failure ex (counted run) config report trace complete (s, k))) \<le> k + ex_budget ex"
proof (cases "ex_minimise ex \<and> complete \<and> first_fingerprint report \<noteq> None")
  case False
  then show ?thesis by (auto simp: shrink_failure_def)
next
  case True
  then obtain target where target: "first_fingerprint report = Some target" by auto
  let ?test = "reproduces (counted run) config target" and ?total = "ex_budget ex + k"
  obtain found bs where t: "?test trace (ex_budget ex, (s, k)) = (found, bs)"
    by (cases "?test trace (ex_budget ex, (s, k))")
  have k1: "fst bs + snd (snd bs) = ?total"
    using counted_test.test_keeps [where plan = trace and run = run and config = config and target = target
        and bs = "(ex_budget ex, (s, k))" and total = ?total] t by simp
  obtain hi bs1 where p: "shortest_prefix ?test trace bs = (hi, bs1)" by (cases "shortest_prefix ?test trace bs")
  have k2: "fst bs1 + snd (snd bs1) = ?total" using counted_test.prefix_keeps [where trace = trace and run = run and config = config and target = target, OF k1] p by simp
  obtain plan bs2 where d: "drop_switches ?test [1..<length (take hi trace)] (take hi trace) bs1 = (plan, bs2)"
    by (metis surj_pair)
  have k3: "fst bs2 + snd (snd bs2) = ?total"
    using counted_test.drop_keeps [where idx = "[1..<length (take hi trace)]" and plan = "take hi trace"
        and run = run and config = config and target = target, OF k2] d by simp
  show ?thesis
  proof (cases found)
    case True
    then show ?thesis using \<open>ex_minimise ex \<and> _\<close> target t p d k3 by (simp add: shrink_failure_def Let_def)
  next
    case False
    then show ?thesis using \<open>ex_minimise ex \<and> _\<close> target t k1 by (simp add: shrink_failure_def Let_def)
  qed
qed

section \<open>The shrunk schedule\<close>

text \<open>Some run of the plan showed the target.\<close>

definition accepted :: "'s tester \<Rightarrow> u32 list \<Rightarrow> bool" where
  "accepted test plan \<longleftrightarrow> (\<exists>bs. fst (test plan bs))"

lemma acceptedI: "test plan bs = (True, bs') \<Longrightarrow> accepted test plan"
  by (metis accepted_def fst_conv)

lemma double_accepted:
  assumes "accepted test trace" and "double_loop test trace lo step bs = ((lo', hi), bs')"
  shows "accepted test (take hi trace) \<and> hi \<le> length trace"
  using assms(2)
proof (induction "length trace - step" arbitrary: lo step bs rule: less_induct)
  case less
  show ?case
  proof (cases "0 < step \<and> step < length trace")
    case True
    then have step: "0 < step" "step < length trace" by simp_all
    obtain found bs1 where t: "test (take step trace) bs = (found, bs1)" by (cases "test (take step trace) bs")
    note go = less.prems [unfolded double_go [where test = test, OF step t]]
    show ?thesis
    proof (cases found)
      case True
      then show ?thesis using go step(2) acceptedI [of test "take step trace" bs bs1] t by simp
    next
      case False
      have "length trace - step * 2 < length trace - step" using step by arith
      from less.hyps [OF this] go False show ?thesis by simp
    qed
  next
    case False
    show ?thesis using less.prems [unfolded double_stop [OF False]] assms(1) by simp
  qed
qed

lemma bisect_accepted:
  assumes "accepted test (take hi trace)" and "hi \<le> length trace" and "bisect_loop test trace lo hi bs = (h, bs')"
  shows "accepted test (take h trace) \<and> h \<le> length trace"
  using assms
proof (induction "hi - lo" arbitrary: lo hi bs rule: less_induct)
  case less
  show ?case
  proof (cases "lo + 1 < hi")
    case True
    define mid where "mid = lo + (hi - lo) div 2"
    note m = bisect_mid [OF True mid_def]
    obtain found bs1 where t: "test (take mid trace) bs = (found, bs1)" by (cases "test (take mid trace) bs")
    note go = less.prems(3) [unfolded bisect_go [where test = test, OF True mid_def t]]
    show ?thesis
    proof (cases found)
      case True
      then have "accepted test (take mid trace)" using acceptedI [of test "take mid trace" bs bs1] t by simp
      moreover have "mid \<le> length trace" using m(2) less.prems(2) by simp
      moreover have "bisect_loop test trace lo mid bs1 = (h, bs')" using go True by simp
      ultimately show ?thesis by (rule less.hyps [OF m(3)])
    next
      case False
      then have "bisect_loop test trace mid hi bs1 = (h, bs')" using go by simp
      then show ?thesis by (rule less.hyps [OF m(4) less.prems(1,2)])
    qed
  next
    case False
    then show ?thesis using less.prems by (simp add: bisect_stop)
  qed
qed

lemma prefix_accepted:
  assumes "accepted test trace" and "shortest_prefix test trace bs = (hi, bs')"
  shows "accepted test (take hi trace) \<and> hi \<le> length trace"
proof -
  obtain found bs1 where t: "test [] bs = (found, bs1)" by (cases "test [] bs")
  show ?thesis
  proof (cases found)
    case True
    then show ?thesis using assms(2) t acceptedI [of test "[]" bs bs1] by (simp add: shortest_prefix_def)
  next
    case False
    obtain lo h bs2 where d: "double_loop test trace 0 1 bs1 = ((lo, h), bs2)" by (metis surj_pair)
    from double_accepted [OF assms(1) d] have "accepted test (take h trace)" "h \<le> length trace" by auto
    from bisect_accepted [OF this, of lo bs2 hi bs'] show ?thesis using assms(2) t False d by (simp add: shortest_prefix_def)
  qed
qed

text \<open>The positions at which a plan passes the turn on.\<close>

definition switch_set :: "u32 list \<Rightarrow> nat set" where
  "switch_set xs = {k. Suc k < length xs \<and> xs ! k \<noteq> xs ! Suc k}"

lemma windows2_zip: "windows2 xs = zip xs (tl xs)"
  by (induction xs rule: windows2.induct) simp_all

lemma switches_card: "switches (Schedule xs) = card (switch_set xs)"
proof -
  have "k < length (zip xs (tl xs)) \<and> (case zip xs (tl xs) ! k of (a, b) \<Rightarrow> a \<noteq> b) \<longleftrightarrow> k \<in> switch_set xs" for k
    by (auto simp: switch_set_def nth_tl)
  then show ?thesis by (simp add: switches_def windows2_zip length_filter_conv_card)
qed

lemma switch_set_finite [simp]: "finite (switch_set xs)"
  by (rule finite_subset [of _ "{..<length xs}"]) (auto simp: switch_set_def)

lemma switches_take: "switches (Schedule (take k xs)) \<le> switches (Schedule xs)"
  unfolding switches_card by (rule card_mono [OF switch_set_finite]) (auto simp: switch_set_def)

text \<open>Handing one decision to the thread before it removes a switch and can add at most one.\<close>

lemma switches_drop:
  assumes "0 < i" and "i < length xs" and "xs ! i \<noteq> xs ! (i - 1)"
  shows "switches (Schedule (xs[i := xs ! (i - 1)])) \<le> switches (Schedule xs)"
proof -
  let ?ys = "xs[i := xs ! (i - 1)]"
  have mem: "i - 1 \<in> switch_set xs" using assms by (auto simp: switch_set_def)
  have sub: "switch_set ?ys \<subseteq> insert i (switch_set xs - {i - 1})"
  proof
    fix k
    assume k: "k \<in> switch_set ?ys"
    then have bound: "Suc k < length xs" and diff: "?ys ! k \<noteq> ?ys ! Suc k" by (simp_all add: switch_set_def)
    have "k \<noteq> i - 1" using diff assms(1,2) by auto
    moreover have "k = i \<or> k \<in> switch_set xs"
      using bound diff calculation assms(1) by (cases "Suc k = i") (auto simp: switch_set_def)
    ultimately show "k \<in> insert i (switch_set xs - {i - 1})" by blast
  qed
  have "card (switch_set ?ys) \<le> card (insert i (switch_set xs - {i - 1}))" by (rule card_mono [OF _ sub]) simp
  also have "\<dots> \<le> Suc (card (switch_set xs - {i - 1}))" by (rule card_insert_le_m1) simp_all
  also have "\<dots> = card (switch_set xs)" by (rule card.remove [OF switch_set_finite mem, symmetric])
  finally show ?thesis by (simp add: switches_card)
qed

lemma drop_accepted:
  assumes "accepted test plan" and "\<forall>i \<in> set idx. 0 < i \<and> i < length plan"
    and "drop_switches test idx plan bs = (plan', bs')"
  shows "accepted test plan' \<and> length plan' = length plan \<and> set plan' \<subseteq> set plan
    \<and> switches (Schedule plan') \<le> switches (Schedule plan)"
  using assms
proof (induction idx arbitrary: plan bs)
  case (Cons i idx)
  show ?case
  proof (cases "fst bs = 0")
    case True
    then show ?thesis using Cons.prems by simp
  next
    case budget: False
    show ?thesis
    proof (cases "plan ! i = plan ! (i - 1)")
      case True
      then show ?thesis using Cons.IH [OF Cons.prems(1)] Cons.prems(2,3) budget by simp
    next
      case False
      let ?c = "plan[i := plan ! (i - 1)]"
      have i: "0 < i" "i < length plan" using Cons.prems(2) by simp_all
      obtain found bs1 where t: "test ?c bs = (found, bs1)" by (rule prod.exhaust)
      have step: "drop_switches test idx (if found then ?c else plan) bs1 = (plan', bs')"
        using Cons.prems(3) unfolding drop_switches.simps if_not_P [OF budget] if_not_P [OF False] Let_def t
        by simp
      show ?thesis
      proof (cases found)
        case True
        have "accepted test ?c" using acceptedI [of test ?c bs bs1] t True by simp
        moreover have "\<forall>k \<in> set idx. 0 < k \<and> k < length ?c" using Cons.prems(2) by simp
        moreover have "drop_switches test idx ?c bs1 = (plan', bs')" using step True by simp
        ultimately have "accepted test plan' \<and> length plan' = length ?c \<and> set plan' \<subseteq> set ?c
            \<and> switches (Schedule plan') \<le> switches (Schedule ?c)" by (rule Cons.IH)
        moreover have "set ?c \<subseteq> set plan"
          using i set_update_subset_insert [of plan i "plan ! (i - 1)"] nth_mem [of "i - 1" plan] by auto
        ultimately show ?thesis using switches_drop [OF i False] by auto
      next
        case False
        then have "drop_switches test idx plan bs1 = (plan', bs')" using step by simp
        moreover have "\<forall>k \<in> set idx. 0 < k \<and> k < length plan" using Cons.prems(2) by simp
        ultimately show ?thesis using Cons.IH [OF Cons.prems(1)] by blast
      qed
    qed
  qed
qed simp

lemma shrink_minimised:
  assumes "shrink_failure ex run config report trace complete s = (Minimised sch, s')"
    and "first_fingerprint report = Some target" and "test = reproduces run config target"
  obtains bs hi bs1 plan bs2 where "test trace (ex_budget ex, s) = (True, bs)"
    and "shortest_prefix test trace bs = (hi, bs1)"
    and "drop_switches test [1..<length (take hi trace)] (take hi trace) bs1 = (plan, bs2)"
    and "sch = Schedule plan" and "s' = snd bs2"
proof -
  have on: "ex_minimise ex" "complete"
    using assms(1) by (auto simp: shrink_failure_def split: if_splits)
  obtain found bs where t: "test trace (ex_budget ex, s) = (found, bs)" by (rule prod.exhaust)
  obtain hi bs1 where p: "shortest_prefix test trace bs = (hi, bs1)" by (rule prod.exhaust)
  obtain plan bs2 where d: "drop_switches test [1..<length (take hi trace)] (take hi trace) bs1 = (plan, bs2)"
    by (rule prod.exhaust)
  have "(if \<not> found then (NotReproducible, snd bs) else (Minimised (Schedule plan), snd bs2)) = (Minimised sch, s')"
    using assms(1) on unfolding shrink_failure_def assms(2) option.case Let_def assms(3) [symmetric] t p prod.case d
    by simp
  then show thesis using that [of bs hi bs1 plan bs2] t p d by (cases found) simp_all
qed

lemma minimised_sound:
  assumes "shrink_failure ex run config report trace complete s = (Minimised sch, s')"
    and "first_fingerprint report = Some target"
  shows "(\<exists>s0. contains (fst (replay run config sch s0)) target)
    \<and> schedule_len sch \<le> length trace \<and> set (schedule_plan sch) \<subseteq> set trace
    \<and> switches sch \<le> switches (Schedule trace)"
proof -
  let ?test = "reproduces run config target"
  obtain bs hi bs1 plan bs2 where t: "?test trace (ex_budget ex, s) = (True, bs)"
    and p: "shortest_prefix ?test trace bs = (hi, bs1)"
    and d: "drop_switches ?test [1..<length (take hi trace)] (take hi trace) bs1 = (plan, bs2)"
    and sch: "sch = Schedule plan"
    by (rule shrink_minimised [OF assms refl])
  have hi: "accepted ?test (take hi trace)" "hi \<le> length trace"
    using prefix_accepted [OF acceptedI [of ?test trace "(ex_budget ex, s)" bs, OF t] p] by auto
  have r: "accepted ?test plan" "length plan = length (take hi trace)" "set plan \<subseteq> set (take hi trace)"
    "switches (Schedule plan) \<le> switches (Schedule (take hi trace))"
    using drop_accepted [OF hi(1) _ d] by auto
  have "\<exists>s0. contains (fst (replay run config sch s0)) target"
  proof -
    obtain bs0 where "fst (?test plan bs0)" using r(1) by (auto simp: accepted_def)
    then have "contains (fst (replay run config sch (snd bs0))) target"
      by (auto simp: reproduces_def replay_def sch split: prod.splits if_splits)
    then show ?thesis by blast
  qed
  moreover have "set plan \<subseteq> set trace" using r(3) set_take_subset [of hi trace] by blast
  moreover have "switches (Schedule plan) \<le> switches (Schedule trace)"
    using r(4) switches_take [of hi trace] by (rule le_trans)
  ultimately show ?thesis using r(2) hi(2) by (simp add: sch schedule_len_def)
qed

text \<open>
  A shrunk schedule reproduces. Whatever the kernel and its buffers do, a schedule that shrinking
  returns was seen to reproduce the target, by the very replay the user will make; it is no longer than
  the recording, schedules only threads the recording schedules, and passes the turn no more often.
\<close>

theorem minimised_schedule_reproduces:
  assumes "shrink_failure ex run config report trace complete s = (Minimised sch, s')"
    and "first_fingerprint report = Some target"
  shows "(\<exists>s0. contains (fst (replay run config sch s0)) target)
    \<and> schedule_len sch \<le> length trace \<and> set (schedule_plan sch) \<subseteq> set trace
    \<and> switches sch \<le> switches (Schedule trace)"
  by (rule minimised_sound [OF assms])

text \<open>A launcher that finds something under seed 2 and under every plan that lets thread 1 run.\<close>

definition late_launch :: "launch_config \<Rightarrow> choices \<Rightarrow> report \<times> u32 list \<times> bool" where
  "late_launch config ch =
     (\<lparr>report_seed = lc_seed config,
       diagnostics = (if (case ch of Random z \<Rightarrow> z = 2 | Replay plan c \<Rightarrow> 1 \<in> set plan)
                      then [KernelPanic 0 1 ''late''] else []),
       report_aborted = False\<rparr>, [0, 0, 1, 0], True)"

definition late_explore :: explore_opts where
  "late_explore = explore_new (launch_config_new (dim3_from_u32 1) (dim3_from_u32 2))"

lemmas late_eval = late_launch_def late_explore_def explore_new_def launch_config_new_def

lemma unat_numeral_u64: "unat (2 :: u64) = 2"
  by simp

lemma late_shrink:
  "shrink_failure late_explore (\<lambda>config ch s. (late_launch config ch, s)) (ex_base late_explore)
     (fst (late_launch (ex_base late_explore) (Random 2))) [0, 0, 1, 0] True s
   = (Minimised (Schedule [0, 0, 1]), s)"
  by (simp add: shrink_failure_def late_eval first_fingerprint_def reproduces_def contains_def
      shortest_prefix_def double_loop.simps bisect_loop.simps Let_def)

theorem minimised_schedule_reproduces_witness:
  "\<exists>s0. contains (fst (replay (\<lambda>config ch s. (late_launch config ch, s)) (ex_base late_explore) (Schedule [0, 0, 1]) (s0 :: unit)))
     ''panic:late''"
proof -
  have "first_fingerprint (fst (late_launch (ex_base late_explore) (Random 2))) = Some ''panic:late''"
    by (simp add: late_eval first_fingerprint_def)
  from minimised_schedule_reproduces [OF late_shrink this] show ?thesis by blast
qed

section \<open>The prefix it keeps\<close>

text \<open>
  Tests of a launch whose result depends on the configuration and the decisions only: a test answers by
  a predicate on plans as long as there is budget, and costs one.
\<close>

locale pure_tester =
  fixes test :: "'s tester" and good :: "u32 list \<Rightarrow> bool"
  assumes test_eq: "test plan (b, s) = (0 < b \<and> good plan, b - 1, s)"
begin

lemma double_bound:
  assumes "good trace" and "\<not> good (take lo trace)" and "lo < step" and "lo < length trace"
    and "length trace \<le> step * 2 ^ m" and "m \<le> b"
  shows "\<exists>lo' hi b'. double_loop test trace lo step (b, s) = ((lo', hi), (b', s))
    \<and> lo' < hi \<and> hi \<le> length trace \<and> \<not> good (take lo' trace) \<and> good (take hi trace) \<and> b \<le> b' + m"
  using assms(2-)
proof (induction m arbitrary: lo step b)
  case 0
  then have "\<not> (0 < step \<and> step < length trace)" by simp
  then show ?case using 0 assms(1) by (auto simp: double_stop)
next
  case (Suc m)
  show ?case
  proof (cases "step < length trace")
    case False
    then show ?thesis using Suc.prems assms(1) by (auto simp: double_stop)
  next
    case True
    have t: "test (take step trace) (b, s) = (good (take step trace), b - 1, s)" using Suc.prems(5) by (simp add: test_eq)
    have pos: "0 < step" using Suc.prems(2) by simp
    note go = double_go [where test = test and lo = lo, OF pos True t]
    show ?thesis
    proof (cases "good (take step trace)")
      case good: True
      then show ?thesis using go Suc.prems(1,2,5) True by auto
    next
      case bad: False
      have "step < step * 2" "length trace \<le> step * 2 * 2 ^ m" "m \<le> b - 1"
        using pos Suc.prems(4,5) by (auto simp: mult.assoc)
      from Suc.IH [OF bad this(1) True this(2,3)] show ?thesis
        using go bad Suc.prems(5) by auto
    qed
  qed
qed

lemma bisect_bound:
  assumes "\<not> good (take lo trace)" and "good (take hi trace)" and "lo < hi"
    and "hi - lo \<le> 2 ^ m" and "m \<le> b"
  shows "\<exists>h b'. bisect_loop test trace lo hi (b, s) = (h, (b', s)) \<and> 0 < h \<and> h \<le> hi
    \<and> good (take h trace) \<and> \<not> good (take (h - 1) trace)"
  using assms
proof (induction m arbitrary: lo hi b)
  case 0
  then have "hi = lo + 1" by simp
  then show ?case using 0 by (auto simp: bisect_stop)
next
  case (Suc m)
  show ?case
  proof (cases "lo + 1 < hi")
    case False
    then have "hi = lo + 1" using Suc.prems(3) by simp
    then show ?thesis using Suc.prems by (auto simp: bisect_stop)
  next
    case True
    define mid where "mid = lo + (hi - lo) div 2"
    note m = bisect_mid [OF True mid_def]
    have "(hi - lo) div 2 = mid - lo" by (simp add: mid_def)
    moreover have "hi - lo \<le> 2 * 2 ^ m" using Suc.prems(4) by simp
    ultimately have half: "mid - lo \<le> 2 ^ m" "hi - mid \<le> 2 ^ m" using m by linarith+
    have t: "test (take mid trace) (b, s) = (good (take mid trace), b - 1, s)" using Suc.prems(5) by (simp add: test_eq)
    note go = bisect_go [where test = test, OF True mid_def t]
    have b: "m \<le> b - 1" using Suc.prems(5) by simp
    show ?thesis
    proof (cases "good (take mid trace)")
      case good: True
      from Suc.IH [OF Suc.prems(1) good m(1) half(1) b] show ?thesis using go good m(2) by auto
    next
      case bad: False
      from Suc.IH [OF bad Suc.prems(2) m(2) half(2) b] show ?thesis using go bad by auto
    qed
  qed
qed

lemma prefix_shortest:
  assumes "good trace" and "length trace \<le> 2 ^ d" and "2 * d + 1 \<le> b"
  shows "\<exists>h b'. shortest_prefix test trace (b, s) = (h, (b', s)) \<and> h \<le> length trace \<and> good (take h trace)
    \<and> (h = 0 \<or> \<not> good (take (h - 1) trace))"
proof -
  have t: "test [] (b, s) = (good [], b - 1, s)" using assms(3) by (simp add: test_eq)
  show ?thesis
  proof (cases "good []")
    case True
    then show ?thesis using t by (simp add: shortest_prefix_def)
  next
    case False
    then have n: "0 < length trace" using assms(1) by auto
    have "\<not> good (take 0 trace)" using False by simp
    have "d \<le> b - 1" "length trace \<le> 1 * 2 ^ d" using assms(2,3) by simp_all
    from double_bound [OF assms(1) \<open>\<not> good (take 0 trace)\<close> zero_less_one n this(2,1), of s]
    obtain lo hi b1 where d: "double_loop test trace 0 1 (b - 1, s) = ((lo, hi), (b1, s))"
      and lh: "lo < hi" "hi \<le> length trace" "\<not> good (take lo trace)" "good (take hi trace)" "b - 1 \<le> b1 + d"
      by auto
    have "hi - lo \<le> 2 ^ d" "d \<le> b1" using lh(1,2,5) assms(2,3) by auto
    from bisect_bound [OF lh(3,4,1) this, of s] show ?thesis
      using t False d lh(2) by (auto simp: shortest_prefix_def)
  qed
qed

end

text \<open>A launcher that depends on nothing but its arguments.\<close>

definition pure_launcher :: "(launch_config \<Rightarrow> choices \<Rightarrow> report \<times> u32 list \<times> bool) \<Rightarrow> 's launcher" where
  "pure_launcher f config ch s = (f config ch, s)"

definition exhibits :: "(launch_config \<Rightarrow> choices \<Rightarrow> report \<times> u32 list \<times> bool) \<Rightarrow> launch_config \<Rightarrow> string \<Rightarrow> u32 list \<Rightarrow> bool" where
  "exhibits f config target plan \<longleftrightarrow> contains (fst (f config (Replay plan 0))) target"

lemma pure_reproduces:
  "reproduces (pure_launcher f) config target plan (b, s) = (0 < b \<and> exhibits f config target plan, b - 1, s)"
  by (cases "f config (Replay plan 0)") (simp add: reproduces_def pure_launcher_def exhibits_def)

interpretation pure_run: pure_tester "reproduces (pure_launcher f) config target" "exhibits f config target"
  for f config target
  by unfold_locales (rule pure_reproduces)

text \<open>
  C36: the prefix the shrinker keeps. For a kernel that depends on its schedule only, with a recording of at
  most \<open>2 ^ d\<close> decisions and a budget of at least \<open>2 * d + 2\<close> replays (42 for the longest recording there
  is, against 256 by default), the shrunk schedule is as long as a prefix of the recording that
  reproduces the finding while the prefix one decision shorter does not; and if longer prefixes never
  do worse, no shorter prefix reproduces it at all.
\<close>

theorem shrunk_prefix_is_shortest:
  fixes s :: 's
  assumes "shrink_failure ex (pure_launcher f) config report trace complete s = (Minimised sch, s')"
    and "first_fingerprint report = Some target" and "length trace \<le> 2 ^ d" and "2 * d + 2 \<le> ex_budget ex"
    and "good = (\<lambda>k. exhibits f config target (take k trace))"
  shows "good (schedule_len sch) \<and> (schedule_len sch = 0 \<or> \<not> good (schedule_len sch - 1))
    \<and> ((\<forall>j k. j \<le> k \<and> k \<le> length trace \<and> good j \<longrightarrow> good k)
         \<longrightarrow> (\<forall>k. good k \<longrightarrow> schedule_len sch \<le> k))"
proof -
  let ?test = "reproduces (pure_launcher f :: 's launcher) config target"
  obtain bs hi bs1 plan bs2 where t: "?test trace (ex_budget ex, s) = (True, bs)"
    and p: "shortest_prefix ?test trace bs = (hi, bs1)"
    and d: "drop_switches ?test [1..<length (take hi trace)] (take hi trace) bs1 = (plan, bs2)"
    and sch: "sch = Schedule plan"
    by (rule shrink_minimised [OF assms(1,2) refl])
  have g: "exhibits f config target trace" and bs: "bs = (ex_budget ex - 1, s)" using t by (auto simp: pure_reproduces)
  have "2 * d + 1 \<le> ex_budget ex - 1" using assms(4) by simp
  from pure_run.prefix_shortest [OF g assms(3) this, of s]
  have hi: "hi \<le> length trace" "good hi" "hi = 0 \<or> \<not> good (hi - 1)"
    using p by (auto simp: bs assms(5))
  have "accepted ?test (take hi trace)"
    using acceptedI [of ?test "take hi trace" "(1, s)" "(0, s)"] hi(2) by (simp add: pure_reproduces assms(5))
  then have "length plan = length (take hi trace)" using drop_accepted [OF _ _ d] by simp
  then have len: "schedule_len sch = hi" using hi(1) by (simp add: sch schedule_len_def)
  have "hi \<le> k" if mono: "\<forall>j k. j \<le> k \<and> k \<le> length trace \<and> good j \<longrightarrow> good k" and "good k" for k
  proof (rule ccontr)
    assume "\<not> hi \<le> k"
    then have "k \<le> hi - 1" "hi - 1 \<le> length trace" "hi \<noteq> 0" using hi(1) by auto
    then show False using mono \<open>good k\<close> hi(3) by blast
  qed
  then have "(\<forall>j k. j \<le> k \<and> k \<le> length trace \<and> good j \<longrightarrow> good k) \<longrightarrow> (\<forall>k. good k \<longrightarrow> hi \<le> k)" by blast
  then show ?thesis unfolding len using hi(2,3) by (intro conjI)
qed

theorem shrunk_prefix_is_shortest_witness:
  "exhibits late_launch (ex_base late_explore) ''panic:late'' (take 3 [0, 0, 1, 0])
   \<and> \<not> exhibits late_launch (ex_base late_explore) ''panic:late'' (take 2 [0, 0, 1, 0])"
proof -
  have fp: "first_fingerprint (fst (late_launch (ex_base late_explore) (Random 2))) = Some ''panic:late''"
    by (simp add: late_eval first_fingerprint_def)
  have "pure_launcher late_launch = (\<lambda>config ch (s :: unit). (late_launch config ch, s))"
    by (intro ext) (simp add: pure_launcher_def)
  then have sh: "shrink_failure late_explore (pure_launcher late_launch) (ex_base late_explore)
     (fst (late_launch (ex_base late_explore) (Random 2))) [0, 0, 1, 0] True () = (Minimised (Schedule [0, 0, 1]), ())"
    using late_shrink by simp
  have "length [0 :: u32, 0, 1, 0] \<le> 2 ^ 2" "2 * 2 + 2 \<le> ex_budget late_explore" by (simp_all add: late_eval)
  from shrunk_prefix_is_shortest [OF sh fp this refl] show ?thesis by (simp add: schedule_len_def)
qed

section \<open>The search\<close>

text \<open>The configuration of the \<open>i\<close>-th seed, and the report its launch gives.\<close>

definition seed_config :: "explore_opts \<Rightarrow> nat \<Rightarrow> launch_config" where
  "seed_config ex i = (ex_base ex)\<lparr>lc_seed := lc_seed (ex_base ex) + of_nat i\<rparr>"

definition seed_report :: "(launch_config \<Rightarrow> choices \<Rightarrow> report \<times> u32 list \<times> bool) \<Rightarrow> explore_opts \<Rightarrow> nat \<Rightarrow> report" where
  "seed_report f ex i = fst (f (seed_config ex i) (Random (lc_seed (seed_config ex i))))"

text \<open>What the failure of the \<open>j\<close>-th seed says, and the shrinking it comes from.\<close>

definition failure_of ::
  "(launch_config \<Rightarrow> choices \<Rightarrow> report \<times> u32 list \<times> bool) \<Rightarrow> explore_opts \<Rightarrow> nat \<Rightarrow> 's \<Rightarrow> failure \<Rightarrow> bool" where
  "failure_of f ex j s fl \<longleftrightarrow>
     (\<exists>trace complete. f (seed_config ex j) (Random (lc_seed (seed_config ex j))) = (fail_report fl, trace, complete)
        \<and> fail_seed fl = lc_seed (ex_base ex) + of_nat j \<and> fail_decisions fl = length trace
        \<and> fst (shrink_failure ex (pure_launcher f) (seed_config ex j) (fail_report fl) trace complete s) = fail_shrink fl)"

lemma search_from_cases:
  assumes "search_from ex (pure_launcher f) i n s = (e, s')"
  shows "case found_failure e of
      None \<Rightarrow> (\<forall>j. i \<le> j \<and> j < i + n \<longrightarrow> is_clean (seed_report f ex j)) \<and> seeds_tried e = ex_seeds ex
    | Some fl \<Rightarrow> \<exists>j. i \<le> j \<and> j < i + n \<and> \<not> is_clean (seed_report f ex j)
        \<and> (\<forall>k. i \<le> k \<and> k < j \<longrightarrow> is_clean (seed_report f ex k))
        \<and> seeds_tried e = of_nat j + 1 \<and> failure_of f ex j s fl"
  using assms
proof (induction n arbitrary: i)
  case 0
  then show ?case by auto
next
  case (Suc n)
  obtain report trace complete where r: "f (seed_config ex i) (Random (lc_seed (seed_config ex i))) = (report, trace, complete)"
    by (metis surj_pair)
  then have rep: "seed_report f ex i = report" by (simp add: seed_report_def)
  have run: "pure_launcher f ((ex_base ex)\<lparr>lc_seed := lc_seed (ex_base ex) + of_nat i\<rparr>)
      (Random (lc_seed (ex_base ex) + of_nat i)) s = ((report, trace, complete), s)"
    using r by (simp add: pure_launcher_def seed_config_def)
  show ?case
  proof (cases "is_clean report")
    case True
    then have "search_from ex (pure_launcher f) (i + 1) n s = (e, s')"
      using Suc.prems run by (simp add: Let_def)
    note IH = Suc.IH [OF this]
    have here: "is_clean (seed_report f ex i)" using True rep by simp
    show ?thesis
    proof (cases "found_failure e")
      case None
      have "is_clean (seed_report f ex j)" if "i \<le> j \<and> j < i + Suc n" for j
        using that here IH [unfolded None option.case] by (cases "j = i") simp_all
      then show ?thesis using IH [unfolded None option.case] by (simp add: None)
    next
      case (Some fl)
      from IH [unfolded Some option.case] obtain j where j: "i + 1 \<le> j" "j < i + 1 + n"
        "\<not> is_clean (seed_report f ex j)" "\<forall>k. i + 1 \<le> k \<and> k < j \<longrightarrow> is_clean (seed_report f ex k)"
        "seeds_tried e = of_nat j + 1" "failure_of f ex j s fl" by (elim exE conjE)
      have "\<forall>k. i \<le> k \<and> k < j \<longrightarrow> is_clean (seed_report f ex k)" 
        using j(4) here by (metis Suc_eq_plus1 Suc_leI le_neq_implies_less)
      then show ?thesis unfolding Some option.case using j by (intro exI [of _ j]) simp
    qed
  next
    case False
    obtain sh s2 where sh: "shrink_failure ex (pure_launcher f) (seed_config ex i) report trace complete s = (sh, s2)"
      by (rule prod.exhaust)
    let ?fl = "\<lparr>fail_seed = lc_seed (ex_base ex) + of_nat i, fail_report = report, fail_shrink = sh,
        fail_decisions = length trace\<rparr>"
    have e: "e = \<lparr>seeds_tried = of_nat i + 1, found_failure = Some ?fl\<rparr>"
      using Suc.prems run False sh by (simp add: Let_def seed_config_def)
    have "failure_of f ex i s ?fl" using r sh by (simp add: failure_of_def)
    then show ?thesis using False rep by (auto simp: e intro!: exI [of _ i])
  qed
qed

text \<open>
  The search is exact. For kernels that depend on their schedule only, no failure is reported exactly
  when every seed of the range is clean, all of them having been run; otherwise the failure is that of
  the first seed in order whose report is not clean, with that report, and the count of seeds tried ends
  with it. Seeds wrap around at \<open>2 ^ 64\<close>, so every range has as many seeds as asked for.
\<close>

theorem search_finds_first_failure:
  assumes "search ex (pure_launcher f) s = (e, s')"
  shows "case found_failure e of
      None \<Rightarrow> (\<forall>j < unat (ex_seeds ex). is_clean (seed_report f ex j)) \<and> seeds_tried e = ex_seeds ex
    | Some fl \<Rightarrow> \<exists>j < unat (ex_seeds ex). \<not> is_clean (seed_report f ex j)
        \<and> (\<forall>k < j. is_clean (seed_report f ex k))
        \<and> unat (seeds_tried e) = j + 1 \<and> fail_report fl = seed_report f ex j
        \<and> fail_seed fl = lc_seed (ex_base ex) + of_nat j"
proof -
  note cases = search_from_cases [OF assms [unfolded search_def]]
  show ?thesis
  proof (cases "found_failure e")
    case None
    then show ?thesis using cases by simp
  next
    case (Some fl)
    from cases [unfolded Some option.case] obtain j where j: "j < 0 + unat (ex_seeds ex)"
      "\<not> is_clean (seed_report f ex j)" "\<forall>k. 0 \<le> k \<and> k < j \<longrightarrow> is_clean (seed_report f ex k)"
      "seeds_tried e = of_nat j + 1" "failure_of f ex j s fl" by (elim exE conjE)
    have "unat (ex_seeds ex) < 2 ^ LENGTH(64)" by (rule unsigned_less)
    then have "unat (of_nat (j + 1) :: u64) = j + 1" using j(1) by (simp only: unat_of_nat) simp
    then have "unat (seeds_tried e) = j + 1" using j(4) by (simp add: add.commute)
    moreover have "fail_report fl = seed_report f ex j" "fail_seed fl = lc_seed (ex_base ex) + of_nat j"
      using j(5) by (auto simp: failure_of_def seed_report_def)
    ultimately show ?thesis unfolding Some option.case using j(1-3) by (intro exI [of _ j]) simp
  qed
qed

theorem search_finds_first_failure_witness:
  "\<exists>e s' fl. search late_explore (pure_launcher late_launch) () = (e, s') \<and> found_failure e = Some fl
     \<and> fail_seed fl = 2 \<and> unat (seeds_tried e) = 3"
proof -
  obtain e s' where search: "search late_explore (pure_launcher late_launch) () = (e, s')" by (rule prod.exhaust)
  note found = search_finds_first_failure [OF search]
  have clean: "is_clean (seed_report late_launch late_explore j) \<longleftrightarrow> j \<noteq> 2" if "j < 64" for j
  proof -
    have "unat (of_nat j :: u64) = j" using that by (simp only: unat_of_nat) simp
    then have "(of_nat j :: u64) = 2 \<longleftrightarrow> j = 2" by (metis of_nat_numeral unat_numeral_u64)
    then show ?thesis by (simp add: seed_report_def seed_config_def late_eval is_clean_def)
  qed
  have seeds: "unat (ex_seeds late_explore) = 64" by (simp add: late_explore_def explore_new_def)
  have base: "lc_seed (ex_base late_explore) = 0" by (simp add: late_eval)
  show ?thesis
  proof (cases "found_failure e")
    case None
    then show ?thesis using found clean [of 2] seeds by simp
  next
    case (Some fl)
    from found [unfolded Some option.case seeds base] obtain j where j: "j < 64"
      "\<not> is_clean (seed_report late_launch late_explore j)" "unat (seeds_tried e) = j + 1" "fail_seed fl = 0 + of_nat j"
      by blast
    then have "j = 2" using clean by blast
    then show ?thesis using search Some j by auto
  qed
qed

section \<open>Deterministic kernels\<close>

text \<open>
  The report of \<open>n\<close> actions of a deterministic kernel in one wave, with its memory built afresh for every
  run, as \<^verbatim>\<open>run_with\<close> does.
\<close>

definition kernel_report ::
  "sched_config \<Rightarrow> ('m \<Rightarrow> nat \<times> nat \<Rightarrow> nat \<Rightarrow> sched_act \<times> 'm) \<Rightarrow> nat \<Rightarrow> 'm \<Rightarrow> launch_config \<Rightarrow> choices
     \<Rightarrow> report \<times> u32 list \<times> bool" where
  "kernel_report cfg k n m config ch =
     (let w = fst (run_kernel cfg k n (launch_world cfg ch) m)
      in (\<lparr>report_seed = lc_seed config, diagnostics = fst (reporter_take (w_rep w)), report_aborted = was_aborted w\<rparr>,
          fst (fst (take_trace (w_st w))), snd (fst (take_trace (w_st w)))))"

lemma kernel_replay:
  assumes "cfg_ok cfg" and "kernel_report cfg k n m config ch = (report, trace, True)"
  shows "fst (kernel_report cfg k n m config (Replay trace 0)) = report"
proof -
  obtain w m' where run: "run_kernel cfg k n (launch_world cfg ch) m = (w, m')" by (rule prod.exhaust)
  then have "fst (fst (take_trace (w_st w))) = trace" "snd (fst (take_trace (w_st w)))"
    using assms(2) by (simp_all add: kernel_report_def Let_def)
  from replay_same [OF assms(1) run this] show ?thesis
    using assms(2) run by (auto simp: kernel_report_def Let_def was_aborted_def)
qed

lemma first_fingerprint_contained: "first_fingerprint report = Some target \<Longrightarrow> contains report target"
  by (auto simp: first_fingerprint_def contains_def split: list.splits)

lemma replay_pure [simp]:
  "fst (replay (pure_launcher f) config sch s) = fst (f config (Replay (schedule_plan sch) 0))"
  by (cases "f config (Replay (schedule_plan sch) 0)") (simp add: replay_def pure_launcher_def)

text \<open>
  Exploration and the scheduler together. For a deterministic kernel run in one wave with fresh
  memory, a failure that exploration finds is never called irreproducible and never left unshrunk for
  want of a recording: as long as shrinking is on and has any budget at all, the failure comes with a
  schedule, and replaying that schedule shows the finding the failure starts with.
\<close>

theorem deterministic_failures_are_shrunk:
  assumes "cfg_ok cfg" and "n < 2 ^ 20" and "ex_minimise ex" and "0 < ex_budget ex"
    and "search ex (pure_launcher (kernel_report cfg k n m)) s = (e, s')" and "found_failure e = Some fl"
  shows "\<exists>sch target. fail_shrink fl = Minimised sch \<and> failure_target fl = Some target
    \<and> contains (fst (kernel_report cfg k n m ((ex_base ex)\<lparr>lc_seed := fail_seed fl\<rparr>) (Replay (schedule_plan sch) 0))) target"
proof -
  let ?f = "kernel_report cfg k n m"
  from search_from_cases [OF assms(5) [unfolded search_def], unfolded assms(6) option.case]
  obtain j where bad: "\<not> is_clean (seed_report ?f ex j)" and fl: "failure_of ?f ex j s fl" by (elim exE conjE)
  let ?c = "seed_config ex j"
  obtain trace complete where run: "?f ?c (Random (lc_seed ?c)) = (fail_report fl, trace, complete)"
    and sh: "fst (shrink_failure ex (pure_launcher ?f) ?c (fail_report fl) trace complete s) = fail_shrink fl"
    and seed: "fail_seed fl = lc_seed (ex_base ex) + of_nat j"
    using fl by (auto simp: failure_of_def)
  have c: "(ex_base ex)\<lparr>lc_seed := fail_seed fl\<rparr> = ?c" by (simp add: seed_config_def seed)
  have "complete"
    using run short_launch_complete [OF assms(1,2), where ch = "Random (lc_seed ?c)" and k = k and m = m]
    by (simp add: kernel_report_def Let_def)
  then have rep: "fst (?f ?c (Replay trace 0)) = fail_report fl" using kernel_replay [OF assms(1)] run by simp
  have "diagnostics (fail_report fl) \<noteq> []" using bad run by (simp add: seed_report_def is_clean_def)
  then obtain target where target: "first_fingerprint (fail_report fl) = Some target"
    by (cases "diagnostics (fail_report fl)") (simp_all add: first_fingerprint_def)
  let ?test = "reproduces (pure_launcher ?f :: 'c launcher) ?c target"
  have t: "?test trace (ex_budget ex, s) = (True, ex_budget ex - 1, s)"
    using assms(4) rep first_fingerprint_contained [OF target] by (simp add: pure_reproduces exhibits_def)
  obtain hi bs1 where p: "shortest_prefix ?test trace (ex_budget ex - 1, s) = (hi, bs1)" by (rule prod.exhaust)
  obtain plan bs2 where d: "drop_switches ?test [1..<length (take hi trace)] (take hi trace) bs1 = (plan, bs2)"
    by (rule prod.exhaust)
  have "shrink_failure ex (pure_launcher ?f) ?c (fail_report fl) trace complete s = (Minimised (Schedule plan), snd bs2)"
    using assms(3) \<open>complete\<close> unfolding shrink_failure_def target option.case Let_def t prod.case p d by simp
  then have "contains (fst (?f ?c (Replay (schedule_plan (Schedule plan)) 0))) target"
    and "fail_shrink fl = Minimised (Schedule plan)"
    using minimised_sound [OF _ target, of ex "pure_launcher ?f" ?c trace complete s "Schedule plan" "snd bs2"] sh by simp_all
  moreover have "failure_target fl = Some target" using target by (simp add: failure_target_def)
  ultimately show ?thesis unfolding c by blast
qed

text \<open>A kernel whose first action is a panic.\<close>

definition panicking_kernel :: "unit \<Rightarrow> nat \<times> nat \<Rightarrow> nat \<Rightarrow> sched_act \<times> unit" where
  "panicking_kernel m ep me = (ActTrap (KernelPanic 0 (of_nat me) ''assertion failed''), ())"

definition pair_explore :: explore_opts where
  "pair_explore = explore_new (launch_config_new (dim3_from_u32 1) (dim3_from_u32 2))"

lemma panicking_fails: "\<not> is_clean (fst (kernel_report pair_cfg panicking_kernel 1 () config ch))"
proof -
  let ?w = "launch_world pair_cfg ch"
  have "reachable_world pair_cfg ?w"
    unfolding reachable_world_def initial_world_def by (auto simp: launch_world_def intro!: exI [of _ ?w])
  then have ok: "world_ok pair_cfg ?w" by (rule reachable_ok)
  have na: "\<not> st_aborted (w_st ?w)" "st_status (w_st ?w) = [Runnable, Runnable]"
    by (simp_all add: launch_world_def sched_init_def pair_cfg_def sched_config_of_def total_threads_def Let_def
        numeral_2_eq_2)
  have "st_current (w_st ?w) \<noteq> None"
  proof
    assume none: "st_current (w_st ?w) = None"
    have "0 < total_threads pair_cfg" by (simp add: pair_cfg_def sched_config_of_def total_threads_def)
    then have "st_status (w_st ?w) ! 0 = Finished" using ok na(1) none by (simp add: world_ok_def turn_ok_def)
    then show False using na(2) by simp
  qed
  then obtain me where "st_current (w_st ?w) = Some me" by blast
  then have "run_kernel pair_cfg panicking_kernel 1 ?w () = (abort pair_cfg
      (push_finding (KernelPanic 0 (of_nat me) ''assertion failed'') ?w), ())"
    using na by (simp add: panicking_kernel_def)
  then show ?thesis
    by (simp add: kernel_report_def Let_def is_clean_def abort_def push_finding_def launch_world_def
        reporter_take_def reporter_push_def reporter_new_def max_diagnostics_def)
qed

theorem deterministic_failures_are_shrunk_witness:
  "\<exists>e s' fl sch. search pair_explore (pure_launcher (kernel_report pair_cfg panicking_kernel 1 ())) () = (e, s')
     \<and> found_failure e = Some fl \<and> fail_shrink fl = Minimised sch"
proof -
  obtain e s' where search: "search pair_explore (pure_launcher (kernel_report pair_cfg panicking_kernel 1 ())) () = (e, s')"
    by (rule prod.exhaust)
  have "found_failure e \<noteq> None"
  proof
    assume "found_failure e = None"
    then have "\<forall>j. 0 \<le> j \<and> j < 0 + unat (ex_seeds pair_explore) \<longrightarrow>
        is_clean (seed_report (kernel_report pair_cfg panicking_kernel 1 ()) pair_explore j)"
      using search_from_cases [OF search [unfolded search_def]] by simp
    then have "is_clean (seed_report (kernel_report pair_cfg panicking_kernel 1 ()) pair_explore 0)"
      by (simp add: pair_explore_def explore_new_def)
    then show False using panicking_fails by (simp add: seed_report_def)
  qed
  then obtain fl where fl: "found_failure e = Some fl" by blast
  have "ex_minimise pair_explore" "0 < ex_budget pair_explore" by (simp_all add: pair_explore_def explore_new_def)
  from deterministic_failures_are_shrunk [OF pair_cfg_ok _ this search fl] search fl show ?thesis by auto
qed

section \<open>No budget\<close>

text \<open>
  With a budget of zero no replay is made, and the failure is reported as \<open>NotReproducible\<close>, whatever the
  kernel; a launch of several waves is reported as \<open>TraceTruncated\<close>, however few decisions it made.
\<close>

theorem zero_budget_is_irreproducible:
  "first_fingerprint report \<noteq> None \<Longrightarrow>
     shrink_failure (with_budget (explore_new config) 0) run config report trace True s = (NotReproducible, s)
   \<and> shrink_failure (explore_new config) run config report trace False s = (TraceTruncated, s)"
  by (auto simp: shrink_failure_def with_budget_def explore_new_def reproduces_def Let_def)

end
