(* ===== verification/Report_Text.thy ===== *)
theory Report_Text
  imports Explore
begin

text \<open>
  The \<^verbatim>\<open>Display\<close> texts of \<^verbatim>\<open>src/diag.rs\<close> and \<^verbatim>\<open>src/explore.rs\<close>, and \<^verbatim>\<open>assert_clean\<close>, which panics with them.
  Every finding of a report is one line of the text, after a header; \<open>shows_line\<close> says that a text has
  a given line.
\<close>

section \<open>Findings\<close>

definition debug_access_kind :: "access_kind \<Rightarrow> string" where
  "debug_access_kind k = (case k of Read \<Rightarrow> ''Read'' | Write \<Rightarrow> ''Write'' | Atomic \<Rightarrow> ''Atomic'')"

definition who :: "access \<Rightarrow> string" where
  "who a = ''block '' @ show_u32 (acc_block a) @ '' thread '' @ show_u32 (acc_thread a) @ '' (''
     @ debug_access_kind (acc_kind a) @ '' at '' @ loc_file (acc_loc a) @ '':'' @ show_nat (loc_line (acc_loc a)) @ '')''"

definition display_space :: "mem_space \<Rightarrow> string" where
  "display_space s = (case s of
      Global buffer \<Rightarrow> ''global `'' @ buffer @ ''`''
    | Shared block name \<Rightarrow> ''shared `'' @ name @ ''` (block '' @ show_u32 block @ '')'')"

definition display_problem :: "lane_problem \<Rightarrow> string" where
  "display_problem p = (case p of
      CallerNotInMask \<Rightarrow> ''the calling lane is not a member of its own mask''
    | MaskOutsideBlock valid \<Rightarrow> ''the mask names lanes outside the block (lanes '' @ lane_list valid @ '' exist)''
    | SourceLaneNotInMask src \<Rightarrow> ''source lane '' @ show_u32 src @ '' is not a member of the mask'')"

fun display_diagnostic :: "diagnostic \<Rightarrow> string" where
  "display_diagnostic (DataRace space index first second) =
     ''data race on '' @ display_space space @ ''['' @ show_nat index @ '']: '' @ who first
       @ '' conflicts with '' @ who second @ '' with no barrier between them''"
| "display_diagnostic (UninitRead space index access) =
     ''read of uninitialised '' @ display_space space @ ''['' @ show_nat index @ ''] by '' @ who access"
| "display_diagnostic (OutOfBounds space index len access) =
     ''out-of-bounds access '' @ display_space space @ ''['' @ show_nat index @ ''] (len '' @ show_nat len
       @ '') by '' @ who access"
| "display_diagnostic (BarrierDivergence block waiting exited bar) =
     ''barrier divergence in block '' @ show_u32 block @ '': '' @ show_nat waiting @ '' thread(s) wait at ''
       @ at_loc bar @ '' but '' @ show_nat exited @ '' thread(s) exited without reaching it''"
| "display_diagnostic (WarpDivergence block warp op msk arrived loc) =
     ''warp divergence in block '' @ show_u32 block @ '' warp '' @ show_u32 warp @ '': `'' @ op @ ''` at ''
       @ at_loc loc @ '' names lanes '' @ lane_list msk @ '' but only lanes '' @ lane_list arrived
       @ '' arrived, so lanes '' @ lane_list (msk AND NOT arrived) @ '' never reach it''"
| "display_diagnostic (WarpMaskMismatch block warp op loc lane msk other_lane other_msk) =
     ''warp mask mismatch in block '' @ show_u32 block @ '' warp '' @ show_u32 warp @ '': `'' @ op @ ''` at ''
       @ at_loc loc @ '' was called by lane '' @ show_u32 lane @ '' with lanes '' @ lane_list msk
       @ '' but by lane '' @ show_u32 other_lane @ '' with lanes '' @ lane_list other_msk"
| "display_diagnostic (WarpLaneError block warp op loc lane msk problem) =
     ''invalid warp collective in block '' @ show_u32 block @ '' warp '' @ show_u32 warp @ '': lane ''
       @ show_u32 lane @ '' called `'' @ op @ ''` at '' @ at_loc loc @ '' with lanes '' @ lane_list msk
       @ '' but '' @ display_problem problem"
| "display_diagnostic (KernelPanic block thread message) =
     ''kernel panic in block '' @ show_u32 block @ '' thread '' @ show_u32 thread @ '': '' @ message"

section \<open>Reports\<close>

definition newline :: string where
  "newline = [char_of (10 :: nat)]"

definition report_header :: "report \<Rightarrow> string" where
  "report_header r = ''riri: '' @ show_nat (length (diagnostics r)) @ '' diagnostic(s) (seed ''
     @ show_nat (unat (report_seed r)) @ (if report_aborted r then '', launch aborted'' else '''') @ '')''"

definition finding_line :: "diagnostic \<Rightarrow> string" where
  "finding_line d = ''  - '' @ display_diagnostic d @ newline"

definition display_report :: "report \<Rightarrow> string" where
  "display_report r = report_header r @ newline @ concat (map finding_line (diagnostics r))"

definition assert_clean :: "report \<Rightarrow> unit res" where
  "assert_clean r = (if \<not> is_clean r then Inl (AssertFailed (display_report r)) else Inr ())"

section \<open>Explorations\<close>

definition display_schedule :: "schedule \<Rightarrow> string" where
  "display_schedule s =
     show_nat (schedule_len s) @ '' decision(s), '' @ show_nat (switches s) @ '' switch(es)''"

definition display_shrink :: "shrink \<Rightarrow> string" where
  "display_shrink sh = (case sh of
      Minimised s \<Rightarrow> ''shrunk to '' @ display_schedule s
    | Disabled \<Rightarrow> ''not shrunk, minimisation disabled''
    | TraceTruncated \<Rightarrow> ''not shrunk, the schedule was too long to record''
    | NotReproducible \<Rightarrow> ''not shrunk, the kernel did not behave the same way twice'')"

definition debug_plan :: "u32 list \<Rightarrow> string" where
  "debug_plan plan = ''['' @ join_with '', '' (map show_u32 plan) @ '']''"

definition display_exploration :: "exploration \<Rightarrow> string" where
  "display_exploration e = (case found_failure e of
      None \<Rightarrow> ''riri: explored '' @ show_nat (unat (seeds_tried e)) @ '' seed(s), all clean'' @ newline
    | Some fl \<Rightarrow>
        ''riri: explored '' @ show_nat (unat (seeds_tried e)) @ '' seed(s), seed '' @ show_nat (unat (fail_seed fl))
          @ '' failed in '' @ show_nat (fail_decisions fl) @ '' decision(s), '' @ display_shrink (fail_shrink fl) @ newline
          @ concat (map finding_line (diagnostics (fail_report fl)))
          @ (case shrink_schedule (fail_shrink fl) of
               Some s \<Rightarrow> ''  schedule: '' @ debug_plan (schedule_plan s) @ newline
             | None \<Rightarrow> ''''))"

definition exploration_assert_clean :: "exploration \<Rightarrow> unit res" where
  "exploration_assert_clean e =
     (if \<not> exploration_is_clean e then Inl (AssertFailed (display_exploration e)) else Inr ())"

section \<open>What the texts show\<close>

definition shows_line :: "string \<Rightarrow> string \<Rightarrow> bool" where
  "shows_line text line \<longleftrightarrow> (\<exists>before after. text = before @ line @ after \<and> (before = [] \<or> last before = char_of (10 :: nat)))"

lemma lines_end: "xs \<noteq> [] \<Longrightarrow> last (concat (map finding_line xs)) = char_of (10 :: nat)"
  by (induction xs rule: rev_induct) (simp_all add: finding_line_def newline_def)

lemma finding_lines:
  assumes "d \<in> set ds" and "head = h @ newline"
  shows "shows_line (head @ concat (map finding_line ds) @ rest) (finding_line d)"
proof -
  obtain xs ys where ds: "ds = xs @ d # ys" using split_list [OF assms(1)] by blast
  have "last (head @ concat (map finding_line xs)) = char_of (10 :: nat)"
    using lines_end [of xs] assms(2) by (cases "xs = []") (auto simp: newline_def last_append finding_line_def)
  then show ?thesis unfolding shows_line_def ds
    by (intro exI [of _ "head @ concat (map finding_line xs)"] exI [of _ "concat (map finding_line ys) @ rest"]) simp
qed

text \<open>
  A failed \<^verbatim>\<open>assert_clean\<close> names every finding. It passes exactly for a report without findings; otherwise
  the panic text has a line of its own for each finding of the report. The same holds of an exploration
  and the findings of the failure it found.
\<close>

theorem assert_clean_names_findings:
  "(assert_clean r = Inr () \<longleftrightarrow> diagnostics r = [])
   \<and> (\<forall>d \<in> set (diagnostics r). \<exists>msg. assert_clean r = Inl (AssertFailed msg) \<and> shows_line msg (finding_line d))
   \<and> (exploration_assert_clean e = Inr () \<longleftrightarrow> found_failure e = None)
   \<and> (\<forall>fl d. found_failure e = Some fl \<and> d \<in> set (diagnostics (fail_report fl)) \<longrightarrow>
        (\<exists>msg. exploration_assert_clean e = Inl (AssertFailed msg) \<and> shows_line msg (finding_line d)))"
proof (intro conjI ballI allI impI)
  fix d assume d: "d \<in> set (diagnostics r)"
  then show "\<exists>msg. assert_clean r = Inl (AssertFailed msg) \<and> shows_line msg (finding_line d)"
    using finding_lines [OF d refl, of "report_header r" "[]"]
    by (auto simp: assert_clean_def is_clean_def display_report_def)
next
  fix fl d assume d: "found_failure e = Some fl \<and> d \<in> set (diagnostics (fail_report fl))"
  let ?h = "''riri: explored '' @ show_nat (unat (seeds_tried e)) @ '' seed(s), seed '' @ show_nat (unat (fail_seed fl))
    @ '' failed in '' @ show_nat (fail_decisions fl) @ '' decision(s), '' @ display_shrink (fail_shrink fl)"
  from d show "\<exists>msg. exploration_assert_clean e = Inl (AssertFailed msg) \<and> shows_line msg (finding_line d)"
    using finding_lines [OF conjunct2 [OF d] refl, of ?h]
    by (auto simp: exploration_assert_clean_def exploration_is_clean_def display_exploration_def)
qed (simp_all add: assert_clean_def is_clean_def exploration_assert_clean_def exploration_is_clean_def)

end
