(* ===== verification/Device.thy ===== *)
theory Device
  imports Mem_Props Launch_Run Sync_HB
begin

text \<open>
  A whole launch as one step relation. Its state is the launch state of the current wave (\<open>Ctx\<close>), the
  instrumented buffers (\<open>Mem\<close>), and the waves still to run (\<open>Launch\<close>); a step is what the holder of the
  turn does between two looks at the scheduler: an access, a claim of an element, a fence, one half of a
  barrier, any other call of the scheduler; or the start of the next wave when every thread of this one
  has returned. Two fields no code has are carried along: the history of synchronisation operations
  (\<open>Sync_HB\<close>) and the log of the accesses made, each with the position of its operation in the history.
\<close>

section \<open>State\<close>

record logged =
  lg_pos :: nat
  lg_buf :: nat
  lg_index :: nat
  lg_access :: access

record 'a device =
  dv_launch :: launch_state
  dv_first :: nat
  dv_waves :: "(nat \<times> nat) list"
  dv_bufs :: "'a instrumented list"
  dv_inside :: "nat set"
  dv_hist :: "sync_op list"
  dv_log :: "logged list"

text \<open>Global memory keeps its initialised flags from launch to launch, shared memory does not.\<close>

definition reset_of :: "mem_space \<Rightarrow> 'a instrumented \<Rightarrow> 'a instrumented" where
  "reset_of space = (case space of Global name \<Rightarrow> global_reset | Shared block name \<Rightarrow> shared_reset)"

definition dev_ctx :: "'a device \<Rightarrow> nat \<Rightarrow> thread_ctx" where
  "dev_ctx d me = thread_ctx_of (sc_tpb (ls_sched (dv_launch d))) (dv_first d) me"

text \<open>The number of an element among the elements of all buffers.\<close>

definition elem_no :: "'a device \<Rightarrow> nat \<Rightarrow> nat \<Rightarrow> nat" where
  "elem_no d b i = i * length (dv_bufs d) + b"

text \<open>The cell an access of element \<open>i\<close> of buffer \<open>b\<close> meets.\<close>

definition dev_cell :: "mem_space list \<Rightarrow> 'a device \<Rightarrow> nat \<Rightarrow> nat \<Rightarrow> shadow_cell" where
  "dev_cell sp d b i =
     in_shadow (enter_launch (reset_of (sp ! b)) (ls_id (dv_launch d)) (dv_bufs d ! b)) ! i"

section \<open>Actions\<close>

text \<open>
  \<open>DevAccess\<close> and \<open>DevClaim\<close> are \<^verbatim>\<open>checked_access\<close> and \<^verbatim>\<open>elem_mut\<close> after their scheduling point, which is
  a \<open>DevSched ActYield\<close> of its own; \<open>DevStore\<close> writes through a claimed element. \<open>DevSched\<close> is any other
  call of the scheduler: scheduling points, warp rendezvous, the end of the thread, and reports and traps
  for anything but a race.
\<close>

datatype 'a dev_act =
    DevAccess nat nat access_kind location "mem_ordering option" "'a \<Rightarrow> ('a \<times> 'a) res"
  | DevClaim nat nat bool location
  | DevStore nat nat 'a
  | DevFence mem_ordering
  | DevArrive location
  | DevDepart
  | DevSched sched_act

definition is_race :: "diagnostic \<Rightarrow> bool" where
  "is_race d \<longleftrightarrow> (case d of DataRace _ _ _ _ \<Rightarrow> True | _ \<Rightarrow> False)"

fun sched_only :: "sched_act \<Rightarrow> bool" where
  "sched_only (ActBarrier loc) \<longleftrightarrow> False"
| "sched_only (ActReport d) \<longleftrightarrow> \<not> is_race d"
| "sched_only (ActTrap d) \<longleftrightarrow> \<not> is_race d"
| "sched_only _ \<longleftrightarrow> True"

text \<open>
  A thread inside \<^verbatim>\<open>sync_threads\<close> does nothing but leave it. The update of a plain read or write never
  panics; that of an atomic may.
\<close>

fun dev_act_ok :: "mem_space list \<Rightarrow> 'a device \<Rightarrow> nat \<Rightarrow> 'a dev_act \<Rightarrow> bool" where
  "dev_act_ok sp d me DevDepart \<longleftrightarrow> me \<in> dv_inside d"
| "dev_act_ok sp d me (DevAccess b i kind loc ord op) \<longleftrightarrow>
     me \<notin> dv_inside d \<and> b < length (dv_bufs d) \<and> (ord = None \<longleftrightarrow> kind \<noteq> Atomic)
     \<and> (kind \<noteq> Atomic \<longrightarrow> (\<forall>v. \<exists>x. op v = Inr x))"
| "dev_act_ok sp d me (DevClaim b i checked loc) \<longleftrightarrow>
     me \<notin> dv_inside d \<and> b < length (dv_bufs d) \<and> (\<exists>name. sp ! b = Global name)"
| "dev_act_ok sp d me (DevStore b i v) \<longleftrightarrow> me \<notin> dv_inside d \<and> b < length (dv_bufs d)"
| "dev_act_ok sp d me (DevFence ord) \<longleftrightarrow> me \<notin> dv_inside d"
| "dev_act_ok sp d me (DevArrive loc) \<longleftrightarrow> me \<notin> dv_inside d"
| "dev_act_ok sp d me (DevSched a) \<longleftrightarrow>
     me \<notin> dv_inside d \<and> act_ok (ls_sched (dv_launch d)) me a \<and> sched_only a"

text \<open>The operations on the clocks an access performs: acquire, step, release.\<close>

definition access_ops :: "nat \<Rightarrow> nat \<Rightarrow> mem_ordering option \<Rightarrow> bool \<Rightarrow> bool \<Rightarrow> sync_op list" where
  "access_ops g e ord inb stored =
     (case ord of Some o1 \<Rightarrow> if inb then [OpAcquire g e o1] else [] | None \<Rightarrow> [])
     @ [OpTick g]
     @ (case ord of Some o1 \<Rightarrow> if inb \<and> stored then [OpRelease g e o1] else [] | None \<Rightarrow> [])"

definition space_name :: "mem_space \<Rightarrow> string" where
  "space_name space = (case space of Global name \<Rightarrow> name | Shared block name \<Rightarrow> name)"

fun dev_exec :: "mem_space list \<Rightarrow> 'a device \<Rightarrow> nat \<Rightarrow> 'a dev_act \<Rightarrow> 'a device" where
  "dev_exec sp d me (DevAccess b i kind loc ord op) =
     (let c = dev_ctx d me; m = dv_bufs d ! b; l = dv_launch d;
          g = tc_gid c; inb = (i < length (in_data m));
          stored = (inb \<and> (case op (in_data m ! i) of Inl _ \<Rightarrow> False | Inr _ \<Rightarrow> True));
          before = (case ord of Some _ \<Rightarrow> 1 | None \<Rightarrow> 0);
          acc = fst (access_of c kind loc ord l (dev_cell sp d b i))
      in case access_body (sp ! b) (reset_of (sp ! b)) c i kind loc ord op l m of (r, l1, m1) \<Rightarrow>
         d\<lparr>dv_launch := l1, dv_bufs := (dv_bufs d)[b := m1],
           dv_hist := dv_hist d @ access_ops g (elem_no d b i) ord inb stored,
           dv_log := (if inb
             then dv_log d @ [\<lparr>lg_pos = length (dv_hist d) + before, lg_buf = b, lg_index = i, lg_access = acc\<rparr>]
             else dv_log d)\<rparr>)"
| "dev_exec sp d me (DevClaim b i checked loc) =
     (let c = dev_ctx d me; m = dv_bufs d ! b; l = dv_launch d;
          acc = fst (ctx_access l c Write loc)
      in case elem_mut_body (space_name (sp ! b)) c i checked loc l m of (r, l1, m1) \<Rightarrow>
         d\<lparr>dv_launch := l1, dv_bufs := (dv_bufs d)[b := m1],
           dv_hist := dv_hist d @ [OpTick (tc_gid c)],
           dv_log := (if i < length (in_data m)
             then dv_log d @ [\<lparr>lg_pos = length (dv_hist d), lg_buf = b, lg_index = i, lg_access = acc\<rparr>]
             else dv_log d)\<rparr>)"
| "dev_exec sp d me (DevStore b i v) =
     d\<lparr>dv_bufs := (dv_bufs d)[b := deref_mut i v (dv_bufs d ! b)]\<rparr>"
| "dev_exec sp d me (DevFence ord) =
     d\<lparr>dv_launch := ctx_fence (dv_launch d) (dev_ctx d me) ord,
       dv_hist := dv_hist d @ [OpFence (tc_gid (dev_ctx d me)) ord]\<rparr>"
| "dev_exec sp d me (DevArrive loc) =
     d\<lparr>dv_launch := fst (sync_threads_enter (dv_launch d) (dev_ctx d me) loc),
       dv_inside := insert me (dv_inside d),
       dv_hist := dv_hist d @ [OpArrive (tc_gid (dev_ctx d me)) (unat (tc_block (dev_ctx d me)))]\<rparr>"
| "dev_exec sp d me DevDepart =
     d\<lparr>dv_launch := sync_threads_leave (dv_launch d) (dev_ctx d me),
       dv_inside := dv_inside d - {me},
       dv_hist := dv_hist d @ [OpDepart (tc_gid (dev_ctx d me)) (unat (tc_block (dev_ctx d me)))]\<rparr>"
| "dev_exec sp d me (DevSched a) =
     d\<lparr>dv_launch := (dv_launch d)\<lparr>ls_world :=
         sched_exec (ls_sched (dv_launch d)) (ls_world (dv_launch d)) me a\<rparr>\<rparr>"

section \<open>A launch\<close>

text \<open>The shared state the next wave starts from.\<close>

definition dev_shared :: "'a device \<Rightarrow> (unit, unit, unit) launch_shared" where
  "dev_shared d = \<lparr>lh_id = ls_id (dv_launch d), lh_reporter = w_rep (ls_world (dv_launch d)),
     lh_sync = ls_sync (dv_launch d), lh_data = \<lparr>ld_blocks = [], ld_warps = [], ld_host = ()\<rparr>\<rparr>"

definition dev_wave ::
  "launch_config \<Rightarrow> launch_plan \<Rightarrow> choices \<Rightarrow> nat \<Rightarrow> nat \<Rightarrow> (nat \<times> nat) list \<Rightarrow> 'a device \<Rightarrow> 'a device" where
  "dev_wave c p picks first n rest d =
     d\<lparr>dv_launch := wave_begin c p n picks (dev_shared d), dv_first := first, dv_waves := rest,
       dv_inside := {}\<rparr>"

definition dev_begin ::
  "launch_config \<Rightarrow> launch_plan \<Rightarrow> choices \<Rightarrow> nat \<Rightarrow> 'a instrumented list \<Rightarrow> 'a device" where
  "dev_begin c p picks lid bufs =
     (case hd (wave_list p) of (first, n) \<Rightarrow>
       \<lparr>dv_launch = wave_begin c p n picks (launch_begin lid p () :: (unit, unit, unit) launch_shared),
        dv_first = first, dv_waves = tl (wave_list p), dv_bufs = bufs, dv_inside = {}, dv_hist = [],
        dv_log = []\<rparr>)"

inductive dev_step ::
  "mem_space list \<Rightarrow> launch_config \<Rightarrow> launch_plan \<Rightarrow> 'a device \<Rightarrow> 'a device \<Rightarrow> bool" for sp c p where
  act: "\<not> st_aborted (ls_st (dv_launch d)) \<Longrightarrow> st_current (ls_st (dv_launch d)) = Some me \<Longrightarrow>
     dev_act_ok sp d me a \<Longrightarrow> dev_step sp c p d (dev_exec sp d me a)"
| next_wave: "\<not> st_aborted (ls_st (dv_launch d)) \<Longrightarrow>
     \<forall>st \<in> set (st_status (ls_st (dv_launch d))). st = Finished \<Longrightarrow>
     dv_waves d = (first, n) # rest \<Longrightarrow> dev_step sp c p d (dev_wave c p picks first n rest d)"

inductive_cases dev_stepE: "dev_step sp c p d d'"

text \<open>A launch that passed its checks, on buffers it has not touched yet.\<close>

definition dev_setting :: "mem_space list \<Rightarrow> bool \<Rightarrow> launch_config \<Rightarrow> launch_plan \<Rightarrow> nat \<Rightarrow> 'a instrumented list \<Rightarrow> bool" where
  "dev_setting sp checks c p lid bufs \<longleftrightarrow> launch_setup checks c = Inr p \<and> length sp = length bufs
     \<and> (\<forall>m \<in> set bufs. buf_ok m \<and> in_launch m \<noteq> lid)"

definition dev_reachable ::
  "mem_space list \<Rightarrow> bool \<Rightarrow> launch_config \<Rightarrow> launch_plan \<Rightarrow> nat \<Rightarrow> 'a instrumented list \<Rightarrow> 'a device \<Rightarrow> bool" where
  "dev_reachable sp checks c p lid bufs d \<longleftrightarrow> dev_setting sp checks c p lid bufs
     \<and> (\<exists>picks. (dev_step sp c p)\<^sup>*\<^sup>* (dev_begin c p picks lid bufs) d)"

end
