(* ===== verification/Device_Inv.thy ===== *)
theory Device_Inv
  imports Device
begin

text \<open>
  What every reachable state of a launch keeps: the scheduler's invariant, the buffers' shape and the
  place of the current wave in the grid. The context of the acting thread is then the one \<^verbatim>\<open>run_thread\<close>
  builds: its number and its coordinates say the same.
\<close>

section \<open>The waves of a launch\<close>

lemma waves_from_next: "waves_from p k s = xs @ (f, n) # (f', n') # ys \<Longrightarrow> f' = f + n"
proof (induction k arbitrary: s xs)
  case (Suc k)
  let ?n = "min (lp_resident p) (lp_blocks p - s)"
  have w: "(s, ?n) # waves_from p k (s + ?n) = xs @ (f, n) # (f', n') # ys"
    using Suc.prems by (simp add: Let_def)
  show ?case
  proof (cases xs)
    case Nil
    then show ?thesis using w by (cases k) (auto simp: Let_def)
  next
    case (Cons x xs')
    then have "waves_from p k (s + ?n) = xs' @ (f, n) # (f', n') # ys" using w by (simp only: append_Cons list.inject)
    then show ?thesis by (rule Suc.IH)
  qed
qed simp

lemma wave_list_next: "wave_list p = xs @ (f, n) # (f', n') # ys \<Longrightarrow> f' = f + n"
  unfolding wave_list_def by (rule waves_from_next)

lemma wave_list_nonempty: "plan_ok p \<Longrightarrow> wave_list p \<noteq> []"
proof -
  assume p: "plan_ok p"
  then have "lp_blocks p \<le> lp_waves p * lp_resident p"
    using div_ceil_bounds(1) [of "lp_resident p" "lp_blocks p"] by (simp add: plan_ok_def)
  moreover have "0 < lp_blocks p" using p by (simp add: plan_ok_def)
  ultimately have "lp_waves p \<noteq> 0" by (cases "lp_waves p") simp_all
  then show ?thesis by (cases "lp_waves p") (simp_all add: wave_list_def Let_def)
qed

lemma setup_block_count:
  assumes "launch_setup checks c = Inr p"
  shows "(let d = lc_block c in unat (dim_x d * dim_y d * dim_z d)) = lp_tpb p"
proof -
  obtain tpb where t: "dim3_count checks (lc_block c) = Inr tpb" "lp_tpb p = unat tpb"
    using assms by (auto simp: launch_setup_def Let_def)
  then have "tpb = dim_x (lc_block c) * dim_y (lc_block c) * dim_z (lc_block c)"
    by (auto simp: dim3_count_def mul_u32_def split: if_splits)
  with t show ?thesis by (simp add: Let_def)
qed

section \<open>The invariant\<close>

definition in_wave :: "launch_plan \<Rightarrow> 'a device \<Rightarrow> nat \<Rightarrow> bool" where
  "in_wave p d n \<longleftrightarrow> (\<exists>past. wave_list p = past @ (dv_first d, n) # dv_waves d)
     \<and> ls_sched (dv_launch d) = wave_sched p n"

text \<open>The buffers: only their shadow and their contents change.\<close>

definition bufs_ok :: "nat list \<Rightarrow> 'a instrumented list \<Rightarrow> bool" where
  "bufs_ok lens bufs \<longleftrightarrow> map buf_len bufs = lens \<and> (\<forall>m \<in> set bufs. buf_ok m)"

lemma bufs_ok_nth:
  "bufs_ok lens bufs \<Longrightarrow> b < length bufs \<Longrightarrow> buf_ok (bufs ! b) \<and> length (in_data (bufs ! b)) = lens ! b"
  by (auto simp: bufs_ok_def buf_len_def)

lemma bufs_ok_update:
  assumes "bufs_ok lens bufs" and "b < length bufs"
    and "length (in_data m) = length (in_data (bufs ! b))" and "length (in_shadow m) = length (in_shadow (bufs ! b))"
  shows "bufs_ok lens (bufs[b := m])"
proof -
  have "buf_ok m" using assms bufs_ok_nth [of lens bufs b] by (simp add: buf_ok_def)
  moreover have "map buf_len (bufs[b := m]) = map buf_len bufs"
    using assms by (intro nth_equalityI) (auto simp: buf_len_def nth_list_update)
  ultimately show ?thesis using assms set_update_subset_insert [of bufs b m] by (auto simp: bufs_ok_def)
qed

definition dev_base ::
  "mem_space list \<Rightarrow> launch_config \<Rightarrow> launch_plan \<Rightarrow> nat \<Rightarrow> nat list \<Rightarrow> 'a device \<Rightarrow> bool" where
  "dev_base sp c p lid lens d \<longleftrightarrow> (\<exists>n. in_wave p d n)
     \<and> ls_id (dv_launch d) = lid \<and> ls_config (dv_launch d) = c
     \<and> world_ok (ls_sched (dv_launch d)) (ls_world (dv_launch d))
     \<and> length sp = length (dv_bufs d) \<and> bufs_ok lens (dv_bufs d)"

lemma in_wave_bounds:
  assumes su: "launch_setup checks c = Inr p" and w: "in_wave p d n"
  shows "dv_first d + n \<le> lp_blocks p" and "cfg_ok (ls_sched (dv_launch d))"
    and "sc_tpb (ls_sched (dv_launch d)) = lp_tpb p" and "total_threads (ls_sched (dv_launch d)) = n * lp_tpb p"
proof -
  have m: "(dv_first d, n) \<in> set (wave_list p)" using w by (auto simp: in_wave_def)
  then show "dv_first d + n \<le> lp_blocks p" by (rule wave_list_bounds)
  show "cfg_ok (ls_sched (dv_launch d))"
    using waves_are_schedulable [OF su m] w by (simp add: in_wave_def)
  show "sc_tpb (ls_sched (dv_launch d)) = lp_tpb p" "total_threads (ls_sched (dv_launch d)) = n * lp_tpb p"
    using w by (simp_all add: in_wave_def wave_sched_def sched_config_of_def total_threads_def)
qed

text \<open>The acting thread.\<close>

lemma dev_ctx_values:
  assumes su: "launch_setup checks c = Inr p" and w: "in_wave p d n" and me: "me < n * lp_tpb p"
  shows "unat (tc_block (dev_ctx d me)) = dv_first d + me div lp_tpb p"
    and "unat (tc_thread (dev_ctx d me)) = me mod lp_tpb p"
    and "tc_gid (dev_ctx d me) = dv_first d * lp_tpb p + me"
    and "tc_slot (dev_ctx d me) = me"
    and "tc_gid (dev_ctx d me) < lp_total p"
    and "unat (tc_block (dev_ctx d me)) < lp_blocks p"
    and "me div lp_tpb p < n"
proof -
  note b = in_wave_bounds [OF su w]
  have p: "plan_ok p" by (rule launch_setup_ok [OF su])
  note v = thread_ctx_values [OF p b(1) me]
  show u: "unat (tc_block (dev_ctx d me)) = dv_first d + me div lp_tpb p"
    "unat (tc_thread (dev_ctx d me)) = me mod lp_tpb p"
    "tc_gid (dev_ctx d me) = dv_first d * lp_tpb p + me"
    using v by (simp_all add: dev_ctx_def b(3))
  show "tc_slot (dev_ctx d me) = me" by (simp add: dev_ctx_def thread_ctx_of_def Let_def)
  show lt: "me div lp_tpb p < n" using me by (simp add: less_mult_imp_div_less)
  with b(1) u(1) show "unat (tc_block (dev_ctx d me)) < lp_blocks p" by simp
  have "dv_first d * lp_tpb p + me < (dv_first d + n) * lp_tpb p" using me by (simp add: distrib_right)
  also have "\<dots> \<le> lp_blocks p * lp_tpb p" using b(1) by (rule mult_le_mono1)
  finally show "tc_gid (dev_ctx d me) < lp_total p" using p u(3) by (simp add: plan_ok_def)
qed

lemma acting_thread:
  assumes "launch_setup checks c = Inr p" and "dev_base sp c p lid lens d" and "in_wave p d n"
    and "\<not> st_aborted (ls_st (dv_launch d))" and "st_current (ls_st (dv_launch d)) = Some me"
  shows "me < n * lp_tpb p" and "st_status (ls_st (dv_launch d)) ! me = Runnable"
  using assms in_wave_bounds [OF assms(1,3)] by (auto simp: dev_base_def world_ok_def turn_ok_def ls_st_def)

lemma dev_wave_block:
  assumes "launch_setup checks c = Inr p" and "ls_config (dv_launch d) = c"
  shows "wave_block (dv_launch d) (dev_ctx d me) = me div lp_tpb p"
  using setup_block_count [OF assms(1)] assms(2)
  by (simp add: wave_block_def block_count_def dev_ctx_def thread_ctx_of_def Let_def)

section \<open>What each action does\<close>

lemma reset_of_ok [simp]: "reset_ok (reset_of space)"
  by (simp add: reset_of_def split: mem_space.split)

text \<open>
  Accesses and claims come down to two kinds of step: one that touches an element, and one that misses
  the buffer. A claim touches as a plain write does.
\<close>

definition dev_touch ::
  "mem_space list \<Rightarrow> 'a device \<Rightarrow> nat \<Rightarrow> nat \<Rightarrow> nat \<Rightarrow> access_kind \<Rightarrow> location \<Rightarrow> mem_ordering option \<Rightarrow> bool
     \<Rightarrow> 'a list \<Rightarrow> 'a device" where
  "dev_touch sp d me b i kind loc ord stored data =
     (let c = dev_ctx d me; l = dv_launch d; cell = dev_cell sp d b i;
          m1 = enter_launch (reset_of (sp ! b)) (ls_id l) (dv_bufs d ! b)
      in case access_of c kind loc ord l cell of (acc, now, l1) \<Rightarrow>
     d\<lparr>dv_launch := (if stored
         then foldl (\<lambda>l d. ctx_report d l) l1 (findings_of (sp ! b) i c kind loc ord l cell) else l1),
       dv_bufs := (dv_bufs d)[b := m1\<lparr>in_data := data, in_shadow := (in_shadow m1)[i :=
                 cell_after c kind loc ord stored l cell]\<rparr>],
       dv_hist := dv_hist d @ access_ops (tc_gid c) (elem_no d b i) ord True stored,
       dv_log := dv_log d @ [\<lparr>lg_pos = length (dv_hist d) + (case ord of Some _ \<Rightarrow> 1 | None \<Rightarrow> 0),
         lg_buf = b, lg_index = i, lg_access = acc\<rparr>]\<rparr>)"

definition dev_miss ::
  "mem_space list \<Rightarrow> 'a device \<Rightarrow> nat \<Rightarrow> nat \<Rightarrow> nat \<Rightarrow> access_kind \<Rightarrow> location \<Rightarrow> bool \<Rightarrow> 'a device" where
  "dev_miss sp d me b i kind loc fatal =
     (case ctx_access (dv_launch d) (dev_ctx d me) kind loc of (acc, now, l1) \<Rightarrow>
     d\<lparr>dv_launch := (if fatal
         then ctx_trap (OutOfBounds (sp ! b) i (length (in_data (dv_bufs d ! b))) acc) l1 else l1),
       dv_bufs := (dv_bufs d)[b := enter_launch (reset_of (sp ! b)) (ls_id (dv_launch d)) (dv_bufs d ! b)],
       dv_hist := dv_hist d @ [OpTick (tc_gid (dev_ctx d me))]\<rparr>)"

lemma dev_access_in:
  assumes i: "i < length (in_data (dv_bufs d ! b))"
  shows "\<exists>stored data. length data = length (in_data (dv_bufs d ! b)) \<and> ((\<forall>v. \<exists>x. op v = Inr x) \<longrightarrow> stored) \<and>
    dev_exec sp d me (DevAccess b i kind loc ord op) = dev_touch sp d me b i kind loc ord stored data"
proof -
  let ?m1 = "enter_launch (reset_of (sp ! b)) (ls_id (dv_launch d)) (dv_bufs d ! b)"
  obtain acc now l1 where a:
    "access_of (dev_ctx d me) kind loc ord (dv_launch d) (dev_cell sp d b i) = (acc, now, l1)"
    by (rule prod_cases3)
  note eq = access_body_eq [where space = "sp ! b" and c = "dev_ctx d me" and l = "dv_launch d",
      OF reset_of_ok [of "sp ! b"] i refl refl, folded dev_cell_def]
  note f = enter_launch_fields [OF reset_of_ok, of "sp ! b" "ls_id (dv_launch d)" "dv_bufs d ! b"]
  show ?thesis
  proof (cases "op (in_data (dv_bufs d ! b) ! i)")
    case (Inl e)
    then have "?m1\<lparr>in_data := in_data (dv_bufs d ! b), in_shadow := X\<rparr> = ?m1\<lparr>in_shadow := X\<rparr>" for X
      using f(1) by simp
    moreover have "\<not> (\<forall>v. \<exists>x. op v = Inr x)" using Inl by (metis sum.distinct(1))
    ultimately show ?thesis using Inl i
      by (intro exI [of _ False] exI [of _ "in_data (dv_bufs d ! b)"])
        (simp add: eq [of kind loc ord op] a Let_def dev_touch_def)
  next
    case (Inr vn)
    obtain v new where vn: "vn = (v, new)" by (cases vn)
    then show ?thesis using Inr i
      by (intro exI [of _ True] exI [of _ "(in_data (dv_bufs d ! b))[i := new]"])
        (simp add: eq [of kind loc ord op] a Let_def dev_touch_def)
  qed
qed

lemma dev_access_out:
  assumes "length (in_data (dv_bufs d ! b)) \<le> i"
  shows "dev_exec sp d me (DevAccess b i kind loc ord op) = dev_miss sp d me b i kind loc True"
  using assms by (simp add: Let_def access_body_oob access_ops_def dev_miss_def split: option.split prod.split)

lemma dev_claim:
  assumes sp: "sp ! b = Global name"
  shows "dev_exec sp d me (DevClaim b i checked loc) =
    (if i < length (in_data (dv_bufs d ! b))
     then dev_touch sp d me b i Write loc None True (in_data (dv_bufs d ! b))
     else dev_miss sp d me b i Write loc (\<not> checked))"
proof -
  obtain acc now l1 where acc: "ctx_access (dv_launch d) (dev_ctx d me) Write loc = (acc, now, l1)"
    by (rule prod_cases3)
  have id: "ls_id l1 = ls_id (dv_launch d)" and kind: "acc_kind acc = Write"
    using ctx_access_fields(7,10) [of "dv_launch d" "dev_ctx d me" Write loc] acc by simp_all
  let ?m1 = "enter_launch (reset_of (sp ! b)) (ls_id (dv_launch d)) (dv_bufs d ! b)"
  have data: "in_data ?m1 = in_data (dv_bufs d ! b)" by (simp add: enter_launch_fields)
  then have same: "?m1\<lparr>in_data := in_data (dv_bufs d ! b), in_shadow := X\<rparr> = ?m1\<lparr>in_shadow := X\<rparr>" for X
    by simp
  have r: "reset_of (sp ! b) = global_reset" by (simp add: reset_of_def sp)
  have rg: "reset_of (Global name) = global_reset" by (simp add: reset_of_def)
  obtain conflict cell1 where ow: "on_write (dev_cell sp d b i) acc now = (conflict, cell1)"
    by (cases "on_write (dev_cell sp d b i) acc now")
  have oa: "on_access (dev_cell sp d b i) acc now = (conflict, cell1)" by (simp add: on_access_def kind ow)
  note cell = ow [unfolded dev_cell_def r]
  show ?thesis
  proof (cases "i < length (in_data (dv_bufs d ! b))")
    case True
    have touch: "dev_touch sp d me b i Write loc None True (in_data (dv_bufs d ! b)) =
      d\<lparr>dv_launch := (case conflict of Some first \<Rightarrow> ctx_report (DataRace (sp ! b) i first acc) l1 | None \<Rightarrow> l1),
        dv_bufs := (dv_bufs d)[b := ?m1\<lparr>in_shadow := (in_shadow ?m1)[i := cell1]\<rparr>],
        dv_hist := dv_hist d @ [OpTick (tc_gid (dev_ctx d me))],
        dv_log := dv_log d @ [\<lparr>lg_pos = length (dv_hist d), lg_buf = b, lg_index = i, lg_access = acc\<rparr>]\<rparr>"
      using same by (simp add: dev_touch_def access_of_def acquired_def acc cell_after_def findings_of_def
          conflict_of_def oa access_ops_def Let_def split: option.split)
    show ?thesis
      unfolding if_P [OF True] touch using True data
      by (simp add: elem_mut_body_def acc id sp space_name_def global_space_def Let_def rg cell split: option.split)
  next
    case False
    then show ?thesis using data
      by (simp add: elem_mut_body_def acc id sp space_name_def global_space_def Let_def rg dev_miss_def)
  qed
qed

text \<open>Every action of the acting thread.\<close>

lemma dev_act_cases:
  assumes ok: "dev_act_ok sp d me a"
  obtains (touch) b i kind loc ord stored data where "b < length (dv_bufs d)" "i < length (in_data (dv_bufs d ! b))"
      "me \<notin> dv_inside d" "length data = length (in_data (dv_bufs d ! b))" "ord = None \<longleftrightarrow> kind \<noteq> Atomic"
      "dev_exec sp d me a = dev_touch sp d me b i kind loc ord stored data" "kind \<noteq> Atomic \<Longrightarrow> stored"
    | (miss) b i kind loc fatal where "b < length (dv_bufs d)" "me \<notin> dv_inside d"
      "dev_exec sp d me a = dev_miss sp d me b i kind loc fatal"
    | (store) b i v where "b < length (dv_bufs d)" "a = DevStore b i v"
    | (fence) ord where "a = DevFence ord"
    | (arrive) loc where "me \<notin> dv_inside d" "a = DevArrive loc"
    | (depart) "me \<in> dv_inside d" "a = DevDepart"
    | (sched) s where "me \<notin> dv_inside d" "act_ok (ls_sched (dv_launch d)) me s" "sched_only s" "a = DevSched s"
proof (cases a)
  case (DevAccess b i kind loc ord op)
  show ?thesis
  proof (cases "i < length (in_data (dv_bufs d ! b))")
    case True
    obtain stored data where data: "length data = length (in_data (dv_bufs d ! b))" "(\<forall>v. \<exists>x. op v = Inr x) \<longrightarrow> stored"
      "dev_exec sp d me (DevAccess b i kind loc ord op) = dev_touch sp d me b i kind loc ord stored data"
      using dev_access_in [OF True, of op sp me kind loc ord] by blast
    have ex: "dev_exec sp d me a = dev_touch sp d me b i kind loc ord stored data" using data(3) unfolding DevAccess .
    have ok1: "b < length (dv_bufs d)" "me \<notin> dv_inside d" "ord = None \<longleftrightarrow> kind \<noteq> Atomic" "kind \<noteq> Atomic \<Longrightarrow> stored"
      using ok data(2) by (simp_all add: DevAccess)
    show ?thesis by (rule touch [OF ok1(1) True ok1(2) data(1) ok1(3) ex ok1(4)])
  next
    case False
    then have out: "dev_exec sp d me (DevAccess b i kind loc ord op) = dev_miss sp d me b i kind loc True"
      by (intro dev_access_out) simp
    show ?thesis by (rule miss) (use DevAccess ok out in simp_all)
  qed
next
  case (DevClaim b i checked loc)
  then obtain name where sp: "sp ! b = Global name" and b: "me \<notin> dv_inside d" "b < length (dv_bufs d)"
    using ok by auto
  show ?thesis
  proof (cases "i < length (in_data (dv_bufs d ! b))")
    case True
    show ?thesis
      by (rule touch [OF b(2) True b(1) refl, where ord = None and kind = Write])
        (use dev_claim [OF sp, of d me i checked loc] True DevClaim in simp_all)
  next
    case False
    show ?thesis
      by (rule miss [OF b(2,1)]) (use dev_claim [OF sp, of d me i checked loc] False DevClaim in simp)
  qed
qed (use ok that in auto)

section \<open>Every step keeps the invariant\<close>

lemma dev_touch_fields:
  assumes a: "access_of (dev_ctx d me) kind loc ord (dv_launch d) (dev_cell sp d b i) = (acc, now, l1)"
    and t: "d' = dev_touch sp d me b i kind loc ord stored data"
  shows "ls_id (dv_launch d') = ls_id (dv_launch d)" "ls_sched (dv_launch d') = ls_sched (dv_launch d)"
    "ls_config (dv_launch d') = ls_config (dv_launch d)" "ls_sync (dv_launch d') = ls_sync l1"
    "w_st (ls_world (dv_launch d')) = w_st (ls_world (dv_launch d))"
    "w_rep (ls_world (dv_launch d')) = foldl reporter_push (w_rep (ls_world (dv_launch d)))
       (if stored then findings_of (sp ! b) i (dev_ctx d me) kind loc ord (dv_launch d) (dev_cell sp d b i) else [])"
    "dv_first d' = dv_first d" "dv_waves d' = dv_waves d" "dv_inside d' = dv_inside d"
    "dv_hist d' = dv_hist d @ access_ops (tc_gid (dev_ctx d me)) (elem_no d b i) ord True stored"
    "dv_log d' = dv_log d @ [\<lparr>lg_pos = length (dv_hist d) + (case ord of Some _ \<Rightarrow> 1 | None \<Rightarrow> 0),
         lg_buf = b, lg_index = i, lg_access = acc\<rparr>]"
    "length (dv_bufs d') = length (dv_bufs d)"
  using access_of_fields(1-4) [OF a] by (simp_all add: t dev_touch_def a Let_def)

lemma dev_miss_fields:
  assumes t: "d' = dev_miss sp d me b i kind loc fatal"
  shows "ls_id (dv_launch d') = ls_id (dv_launch d)" "ls_sched (dv_launch d') = ls_sched (dv_launch d)"
    "ls_config (dv_launch d') = ls_config (dv_launch d)"
    "ls_sync (dv_launch d') = snd (tick (ls_sync (dv_launch d)) (tc_gid (dev_ctx d me))
       (key (tc_block (dev_ctx d me)) (tc_thread (dev_ctx d me))))"
    "dv_first d' = dv_first d" "dv_waves d' = dv_waves d" "dv_inside d' = dv_inside d"
    "dv_hist d' = dv_hist d @ [OpTick (tc_gid (dev_ctx d me))]" "dv_log d' = dv_log d"
    "dv_bufs d' = (dv_bufs d)[b := enter_launch (reset_of (sp ! b)) (ls_id (dv_launch d)) (dv_bufs d ! b)]"
    "ls_world (dv_launch d') = ls_world (dv_launch d)
     \<or> (\<exists>acc. ls_world (dv_launch d') = abort (ls_sched (dv_launch d)) (push_finding
           (OutOfBounds (sp ! b) i (length (in_data (dv_bufs d ! b))) acc) (ls_world (dv_launch d))))"
proof -
  obtain acc now l1 where a: "ctx_access (dv_launch d) (dev_ctx d me) kind loc = (acc, now, l1)"
    by (rule prod_cases3)
  have f: "ls_id l1 = ls_id (dv_launch d)" "ls_sched l1 = ls_sched (dv_launch d)"
    "ls_config l1 = ls_config (dv_launch d)" "ls_world l1 = ls_world (dv_launch d)"
    "ls_sync l1 = snd (tick (ls_sync (dv_launch d)) (tc_gid (dev_ctx d me))
       (key (tc_block (dev_ctx d me)) (tc_thread (dev_ctx d me))))"
    using ctx_access_fields [of "dv_launch d" "dev_ctx d me" kind loc]
      ctx_access_sync [of "dv_launch d" "dev_ctx d me" kind loc] unfolding a by simp_all
  show "ls_id (dv_launch d') = ls_id (dv_launch d)" "ls_sched (dv_launch d') = ls_sched (dv_launch d)"
    "ls_config (dv_launch d') = ls_config (dv_launch d)"
    "ls_sync (dv_launch d') = snd (tick (ls_sync (dv_launch d)) (tc_gid (dev_ctx d me))
       (key (tc_block (dev_ctx d me)) (tc_thread (dev_ctx d me))))"
    "dv_first d' = dv_first d" "dv_waves d' = dv_waves d" "dv_inside d' = dv_inside d"
    "dv_hist d' = dv_hist d @ [OpTick (tc_gid (dev_ctx d me))]" "dv_log d' = dv_log d"
    "dv_bufs d' = (dv_bufs d)[b := enter_launch (reset_of (sp ! b)) (ls_id (dv_launch d)) (dv_bufs d ! b)]"
    by (simp_all add: t dev_miss_def a f)
  show "ls_world (dv_launch d') = ls_world (dv_launch d)
     \<or> (\<exists>acc. ls_world (dv_launch d') = abort (ls_sched (dv_launch d)) (push_finding
           (OutOfBounds (sp ! b) i (length (in_data (dv_bufs d ! b))) acc) (ls_world (dv_launch d))))"
    by (auto simp: t dev_miss_def a f ctx_trap_def)
qed

lemma sync_enter_fields [simp]:
  "ls_id (fst (sync_threads_enter l c loc)) = ls_id l" "ls_sched (fst (sync_threads_enter l c loc)) = ls_sched l"
  "ls_config (fst (sync_threads_enter l c loc)) = ls_config l"
  "ls_sync (fst (sync_threads_enter l c loc)) = barrier_arrive (ls_sync l) (tc_gid c) (unat (tc_block c))"
  "ls_world (fst (sync_threads_enter l c loc)) = fst (barrier (ls_sched l) (ls_world l) (tc_slot c) loc)"
  by (simp_all add: sync_threads_enter_def Let_def split: prod.split)

lemma sync_leave_fields [simp]:
  "ls_id (sync_threads_leave l c) = ls_id l" "ls_sched (sync_threads_leave l c) = ls_sched l"
  "ls_config (sync_threads_leave l c) = ls_config l" "ls_world (sync_threads_leave l c) = ls_world l"
  "ls_sync (sync_threads_leave l c) = barrier_depart (ls_sync l) (tc_gid c) (unat (tc_block c))"
  "ls_id (ctx_fence l c ord) = ls_id l" "ls_sched (ctx_fence l c ord) = ls_sched l"
  "ls_config (ctx_fence l c ord) = ls_config l" "ls_world (ctx_fence l c ord) = ls_world l"
  "ls_sync (ctx_fence l c ord) = fence (ls_sync l) (tc_gid c) ord"
  by (simp_all add: sync_threads_leave_def ctx_fence_def)

lemma reports_ok: "world_ok cfg w \<Longrightarrow> world_ok cfg (foldl (\<lambda>w d. push_finding d w) w ds)"
  by (induction ds arbitrary: w) (auto intro: report_ok)

lemma same_world_ok:
  assumes "world_ok cfg w" and "w_st w' = w_st w" and "w_rep w' = foldl reporter_push (w_rep w) ds"
  shows "world_ok cfg w'"
proof -
  have e: "w_st (foldl (\<lambda>w d. push_finding d w) w ds) = w_st w"
    "w_rep (foldl (\<lambda>w d. push_finding d w) w ds) = foldl reporter_push (w_rep w) ds"
    by (induction ds arbitrary: w) (simp_all add: push_finding_def)
  show ?thesis using reports_ok [OF assms(1), of ds] unfolding world_ok_def e assms(2,3) .
qed

lemma dev_touch_bufs:
  assumes ok: "bufs_ok lens (dv_bufs d)" and b: "b < length (dv_bufs d)"
    and data: "length data = length (in_data (dv_bufs d ! b))"
  shows "bufs_ok lens (dv_bufs (dev_touch sp d me b i kind loc ord stored data))"
proof -
  obtain acc now l1 where a:
    "access_of (dev_ctx d me) kind loc ord (dv_launch d) (dev_cell sp d b i) = (acc, now, l1)"
    by (rule prod_cases3)
  show ?thesis
    using bufs_ok_update [OF ok b] data
    by (simp add: dev_touch_def a Let_def enter_launch_fields(3) [OF reset_of_ok])
qed

lemma sched_act_base:
  assumes "launch_setup checks c = Inr p" and "dev_base sp c p lid lens d" and "in_wave p d n"
    and "\<not> st_aborted (ls_st (dv_launch d))" and "st_current (ls_st (dv_launch d)) = Some me"
    and "act_ok (ls_sched (dv_launch d)) me a"
  shows "world_ok (ls_sched (dv_launch d)) (sched_exec (ls_sched (dv_launch d)) (ls_world (dv_launch d)) me a)"
  using step_ok [OF in_wave_bounds(2) [OF assms(1,3)] _ sched_step.act] assms by (simp add: dev_base_def ls_st_def)

lemma dev_act_base:
  assumes su: "launch_setup checks c = Inr p" and base: "dev_base sp c p lid lens d"
    and run: "\<not> st_aborted (ls_st (dv_launch d))" and turn: "st_current (ls_st (dv_launch d)) = Some me"
    and ok: "dev_act_ok sp d me a"
  shows "dev_base sp c p lid lens (dev_exec sp d me a)"
proof -
  obtain n where w: "in_wave p d n" using base by (auto simp: dev_base_def)
  note b = base [unfolded dev_base_def]
  note sched = sched_act_base [OF su base w run turn]
  have bufs: "bufs_ok lens (dv_bufs d)" using b by blast
  have slot: "tc_slot (dev_ctx d me) = me" by (simp add: dev_ctx_def thread_ctx_of_def Let_def)
  show ?thesis
    using ok
  proof (cases rule: dev_act_cases)
    case (touch b i kind loc ord stored data)
    obtain acc now l1 where a:
      "access_of (dev_ctx d me) kind loc ord (dv_launch d) (dev_cell sp d b i) = (acc, now, l1)"
      by (rule prod_cases3)
    note f = dev_touch_fields [OF a touch(6)]
    have "world_ok (ls_sched (dv_launch d)) (ls_world (dv_launch (dev_exec sp d me a)))"
      by (rule same_world_ok [OF _ f(5,6)]) (use base in \<open>simp add: dev_base_def\<close>)
    moreover have "bufs_ok lens (dv_bufs (dev_exec sp d me a))"
      unfolding touch(6) by (rule dev_touch_bufs [OF bufs touch(1,4)])
    ultimately show ?thesis using base w f unfolding dev_base_def in_wave_def by auto
  next
    case (miss b i kind loc fatal)
    note f = dev_miss_fields [OF miss(3)]
    have "world_ok (ls_sched (dv_launch d)) (ls_world (dv_launch (dev_exec sp d me a)))"
      using f(11) trap_ok base by (auto simp: dev_base_def)
    moreover have "bufs_ok lens (dv_bufs (dev_exec sp d me a))"
      unfolding f(10) by (rule bufs_ok_update [OF bufs miss(1)]) (simp_all add: enter_launch_fields [OF reset_of_ok])
    ultimately show ?thesis using base w f unfolding dev_base_def in_wave_def by auto
  next
    case (store b i v)
    have "bufs_ok lens (dv_bufs (dev_exec sp d me a))"
      unfolding store(2) dev_exec.simps
      using bufs_ok_update [OF bufs store(1), of "deref_mut i v (dv_bufs d ! b)"] by (simp add: deref_mut_def)
    then show ?thesis using base w unfolding store(2) dev_base_def in_wave_def by auto
  next
    case (fence ord)
    then show ?thesis using base w unfolding dev_base_def in_wave_def by auto
  next
    case (arrive loc)
    then show ?thesis using base w sched [of "ActBarrier loc"] unfolding dev_base_def in_wave_def by (auto simp: slot)
  next
    case depart
    then show ?thesis using base w unfolding dev_base_def in_wave_def by auto
  next
    case (sched s)
    then show ?thesis using base w \<open>\<And>a. act_ok _ me a \<Longrightarrow> _\<close> [of s] unfolding dev_base_def in_wave_def by auto
  qed
qed

lemma dev_wave_base:
  assumes su: "launch_setup checks c = Inr p" and base: "dev_base sp c p lid lens d"
    and rest: "dv_waves d = (first, n') # rest"
  shows "dev_base sp c p lid lens (dev_wave c p picks first n' rest d)"
    and "in_wave p (dev_wave c p picks first n' rest d) n'"
    and "in_wave p d n \<Longrightarrow> first = dv_first d + n"
proof -
  obtain m past where w: "wave_list p = past @ (dv_first d, m) # dv_waves d" "ls_sched (dv_launch d) = wave_sched p m"
    using base by (auto simp: dev_base_def in_wave_def)
  have mem: "(first, n') \<in> set (wave_list p)" using w rest by simp
  have cfg: "cfg_ok (wave_sched p n')" by (rule waves_are_schedulable [OF su mem])
  have rep: "reporter_ok (lh_reporter (dev_shared d))" using base by (simp add: dev_base_def world_ok_def dev_shared_def)
  note init = wave_initial [OF rep, where p = p and n = n' and c = c and picks = picks]
  have "world_ok (wave_sched p n') (ls_world (wave_begin c p n' picks (dev_shared d)))"
    by (rule init_ok(1) [OF cfg init(1)])
  moreover have in_next: "in_wave p (dev_wave c p picks first n' rest d) n'"
    using w rest init(2) by (auto simp: in_wave_def dev_wave_def intro!: exI [of _ "past @ [(dv_first d, m)]"])
  ultimately show "dev_base sp c p lid lens (dev_wave c p picks first n' rest d)"
    using base init(2) unfolding dev_base_def
    by (auto simp: dev_wave_def wave_begin_def dev_shared_def Let_def intro!: exI [of _ n'])
  show "in_wave p (dev_wave c p picks first n' rest d) n'" by (rule in_next)
  assume "in_wave p d n"
  then obtain past' where "wave_list p = past' @ (dv_first d, n) # (first, n') # rest"
    using rest by (auto simp: in_wave_def)
  then show "first = dv_first d + n" by (rule wave_list_next)
qed

definition buf_lens :: "'a instrumented list \<Rightarrow> nat list" where
  "buf_lens bufs = map buf_len bufs"

lemma dev_begin_base:
  assumes "dev_setting sp checks c p lid bufs"
  shows "dev_base sp c p lid (buf_lens bufs) (dev_begin c p picks lid bufs)"
proof -
  have su: "launch_setup checks c = Inr p" and len: "length sp = length bufs" and ok: "\<forall>m \<in> set bufs. buf_ok m"
    using assms by (auto simp: dev_setting_def)
  obtain first n rest where w: "wave_list p = (first, n) # rest"
    using wave_list_nonempty [OF launch_setup_ok [OF su]] by (metis list.exhaust surj_pair)
  let ?sh = "launch_begin lid p () :: (unit, unit, unit) launch_shared"
  have cfg: "cfg_ok (wave_sched p n)" by (rule waves_are_schedulable [OF su, of first]) (simp add: w)
  have rep: "reporter_ok (lh_reporter ?sh)" by (simp add: launch_begin_def)
  note init = wave_initial [OF rep, where p = p and n = n and c = c and picks = picks]
  have "world_ok (wave_sched p n) (ls_world (wave_begin c p n picks ?sh))"
    by (rule init_ok(1) [OF cfg init(1)])
  then show ?thesis using init(2) len ok
    by (auto simp: dev_base_def in_wave_def dev_begin_def w wave_begin_def launch_begin_def Let_def bufs_ok_def
        buf_lens_def)
qed

lemma dev_step_base:
  assumes "launch_setup checks c = Inr p" and "dev_base sp c p lid lens d" and "dev_step sp c p d d'"
  shows "dev_base sp c p lid lens d'"
  using assms(3)
proof cases
  case (act me a)
  then show ?thesis using dev_act_base [OF assms(1,2)] by simp
next
  case (next_wave first n rest picks)
  then show ?thesis using dev_wave_base(1) [OF assms(1,2)] by simp
qed

interpretation device: invariant_system
  "\<lambda>d. dev_setting sp checks c p lid bufs \<and> (\<exists>picks. d = dev_begin c p picks lid bufs)" "dev_step sp c p"
  "\<lambda>d. launch_setup checks c = Inr p \<longrightarrow> dev_base sp c p lid (buf_lens bufs) d" for sp checks c p lid bufs
  by unfold_locales (use dev_begin_base dev_step_base in blast)+

lemma reachable_base:
  assumes "dev_reachable sp checks c p lid bufs d"
  shows "launch_setup checks c = Inr p" and "dev_base sp c p lid (buf_lens bufs) d"
proof -
  show su: "launch_setup checks c = Inr p" using assms by (simp add: dev_reachable_def dev_setting_def)
  have "device.reachable sp checks c p lid bufs d"
    using assms unfolding device.reachable_def dev_reachable_def by blast
  from device.reachable_inv [OF this] su show "dev_base sp c p lid (buf_lens bufs) d" by blast
qed

end
