(* ===== verification/Device_HB.thy ===== *)
theory Device_HB
  imports Device_Inv
begin

text \<open>
  The clocks and the shadow of a running launch against its history: the clocks of the launch state and
  the clocks released to the elements are those that the history of synchronisation operations produces
  (\<open>Sync_HB\<close>), and every access a cell remembers is one the log has, at its own position of the history.
\<close>

section \<open>Threads and elements by number\<close>

definition thread_key :: "launch_plan \<Rightarrow> nat \<Rightarrow> u64" where
  "thread_key p g = key (of_nat (g div lp_tpb p)) (of_nat (g mod lp_tpb p))"

lemma div_less_grid:
  assumes "plan_ok p" and "g < lp_total p"
  shows "g div lp_tpb p < 2 ^ 32" and "g mod lp_tpb p < 2 ^ 32"
proof -
  have g: "g < 2 ^ 32" and t: "0 < lp_tpb p" using assms by (auto simp: plan_ok_def)
  then show "g div lp_tpb p < 2 ^ 32" using div_le_dividend le_less_trans by blast
  show "g mod lp_tpb p < 2 ^ 32" using g mod_less_eq_dividend le_less_trans by blast
qed

lemma thread_key_inj:
  assumes "plan_ok p"
  shows "inj_on (thread_key p) {..<lp_total p}"
proof (rule inj_onI)
  fix g g' assume g: "g \<in> {..<lp_total p}" "g' \<in> {..<lp_total p}" and eq: "thread_key p g = thread_key p g'"
  then have w: "(of_nat (g div lp_tpb p) :: u32) = of_nat (g' div lp_tpb p)"
    "(of_nat (g mod lp_tpb p) :: u32) = of_nat (g' mod lp_tpb p)" by (simp_all add: thread_key_def)
  note lt = div_less_grid [OF assms, of g] div_less_grid [OF assms, of g']
  have "g div lp_tpb p = g' div lp_tpb p" "g mod lp_tpb p = g' mod lp_tpb p"
    using arg_cong [OF w(1), of unat] arg_cong [OF w(2), of unat] lt g by (simp_all add: unat_of_nat)
  then show "g = g'" by (metis div_mult_mod_eq)
qed

text \<open>The number of the thread that made an access.\<close>

definition acc_gid :: "launch_plan \<Rightarrow> access \<Rightarrow> nat" where
  "acc_gid p a = unat (acc_block a) * lp_tpb p + unat (acc_thread a)"

definition acc_own :: "launch_plan \<Rightarrow> access \<Rightarrow> bool" where
  "acc_own p a \<longleftrightarrow> unat (acc_thread a) < lp_tpb p \<and> acc_gid p a < lp_total p"

lemma acc_key: "acc_own p a \<Longrightarrow> key (acc_block a) (acc_thread a) = thread_key p (acc_gid p a)"
  using div_mod_block [of "lp_tpb p" "unat (acc_thread a)" "unat (acc_block a)"]
  by (auto simp: acc_own_def thread_key_def acc_gid_def)

lemma acc_gid_inj:
  assumes "acc_own p a" and "acc_own p b"
  shows "acc_gid p a = acc_gid p b \<longleftrightarrow> acc_block a = acc_block b \<and> acc_thread a = acc_thread b"
proof
  assume eq: "acc_gid p a = acc_gid p b"
  have "key (acc_block a) (acc_thread a) = key (acc_block b) (acc_thread b)"
    by (simp only: acc_key [OF assms(1)] acc_key [OF assms(2)] eq)
  then show "acc_block a = acc_block b \<and> acc_thread a = acc_thread b" by simp
qed (simp add: acc_gid_def)

lemma elem_no_less:
  assumes "b < length (dv_bufs d)" and "length (dv_bufs d) = length lens" and "i < lens ! b"
  shows "elem_no d b i < length lens * sum_list lens"
proof -
  have "i < sum_list lens" using assms elem_le_sum_list [of b lens] by simp
  then have "i * length lens + b < (i + 1) * length lens" and "(i + 1) * length lens \<le> sum_list lens * length lens"
    using assms(1,2) mult_le_mono1 [of "i + 1" "sum_list lens" "length lens"] by simp_all
  then show ?thesis using assms(2) by (simp add: elem_no_def mult.commute)
qed

lemma elem_no_inj:
  assumes "b < length (dv_bufs d)" and "b' < length (dv_bufs d)"
  shows "elem_no d b i = elem_no d b' i' \<longleftrightarrow> b = b' \<and> i = i'"
proof
  assume eq: "elem_no d b i = elem_no d b' i'"
  have pos: "0 < length (dv_bufs d)" using assms(1) by (metis gr_implies_not0 gr0I)
  have "elem_no d b i mod length (dv_bufs d) = b" "elem_no d b' i' mod length (dv_bufs d) = b'"
    "elem_no d b i div length (dv_bufs d) = i" "elem_no d b' i' div length (dv_bufs d) = i'"
    unfolding elem_no_def using div_mod_block [OF pos assms(1)] div_mod_block [OF pos assms(2)] by blast+
  with eq show "b = b' \<and> i = i'" by simp
qed simp

section \<open>The cells of a step\<close>

lemma enter_launch_same [simp]: "in_launch m = n \<Longrightarrow> enter_launch reset n m = m"
  by (simp add: enter_launch_def)

lemma dev_cell_cong:
  "dv_bufs d' = dv_bufs d \<Longrightarrow> ls_id (dv_launch d') = ls_id (dv_launch d) \<Longrightarrow> dev_cell sp d' b i = dev_cell sp d b i"
  by (simp add: dev_cell_def)

lemma dev_cell_touch:
  assumes bufs: "bufs_ok lens (dv_bufs d)" and b: "b < length (dv_bufs d)" and i: "i < length (in_data (dv_bufs d ! b))"
    and b': "b' < length (dv_bufs d)"
    and t: "d' = dev_touch sp d me b i kind loc ord stored data"
  shows "dev_cell sp d' b' i' = (if b' = b \<and> i' = i
     then cell_after (dev_ctx d me) kind loc ord stored (dv_launch d) (dev_cell sp d b i)
     else dev_cell sp d b' i')"
proof -
  obtain acc now l1 where a:
    "access_of (dev_ctx d me) kind loc ord (dv_launch d) (dev_cell sp d b i) = (acc, now, l1)"
    by (rule prod_cases3)
  let ?m1 = "enter_launch (reset_of (sp ! b)) (ls_id (dv_launch d)) (dv_bufs d ! b)"
  let ?c = "cell_after (dev_ctx d me) kind loc ord stored (dv_launch d) (dev_cell sp d b i)"
  have id: "ls_id (dv_launch d') = ls_id (dv_launch d)" by (rule dev_touch_fields(1) [OF a t])
  have d': "dv_bufs d' = (dv_bufs d)[b := ?m1\<lparr>in_data := data, in_shadow := (in_shadow ?m1)[i := ?c]\<rparr>]"
    by (simp add: t dev_touch_def a Let_def)
  have len: "i < length (in_shadow ?m1)"
    using bufs_ok_nth [OF bufs b] i by (simp add: buf_ok_def enter_launch_fields(3) [OF reset_of_ok])
  show ?thesis
  proof (cases "b' = b")
    case True
    have "dev_cell sp d' b i' = (in_shadow ?m1)[i := ?c] ! i'"
      using b by (simp add: dev_cell_def [of sp d'] d' id enter_launch_fields(2) [OF reset_of_ok])
    then show ?thesis using True len by (auto simp: dev_cell_def [of sp d] nth_list_update)
  next
    case False
    then show ?thesis using b' by (simp add: dev_cell_def d' id)
  qed
qed

lemma dev_cell_miss:
  assumes "d' = dev_miss sp d me b i kind loc fatal"
  shows "dev_cell sp d' b' i' = dev_cell sp d b' i'"
proof -
  have f: "ls_id (dv_launch d') = ls_id (dv_launch d)"
    "dv_bufs d' = (dv_bufs d)[b := enter_launch (reset_of (sp ! b)) (ls_id (dv_launch d)) (dv_bufs d ! b)]"
    using dev_miss_fields [OF assms] by simp_all
  show ?thesis
    by (cases "b' = b"; cases "b < length (dv_bufs d)")
      (simp_all add: dev_cell_def f enter_launch_fields(2) [OF reset_of_ok] list_update_beyond)
qed

lemma shadow_of_data:
  assumes "reset_ok reset"
  shows "in_shadow (enter_launch reset n (m\<lparr>in_data := data\<rparr>)) = in_shadow (enter_launch reset n m)"
  using assms by (auto simp: reset_ok_def enter_launch_def)

lemma dev_cell_store: "dev_cell sp (dev_exec sp d me (DevStore b i v)) b' i' = dev_cell sp d b' i'"
  by (cases "b' = b"; cases "b < length (dv_bufs d)")
    (simp_all add: dev_cell_def deref_mut_def shadow_of_data list_update_beyond)
section \<open>The clocks are those of the history\<close>

definition hist_machine :: "launch_plan \<Rightarrow> nat list \<Rightarrow> sync_op list \<Rightarrow> sync_machine" where
  "hist_machine p lens h =
     sync_run (thread_key p) (lp_total p) (lp_blocks p) (length lens * sum_list lens) h"

definition hist_ok :: "launch_plan \<Rightarrow> nat list \<Rightarrow> sync_op list \<Rightarrow> bool" where
  "hist_ok p lens h \<longleftrightarrow> (\<forall>x \<in> set h. op_valid (lp_total p) (lp_blocks p) (length lens * sum_list lens) x)"

definition dev_synced :: "mem_space list \<Rightarrow> launch_plan \<Rightarrow> nat list \<Rightarrow> 'a device \<Rightarrow> bool" where
  "dev_synced sp p lens d \<longleftrightarrow> hist_ok p lens (dv_hist d)
     \<and> ls_sync (dv_launch d) = sm_sync (hist_machine p lens (dv_hist d))
     \<and> (\<forall>b < length lens. \<forall>i < lens ! b.
          cell_release (dev_cell sp d b i) = sm_elems (hist_machine p lens (dv_hist d)) ! elem_no d b i)"

lemma hist_machine_append:
  "hist_machine p lens (h @ xs) = foldl (sync_exec (thread_key p)) (hist_machine p lens h) xs"
  by (simp add: hist_machine_def sync_run_def)

lemma sync_exec_elems_length [simp]: "length (sm_elems (sync_exec keyf m x)) = length (sm_elems m)"
  by (cases x) simp_all

lemma hist_machine_elems: "length (sm_elems (hist_machine p lens h)) = length lens * sum_list lens"
proof (induction h rule: rev_induct)
  case Nil
  then show ?case by (simp add: hist_machine_def sync_run_def sync_init_def)
qed (simp add: hist_machine_append)

lemma hist_ok_append [simp]:
  "hist_ok p lens (h @ xs) \<longleftrightarrow> hist_ok p lens h \<and> hist_ok p lens xs"
  by (auto simp: hist_ok_def)

lemma dev_ctx_key:
  assumes "launch_setup checks c = Inr p" and "in_wave p d n" and "me < n * lp_tpb p"
  shows "thread_key p (tc_gid (dev_ctx d me)) = key (tc_block (dev_ctx d me)) (tc_thread (dev_ctx d me))"
proof -
  note v = dev_ctx_values [OF assms]
  have t: "0 < lp_tpb p" using launch_setup_ok [OF assms(1)] by (simp add: plan_ok_def)
  have "(dv_first d * lp_tpb p + me) div lp_tpb p = dv_first d + me div lp_tpb p"
    "(dv_first d * lp_tpb p + me) mod lp_tpb p = me mod lp_tpb p" using t by simp_all
  then show ?thesis unfolding thread_key_def v(3) v(1) [symmetric] v(2) [symmetric] by simp
qed

lemma dev_touch_synced:
  assumes su: "launch_setup checks c = Inr p" and base: "dev_base sp c p lid lens d" and w: "in_wave p d n"
    and me: "me < n * lp_tpb p" and synced: "dev_synced sp p lens d"
    and b: "b < length (dv_bufs d)" and i: "i < length (in_data (dv_bufs d ! b))"
    and t: "d' = dev_touch sp d me b i kind loc ord stored data"
  shows "dev_synced sp p lens d'"
proof -
  obtain acc now l1 where a:
    "access_of (dev_ctx d me) kind loc ord (dv_launch d) (dev_cell sp d b i) = (acc, now, l1)"
    by (rule prod_cases3)
  let ?g = "tc_gid (dev_ctx d me)" and ?e = "elem_no d b i" and ?cell = "dev_cell sp d b i"
  let ?m = "hist_machine p lens (dv_hist d)"
  let ?m' = "hist_machine p lens (dv_hist d')"
  note f = dev_touch_fields [OF a t]
  have bufs: "bufs_ok lens (dv_bufs d)" using base by (simp add: dev_base_def)
  then have lens: "length (dv_bufs d) = length lens" by (auto simp: bufs_ok_def)
  have il: "i < lens ! b" using i bufs_ok_nth [OF bufs b] by simp
  note v = dev_ctx_values [OF su w me]
  note k = dev_ctx_key [OF su w me]
  have sync: "ls_sync (dv_launch d) = sm_sync ?m" and rel: "cell_release ?cell = sm_elems ?m ! ?e"
    using synced b il lens by (simp_all add: dev_synced_def)
  have e: "?e < length (sm_elems ?m)"
    unfolding hist_machine_elems by (rule elem_no_less [OF b lens il])
  have ok: "hist_ok p lens (dv_hist d')"
    using synced v(5) elem_no_less [OF b lens il] unfolding f(10) dev_synced_def
    by (auto simp: hist_ok_def access_ops_def split: option.split)
  note l1 = access_of_fields(12) [OF a]
  have release: "cell_release (snd (on_access ?cell acc now)) = cell_release ?cell"
    by (rule cell.record_published)
  have "ls_sync l1 = sm_sync ?m'
      \<and> sm_elems ?m' = (sm_elems ?m)[?e := cell_release (cell_after (dev_ctx d me) kind loc ord stored (dv_launch d) ?cell)]"
    using release sync rel l1 unfolding f(10) hist_machine_append cell_after_def a
    by (cases ord) (auto simp: access_ops_def Let_def k acquired_def acquire_from_def release_into_def)
  moreover have "cell_release (dev_cell sp d' b' i') = sm_elems ?m' ! elem_no d' b' i'"
    if b': "b' < length lens" and i': "i' < lens ! b'" for b' i'
  proof -
    have en: "elem_no d' b' i' = elem_no d b' i'" by (simp add: elem_no_def f(12))
    have old: "cell_release (dev_cell sp d b' i') = sm_elems ?m ! elem_no d b' i'"
      using synced b' i' by (simp add: dev_synced_def)
    show ?thesis
      using calculation old e elem_no_inj [OF b, of b' i i'] b' lens
      unfolding dev_cell_touch [OF bufs b i _ t, of b' i', unfolded lens, OF b'] en by auto
  qed
  ultimately show ?thesis using ok f(4) by (simp add: dev_synced_def)
qed

lemma dev_synced_quiet:
  assumes "dev_synced sp p lens d" and "dv_bufs d' = dv_bufs d" and "ls_id (dv_launch d') = ls_id (dv_launch d)"
    and "dv_hist d' = dv_hist d @ xs" and "hist_ok p lens xs"
    and "ls_sync (dv_launch d') = sm_sync (hist_machine p lens (dv_hist d @ xs))"
    and "sm_elems (hist_machine p lens (dv_hist d @ xs)) = sm_elems (hist_machine p lens (dv_hist d))"
  shows "dev_synced sp p lens d'"
  using assms dev_cell_cong [OF assms(2,3)] by (simp add: dev_synced_def elem_no_def)

lemma dev_act_synced:
  assumes su: "launch_setup checks c = Inr p" and base: "dev_base sp c p lid lens d" and synced: "dev_synced sp p lens d"
    and run: "\<not> st_aborted (ls_st (dv_launch d))" and turn: "st_current (ls_st (dv_launch d)) = Some me"
    and ok: "dev_act_ok sp d me a"
  shows "dev_synced sp p lens (dev_exec sp d me a)"
proof -
  obtain n where w: "in_wave p d n" using base by (auto simp: dev_base_def)
  have me: "me < n * lp_tpb p" by (rule acting_thread(1) [OF su base w run turn])
  note v = dev_ctx_values [OF su w me]
  note k = dev_ctx_key [OF su w me]
  note s = synced [unfolded dev_synced_def]
  show ?thesis
    using ok
  proof (cases rule: dev_act_cases)
    case (touch b i kind loc ord stored data)
    show ?thesis by (rule dev_touch_synced [OF su base w me synced touch(1,2,6)])
  next
    case (miss b i kind loc fatal)
    note f = dev_miss_fields [OF miss(3)]
    have "hist_ok p lens [OpTick (tc_gid (dev_ctx d me))]" using v(5) by (simp add: hist_ok_def)
    then show ?thesis
      using s f(4) dev_cell_miss [OF miss(3)] unfolding dev_synced_def f(8) hist_machine_append
      by (simp add: k elem_no_def f(10))
  next
    case (store b i v)
    then show ?thesis
      using synced dev_cell_store [of sp d me b i v] by (simp add: dev_synced_def elem_no_def)
  next
    case (fence ord)
    then show ?thesis
      by (intro dev_synced_quiet [OF synced, of _ "[OpFence (tc_gid (dev_ctx d me)) ord]"])
        (use s v in \<open>simp_all add: hist_machine_append hist_ok_def\<close>)
  next
    case (arrive loc)
    then show ?thesis
      by (intro dev_synced_quiet [OF synced,
            of _ "[OpArrive (tc_gid (dev_ctx d me)) (unat (tc_block (dev_ctx d me)))]"])
        (use s v in \<open>simp_all add: hist_machine_append hist_ok_def\<close>)
  next
    case depart
    then show ?thesis
      by (intro dev_synced_quiet [OF synced,
            of _ "[OpDepart (tc_gid (dev_ctx d me)) (unat (tc_block (dev_ctx d me)))]"])
        (use s v in \<open>simp_all add: hist_machine_append hist_ok_def\<close>)
  next
    case (sched x)
    then show ?thesis
      by (intro dev_synced_quiet [OF synced, of _ "[]"]) (use s in \<open>simp_all add: hist_ok_def\<close>)
  qed
qed

lemma dev_wave_synced:
  assumes "dev_synced sp p lens d"
  shows "dev_synced sp p lens (dev_wave c p picks first n rest d)"
  by (rule dev_synced_quiet [OF assms, of _ "[]"])
    (use assms in \<open>simp_all add: dev_wave_def wave_begin_def dev_shared_def dev_synced_def hist_ok_def Let_def\<close>)

lemma fresh_cell:
  assumes "in_launch m \<noteq> lid" and "i < length (in_shadow m)"
  shows "cell_last_write (in_shadow (enter_launch (reset_of s) lid m) ! i) = None
    \<and> cell_readers (in_shadow (enter_launch (reset_of s) lid m) ! i) = []
    \<and> cell_release (in_shadow (enter_launch (reset_of s) lid m) ! i) = clock_empty"
  using assms by (cases s) (simp_all add: enter_launch_def reset_of_def global_reset_def shared_reset_def cell_default_def)

lemma dev_begin_cells:
  assumes "dev_setting sp checks c p lid bufs" and "b < length bufs" and "i < buf_lens bufs ! b"
  shows "cell_last_write (dev_cell sp (dev_begin c p picks lid bufs) b i) = None
    \<and> cell_readers (dev_cell sp (dev_begin c p picks lid bufs) b i) = []
    \<and> cell_release (dev_cell sp (dev_begin c p picks lid bufs) b i) = clock_empty"
proof -
  obtain first n rest where w: "wave_list p = (first, n) # rest"
    using wave_list_nonempty [OF launch_setup_ok] assms(1) unfolding dev_setting_def
    by (metis list.exhaust surj_pair)
  have "in_launch (bufs ! b) \<noteq> lid" "i < length (in_shadow (bufs ! b))"
    using assms by (auto simp: dev_setting_def buf_lens_def buf_len_def buf_ok_def)
  from fresh_cell [OF this] show ?thesis
    by (simp add: dev_cell_def dev_begin_def w wave_begin_def launch_begin_def Let_def)
qed

lemma dev_begin_synced:
  assumes "dev_setting sp checks c p lid bufs"
  shows "dev_synced sp p (buf_lens bufs) (dev_begin c p picks lid bufs)"
proof -
  let ?d = "dev_begin c p picks lid bufs"
  obtain first n rest where w: "wave_list p = (first, n) # rest"
    using wave_list_nonempty [OF launch_setup_ok] assms unfolding dev_setting_def
    by (metis list.exhaust surj_pair)
  have h: "dv_hist ?d = []" and l: "ls_sync (dv_launch ?d) = sync_new (lp_total p) (lp_blocks p)"
    and n: "dv_bufs ?d = bufs"
    by (simp_all add: dev_begin_def w wave_begin_def launch_begin_def Let_def)
  have "elem_no ?d b i < length (buf_lens bufs) * sum_list (buf_lens bufs)"
    if "b < length bufs" "i < buf_lens bufs ! b" for b i
    by (rule elem_no_less) (use that n in \<open>simp_all add: buf_lens_def\<close>)
  then show ?thesis
    using dev_begin_cells [OF assms]
    by (simp add: dev_synced_def h l hist_ok_def hist_machine_def sync_run_def sync_init_def)
      (simp add: buf_lens_def)
qed

section \<open>The clock test is happens-before\<close>

lemma hb_eq_append: "q < length h \<Longrightarrow> hb_eq (h @ xs) p q \<longleftrightarrow> hb_eq h p q"
proof (induction xs rule: rev_induct)
  case (snoc x xs)
  then show ?case using hb_eq_snoc_old [of q "h @ xs" x p] by simp
qed simp

lemma thread_knows_last:
  assumes "e < length h"
  shows "thread_knows (h @ [x]) (op_gid x) e \<longleftrightarrow> hb_eq (h @ [x]) e (length h)"
proof
  assume "thread_knows (h @ [x]) (op_gid x) e"
  then obtain t where t: "t < length (h @ [x])" "op_gid ((h @ [x]) ! t) = op_gid x" "hb_eq (h @ [x]) e t"
    by (auto simp: thread_knows_def)
  show "hb_eq (h @ [x]) e (length h)"
  proof (cases "t = length h")
    case False
    then have "hb_edge (h @ [x]) t (length h)" using t by (intro hb_edge.program_order) auto
    then show ?thesis using t(3) hb_eq_step by blast
  qed (use t in simp)
qed (use assms in \<open>auto simp: thread_knows_def intro!: exI [of _ "length h"]\<close>)

lemma tick_number_append: "e < length h \<Longrightarrow> tick_number (h @ xs) g e = tick_number h g e"
  by (simp add: tick_number_def)

text \<open>The history up to the operation an access is counted with.\<close>

definition acquire_ops :: "nat \<Rightarrow> nat \<Rightarrow> mem_ordering option \<Rightarrow> sync_op list" where
  "acquire_ops g e ord = (case ord of Some o1 \<Rightarrow> [OpAcquire g e o1] | None \<Rightarrow> [])"

definition pre_hist :: "'a device \<Rightarrow> nat \<Rightarrow> nat \<Rightarrow> nat \<Rightarrow> mem_ordering option \<Rightarrow> sync_op list" where
  "pre_hist d me b i ord = dv_hist d @ acquire_ops (tc_gid (dev_ctx d me)) (elem_no d b i) ord"

definition tick_hist :: "'a device \<Rightarrow> nat \<Rightarrow> nat \<Rightarrow> nat \<Rightarrow> mem_ordering option \<Rightarrow> sync_op list" where
  "tick_hist d me b i ord = pre_hist d me b i ord @ [OpTick (tc_gid (dev_ctx d me))]"

lemma touch_hist:
  assumes a: "access_of (dev_ctx d me) kind loc ord (dv_launch d) (dev_cell sp d b i) = (acc, now, l1)"
    and t: "d' = dev_touch sp d me b i kind loc ord stored data"
  obtains xs where "dv_hist d' = tick_hist d me b i ord @ xs"
    and "dv_log d' = dv_log d @ [\<lparr>lg_pos = length (pre_hist d me b i ord), lg_buf = b, lg_index = i, lg_access = acc\<rparr>]"
  using dev_touch_fields(10,11) [OF a t] that
  by (cases ord) (auto simp: tick_hist_def pre_hist_def acquire_ops_def access_ops_def)

text \<open>An access is counted, and weighed with the clock of its thread, at its own operation.\<close>

lemma access_counted:
  assumes su: "launch_setup checks c = Inr p" and base: "dev_base sp c p lid lens d" and w: "in_wave p d n"
    and me: "me < n * lp_tpb p" and synced: "dev_synced sp p lens d"
    and b: "b < length (dv_bufs d)" and i: "i < length (in_data (dv_bufs d ! b))"
    and a: "access_of (dev_ctx d me) kind loc ord (dv_launch d) (dev_cell sp d b i) = (acc, now, l1)"
  shows "hist_ok p lens (tick_hist d me b i ord)"
    and "now = clock_of (sm_sync (hist_machine p lens (tick_hist d me b i ord))) (tc_gid (dev_ctx d me))"
    and "acc_seq acc = tick_number (tick_hist d me b i ord) (tc_gid (dev_ctx d me)) (length (pre_hist d me b i ord))"
    and "acc_own p acc" and "acc_gid p acc = tc_gid (dev_ctx d me)"
proof -
  let ?g = "tc_gid (dev_ctx d me)" and ?e = "elem_no d b i" and ?cell = "dev_cell sp d b i"
  let ?m = "hist_machine p lens (pre_hist d me b i ord)"
  have bufs: "bufs_ok lens (dv_bufs d)" using base by (simp add: dev_base_def)
  then have lens: "length (dv_bufs d) = length lens" by (auto simp: bufs_ok_def)
  have il: "i < lens ! b" using i bufs_ok_nth [OF bufs b] by simp
  note v = dev_ctx_values [OF su w me]
  note f = access_of_fields [OF a]
  have pok: "hist_ok p lens (pre_hist d me b i ord)"
    using synced v(5) elem_no_less [OF b lens il] unfolding pre_hist_def dev_synced_def
    by (auto simp: hist_ok_def acquire_ops_def split: option.split)
  then show "hist_ok p lens (tick_hist d me b i ord)" using v(5) by (simp add: tick_hist_def hist_ok_def)
  have acq: "ls_sync (acquired (dev_ctx d me) ord ?cell (dv_launch d)) = sm_sync ?m"
    using synced b il lens unfolding pre_hist_def hist_machine_append dev_synced_def
    by (cases ord) (auto simp: acquire_ops_def acquired_def acquire_from_def)
  show "now = clock_of (sm_sync (hist_machine p lens (tick_hist d me b i ord))) ?g"
    unfolding tick_hist_def hist_machine_append f(12,13) acq by (simp add: dev_ctx_key [OF su w me])
  have p: "plan_ok p" by (rule launch_setup_ok [OF su])
  have "clocks_match (thread_key p) (lp_total p) (lp_blocks p) (length lens * sum_list lens) (pre_hist d me b i ord) ?m"
    unfolding hist_machine_def
    by (rule clocks_match_run [OF thread_key_inj [OF p]]) (use pok in \<open>simp add: hist_ok_def\<close>)
  then have "ss_seq (sm_sync ?m) ! ?g = ticks (pre_hist d me b i ord) ?g (\<lambda>_. True)"
    using v(5) by (simp add: clocks_match_def Let_def)
  then show "acc_seq acc = tick_number (tick_hist d me b i ord) ?g (length (pre_hist d me b i ord))"
    unfolding f(11) acq tick_hist_def by (simp add: tick_number_def ticks_snoc)
  have gid: "tc_gid (dev_ctx d me) = unat (tc_block (dev_ctx d me)) * lp_tpb p + unat (tc_thread (dev_ctx d me))"
    using v p by (simp add: distrib_right plan_ok_def)
  then show "acc_gid p acc = ?g" by (simp add: acc_gid_def f(6,7))
  then show "acc_own p acc" using v(2,5) p by (simp add: acc_own_def f(7) plan_ok_def)
qed

text \<open>What an entry of the log says.\<close>

definition log_entry_ok :: "launch_plan \<Rightarrow> nat list \<Rightarrow> sync_op list \<Rightarrow> logged \<Rightarrow> bool" where
  "log_entry_ok p lens h x \<longleftrightarrow> lg_buf x < length lens \<and> lg_index x < lens ! lg_buf x \<and> lg_pos x < length h
     \<and> acc_own p (lg_access x) \<and> h ! lg_pos x = OpTick (acc_gid p (lg_access x))
     \<and> acc_seq (lg_access x) = tick_number h (acc_gid p (lg_access x)) (lg_pos x)"

lemma log_entry_append: "log_entry_ok p lens h x \<Longrightarrow> log_entry_ok p lens (h @ xs) x"
  by (simp add: log_entry_ok_def nth_append tick_number_append)

lemma clock_test:
  assumes su: "launch_setup checks c = Inr p" and base: "dev_base sp c p lid lens d" and w: "in_wave p d n"
    and me: "me < n * lp_tpb p" and synced: "dev_synced sp p lens d"
    and b: "b < length (dv_bufs d)" and i: "i < length (in_data (dv_bufs d ! b))"
    and a: "access_of (dev_ctx d me) kind loc ord (dv_launch d) (dev_cell sp d b i) = (acc, now, l1)"
    and x: "log_entry_ok p lens (dv_hist d) x"
  shows "clock_get now (key (acc_block (lg_access x)) (acc_thread (lg_access x))) \<ge> acc_seq (lg_access x)
     \<longleftrightarrow> hb_eq (tick_hist d me b i ord) (lg_pos x) (length (pre_hist d me b i ord))"
proof -
  note cnt = access_counted [OF su base w me synced b i a]
  let ?h = "tick_hist d me b i ord" and ?g = "tc_gid (dev_ctx d me)" and ?gx = "acc_gid p (lg_access x)"
  have p: "plan_ok p" by (rule launch_setup_ok [OF su])
  have pos: "lg_pos x < length (pre_hist d me b i ord)" using x by (simp add: log_entry_ok_def pre_hist_def)
  have h: "?h = dv_hist d @ (acquire_ops ?g (elem_no d b i) ord @ [OpTick ?g])"
    by (simp add: tick_hist_def pre_hist_def)
  have "log_entry_ok p lens ?h x" unfolding h by (rule log_entry_append [OF x])
  then have y: "lg_pos x < length ?h" "?h ! lg_pos x = OpTick ?gx"
    "acc_seq (lg_access x) = tick_number ?h ?gx (lg_pos x)" and own: "acc_own p (lg_access x)"
    by (simp_all add: log_entry_ok_def)
  have v: "\<forall>z \<in> set ?h. op_valid (lp_total p) (lp_blocks p) (length lens * sum_list lens) z"
    using cnt(1) by (simp add: hist_ok_def)
  have gx: "?gx < lp_total p" using own by (simp add: acc_own_def)
  have "tick_number ?h ?gx (lg_pos x) \<le> clock_get now (thread_key p ?gx) \<longleftrightarrow> thread_knows ?h ?g (lg_pos x)"
    unfolding cnt(2) hist_machine_def
    by (rule clock_covers_iff [OF thread_key_inj [OF p] v gx dev_ctx_values(5) [OF su w me] y(1,2)])
  also have "\<dots> \<longleftrightarrow> hb_eq ?h (lg_pos x) (length (pre_hist d me b i ord))"
    using thread_knows_last [OF pos, of "OpTick ?g"] by (simp add: tick_hist_def)
  finally show ?thesis by (simp add: y(3) acc_key [OF own])
qed

end
