(* ===== verification/Device_Races.thy ===== *)
theory Device_Races
  imports Device_HB
begin

text \<open>
  No false alarm in a whole launch: every data race in the report of a running launch is two logged
  accesses of one element that happens-before does not order. The cells only remember logged accesses, the
  clock test is happens-before (\<open>Device_HB\<close>), and nothing but an access reports a race.
\<close>

section \<open>What can report a race\<close>

definition races_in :: "world \<Rightarrow> diagnostic set" where
  "races_in w = {d \<in> set (rep_diags (w_rep w)). is_race d}"

lemma pushed: "set (rep_diags (reporter_push r d)) \<subseteq> insert d (set (rep_diags r))"
  by (auto simp: reporter_push_def)

lemma pushed_all: "set (rep_diags (foldl reporter_push r ds)) \<subseteq> set ds \<union> set (rep_diags r)"
proof (induction ds arbitrary: r)
  case (Cons d ds)
  then show ?case using pushed [of r d] by fastforce
qed simp

lemma races_same: "w_rep w' = w_rep w \<Longrightarrow> races_in w' = races_in w"
  by (simp add: races_in_def)

lemma races_pushed:
  assumes "w_rep w' = foldl reporter_push (w_rep w) ds" and "\<forall>d \<in> set ds. \<not> is_race d"
  shows "races_in w' \<subseteq> races_in w"
  using pushed_all [of "w_rep w" ds] assms by (auto simp: races_in_def)

lemma races_push1: "\<not> is_race d \<Longrightarrow> races_in (push_finding d w) \<subseteq> races_in w"
  by (rule races_pushed [of _ _ "[d]"]) (simp_all add: push_finding_def)

lemma races_wake [simp]: "races_in (wake cfg w) = races_in w" "races_in (set_aborted w) = races_in w"
  "races_in (w\<lparr>w_st := s\<rparr>) = races_in w"
  by (simp_all add: races_in_def wake_def set_aborted_def)

lemma stuck_not_race: "d \<in> set (stuck_warps cfg s) \<union> set (stuck_barriers cfg s) \<Longrightarrow> \<not> is_race d"
  by (auto simp: stuck_warps_def stuck_barriers_def stuck_warp_def Let_def map_filter_def is_race_def
      warp_divergence_of_def barrier_finding_def split: list.splits option.splits)

lemma races_detect [intro]: "races_in (detect_stuck cfg w) \<subseteq> races_in w"
proof -
  let ?ds = "if stuck_warps cfg (w_st w) = [] then stuck_barriers cfg (w_st w) else stuck_warps cfg (w_st w)"
  have "\<forall>d \<in> set ?ds. \<not> is_race d" using stuck_not_race [of _ cfg "w_st w"] by auto
  from races_pushed [of "w\<lparr>w_rep := foldl reporter_push (w_rep w) ?ds\<rparr>" w ?ds, OF _ this]
  show ?thesis by (simp add: detect_stuck_def Let_def)
qed

lemma races_fail: "\<not> is_race d \<Longrightarrow> races_in (fail cfg d w) \<subseteq> races_in w"
  using races_push1 [of d w] by (simp add: fail_def)

lemma races_hand_off: "races_in (fst (hand_off cfg w me)) \<subseteq> races_in w"
  using races_detect [of cfg "w\<lparr>w_st := pick_next (w_st w)\<rparr>"] by (simp add: hand_off_def Let_def)

lemma races_barrier: "races_in (fst (barrier cfg w me loc)) \<subseteq> races_in w"
proof -
  have "races_in (barrier_divergence cfg (w\<lparr>w_st := s\<rparr>) b) \<subseteq> races_in w" for s b
    using races_fail [of "barrier_finding cfg s b (Location ''src/sched.rs'' 371 61)" cfg "w\<lparr>w_st := s\<rparr>"]
    by (simp add: barrier_divergence_def barrier_finding_def is_race_def)
  moreover have "races_in (fst (hand_off cfg (w\<lparr>w_st := s\<rparr>) me)) \<subseteq> races_in w" for s
    using races_hand_off [of cfg "w\<lparr>w_st := s\<rparr>" me] by simp
  ultimately show ?thesis by (simp add: barrier_def Let_def)
qed

lemma races_rendezvous: "races_in (fst (warp_rendezvous cfg w me phase msk loc op)) \<subseteq> races_in w"
proof -
  have "races_in (fail cfg d (w\<lparr>w_st := s\<rparr>)) \<subseteq> races_in w" if "\<not> is_race d" for s d
    using races_fail [OF that, of cfg "w\<lparr>w_st := s\<rparr>"] by simp
  moreover have "races_in (fst (hand_off cfg (w\<lparr>w_st := s\<rparr>) me)) \<subseteq> races_in w" for s
    using races_hand_off [of cfg "w\<lparr>w_st := s\<rparr>" me] by simp
  moreover have "\<not> is_race (warp_divergence_of cfg s b v wait)" "\<not> is_race (mismatch_of cfg s b v k wait j)"
    for s b v wait k j by (simp_all add: warp_divergence_of_def mismatch_of_def is_race_def)
  ultimately show ?thesis
    by (simp add: warp_rendezvous_def Let_def split: prod.split option.split)
qed

lemma races_finish: "races_in (finish cfg w me) \<subseteq> races_in w"
proof -
  have "races_in (fail cfg (warp_divergence_of cfg s b v wait) (w\<lparr>w_st := s'\<rparr>)) \<subseteq> races_in w" for s s' b v wait
    using races_fail [of "warp_divergence_of cfg s b v wait" cfg "w\<lparr>w_st := s'\<rparr>"]
    by (simp add: warp_divergence_of_def is_race_def)
  moreover have "races_in (barrier_divergence cfg (w\<lparr>w_st := s\<rparr>) b) \<subseteq> races_in w" for s b
    using races_fail [of "barrier_finding cfg s b (Location ''src/sched.rs'' 371 61)" cfg "w\<lparr>w_st := s\<rparr>"]
    by (simp add: barrier_divergence_def barrier_finding_def is_race_def)
  moreover have "races_in (detect_stuck cfg (w\<lparr>w_st := s\<rparr>)) \<subseteq> races_in w" for s
    using races_detect [of cfg "w\<lparr>w_st := s\<rparr>"] by simp
  ultimately show ?thesis by (simp add: finish_def Let_def split: prod.split option.split)
qed

lemma races_sched:
  assumes "sched_only a \<or> (\<exists>loc. a = ActBarrier loc)"
  shows "races_in (sched_exec cfg w me a) \<subseteq> races_in w"
  using assms races_hand_off [of cfg w me] races_barrier races_rendezvous races_finish races_push1
  by (cases a) (auto simp: yield_now_def abort_def)

lemma race_findings:
  assumes "d \<in> set (findings_of space i c kind loc ord l cell)" and "is_race d"
    and a: "access_of c kind loc ord l cell = (acc, now, l1)"
  shows "\<exists>first. fst (on_access cell acc now) = Some first \<and> d = DataRace space i first acc"
  using assms by (auto simp: findings_of_def Let_def conflict_of_def is_race_def split: if_splits option.splits)

section \<open>The log and the cells\<close>

definition elem_log :: "'a device \<Rightarrow> nat \<Rightarrow> nat \<Rightarrow> access set" where
  "elem_log d b i = lg_access ` {x \<in> set (dv_log d). lg_buf x = b \<and> lg_index x = i}"

definition dev_logged :: "mem_space list \<Rightarrow> launch_plan \<Rightarrow> nat list \<Rightarrow> 'a device \<Rightarrow> bool" where
  "dev_logged sp p lens d \<longleftrightarrow> (\<forall>x \<in> set (dv_log d). log_entry_ok p lens (dv_hist d) x)
     \<and> (\<forall>b < length lens. \<forall>i < lens ! b. cell_ok (elem_log d b i) (dev_cell sp d b i))"

text \<open>Two accesses of one element, unordered, of different threads, not both atomic, not both reads.\<close>

definition unordered_pair :: "launch_plan \<Rightarrow> sync_op list \<Rightarrow> logged \<Rightarrow> logged \<Rightarrow> bool" where
  "unordered_pair p h x y \<longleftrightarrow> lg_buf x = lg_buf y \<and> lg_index x = lg_index y \<and> lg_pos x < lg_pos y
     \<and> acc_gid p (lg_access x) \<noteq> acc_gid p (lg_access y)
     \<and> \<not> (acc_kind (lg_access x) = Atomic \<and> acc_kind (lg_access y) = Atomic)
     \<and> \<not> (acc_kind (lg_access x) = Read \<and> acc_kind (lg_access y) = Read)
     \<and> \<not> hb_eq h (lg_pos x) (lg_pos y)"

text \<open>In one block, no barrier of the block separates them, and in one warp no full-mask collective does.\<close>

definition same_interval :: "access \<Rightarrow> access \<Rightarrow> bool" where
  "same_interval a b \<longleftrightarrow> (acc_block a = acc_block b \<longrightarrow> acc_epoch a = acc_epoch b
     \<and> (acc_warp a = acc_warp b \<longrightarrow> acc_warp_epoch a = acc_warp_epoch b))"

definition race_explained :: "mem_space list \<Rightarrow> launch_plan \<Rightarrow> 'a device \<Rightarrow> diagnostic \<Rightarrow> bool" where
  "race_explained sp p d f \<longleftrightarrow> (\<exists>x \<in> set (dv_log d). \<exists>y \<in> set (dv_log d).
     f = DataRace (sp ! lg_buf x) (lg_index x) (lg_access x) (lg_access y)
     \<and> unordered_pair p (dv_hist d) x y \<and> same_interval (lg_access x) (lg_access y))"

definition dev_explained :: "mem_space list \<Rightarrow> launch_plan \<Rightarrow> 'a device \<Rightarrow> bool" where
  "dev_explained sp p d \<longleftrightarrow> (\<forall>f \<in> races_in (ls_world (dv_launch d)). race_explained sp p d f)"

text \<open>A step that neither touches an element nor reports a race.\<close>

lemma logged_quiet:
  assumes "dev_logged sp p lens d" and "dv_log d' = dv_log d" and "dv_hist d' = dv_hist d @ xs"
    and "\<And>b i. dev_cell sp d' b i = dev_cell sp d b i"
  shows "dev_logged sp p lens d'"
  using assms(1) log_entry_append unfolding dev_logged_def elem_log_def assms(2-4) by blast

lemma explained_quiet:
  assumes ex: "dev_explained sp p d" and lg: "dev_logged sp p lens d" and log: "dv_log d' = dv_log d @ ys"
    and hist: "dv_hist d' = dv_hist d @ xs"
    and "races_in (ls_world (dv_launch d')) \<subseteq> races_in (ls_world (dv_launch d)) \<union> F"
    and "\<forall>f \<in> F. race_explained sp p d' f"
  shows "dev_explained sp p d'"
proof -
  have "race_explained sp p d' f" if f: "race_explained sp p d f" for f
  proof -
    obtain x y where xy: "x \<in> set (dv_log d)" "y \<in> set (dv_log d)" "unordered_pair p (dv_hist d) x y"
      "same_interval (lg_access x) (lg_access y)" "f = DataRace (sp ! lg_buf x) (lg_index x) (lg_access x) (lg_access y)"
      using f unfolding race_explained_def by blast
    have "lg_pos y < length (dv_hist d)" using lg xy(2) by (simp add: dev_logged_def log_entry_ok_def)
    then have "unordered_pair p (dv_hist d') x y" using xy(3) by (simp add: unordered_pair_def hist hb_eq_append)
    then show ?thesis using xy log unfolding race_explained_def by auto
  qed
  then show ?thesis using ex assms(5,6) unfolding dev_explained_def by blast
qed
lemma elem_log_snoc:
  assumes "dv_log d' = dv_log d @ [y]"
  shows "elem_log d' b i = (if lg_buf y = b \<and> lg_index y = i then insert (lg_access y) (elem_log d b i)
     else elem_log d b i)"
proof -
  have "{x \<in> set (dv_log d'). lg_buf x = b \<and> lg_index x = i} =
    (if lg_buf y = b \<and> lg_index y = i then insert y {x \<in> set (dv_log d). lg_buf x = b \<and> lg_index x = i}
     else {x \<in> set (dv_log d). lg_buf x = b \<and> lg_index x = i})" using assms by auto
  then show ?thesis by (simp add: elem_log_def)
qed

lemma cell_after_ok:
  assumes a: "access_of c kind loc ord l cell = (acc, now, l1)" and "cell_ok past cell"
  shows "cell_ok (insert acc past) (cell_after c kind loc ord stored l cell)"
  using cell_ok_access [OF assms(2), of acc now]
  by (simp add: cell_after_def a Let_def cell_ok_def split: option.split)

text \<open>The rule's answer, spelled out.\<close>

lemma concurrent_iff:
  assumes "acc_own p a" and "acc_own p b"
  shows "concurrent a b now \<longleftrightarrow> acc_gid p a \<noteq> acc_gid p b \<and> \<not> (acc_kind a = Atomic \<and> acc_kind b = Atomic)
    \<and> \<not> clock_get now (key (acc_block a) (acc_thread a)) \<ge> acc_seq a
    \<and> (acc_block a = acc_block b \<longrightarrow> acc_epoch a = acc_epoch b
         \<and> (acc_warp a = acc_warp b \<longrightarrow> acc_warp_epoch a = acc_warp_epoch b))"
  unfolding acc_gid_inj [OF assms] concurrent_def by auto

lemma touch_logged:
  assumes su: "launch_setup checks c = Inr p" and base: "dev_base sp c p lid lens d" and w: "in_wave p d n"
    and me: "me < n * lp_tpb p" and synced: "dev_synced sp p lens d" and lg: "dev_logged sp p lens d"
    and b: "b < length (dv_bufs d)" and i: "i < length (in_data (dv_bufs d ! b))"
    and t: "d' = dev_touch sp d me b i kind loc ord stored data"
  shows "dev_logged sp p lens d'"
proof -
  obtain acc now l1 where a:
    "access_of (dev_ctx d me) kind loc ord (dv_launch d) (dev_cell sp d b i) = (acc, now, l1)"
    by (rule prod_cases3)
  let ?h = "tick_hist d me b i ord" and ?q = "length (pre_hist d me b i ord)"
  obtain xs where h: "dv_hist d' = ?h @ xs"
    and log: "dv_log d' = dv_log d @ [\<lparr>lg_pos = ?q, lg_buf = b, lg_index = i, lg_access = acc\<rparr>]"
    by (rule touch_hist [OF a t])
  note cnt = access_counted [OF su base w me synced b i a]
  have bufs: "bufs_ok lens (dv_bufs d)" using base by (simp add: dev_base_def)
  then have lens: "length (dv_bufs d) = length lens" by (auto simp: bufs_ok_def)
  have il: "i < lens ! b" using i bufs_ok_nth [OF bufs b] by simp
  have "log_entry_ok p lens ?h \<lparr>lg_pos = ?q, lg_buf = b, lg_index = i, lg_access = acc\<rparr>"
    using cnt b lens il by (simp add: log_entry_ok_def) (simp add: tick_hist_def)
  moreover have "log_entry_ok p lens ?h x" if "x \<in> set (dv_log d)" for x
    using lg that log_entry_append unfolding dev_logged_def tick_hist_def pre_hist_def by (simp add: log_entry_append)
  ultimately have "\<forall>x \<in> set (dv_log d'). log_entry_ok p lens (dv_hist d') x"
    unfolding log h by (auto intro: log_entry_append)
  moreover have "cell_ok (elem_log d' b' i') (dev_cell sp d' b' i')" if bi: "b' < length lens" "i' < lens ! b'" for b' i'
  proof -
    have old: "cell_ok (elem_log d b' i') (dev_cell sp d b' i')" using lg bi by (simp add: dev_logged_def)
    show ?thesis
      using old cell_after_ok [OF a] dev_cell_touch [OF bufs b i _ t, of b' i'] bi(1) lens
      by (auto simp: elem_log_snoc [OF log])
  qed
  ultimately show ?thesis by (simp add: dev_logged_def)
qed

lemma touch_explained:
  assumes su: "launch_setup checks c = Inr p" and base: "dev_base sp c p lid lens d" and w: "in_wave p d n"
    and me: "me < n * lp_tpb p" and synced: "dev_synced sp p lens d" and lg: "dev_logged sp p lens d"
    and ex: "dev_explained sp p d"
    and b: "b < length (dv_bufs d)" and i: "i < length (in_data (dv_bufs d ! b))"
    and t: "d' = dev_touch sp d me b i kind loc ord stored data"
  shows "dev_explained sp p d'"
proof -
  obtain acc now l1 where a:
    "access_of (dev_ctx d me) kind loc ord (dv_launch d) (dev_cell sp d b i) = (acc, now, l1)"
    by (rule prod_cases3)
  let ?h = "tick_hist d me b i ord" and ?q = "length (pre_hist d me b i ord)"
  let ?y = "\<lparr>lg_pos = ?q, lg_buf = b, lg_index = i, lg_access = acc\<rparr>"
  let ?ds = "findings_of (sp ! b) i (dev_ctx d me) kind loc ord (dv_launch d) (dev_cell sp d b i)"
  let ?F = "{f \<in> set ?ds. is_race f}"
  obtain xs where h: "dv_hist d' = ?h @ xs" and log: "dv_log d' = dv_log d @ [?y]"
    by (rule touch_hist [OF a t])
  note cnt = access_counted [OF su base w me synced b i a]
  have bufs: "bufs_ok lens (dv_bufs d)" using base by (simp add: dev_base_def)
  then have lens: "length (dv_bufs d) = length lens" by (auto simp: bufs_ok_def)
  have il: "i < lens ! b" using i bufs_ok_nth [OF bufs b] by simp
  have "races_in (ls_world (dv_launch d')) \<subseteq> races_in (ls_world (dv_launch d)) \<union> ?F"
    using pushed_all [of "w_rep (ls_world (dv_launch d))" ?ds] dev_touch_fields(6) [OF a t]
    by (auto simp: races_in_def split: if_splits)
  moreover have "race_explained sp p d' f" if f0: "f \<in> ?F" for f
  proof -
    obtain first where c: "fst (on_access (dev_cell sp d b i) acc now) = Some first"
      and f: "f = DataRace (sp ! b) i first acc"
      using race_findings [OF _ _ a, of f "sp ! b" i] f0 by blast
    have "cell_ok (elem_log d b i) (dev_cell sp d b i)" using lg b il lens by (simp add: dev_logged_def)
    from on_access_sound [OF this c] obtain x where x: "x \<in> set (dv_log d)" "lg_buf x = b" "lg_index x = i"
      "lg_access x = first" and con: "concurrent first acc now" "acc_kind first \<noteq> Read \<or> acc_kind acc \<noteq> Read"
      by (auto simp: elem_log_def)
    have xok: "log_entry_ok p lens (dv_hist d) x" using lg x(1) by (simp add: dev_logged_def)
    then have own: "acc_own p first" by (simp add: log_entry_ok_def x(4))
    have pos: "lg_pos x < ?q" using xok by (simp add: log_entry_ok_def pre_hist_def)
    have "acc_gid p first \<noteq> acc_gid p acc" "\<not> (acc_kind first = Atomic \<and> acc_kind acc = Atomic)"
      "\<not> hb_eq ?h (lg_pos x) ?q" and same: "same_interval first acc"
      using con(1) clock_test [OF su base w me synced b i a xok]
      unfolding concurrent_iff [OF own cnt(4)] x(4) same_interval_def by blast+
    moreover have "hb_eq (?h @ xs) (lg_pos x) ?q \<longleftrightarrow> hb_eq ?h (lg_pos x) ?q"
      by (rule hb_eq_append) (simp add: tick_hist_def)
    ultimately have "unordered_pair p (dv_hist d') x ?y"
      using x pos con(2) by (auto simp: unordered_pair_def h)
    then show ?thesis using x f log same unfolding race_explained_def by fastforce
  qed
  ultimately show ?thesis
    using explained_quiet [OF ex lg log, of "acquire_ops (tc_gid (dev_ctx d me)) (elem_no d b i) ord
        @ [OpTick (tc_gid (dev_ctx d me))] @ xs" ?F] h by (simp add: tick_hist_def pre_hist_def)
qed

section \<open>Every reachable state\<close>

definition dev_sound :: "mem_space list \<Rightarrow> launch_config \<Rightarrow> launch_plan \<Rightarrow> nat \<Rightarrow> nat list \<Rightarrow> 'a device \<Rightarrow> bool" where
  "dev_sound sp c p lid lens d \<longleftrightarrow> dev_base sp c p lid lens d \<and> dev_synced sp p lens d
     \<and> dev_logged sp p lens d \<and> dev_explained sp p d"

lemma dev_act_logged:
  assumes su: "launch_setup checks c = Inr p" and sound: "dev_sound sp c p lid lens d"
    and run: "\<not> st_aborted (ls_st (dv_launch d))" and turn: "st_current (ls_st (dv_launch d)) = Some me"
    and ok: "dev_act_ok sp d me a"
  shows "dev_logged sp p lens (dev_exec sp d me a) \<and> dev_explained sp p (dev_exec sp d me a)"
proof -
  have base: "dev_base sp c p lid lens d" and synced: "dev_synced sp p lens d" and lg: "dev_logged sp p lens d"
    and ex: "dev_explained sp p d" using sound by (simp_all add: dev_sound_def)
  obtain n where w: "in_wave p d n" using base by (auto simp: dev_base_def)
  have me: "me < n * lp_tpb p" by (rule acting_thread(1) [OF su base w run turn])
  have quiet: "dev_logged sp p lens d' \<and> dev_explained sp p d'"
    if "dv_log d' = dv_log d" "dv_hist d' = dv_hist d @ xs" "\<And>b i. dev_cell sp d' b i = dev_cell sp d b i"
      "races_in (ls_world (dv_launch d')) \<subseteq> races_in (ls_world (dv_launch d))" for d' xs
    using logged_quiet [OF lg that(1-3)] explained_quiet [OF ex lg _ that(2), of "[]" "{}"] that(1,4) by auto
  show ?thesis
    using ok
  proof (cases rule: dev_act_cases)
    case (touch b i kind loc ord stored data)
    show ?thesis
      using touch_logged [OF su base w me synced lg touch(1,2,6)] touch_explained [OF su base w me synced lg ex touch(1,2,6)]
      by simp
  next
    case (miss b i kind loc fatal)
    note f = dev_miss_fields [OF miss(3)]
    have "races_in (abort cfg (push_finding (OutOfBounds (sp ! b) i len acc) w)) \<subseteq> races_in w" for cfg len acc w
      using races_push1 [of "OutOfBounds (sp ! b) i len acc" w] by (simp add: abort_def is_race_def)
    then have "races_in (ls_world (dv_launch (dev_exec sp d me a))) \<subseteq> races_in (ls_world (dv_launch d))"
      using f(11) by (elim disjE exE) simp_all
    then show ?thesis using quiet [OF f(9,8) dev_cell_miss [OF miss(3)]] by blast
  next
    case (store b i v)
    have "dv_log (dev_exec sp d me a) = dv_log d" "dv_hist (dev_exec sp d me a) = dv_hist d @ []"
      "dv_launch (dev_exec sp d me a) = dv_launch d" by (simp_all add: store)
    then show ?thesis using quiet [OF _ _ dev_cell_store] unfolding store by simp
  next
    case (fence ord)
    have "dev_cell sp (dev_exec sp d me a) b i = dev_cell sp d b i" for b i
      by (rule dev_cell_cong) (simp_all add: fence)
    then show ?thesis by (intro quiet) (simp_all add: fence)
  next
    case (arrive loc)
    have "dev_cell sp (dev_exec sp d me a) b i = dev_cell sp d b i" for b i
      by (rule dev_cell_cong) (simp_all add: arrive)
    then show ?thesis using races_barrier by (intro quiet) (simp_all add: arrive)
  next
    case depart
    have "dev_cell sp (dev_exec sp d me a) b i = dev_cell sp d b i" for b i
      by (rule dev_cell_cong) (simp_all add: depart)
    then show ?thesis by (intro quiet) (simp_all add: depart)
  next
    case (sched s)
    have "dev_cell sp (dev_exec sp d me a) b i = dev_cell sp d b i" for b i
      by (rule dev_cell_cong) (simp_all add: sched)
    moreover have "dv_hist (dev_exec sp d me a) = dv_hist d @ []" by (simp add: sched)
    moreover have "races_in (ls_world (dv_launch (dev_exec sp d me a))) \<subseteq> races_in (ls_world (dv_launch d))"
      using races_sched sched(3) by (simp add: sched)
    ultimately show ?thesis using quiet [of "dev_exec sp d me a" "[]"] by (simp add: sched)
  qed
qed

lemma dev_step_sound:
  assumes su: "launch_setup checks c = Inr p" and sound: "dev_sound sp c p lid lens d" and step: "dev_step sp c p d d'"
  shows "dev_sound sp c p lid lens d'"
proof -
  have base: "dev_base sp c p lid lens d" and synced: "dev_synced sp p lens d" and lg: "dev_logged sp p lens d"
    and ex: "dev_explained sp p d" using sound by (simp_all add: dev_sound_def)
  show ?thesis
    using step
  proof cases
    case (act me a)
    then show ?thesis
      using dev_act_base [OF su base] dev_act_synced [OF su base synced] dev_act_logged [OF su sound]
      by (simp add: dev_sound_def)
  next
    case (next_wave first n rest picks)
    have same: "dv_log d' = dv_log d" "dv_hist d' = dv_hist d @ []"
      "races_in (ls_world (dv_launch d')) = races_in (ls_world (dv_launch d))"
      by (simp_all add: next_wave dev_wave_def races_in_def wave_begin_def dev_shared_def Let_def)
    have "dev_cell sp d' b i = dev_cell sp d b i" for b i
      by (rule dev_cell_cong) (simp_all add: next_wave dev_wave_def wave_begin_def dev_shared_def Let_def)
    then have "dev_logged sp p lens d'" "dev_explained sp p d'"
      using logged_quiet [OF lg same(1,2)] explained_quiet [OF ex lg _ same(2), of "[]" "{}"] same by auto
    then show ?thesis
      using dev_wave_base(1) [OF su base] dev_wave_synced [OF synced] next_wave by (simp add: dev_sound_def)
  qed
qed

lemma dev_begin_sound:
  assumes "dev_setting sp checks c p lid bufs"
  shows "dev_sound sp c p lid (buf_lens bufs) (dev_begin c p picks lid bufs)"
proof -
  let ?d = "dev_begin c p picks lid bufs"
  obtain first n rest where w: "wave_list p = (first, n) # rest"
    using wave_list_nonempty [OF launch_setup_ok] assms unfolding dev_setting_def
    by (metis list.exhaust surj_pair)
  have "dv_log ?d = []" "w_rep (ls_world (dv_launch ?d)) = reporter_new"
    by (simp_all add: dev_begin_def w wave_begin_def launch_begin_def Let_def)
  then have "dev_logged sp p (buf_lens bufs) ?d" "dev_explained sp p ?d"
    using dev_begin_cells [OF assms, of _ _ picks]
    by (simp_all add: dev_logged_def dev_explained_def races_in_def reporter_new_def cell_ok_def buf_lens_def)
  then show ?thesis
    using dev_begin_base [OF assms] dev_begin_synced [OF assms] by (simp add: dev_sound_def)
qed

interpretation sound: invariant_system
  "\<lambda>d. dev_setting sp checks c p lid bufs \<and> (\<exists>picks. d = dev_begin c p picks lid bufs)" "dev_step sp c p"
  "\<lambda>d. launch_setup checks c = Inr p \<longrightarrow> dev_sound sp c p lid (buf_lens bufs) d" for sp checks c p lid bufs
  by unfold_locales (use dev_begin_sound dev_step_sound in blast)+

lemma reachable_sound:
  assumes "dev_reachable sp checks c p lid bufs d"
  shows "dev_sound sp c p lid (buf_lens bufs) d"
proof -
  have "sound.reachable sp checks c p lid bufs d"
    using assms unfolding sound.reachable_def dev_reachable_def by blast
  from sound.reachable_inv [OF this] reachable_base(1) [OF assms] show ?thesis by blast
qed

text \<open>
  C2: no false alarm. Whatever kernel runs, under whatever schedule and in however many waves: a data race
  in the report is two accesses the launch made to the element it names, by two different threads, not
  both atomic and not both reads, and the earlier one does not happen before the later one, by program
  order, barriers, fences, releases and acquires. In one block they lie between the same two barriers, and
  in one warp between the same two full-mask collectives.
\<close>

theorem reported_races_are_unordered:
  assumes "dev_reachable sp checks c p lid bufs d"
    and "DataRace space i a b \<in> set (rep_diags (w_rep (ls_world (dv_launch d))))"
  shows "\<exists>x \<in> set (dv_log d). \<exists>y \<in> set (dv_log d).
    lg_access x = a \<and> lg_access y = b \<and> lg_buf x = lg_buf y \<and> sp ! lg_buf x = space
    \<and> lg_index x = i \<and> lg_index y = i \<and> lg_pos x < lg_pos y
    \<and> dv_hist d ! lg_pos x = OpTick (acc_gid p a) \<and> dv_hist d ! lg_pos y = OpTick (acc_gid p b)
    \<and> acc_gid p a \<noteq> acc_gid p b \<and> (acc_kind a \<noteq> Atomic \<or> acc_kind b \<noteq> Atomic)
    \<and> (acc_kind a \<noteq> Read \<or> acc_kind b \<noteq> Read)
    \<and> \<not> hb_eq (dv_hist d) (lg_pos x) (lg_pos y)
    \<and> (acc_block a = acc_block b \<longrightarrow> acc_epoch a = acc_epoch b
         \<and> (acc_warp a = acc_warp b \<longrightarrow> acc_warp_epoch a = acc_warp_epoch b))"
proof -
  have sound: "dev_sound sp c p lid (buf_lens bufs) d" by (rule reachable_sound [OF assms(1)])
  then have "race_explained sp p d (DataRace space i a b)"
    using assms(2) by (simp add: dev_sound_def dev_explained_def races_in_def is_race_def)
  then obtain x y where xy: "x \<in> set (dv_log d)" "y \<in> set (dv_log d)"
    "DataRace space i a b = DataRace (sp ! lg_buf x) (lg_index x) (lg_access x) (lg_access y)"
    "unordered_pair p (dv_hist d) x y" "same_interval (lg_access x) (lg_access y)"
    unfolding race_explained_def by blast
  have "log_entry_ok p (buf_lens bufs) (dv_hist d) x" "log_entry_ok p (buf_lens bufs) (dv_hist d) y"
    using sound xy(1,2) by (simp_all add: dev_sound_def dev_logged_def)
  then show ?thesis using xy
    by (intro bexI [of _ x] bexI [of _ y]) (auto simp: unordered_pair_def same_interval_def log_entry_ok_def)
qed

section \<open>Runs by lists of actions\<close>

text \<open>Each action is taken by whoever holds the turn.\<close>

fun dev_play :: "mem_space list \<Rightarrow> 'a device \<Rightarrow> 'a dev_act list \<Rightarrow> 'a device option" where
  "dev_play sp d [] = Some d"
| "dev_play sp d (a # as) =
     (case st_current (ls_st (dv_launch d)) of
        None \<Rightarrow> None
      | Some me \<Rightarrow> if \<not> st_aborted (ls_st (dv_launch d)) \<and> dev_act_ok sp d me a
          then dev_play sp (dev_exec sp d me a) as else None)"

lemma dev_play_steps: "dev_play sp d as = Some d' \<Longrightarrow> (dev_step sp c p)\<^sup>*\<^sup>* d d'"
proof (induction as arbitrary: d)
  case (Cons a as)
  then obtain me where "st_current (ls_st (dv_launch d)) = Some me" "\<not> st_aborted (ls_st (dv_launch d))"
    "dev_act_ok sp d me a" "dev_play sp (dev_exec sp d me a) as = Some d'"
    by (auto split: option.splits if_splits)
  then show ?case using Cons.IH dev_step.act by (meson converse_rtranclp_into_rtranclp)
qed simp

text \<open>Two blocks of one thread, one buffer of one element.\<close>

definition duo_config :: launch_config where
  "duo_config = launch_config_new (dim3_from_u32 2) (dim3_from_u32 1)"

definition duo_plan :: launch_plan where
  "duo_plan = \<lparr>lp_blocks = 2, lp_tpb = 1, lp_total = 2, lp_warp_size = 32, lp_warps_per_block = 1,
     lp_resident = 2, lp_waves = 1\<rparr>"

lemma duo_setup: "launch_setup True duo_config = Inr duo_plan"
  by (simp add: launch_setup_def duo_config_def duo_plan_def launch_config_new_def dim3_from_u32_def
      dim3_new_def dim3_count_def mul_u32_def is_power_of_two_def checked_mul_u32_def clamp_u32_def
      max_threads_def default_warp_size_def Let_def div_ceil_def expect_u32_def)

definition duo_begin :: "u32 list \<Rightarrow> nat device" where
  "duo_begin plan = dev_begin duo_config duo_plan (Replay plan 0) 1 [global_new [1]]"

lemma duo_reachable:
  assumes "dev_play [Global ''x''] (duo_begin plan) as = Some d"
  shows "dev_reachable [Global ''x''] True duo_config duo_plan 1 [global_new [1]] d"
  using dev_play_steps [OF assms] duo_setup
  by (auto simp: dev_reachable_def dev_setting_def duo_begin_def) (simp add: global_new_def)

definition duo_race :: "nat dev_act list" where
  "duo_race = [DevAccess 0 0 Write (Location ''k.rs'' 3 9) None (op_write 7), DevSched ActYield,
     DevAccess 0 0 Read (Location ''k.rs'' 5 9) None op_read]"

lemmas dev_eval = duo_begin_def dev_begin_def duo_config_def duo_plan_def wave_list_def wave_begin_def
  launch_begin_def wave_sched_def sched_config_of_def sched_init_def total_threads_def
  pick_next_def runnable_list_def choose_next_def nth_option_def record_choice_def max_trace_def
  Let_def div_ceil_def dev_ctx_def thread_ctx_of_def reset_of_def access_ops_def elem_no_def dev_cell_def
  yield_now_def hand_off_def wake_def turn_of_def detect_stuck_def ls_st_def sync_new_def
  access_body_def access_of_def acquired_def enter_launch_def global_reset_def global_new_def ctx_access_def tick_def
  epochs_def wave_block_def block_count_def warp_id_def warp_size_def clock_of_def warp_gen_index_def
  default_warp_size_def dim3_from_u32_def dim3_new_def op_read_def op_write_def ctx_report_def push_finding_def
  launch_config_new_def cell_eval reporter_new_def reporter_push_def max_diagnostics_def

lemma duo_race_found:
  "\<exists>d. dev_play [Global ''x''] (duo_begin [0, 1]) duo_race = Some d
     \<and> rep_diags (w_rep (ls_world (dv_launch d))) =
       [DataRace (Global ''x'') 0 (sample_access 0 0 0 0 1 Write\<lparr>acc_loc := Location ''k.rs'' 3 9\<rparr>)
          (sample_access 1 0 0 0 1 Read\<lparr>acc_loc := Location ''k.rs'' 5 9\<rparr>)]"
  by (simp add: duo_race_def dev_eval upt_conv_Cons del: numeral_2_eq_2)

theorem reported_races_are_unordered_witness:
  "\<exists>d. dev_play [Global ''x''] (duo_begin [0, 1]) duo_race = Some d
     \<and> (\<exists>x \<in> set (dv_log d). \<exists>y \<in> set (dv_log d). lg_index x = 0 \<and> lg_index y = 0
          \<and> acc_kind (lg_access x) = Write \<and> acc_kind (lg_access y) = Read
          \<and> \<not> hb_eq (dv_hist d) (lg_pos x) (lg_pos y))"
proof -
  let ?a = "sample_access 0 0 0 0 1 Write\<lparr>acc_loc := Location ''k.rs'' 3 9\<rparr>"
  let ?b = "sample_access 1 0 0 0 1 Read\<lparr>acc_loc := Location ''k.rs'' 5 9\<rparr>"
  obtain d where d: "dev_play [Global ''x''] (duo_begin [0, 1]) duo_race = Some d"
    and f: "DataRace (Global ''x'') 0 ?a ?b \<in> set (rep_diags (w_rep (ls_world (dv_launch d))))"
    using duo_race_found by auto
  have "acc_kind ?a = Write" "acc_kind ?b = Read" by (simp_all add: sample_access_def)
  with d reported_races_are_unordered [OF duo_reachable [OF d] f] show ?thesis by metis
qed

end
