(* ===== verification/Device_Barriers.thy ===== *)
theory Device_Barriers
  imports Device_Races
begin

text \<open>
  The barrier epochs of the shadow cells against happens-before. \<^verbatim>\<open>shadow.rs\<close> orders two accesses of a
  block by comparing barrier epochs, a counter of the scheduler, before it looks at anything else; the
  clocks order them through \<^verbatim>\<open>barrier_arrive\<close> and \<^verbatim>\<open>barrier_depart\<close>. In every reachable state of a launch the two
  agree: what the epochs separate, happens-before orders.
\<close>

section \<open>What a scheduler call does to barriers\<close>

lemma fail_gen [simp]: "st_barrier_gen (w_st (fail cfg d w)) = st_barrier_gen (w_st w)"
  by (simp add: fail_def push_finding_def set_aborted_def wake_def)

lemma wake_st [simp]: "w_st (wake cfg w) = w_st w"
  by (simp add: wake_def)

lemma push_st [simp]: "w_st (push_finding d w) = w_st w"
  by (simp add: push_finding_def)

lemma pick_next_barriers [simp]:
  "st_barrier_gen (pick_next s) = st_barrier_gen s" "st_status (pick_next s) = st_status s"
  by (auto simp: pick_next_def record_choice_def Let_def split: prod.split)

text \<open>Who waits at a barrier, and the epochs of the blocks.\<close>

definition same_barriers :: "sched_config \<Rightarrow> sched_state \<Rightarrow> sched_state \<Rightarrow> bool" where
  "same_barriers cfg s s' \<longleftrightarrow> st_barrier_gen s' = st_barrier_gen s
     \<and> (\<forall>i < total_threads cfg. st_status s' ! i = AtBarrier \<longleftrightarrow> st_status s ! i = AtBarrier)"

lemma same_barriers_park:
  assumes "st_status s ! me = Runnable" and "v \<noteq> AtBarrier"
  shows "(st_status s)[me := v] ! i = AtBarrier \<longleftrightarrow> st_status s ! i = AtBarrier"
  using assms by (cases "me < length (st_status s)"; cases "i = me") (simp_all add: list_update_beyond)

lemma same_barriers_warp:
  assumes base: "base_ok cfg (w_st w)" and run: "st_status (w_st w) ! me = Runnable"
  shows "same_barriers cfg (w_st w) (w_st (fst (warp_rendezvous cfg w me phase msk loc op)))"
proof -
  let ?wait = "\<lparr>ww_phase = phase, ww_mask = msk, ww_at = loc, ww_op = op\<rparr>"
  let ?s1 = "park_at_warp me ?wait (w_st w)"
  obtain block warp lane where loc: "locate cfg me = (block, warp, lane)" by (rule prod_cases3)
  let ?ps = "members cfg block warp msk"
  have len: "length (st_status (w_st w)) = total_threads cfg" using shape_lengths [OF base] by simp
  have park: "same_barriers cfg (w_st w) ?s1"
    using same_barriers_park [OF run, of AtWarp] by (simp add: same_barriers_def park_at_warp_def)
  have rel: "same_barriers cfg (w_st w) (release_warp cfg block warp ?wait ?ps ?s1)"
    if "list_all (\<lambda>p. st_status ?s1 ! p = AtWarp \<and> st_warp_wait ?s1 ! p = Some ?wait) ?ps"
  proof -
    have "set_all ?ps Runnable (st_status ?s1) ! i = AtBarrier \<longleftrightarrow> st_status ?s1 ! i = AtBarrier"
      if "i < total_threads cfg" for i
      using that \<open>list_all _ ?ps\<close> len
      by (subst nth_set_all) (auto simp: list_all_iff park_at_warp_def)
    then show ?thesis using park by (simp add: same_barriers_def)
  qed
  show ?thesis
    using park rel unfolding warp_rendezvous_def loc prod.case Let_def same_barriers_def
    by (auto split: option.split)
qed

lemma same_barriers_finish:
  assumes "st_status (w_st w) ! me = Runnable"
  shows "same_barriers cfg (w_st w) (w_st (finish cfg w me))"
proof -
  let ?s1 = "(w_st w)\<lparr>st_status := (st_status (w_st w))[me := Finished]\<rparr>"
  obtain block warp lane where loc: "locate cfg me = (block, warp, lane)" by (rule prod_cases3)
  have s1: "same_barriers cfg (w_st w) ?s1"
    using same_barriers_park [OF assms, of Finished] by (simp add: same_barriers_def)
  have "st_barrier_gen (w_st (finish cfg w me)) = st_barrier_gen ?s1
      \<and> st_status (w_st (finish cfg w me)) = st_status ?s1"
    unfolding finish_def loc prod.case Let_def by (auto simp: barrier_divergence_def split: option.split)
  then show ?thesis using s1 by (simp add: same_barriers_def)
qed

lemma same_barriers_sched:
  assumes "base_ok cfg (w_st w)" and "st_status (w_st w) ! me = Runnable" and "sched_only a"
  shows "same_barriers cfg (w_st w) (w_st (sched_exec cfg w me a))"
  using assms same_barriers_warp [OF assms(1,2)] same_barriers_finish [OF assms(2)]
  by (cases a) (auto simp: same_barriers_def yield_now_def abort_def set_aborted_def)

section \<open>How knowledge grows with a history\<close>

lemma thread_knows_append:
  assumes "thread_knows h g e"
  shows "thread_knows (h @ xs) g e"
proof -
  obtain t where "t < length h" "op_gid (h ! t) = g" "hb_eq h e t" using assms unfolding thread_knows_def by blast
  then have "t < length (h @ xs) \<and> op_gid ((h @ xs) ! t) = g \<and> hb_eq (h @ xs) e t"
    by (simp add: nth_append hb_eq_append)
  then show ?thesis unfolding thread_knows_def by blast
qed

lemma block_knows_append:
  assumes "block_knows h b e"
  shows "block_knows (h @ xs) b e"
proof -
  obtain t g where "t < length h" "h ! t = OpArrive g b" "hb_eq h e t" using assms unfolding block_knows_def by blast
  then have "t < length (h @ xs) \<and> (h @ xs) ! t = OpArrive g b \<and> hb_eq (h @ xs) e t"
    by (simp add: nth_append hb_eq_append)
  then show ?thesis unfolding block_knows_def by blast
qed

lemma arrive_publishes:
  assumes "thread_knows h g e" and "e < length h"
  shows "block_knows (h @ [OpArrive g b]) b e"
  using assms hb_eq_new_cases [OF assms(2), of "OpArrive g b"] block_knows_snoc [OF assms(2), of "OpArrive g b" b]
  by simp

lemma depart_learns:
  assumes "block_knows h b e" and "e < length h"
  shows "thread_knows (h @ [OpDepart g b]) g e"
  using assms hb_eq_new_cases [OF assms(2), of "OpDepart g b"] thread_knows_snoc [OF assms(2), of "OpDepart g b" g]
  by simp

lemma own_known: "e < length h \<Longrightarrow> h ! e = OpTick g \<Longrightarrow> thread_knows h g e"
  unfolding thread_knows_def using hb_eq_refl by (metis op_gid.simps(1))

section \<open>The invariant\<close>

text \<open>
  \<open>x\<close> is an entry of the log by a thread of block \<open>k\<close>, and \<open>G\<close> the block's epoch now. If the access is from an
  earlier epoch, the block's clock has it, and so has every thread of the block that is not on its way
  through a barrier; if it is from this epoch and its thread waits at the barrier, the block's clock has it.
\<close>

definition entry_known :: "launch_plan \<Rightarrow> nat \<Rightarrow> 'a device \<Rightarrow> logged \<Rightarrow> bool" where
  "entry_known p n d x \<longleftrightarrow>
     (let k = unat (acc_block (lg_access x)); b = k - dv_first d;
          G = st_barrier_gen (ls_st (dv_launch d)) ! b
      in k < dv_first d + n \<and> (dv_first d \<le> k \<longrightarrow>
           acc_epoch (lg_access x) \<le> G
         \<and> (acc_epoch (lg_access x) < G \<longrightarrow> block_knows (dv_hist d) k (lg_pos x)
              \<and> (\<forall>s < n * lp_tpb p. s div lp_tpb p = b \<and> s \<notin> dv_inside d \<longrightarrow>
                   thread_knows (dv_hist d) (dv_first d * lp_tpb p + s) (lg_pos x)))
         \<and> (\<forall>s < n * lp_tpb p. acc_epoch (lg_access x) = G \<and> acc_gid p (lg_access x) = dv_first d * lp_tpb p + s
              \<and> st_status (ls_st (dv_launch d)) ! s = AtBarrier \<longrightarrow> block_knows (dv_hist d) k (lg_pos x))))"

definition barriers_inside :: "launch_plan \<Rightarrow> nat \<Rightarrow> 'a device \<Rightarrow> bool" where
  "barriers_inside p n d \<longleftrightarrow>
     (\<forall>s < n * lp_tpb p. st_status (ls_st (dv_launch d)) ! s = AtBarrier \<longrightarrow> s \<in> dv_inside d)"

definition epochs_known :: "launch_plan \<Rightarrow> nat \<Rightarrow> 'a device \<Rightarrow> bool" where
  "epochs_known p n d \<longleftrightarrow> barriers_inside p n d \<and> (\<forall>x \<in> set (dv_log d). entry_known p n d x)"

lemma entry_knownI:
  assumes "k = unat (acc_block (lg_access x))" and "k < dv_first d + n"
    and "G = st_barrier_gen (ls_st (dv_launch d)) ! (k - dv_first d)"
    and "dv_first d \<le> k \<Longrightarrow> acc_epoch (lg_access x) \<le> G"
    and "dv_first d \<le> k \<Longrightarrow> acc_epoch (lg_access x) < G \<Longrightarrow> block_knows (dv_hist d) k (lg_pos x)"
    and "\<And>s. dv_first d \<le> k \<Longrightarrow> acc_epoch (lg_access x) < G \<Longrightarrow> s < n * lp_tpb p \<Longrightarrow> s div lp_tpb p = k - dv_first d
        \<Longrightarrow> s \<notin> dv_inside d \<Longrightarrow> thread_knows (dv_hist d) (dv_first d * lp_tpb p + s) (lg_pos x)"
    and "\<And>s. dv_first d \<le> k \<Longrightarrow> acc_epoch (lg_access x) = G \<Longrightarrow> s < n * lp_tpb p
        \<Longrightarrow> acc_gid p (lg_access x) = dv_first d * lp_tpb p + s \<Longrightarrow> st_status (ls_st (dv_launch d)) ! s = AtBarrier
        \<Longrightarrow> block_knows (dv_hist d) k (lg_pos x)"
  shows "entry_known p n d x"
  using assms(2-7) unfolding entry_known_def Let_def assms(1) [symmetric] assms(3) [symmetric] by blast

lemma entry_knownD:
  assumes "entry_known p n d x" and "k = unat (acc_block (lg_access x))"
    and "G = st_barrier_gen (ls_st (dv_launch d)) ! (k - dv_first d)"
  shows "k < dv_first d + n"
    and "dv_first d \<le> k \<Longrightarrow> acc_epoch (lg_access x) \<le> G"
    and "dv_first d \<le> k \<Longrightarrow> acc_epoch (lg_access x) < G \<Longrightarrow> block_knows (dv_hist d) k (lg_pos x)"
    and "dv_first d \<le> k \<Longrightarrow> acc_epoch (lg_access x) < G \<Longrightarrow> s < n * lp_tpb p \<Longrightarrow> s div lp_tpb p = k - dv_first d
        \<Longrightarrow> s \<notin> dv_inside d \<Longrightarrow> thread_knows (dv_hist d) (dv_first d * lp_tpb p + s) (lg_pos x)"
    and "dv_first d \<le> k \<Longrightarrow> acc_epoch (lg_access x) = G \<Longrightarrow> s < n * lp_tpb p
        \<Longrightarrow> acc_gid p (lg_access x) = dv_first d * lp_tpb p + s \<Longrightarrow> st_status (ls_st (dv_launch d)) ! s = AtBarrier
        \<Longrightarrow> block_knows (dv_hist d) k (lg_pos x)"
  using assms(1) unfolding entry_known_def Let_def assms(2) [symmetric] assms(3) [symmetric] by blast+

text \<open>A step at which nobody arrives, leaves or is released.\<close>

lemma entry_known_frame:
  assumes "entry_known p n d x" and "dv_first d' = dv_first d" and "dv_inside d' = dv_inside d"
    and "dv_hist d' = dv_hist d @ xs" and "total_threads cfg = n * lp_tpb p"
    and "same_barriers cfg (ls_st (dv_launch d)) (ls_st (dv_launch d'))"
  shows "entry_known p n d' x"
  using assms thread_knows_append block_knows_append unfolding entry_known_def Let_def same_barriers_def by metis

lemma epochs_known_frame:
  assumes "epochs_known p n d" and "dv_first d' = dv_first d" and "dv_inside d' = dv_inside d"
    and "dv_hist d' = dv_hist d @ xs" and "total_threads cfg = n * lp_tpb p"
    and "same_barriers cfg (ls_st (dv_launch d)) (ls_st (dv_launch d'))"
    and "dv_log d' = dv_log d @ ys" and "\<forall>y \<in> set ys. entry_known p n d' y"
  shows "epochs_known p n d'"
  using assms entry_known_frame [OF _ assms(2-6)]
  by (auto simp: epochs_known_def barriers_inside_def same_barriers_def)
section \<open>Arriving\<close>

lemma arrive_state:
  assumes cfg: "cfg_ok cfg" and base: "base_ok cfg (w_st w)" and me: "me < total_threads cfg"
    and w': "w' = fst (barrier cfg w me loc)" and run: "\<not> st_aborted (w_st w')"
  shows "if \<forall>i. block_of cfg i = block_of cfg me \<longrightarrow> i \<noteq> me \<longrightarrow> st_status (w_st w) ! i = AtBarrier
    then st_barrier_gen (w_st w') = (st_barrier_gen (w_st w))
           [block_of cfg me := st_barrier_gen (w_st w) ! block_of cfg me + 1]
      \<and> (\<forall>i < total_threads cfg. st_status (w_st w') ! i =
           (if block_of cfg i = block_of cfg me then Runnable else st_status (w_st w) ! i))
    else st_barrier_gen (w_st w') = st_barrier_gen (w_st w)
      \<and> (\<forall>i < total_threads cfg. st_status (w_st w') ! i = (if i = me then AtBarrier else st_status (w_st w) ! i))"
proof -
  define s1 where "s1 = arrive_at_barrier me (block_of cfg me) loc (w_st w)"
  have len: "length (st_status (w_st w)) = total_threads cfg" using shape_lengths [OF base] by simp
  have stat1: "st_status s1 ! i = (if i = me then AtBarrier else st_status (w_st w) ! i)" for i
    using me len by (simp add: s1_def arrive_at_barrier_def)
  have gen1: "st_barrier_gen s1 = st_barrier_gen (w_st w)" and len1: "length (st_status s1) = total_threads cfg"
    by (simp_all add: s1_def arrive_at_barrier_def len)
  note eq = w' [unfolded barrier_unfold [OF cfg s1_def]]
  have all: "(\<forall>i. block_of cfg i = block_of cfg me \<longrightarrow> st_status s1 ! i = AtBarrier) \<longleftrightarrow>
      (\<forall>i. block_of cfg i = block_of cfg me \<longrightarrow> i \<noteq> me \<longrightarrow> st_status (w_st w) ! i = AtBarrier)"
    unfolding stat1 by auto
  have gone: "\<not> (\<exists>i. block_of cfg i = block_of cfg me \<and> st_status s1 ! i = Finished)"
  proof
    assume "\<exists>i. block_of cfg i = block_of cfg me \<and> st_status s1 ! i = Finished"
    then have "w' = barrier_divergence cfg (w\<lparr>w_st := s1\<rparr>) (block_of cfg me)" unfolding eq by simp
    with run show False by (simp add: barrier_divergence_def)
  qed
  show ?thesis
  proof (cases "\<forall>i. block_of cfg i = block_of cfg me \<longrightarrow> i \<noteq> me \<longrightarrow> st_status (w_st w) ! i = AtBarrier")
    case True
    have "w' = fst (hand_off cfg (w\<lparr>w_st := release_barrier cfg (block_of cfg me) s1\<rparr>) me)"
      unfolding eq all if_not_P [OF gone] if_P [OF True] ..
    then have "st_barrier_gen (w_st w') = (st_barrier_gen s1)[block_of cfg me := st_barrier_gen s1 ! block_of cfg me + 1]"
      and "st_status (w_st w') = set_all (block_range cfg (block_of cfg me)) Runnable (st_status s1)"
      by (simp_all add: release_barrier_def)
    then show ?thesis unfolding if_P [OF True] gen1
      by (auto simp: nth_set_all len1 set_block_range [OF cfg] stat1)
  next
    case False
    have "w' = fst (hand_off cfg (w\<lparr>w_st := s1\<rparr>) me)"
      unfolding eq all if_not_P [OF gone] if_not_P [OF False] ..
    then show ?thesis unfolding if_not_P [OF False] by (simp add: stat1 gen1)
  qed
qed

text \<open>The slot of a thread of the wave, from its number.\<close>

lemma slot_of_access:
  assumes p: "plan_ok p" and own: "acc_own p a" and k: "unat (acc_block a) = first + b" "b < n"
  obtains s where "s < n * lp_tpb p" and "acc_gid p a = first * lp_tpb p + s" and "s div lp_tpb p = b"
proof
  let ?s = "b * lp_tpb p + unat (acc_thread a)"
  have t: "unat (acc_thread a) < lp_tpb p" using own by (simp add: acc_own_def)
  have pos: "0 < lp_tpb p" using p by (simp add: plan_ok_def)
  show "acc_gid p a = first * lp_tpb p + ?s" by (simp add: acc_gid_def k distrib_right)
  show d: "?s div lp_tpb p = b" by (rule div_mod_block(1) [OF pos t])
  show "?s < n * lp_tpb p" using d k(2) pos by (simp add: div_less_iff_less_mult [symmetric])
qed

lemma arrive_known:
  assumes su: "launch_setup checks c = Inr p" and base: "dev_base sp c p lid lens d" and w: "in_wave p d n"
    and run: "\<not> st_aborted (ls_st (dv_launch d))" and turn: "st_current (ls_st (dv_launch d)) = Some me"
    and known: "epochs_known p n d" and x: "x \<in> set (dv_log d)" and ok: "log_entry_ok p lens (dv_hist d) x"
    and d': "d' = dev_exec sp d me (DevArrive loc)" and run': "\<not> st_aborted (ls_st (dv_launch d'))"
  shows "entry_known p n d' x"
proof -
  let ?cfg = "ls_sched (dv_launch d)" and ?s = "ls_st (dv_launch d)" and ?s' = "ls_st (dv_launch d')"
  let ?f = "dv_first d" and ?t = "lp_tpb p" and ?b = "me div lp_tpb p" and ?a = "lg_access x"
  have me: "me < n * ?t" by (rule acting_thread(1) [OF su base w run turn])
  note v = dev_ctx_values [OF su w me]
  note bnd = in_wave_bounds [OF su w]
  have bok: "base_ok ?cfg ?s" using base by (simp add: dev_base_def world_ok_def ls_st_def)
  have tot: "total_threads ?cfg = n * ?t" by (rule bnd(4))
  have blk: "block_of ?cfg i = i div ?t" for i by (simp add: block_of_def bnd(3))
  have h: "dv_hist d' = dv_hist d @ [OpArrive (?f * ?t + me) (?f + ?b)]"
    and ins: "dv_inside d' = insert me (dv_inside d)" and first: "dv_first d' = ?f"
    by (simp_all add: d' v)
  have world: "ls_world (dv_launch d') = fst (barrier ?cfg (ls_world (dv_launch d)) me loc)"
    by (simp add: d' v(4))
  note st = arrive_state [OF bnd(2) bok [unfolded ls_st_def] _ world run' [unfolded ls_st_def],
      folded ls_st_def, unfolded tot blk, OF me]
  have pos: "lg_pos x < length (dv_hist d)" and tick: "dv_hist d ! lg_pos x = OpTick (acc_gid p ?a)"
    and own: "acc_own p ?a" using ok by (simp_all add: log_entry_ok_def)
  have old: "entry_known p n d x" and inside: "barriers_inside p n d"
    using known x by (simp_all add: epochs_known_def)
  note mono = thread_knows_append block_knows_append
  have mine: "block_knows (dv_hist d') (?f + ?b) (lg_pos x)" if "acc_gid p ?a = ?f * ?t + me"
    unfolding h by (rule arrive_publishes [OF own_known [OF pos] pos]) (use tick that in simp)
  define k where "k = unat (acc_block ?a)"
  define G where "G = st_barrier_gen ?s ! (k - ?f)"
  note old = entry_knownD [OF old k_def G_def]
  let ?all = "\<forall>i. i div ?t = ?b \<longrightarrow> i \<noteq> me \<longrightarrow> st_status ?s ! i = AtBarrier"
  have slot: "\<exists>sx. sx < n * ?t \<and> acc_gid p ?a = ?f * ?t + sx \<and> sx div ?t = k - ?f" if "?f \<le> k"
  proof -
    have "unat (acc_block ?a) = ?f + (k - ?f)" "k - ?f < n" using that old(1) by (simp_all add: k_def)
    from slot_of_access [OF launch_setup_ok [OF su] own this] show ?thesis by blast
  qed
  have glen: "?b < length (st_barrier_gen ?s)"
    using shape_lengths [OF bok] v(7) w by (simp add: in_wave_def wave_sched_def sched_config_of_def)
  show ?thesis
  proof (cases "?all \<and> k - ?f = ?b")
    case rel: True
    have all: "st_status ?s ! i = AtBarrier" if "i div ?t = ?b" "i \<noteq> me" for i using rel that by blast
    have gen: "Suc G = st_barrier_gen ?s' ! (k - dv_first d')" using st rel glen by (simp add: G_def first)
    have blocked: "s \<in> dv_inside d'" if "s < n * ?t" "s div ?t = ?b" for s
      using all [OF that(2)] that(1) inside unfolding ins barriers_inside_def by blast
    have bk: "block_knows (dv_hist d') k (lg_pos x)" if fk: "?f \<le> k"
    proof (cases "acc_epoch ?a < G")
      case True
      show ?thesis unfolding h by (rule mono(2) [OF old(3) [OF fk True]])
    next
      case False
      then have e: "acc_epoch ?a = G" using old(2) [OF fk] by simp
      obtain sx where sx: "sx < n * ?t" "acc_gid p ?a = ?f * ?t + sx" "sx div ?t = k - ?f" using slot [OF fk] by blast
      show ?thesis
      proof (cases "sx = me")
        case True
        have "k = ?f + ?b" using rel fk by auto
        then show ?thesis using mine sx True by simp
      next
        case False
        then have "st_status ?s ! sx = AtBarrier" using all sx(3) rel by simp
        from old(5) [OF fk e sx(1,2) this] show ?thesis unfolding h by (rule mono(2))
      qed
    qed
    show ?thesis
    proof (rule entry_knownI [OF k_def _ gen])
      fix s assume "dv_first d' \<le> k" "acc_epoch ?a = Suc G"
      then show "block_knows (dv_hist d') k (lg_pos x)" using old(2) by (simp add: first)
    next
      fix s assume "s < n * ?t" "s div ?t = k - dv_first d'" "s \<notin> dv_inside d'"
      then show "thread_knows (dv_hist d') (dv_first d' * ?t + s) (lg_pos x)" using blocked rel by (simp add: first)
    qed (use old bk first in auto)
  next
    case False
    have gen: "G = st_barrier_gen ?s' ! (k - dv_first d')"
      using st False unfolding G_def first by (cases ?all) (simp_all add: nth_list_update)
    have stat: "s = me \<or> st_status ?s ! s = AtBarrier" if "s < n * ?t" "st_status ?s' ! s = AtBarrier" for s
    proof (cases ?all)
      case True
      then show ?thesis using st that by (auto split: if_splits)
    next
      case False
      then show ?thesis using st that by (auto split: if_splits)
    qed
    show ?thesis
    proof (rule entry_knownI [OF k_def _ gen])
      fix s assume fk: "dv_first d' \<le> k" and e: "acc_epoch ?a = G" and s: "s < n * ?t"
        "acc_gid p ?a = dv_first d' * ?t + s" "st_status ?s' ! s = AtBarrier"
      show "block_knows (dv_hist d') k (lg_pos x)"
      proof (cases "s = me")
        case True
        obtain sx where sx: "acc_gid p ?a = ?f * ?t + sx" "sx div ?t = k - ?f" using slot fk first by auto
        then have "k = ?f + ?b" using s(2) True fk by (simp add: first)
        then show ?thesis using mine s(2) True by (simp add: first)
      next
        case False
        then have "st_status ?s ! s = AtBarrier" using stat s by blast
        then show ?thesis unfolding h using mono(2) [OF old(5)] fk e s first by simp
      qed
    next
      fix s assume a: "dv_first d' \<le> k" "acc_epoch ?a < G" "s < n * ?t" "s div ?t = k - dv_first d'" "s \<notin> dv_inside d'"
      then have "s \<notin> dv_inside d" by (simp add: ins)
      from old(4) [OF a(1,2,3,4) [unfolded first] this] a
      show "thread_knows (dv_hist d') (dv_first d' * ?t + s) (lg_pos x)" unfolding h first by (simp add: mono(1))
    next
      assume a: "dv_first d' \<le> k" "acc_epoch ?a < G"
      from old(3) [OF a [unfolded first]] show "block_knows (dv_hist d') k (lg_pos x)" unfolding h by (rule mono(2))
    qed (use old first in auto)
  qed
qed

section \<open>Leaving, accessing, and the next wave\<close>

lemma depart_known:
  assumes su: "launch_setup checks c = Inr p" and w: "in_wave p d n" and me: "me < n * lp_tpb p"
    and old: "entry_known p n d x" and ok: "log_entry_ok p lens (dv_hist d) x"
    and d': "d' = dev_exec sp d me DevDepart"
  shows "entry_known p n d' x"
proof -
  note v = dev_ctx_values [OF su w me]
  let ?g = "dv_first d * lp_tpb p + me" and ?kb = "dv_first d + me div lp_tpb p"
  have h: "dv_hist d' = dv_hist d @ [OpDepart ?g ?kb]" and ins: "dv_inside d' = dv_inside d - {me}"
    and first: "dv_first d' = dv_first d" and st: "ls_st (dv_launch d') = ls_st (dv_launch d)"
    by (simp_all add: d' v ls_st_def)
  have pos: "lg_pos x < length (dv_hist d)" using ok by (simp add: log_entry_ok_def)
  define k where "k = unat (acc_block (lg_access x))"
  define G where "G = st_barrier_gen (ls_st (dv_launch d)) ! (k - dv_first d)"
  note old = entry_knownD [OF old k_def G_def]
  show ?thesis
  proof (rule entry_knownI [OF k_def])
    show "k < dv_first d' + n" "G = st_barrier_gen (ls_st (dv_launch d')) ! (k - dv_first d')"
      using old(1) by (simp_all add: first st G_def)
  next
    fix s assume a: "dv_first d' \<le> k" "acc_epoch (lg_access x) < G" "s < n * lp_tpb p"
      "s div lp_tpb p = k - dv_first d'" "s \<notin> dv_inside d'"
    show "thread_knows (dv_hist d') (dv_first d' * lp_tpb p + s) (lg_pos x)"
    proof (cases "s = me")
      case True
      then have "?kb = k" using a by (auto simp: first)
      then have "block_knows (dv_hist d) ?kb (lg_pos x)" using old(3) [OF a(1,2) [unfolded first]] by simp
      from depart_learns [OF this pos, of ?g] show ?thesis using True by (simp add: h first)
    next
      case False
      then have "s \<notin> dv_inside d" using a(5) ins by simp
      from old(4) [OF a(1-4) [unfolded first] this] show ?thesis unfolding h first by (rule thread_knows_append)
    qed
  next
    assume a: "dv_first d' \<le> k" "acc_epoch (lg_access x) < G"
    from old(3) [OF a [unfolded first]] show "block_knows (dv_hist d') k (lg_pos x)"
      unfolding h by (rule block_knows_append)
  next
    fix s assume a: "dv_first d' \<le> k" "acc_epoch (lg_access x) = G" "s < n * lp_tpb p"
      "acc_gid p (lg_access x) = dv_first d' * lp_tpb p + s" "st_status (ls_st (dv_launch d')) ! s = AtBarrier"
    from old(5) [OF a [unfolded first st]] show "block_knows (dv_hist d') k (lg_pos x)"
      unfolding h by (rule block_knows_append)
  next
    assume "dv_first d' \<le> k"
    then show "acc_epoch (lg_access x) \<le> G" using old(2) by (simp add: first)
  qed
qed

text \<open>The entry of an access that has just been made.\<close>

lemma new_entry_known:
  assumes su: "launch_setup checks c = Inr p" and base: "dev_base sp c p lid lens d" and w: "in_wave p d n"
    and run: "\<not> st_aborted (ls_st (dv_launch d))" and turn: "st_current (ls_st (dv_launch d)) = Some me"
    and a: "access_of (dev_ctx d me) kind loc ord (dv_launch d) (dev_cell sp d b i) = (acc, now, l1)"
    and first: "dv_first d' = dv_first d" and st: "ls_st (dv_launch d') = ls_st (dv_launch d)"
    and y: "lg_access y = acc"
  shows "entry_known p n d' y"
proof -
  note act = acting_thread [OF su base w run turn]
  note v = dev_ctx_values [OF su w act(1)]
  let ?k = "dv_first d + me div lp_tpb p" and ?G = "st_barrier_gen (ls_st (dv_launch d)) ! (me div lp_tpb p)"
  note f = access_of_fields [OF a]
  have k: "?k = unat (acc_block (lg_access y))" by (simp add: y f(6) v(1))
  have "wave_block (dv_launch d) (dev_ctx d me) = me div lp_tpb p"
    by (rule dev_wave_block [OF su]) (use base in \<open>simp add: dev_base_def\<close>)
  then have e: "acc_epoch (lg_access y) = ?G" by (simp add: y f(8) epochs_def)
  have "acc_gid p (lg_access y) = dv_first d * lp_tpb p + me"
    using v launch_setup_ok [OF su] by (simp add: acc_gid_def y f(6,7) plan_ok_def distrib_right)
  then show ?thesis
    using act(2) v(7) e by (intro entry_knownI [OF k, of _ _ ?G]) (auto simp: first st)
qed

definition dev_epochs :: "launch_plan \<Rightarrow> 'a device \<Rightarrow> bool" where
  "dev_epochs p d \<longleftrightarrow> (\<not> st_aborted (ls_st (dv_launch d)) \<longrightarrow> (\<forall>n. in_wave p d n \<longrightarrow> epochs_known p n d))"

lemma same_barriers_refl [simp]: "same_barriers cfg s s"
  by (simp add: same_barriers_def)

lemma dev_act_epochs:
  assumes su: "launch_setup checks c = Inr p" and sound: "dev_sound sp c p lid lens d" and ep: "dev_epochs p d"
    and run: "\<not> st_aborted (ls_st (dv_launch d))" and turn: "st_current (ls_st (dv_launch d)) = Some me"
    and ok: "dev_act_ok sp d me a" and d': "d' = dev_exec sp d me a"
    and run': "\<not> st_aborted (ls_st (dv_launch d'))" and w: "in_wave p d n"
  shows "epochs_known p n d'"
proof -
  have base: "dev_base sp c p lid lens d" and lg: "dev_logged sp p lens d" using sound by (simp_all add: dev_sound_def)
  have known: "epochs_known p n d" using ep run w by (simp add: dev_epochs_def)
  have tot: "total_threads (ls_sched (dv_launch d)) = n * lp_tpb p" by (rule in_wave_bounds(4) [OF su w])
  note act = acting_thread [OF su base w run turn]
  have bok: "base_ok (ls_sched (dv_launch d)) (ls_st (dv_launch d))"
    using base by (simp add: dev_base_def world_ok_def ls_st_def)
  have entries: "log_entry_ok p lens (dv_hist d) x" if "x \<in> set (dv_log d)" for x
    using lg that by (simp add: dev_logged_def)
  note frame = epochs_known_frame [OF known _ _ _ tot]
  show ?thesis
    using ok
  proof (cases rule: dev_act_cases)
    case (touch b i kind loc ord stored data)
    obtain acc now l1 where a:
      "access_of (dev_ctx d me) kind loc ord (dv_launch d) (dev_cell sp d b i) = (acc, now, l1)"
      by (rule prod_cases3)
    note f = dev_touch_fields [OF a touch(6), folded d']
    have st: "ls_st (dv_launch d') = ls_st (dv_launch d)" using f(5) by (simp add: ls_st_def)
    show ?thesis
      by (rule frame [OF f(7,9,10) _ f(11)])
        (use st new_entry_known [OF su base w run turn a f(7) st] in simp_all)
  next
    case (miss b i kind loc fatal)
    note f = dev_miss_fields [OF miss(3), folded d']
    have st: "ls_st (dv_launch d') = ls_st (dv_launch d)"
      using f(11) run' by (auto simp: ls_st_def abort_def)
    show ?thesis by (rule frame [OF f(5,7,8), of "[]"]) (use st f(9) in simp_all)
  next
    case (store b i v)
    show ?thesis by (rule frame [of _ "[]" "[]"]) (simp_all add: d' store)
  next
    case (fence ord)
    show ?thesis
      by (rule frame [of _ "[OpFence (tc_gid (dev_ctx d me)) ord]" "[]"]) (simp_all add: d' fence ls_st_def)
  next
    case (arrive loc)
    have "barriers_inside p n d'"
    proof -
      have s: "ls_world (dv_launch d') = fst (barrier (ls_sched (dv_launch d)) (ls_world (dv_launch d)) me loc)"
        using dev_ctx_values(4) [OF su w act(1)] by (simp add: d' arrive)
      note st = arrive_state [OF in_wave_bounds(2) [OF su w] bok [unfolded ls_st_def] _ s run' [unfolded ls_st_def],
          unfolded tot, OF act(1), folded ls_st_def]
      have "st_status (ls_st (dv_launch d')) ! i = AtBarrier \<longrightarrow> i = me \<or> st_status (ls_st (dv_launch d)) ! i = AtBarrier"
        if "i < n * lp_tpb p" for i
        using st that by (auto split: if_splits)
      then show ?thesis using known by (auto simp: barriers_inside_def epochs_known_def d' arrive)
    qed
    moreover have "entry_known p n d' x" if "x \<in> set (dv_log d)" for x
      by (rule arrive_known [OF su base w run turn known that entries [OF that], of _ loc])
        (use d' arrive run' in simp_all)
    moreover have "dv_log d' = dv_log d" by (simp add: d' arrive)
    ultimately show ?thesis by (simp add: epochs_known_def)
  next
    case depart
    have "entry_known p n d' x" if "x \<in> set (dv_log d)" for x
      by (rule depart_known [OF su w act(1) _ entries [OF that]])
        (use known that d' depart in \<open>simp_all add: epochs_known_def\<close>)
    moreover have "barriers_inside p n d'"
      using known act(2) by (auto simp: barriers_inside_def epochs_known_def d' depart ls_st_def)
    moreover have "dv_log d' = dv_log d" by (simp add: d' depart)
    ultimately show ?thesis by (simp add: epochs_known_def)
  next
    case (sched s)
    have "same_barriers (ls_sched (dv_launch d)) (ls_st (dv_launch d)) (ls_st (dv_launch d'))"
      using same_barriers_sched [OF bok [unfolded ls_st_def] act(2) [unfolded ls_st_def] sched(3)]
      by (simp add: d' sched ls_st_def)
    then show ?thesis by (intro frame [of _ "[]" "[]"]) (simp_all add: d' sched)
  qed
qed

lemma in_wave_unique:
  assumes "in_wave p d n" and "in_wave p d m"
  shows "n = m"
proof -
  obtain xs ys where eq: "xs @ (dv_first d, n) # dv_waves d = ys @ (dv_first d, m) # dv_waves d"
    using assms unfolding in_wave_def by metis
  then have "length xs = length ys" using arg_cong [OF eq, of length] by simp
  with eq show ?thesis by simp
qed

lemma wave_begin_status:
  assumes "i < total_threads (wave_sched p n)"
  shows "st_status (ls_st (wave_begin c p n picks sh)) ! i \<noteq> AtBarrier"
  using assms by (simp add: wave_begin_def ls_st_def sched_init_def Let_def)

lemma dev_wave_epochs:
  assumes su: "launch_setup checks c = Inr p" and base: "dev_base sp c p lid lens d" and ep: "dev_epochs p d"
    and run: "\<not> st_aborted (ls_st (dv_launch d))" and rest: "dv_waves d = (first, n') # rest"
    and d': "d' = dev_wave c p picks first n' rest d"
  shows "dev_epochs p d'"
proof -
  obtain m where w: "in_wave p d m" using base by (auto simp: dev_base_def)
  note next' = dev_wave_base(2) [OF su base rest, of picks, folded d']
  have f: "first = dv_first d + m" by (rule dev_wave_base(3) [OF su base rest w])
  have f': "dv_first d' = first" "dv_log d' = dv_log d" "ls_st (dv_launch d') = ls_st (wave_begin c p n' picks (dev_shared d))"
    by (simp_all add: d' dev_wave_def)
  have "total_threads (wave_sched p n') = n' * lp_tpb p"
    using in_wave_bounds(4) [OF su next'] next' by (simp add: in_wave_def)
  then have "barriers_inside p n' d'" 
    using wave_begin_status [of _ p n' c picks "dev_shared d"] by (simp add: barriers_inside_def f'(3))
  moreover have "entry_known p n' d' x" if x: "x \<in> set (dv_log d)" for x
  proof -
    have "entry_known p m d x" using ep run w x by (simp add: dev_epochs_def epochs_known_def)
    then have "unat (acc_block (lg_access x)) < first" using entry_knownD(1) [OF _ refl refl] f by metis
    then show ?thesis by (intro entry_knownI [OF refl _ refl]) (simp_all add: f')
  qed
  ultimately have "epochs_known p n' d'" by (simp add: epochs_known_def f'(2))
  then show ?thesis using in_wave_unique [OF next'] by (auto simp: dev_epochs_def)
qed

lemma dev_begin_epochs:
  assumes "dev_setting sp checks c p lid bufs"
  shows "dev_epochs p (dev_begin c p picks lid bufs)"
proof -
  let ?d = "dev_begin c p picks lid bufs"
  have su: "launch_setup checks c = Inr p" using assms by (simp add: dev_setting_def)
  obtain first n rest where w: "wave_list p = (first, n) # rest"
    using wave_list_nonempty [OF launch_setup_ok [OF su]] by (metis list.exhaust surj_pair)
  let ?sh = "launch_begin lid p () :: (unit, unit, unit) launch_shared"
  have d: "dv_log ?d = []" "dv_launch ?d = wave_begin c p n picks ?sh" by (simp_all add: dev_begin_def w)
  have "barriers_inside p m ?d" if "in_wave p ?d m" for m
  proof -
    have "total_threads (wave_sched p n) = m * lp_tpb p"
      using in_wave_bounds(4) [OF su that] by (simp add: d(2) wave_begin_def Let_def)
    then show ?thesis using wave_begin_status [of _ p n c picks ?sh] by (simp add: barriers_inside_def d(2))
  qed
  then show ?thesis by (simp add: dev_epochs_def epochs_known_def d(1))
qed

lemma dev_step_epochs:
  assumes su: "launch_setup checks c = Inr p" and sound: "dev_sound sp c p lid lens d" and ep: "dev_epochs p d"
    and step: "dev_step sp c p d d'"
  shows "dev_epochs p d'"
  using step
proof cases
  case (act me a)
  obtain n where w: "in_wave p d n" using sound by (auto simp: dev_sound_def dev_base_def)
  have "in_wave p d' m \<longleftrightarrow> in_wave p d m" for m
  proof -
    have "dv_first d' = dv_first d \<and> dv_waves d' = dv_waves d \<and> ls_sched (dv_launch d') = ls_sched (dv_launch d)"
      using act(4)
    proof (cases rule: dev_act_cases)
      case (touch b i kind loc ord stored data)
      obtain acc now l1 where a:
        "access_of (dev_ctx d me) kind loc ord (dv_launch d) (dev_cell sp d b i) = (acc, now, l1)"
        by (rule prod_cases3)
      show ?thesis using dev_touch_fields(2,7,8) [OF a touch(6)] act(1) by simp
    next
      case (miss b i kind loc fatal)
      show ?thesis using dev_miss_fields(2,5,6) [OF miss(3)] act(1) by simp
    qed (simp_all add: act(1))
    then show ?thesis by (simp add: in_wave_def)
  qed
  then show ?thesis
    using dev_act_epochs [OF su sound ep act(2-4,1)] by (simp add: dev_epochs_def)
next
  case (next_wave first n rest picks)
  have base: "dev_base sp c p lid lens d" using sound by (simp add: dev_sound_def)
  show ?thesis by (rule dev_wave_epochs [OF su base ep next_wave(2,4,1)])
qed

interpretation barriers: invariant_system
  "\<lambda>d. dev_setting sp checks c p lid bufs \<and> (\<exists>picks. d = dev_begin c p picks lid bufs)" "dev_step sp c p"
  "\<lambda>d. launch_setup checks c = Inr p \<longrightarrow> dev_sound sp c p lid (buf_lens bufs) d \<and> dev_epochs p d"
  for sp checks c p lid bufs
proof unfold_locales
  fix d assume "dev_setting sp checks c p lid bufs \<and> (\<exists>picks. d = dev_begin c p picks lid bufs)"
  then show "launch_setup checks c = Inr p \<longrightarrow> dev_sound sp c p lid (buf_lens bufs) d \<and> dev_epochs p d"
    using dev_begin_sound dev_begin_epochs by blast
next
  fix d d' assume "launch_setup checks c = Inr p \<longrightarrow> dev_sound sp c p lid (buf_lens bufs) d \<and> dev_epochs p d"
    and "dev_step sp c p d d'"
  then show "launch_setup checks c = Inr p \<longrightarrow> dev_sound sp c p lid (buf_lens bufs) d' \<and> dev_epochs p d'"
    using dev_step_sound dev_step_epochs by blast
qed

lemma reachable_epochs:
  assumes "dev_reachable sp checks c p lid bufs d"
  shows "dev_epochs p d"
proof -
  have "barriers.reachable sp checks c p lid bufs d"
    using assms unfolding barriers.reachable_def dev_reachable_def by blast
  from barriers.reachable_inv [OF this] reachable_base(1) [OF assms] show ?thesis by blast
qed

section \<open>The rule is happens-before\<close>

lemma epochs_order:
  assumes su: "launch_setup checks c = Inr p" and sound: "dev_sound sp c p lid lens d" and ep: "dev_epochs p d"
    and run: "\<not> st_aborted (ls_st (dv_launch d))" and turn: "st_current (ls_st (dv_launch d)) = Some me"
    and out: "me \<notin> dv_inside d" and x: "x \<in> set (dv_log d)"
    and a: "access_of (dev_ctx d me) kind loc ord (dv_launch d) (dev_cell sp d b i) = (acc, now, l1)"
    and blk: "acc_block (lg_access x) = acc_block acc" and eps: "acc_epoch (lg_access x) \<noteq> acc_epoch acc"
  shows "hb_eq (tick_hist d me b i ord) (lg_pos x) (length (pre_hist d me b i ord))"
proof -
  have base: "dev_base sp c p lid lens d" and lg: "dev_logged sp p lens d" using sound by (simp_all add: dev_sound_def)
  obtain n where w: "in_wave p d n" using base by (auto simp: dev_base_def)
  have me: "me < n * lp_tpb p" by (rule acting_thread(1) [OF su base w run turn])
  note v = dev_ctx_values [OF su w me]
  note f = access_of_fields [OF a]
  let ?k = "dv_first d + me div lp_tpb p"
  have k: "?k = unat (acc_block (lg_access x))" by (simp add: blk f(6) v(1))
  have "wave_block (dv_launch d) (dev_ctx d me) = me div lp_tpb p"
    by (rule dev_wave_block [OF su]) (use base in \<open>simp add: dev_base_def\<close>)
  then have e: "acc_epoch acc = st_barrier_gen (ls_st (dv_launch d)) ! (?k - dv_first d)"
    by (simp add: f(8) epochs_def)
  have "entry_known p n d x" using ep run w x by (simp add: dev_epochs_def epochs_known_def)
  note old = entry_knownD [OF this k e]
  have "acc_epoch (lg_access x) < acc_epoch acc" using old(2) eps by simp
  from old(4) [OF _ this me _ out] have "thread_knows (dv_hist d) (tc_gid (dev_ctx d me)) (lg_pos x)"
    by (simp add: v(3))
  then have "thread_knows (tick_hist d me b i ord) (op_gid (OpTick (tc_gid (dev_ctx d me)))) (lg_pos x)"
    by (simp add: tick_hist_def pre_hist_def thread_knows_append)
  moreover have "lg_pos x < length (pre_hist d me b i ord)"
    using lg x by (auto simp: dev_logged_def log_entry_ok_def pre_hist_def)
  ultimately show ?thesis unfolding tick_hist_def by (simp only: thread_knows_last)
qed


definition duo_write :: "nat dev_act list" where
  "duo_write = [DevAccess 0 0 Write (Location ''k.rs'' 3 9) None (op_write 7), DevSched ActYield]"

lemma duo_written:
  "case dev_play [Global ''x''] (duo_begin [0, 1]) duo_write of None \<Rightarrow> False | Some d \<Rightarrow>
     \<not> st_aborted (ls_st (dv_launch d)) \<and> st_current (ls_st (dv_launch d)) = Some 1 \<and> dv_inside d = {}
     \<and> length (dv_bufs d) = 1 \<and> length (in_data (dv_bufs d ! 0)) = 1 \<and> length (dv_log d) = 1
     \<and> (case access_of (dev_ctx d 1) Read (Location ''k.rs'' 5 9) None (dv_launch d) (dev_cell [Global ''x''] d 0 0) of
          (acc, now, l1) \<Rightarrow> concurrent (lg_access (dv_log d ! 0)) acc now)"
  by (simp add: duo_write_def dev_eval upt_conv_Cons del: numeral_2_eq_2)


end
