(* ===== verification/Device_First.thy ===== *)
theory Device_First
  imports Device_Barriers
begin

text \<open>
  The first race of an element is found, in a whole launch and with every means of synchronisation: fences,
  releases and acquires as well as barriers. \<open>Shadow.first_race_is_found\<close> is about runs whose clocks add
  nothing to the epochs; here order is happens-before, and a shadow cell that keeps one write and eight
  readers is shown to forget nothing that matters before the first race.
\<close>

section \<open>Elements without a race so far\<close>

definition of_elem :: "nat \<Rightarrow> nat \<Rightarrow> logged \<Rightarrow> bool" where
  "of_elem b i x \<longleftrightarrow> lg_buf x = b \<and> lg_index x = i"

definition elem_entries :: "'a device \<Rightarrow> nat \<Rightarrow> nat \<Rightarrow> logged list" where
  "elem_entries d b i = filter (of_elem b i) (dv_log d)"

definition elem_reads :: "'a device \<Rightarrow> nat \<Rightarrow> nat \<Rightarrow> nat" where
  "elem_reads d b i = length (filter (\<lambda>x. acc_kind (lg_access x) = Read) (elem_entries d b i))"

text \<open>No full-mask collective of a warp separates the two, unless a barrier does too.\<close>

definition no_collective_between :: "access \<Rightarrow> access \<Rightarrow> bool" where
  "no_collective_between a b \<longleftrightarrow>
     (acc_block a = acc_block b \<and> acc_epoch a = acc_epoch b \<and> acc_warp a = acc_warp b
        \<longrightarrow> acc_warp_epoch a = acc_warp_epoch b)"

definition reread :: "access \<Rightarrow> access \<Rightarrow> bool" where
  "reread a b \<longleftrightarrow> acc_kind a = Read \<and> acc_kind b = Read \<and> acc_block a = acc_block b
     \<and> acc_thread a = acc_thread b \<and> acc_epoch a = acc_epoch b"

text \<open>
  Plain accesses, at most eight of them reads, no thread reading twice between two barriers, and no two
  of them unordered.
\<close>

definition elem_quiet :: "launch_plan \<Rightarrow> 'a device \<Rightarrow> nat \<Rightarrow> nat \<Rightarrow> bool" where
  "elem_quiet p d b i \<longleftrightarrow> elem_reads d b i \<le> max_readers
     \<and> (\<forall>x \<in> set (elem_entries d b i). acc_kind (lg_access x) \<noteq> Atomic)
     \<and> (\<forall>x \<in> set (elem_entries d b i). \<forall>y \<in> set (elem_entries d b i).
          \<not> unordered_pair p (dv_hist d) x y
          \<and> (lg_pos x < lg_pos y \<longrightarrow> \<not> reread (lg_access x) (lg_access y)))"

lemma elem_quiet_prefix:
  assumes "elem_quiet p d' b i" and log: "dv_log d' = dv_log d @ ys" and hist: "dv_hist d' = dv_hist d @ xs"
    and ok: "\<forall>x \<in> set (dv_log d). lg_pos x < length (dv_hist d)"
  shows "elem_quiet p d b i"
proof -
  have e: "elem_entries d' b i = elem_entries d b i @ filter (of_elem b i) ys" by (simp add: elem_entries_def log)
  have un: "unordered_pair p (dv_hist d') x y \<longleftrightarrow> unordered_pair p (dv_hist d) x y" if "y \<in> set (elem_entries d b i)" for x y
  proof -
    have "lg_pos y < length (dv_hist d)" using that ok by (simp add: elem_entries_def)
    then show ?thesis by (simp add: unordered_pair_def hist hb_eq_append)
  qed
  have sub: "x \<in> set (elem_entries d' b i)" if "x \<in> set (elem_entries d b i)" for x using that e by simp
  have "elem_reads d b i \<le> elem_reads d' b i" by (simp add: elem_reads_def e)
  then show ?thesis using assms(1) un sub unfolding elem_quiet_def by (meson le_trans)
qed

section \<open>What the cell covers\<close>

definition cell_knows :: "'a device \<Rightarrow> nat \<Rightarrow> nat \<Rightarrow> shadow_cell \<Rightarrow> logged \<Rightarrow> bool" where
  "cell_knows d b i cell x \<longleftrightarrow>
     (\<exists>w \<in> set (elem_entries d b i). cell_last_write cell = Some (lg_access w) \<and> hb_eq (dv_hist d) (lg_pos x) (lg_pos w))
   \<or> acc_kind (lg_access x) = Read \<and> (\<exists>r \<in> set (elem_entries d b i). lg_access r \<in> set (cell_readers cell)
        \<and> hb_eq (dv_hist d) (lg_pos x) (lg_pos r))"

definition elem_covered :: "mem_space list \<Rightarrow> launch_plan \<Rightarrow> 'a device \<Rightarrow> nat \<Rightarrow> nat \<Rightarrow> bool" where
  "elem_covered sp p d b i \<longleftrightarrow> length (cell_readers (dev_cell sp d b i)) \<le> elem_reads d b i
     \<and> (elem_quiet p d b i \<longrightarrow> (\<forall>x \<in> set (elem_entries d b i). cell_knows d b i (dev_cell sp d b i) x))"

lemma cell_knows_append:
  assumes "cell_knows d b i cell x" and log: "dv_log d' = dv_log d @ ys" and hist: "dv_hist d' = dv_hist d @ xs"
    and ok: "\<forall>x \<in> set (dv_log d). lg_pos x < length (dv_hist d)"
  shows "cell_knows d' b i cell x"
proof -
  have mem: "w \<in> set (elem_entries d' b i)" if "w \<in> set (elem_entries d b i)" for w
    using that by (simp add: elem_entries_def log)
  have hb: "hb_eq (dv_hist d') e (lg_pos w)" if "w \<in> set (elem_entries d b i)" "hb_eq (dv_hist d) e (lg_pos w)" for e w
    using that ok by (simp add: elem_entries_def hist hb_eq_append)
  show ?thesis using assms(1) mem hb unfolding cell_knows_def by blast
qed

lemma elem_covered_frame:
  assumes cov: "elem_covered sp p d b i" and log: "dv_log d' = dv_log d @ ys" and hist: "dv_hist d' = dv_hist d @ xs"
    and ok: "\<forall>x \<in> set (dv_log d). lg_pos x < length (dv_hist d)"
    and cell: "dev_cell sp d' b i = dev_cell sp d b i" and ys: "\<forall>y \<in> set ys. \<not> of_elem b i y"
  shows "elem_covered sp p d' b i"
proof -
  have e: "elem_entries d' b i = elem_entries d b i"
    using ys by (simp add: elem_entries_def log filter_empty_conv)
  have r: "elem_reads d' b i = elem_reads d b i" by (simp add: elem_reads_def e)
  show ?thesis
    using cov elem_quiet_prefix [OF _ log hist ok] cell_knows_append [OF _ log hist ok]
    unfolding elem_covered_def e r cell by blast
qed

text \<open>Positions of one thread are in program order.\<close>

lemma own_order:
  assumes "p < q" and "q < length h" and "h ! p = OpTick g" and "h ! q = OpTick g"
  shows "hb_eq h p q"
  using assms hb_eq_step [OF hb_eq_refl hb_edge.program_order, of p q h] by simp

lemma hb_eq_trans: "hb_eq h a b \<Longrightarrow> hb_eq h b c \<Longrightarrow> hb_eq h a c"
  unfolding hb_eq_def by (rule rtranclp_trans)
lemma cell_after_fields:
  assumes "access_of c kind loc ord l cell = (acc, now, l1)"
  shows "cell_last_write (cell_after c kind loc ord stored l cell) = cell_last_write (snd (on_access cell acc now))"
    and "cell_readers (cell_after c kind loc ord stored l cell) = cell_readers (snd (on_access cell acc now))"
  using assms by (simp_all add: cell_after_def Let_def split: option.split)

lemma on_read_readers_length: "length (cell_readers (snd (on_read c acc now))) \<le> Suc (length (cell_readers c))"
  unfolding on_read_readers_eq using length_filter_le [of _ "cell_readers c"] by (auto intro: le_SucI)

text \<open>A read that is not a reread is remembered while there is room, and drops only readers of other epochs.\<close>

lemma on_read_keeps:
  assumes "\<forall>r \<in> set (cell_readers c). \<not> reread r acc" and "\<forall>r \<in> set (cell_readers c). acc_kind r = Read"
    and "acc_kind acc = Read" and "length (cell_readers c) < max_readers"
  shows "acc \<in> set (cell_readers (snd (on_read c acc now)))"
    and "r \<in> set (cell_readers c) \<Longrightarrow> r \<in> set (cell_readers (snd (on_read c acc now)))
           \<or> acc_block r = acc_block acc \<and> acc_epoch r \<noteq> acc_epoch acc"
proof -
  let ?kept = "filter (\<lambda>r. acc_block r \<noteq> acc_block acc \<or> acc_epoch r = acc_epoch acc) (cell_readers c)"
  have "\<not> list_ex (\<lambda>r. acc_block r = acc_block acc \<and> acc_thread r = acc_thread acc \<and> acc_epoch r = acc_epoch acc) ?kept"
    using assms(1-3) by (auto simp: list_ex_iff reread_def)
  moreover have "length ?kept < max_readers" using assms(4) length_filter_le le_less_trans by blast
  ultimately have "cell_readers (snd (on_read c acc now)) = ?kept @ [acc]" unfolding on_read_readers_eq by simp
  then show "acc \<in> set (cell_readers (snd (on_read c acc now)))"
    and "r \<in> set (cell_readers c) \<Longrightarrow> r \<in> set (cell_readers (snd (on_read c acc now)))
           \<or> acc_block r = acc_block acc \<and> acc_epoch r \<noteq> acc_epoch acc" by auto
qed

text \<open>In a quiet element, accesses that conflict are ordered as they were made.\<close>

lemma quiet_ordered:
  assumes "elem_quiet p d b i" and "z \<in> set (elem_entries d b i)" and "y \<in> set (elem_entries d b i)"
    and "lg_pos z < lg_pos y" and "log_entry_ok p lens (dv_hist d) z" and "log_entry_ok p lens (dv_hist d) y"
    and "\<not> (acc_kind (lg_access z) = Read \<and> acc_kind (lg_access y) = Read)"
  shows "hb_eq (dv_hist d) (lg_pos z) (lg_pos y)"
proof (cases "acc_gid p (lg_access z) = acc_gid p (lg_access y)")
  case True
  then show ?thesis using own_order [OF assms(4)] assms(5,6) by (simp add: log_entry_ok_def)
next
  case False
  have "\<not> unordered_pair p (dv_hist d) z y" "acc_kind (lg_access z) \<noteq> Atomic"
    using assms(1-3) by (auto simp: elem_quiet_def)
  moreover have "lg_buf z = lg_buf y" "lg_index z = lg_index y"
    using assms(2,3) by (auto simp: elem_entries_def of_elem_def)
  ultimately show ?thesis using False assms(4,7) by (auto simp: unordered_pair_def)
qed

text \<open>The thread with the turn, outside every barrier, in a state with all the invariants.\<close>

definition acting ::
  "mem_space list \<Rightarrow> bool \<Rightarrow> launch_config \<Rightarrow> launch_plan \<Rightarrow> nat \<Rightarrow> nat list \<Rightarrow> 'a device \<Rightarrow> nat \<Rightarrow> bool" where
  "acting sp checks c p lid lens d me \<longleftrightarrow> launch_setup checks c = Inr p \<and> dev_sound sp c p lid lens d
     \<and> dev_epochs p d \<and> \<not> st_aborted (ls_st (dv_launch d)) \<and> st_current (ls_st (dv_launch d)) = Some me
     \<and> me \<notin> dv_inside d"

lemma acting_entries:
  assumes "acting sp checks c p lid lens d me"
  shows "\<forall>x \<in> set (dv_log d). log_entry_ok p lens (dv_hist d) x \<and> lg_pos x < length (dv_hist d)"
  using assms by (auto simp: acting_def dev_sound_def dev_logged_def log_entry_ok_def)

lemma acting_cell_ok:
  assumes "acting sp checks c p lid lens d me" and "b < length (dv_bufs d)" and "i < length (in_data (dv_bufs d ! b))"
  shows "cell_ok (elem_log d b i) (dev_cell sp d b i)"
proof -
  have bufs: "bufs_ok lens (dv_bufs d)" and lg: "dev_logged sp p lens d"
    using assms(1) by (simp_all add: acting_def dev_sound_def dev_base_def)
  then show ?thesis using bufs_ok_nth [OF bufs assms(2)] assms(2,3) by (auto simp: dev_logged_def bufs_ok_def)
qed

lemma acting_touch:
  assumes act: "acting sp checks c p lid lens d me"
    and b: "b < length (dv_bufs d)" and i: "i < length (in_data (dv_bufs d ! b))"
    and a: "access_of (dev_ctx d me) kind loc ord (dv_launch d) (dev_cell sp d b i) = (acc, now, l1)"
    and t: "d' = dev_touch sp d me b i kind loc ord stored data"
    and y: "y = \<lparr>lg_pos = length (pre_hist d me b i ord), lg_buf = b, lg_index = i, lg_access = acc\<rparr>"
  obtains xs where "dv_hist d' = dv_hist d @ xs" and "dv_log d' = dv_log d @ [y]"
    and "log_entry_ok p lens (dv_hist d') y" and "\<forall>x \<in> set (dv_log d). lg_pos x < lg_pos y"
    and "\<And>z. hb_eq (dv_hist d') z (lg_pos y) \<longleftrightarrow> hb_eq (tick_hist d me b i ord) z (lg_pos y)"
    and "elem_entries d' b i = elem_entries d b i @ [y]" and "dev_cell sp d' b i
      = cell_after (dev_ctx d me) kind loc ord stored (dv_launch d) (dev_cell sp d b i)"
proof -
  have su: "launch_setup checks c = Inr p" and base: "dev_base sp c p lid lens d" and synced: "dev_synced sp p lens d"
    and lg: "dev_logged sp p lens d" and run: "\<not> st_aborted (ls_st (dv_launch d))"
    and turn: "st_current (ls_st (dv_launch d)) = Some me"
    using act by (simp_all add: acting_def dev_sound_def)
  obtain n where w: "in_wave p d n" using base by (auto simp: dev_base_def)
  have me: "me < n * lp_tpb p" by (rule acting_thread(1) [OF su base w run turn])
  obtain xs where h: "dv_hist d' = tick_hist d me b i ord @ xs" and log: "dv_log d' = dv_log d @ [y]"
    unfolding y by (rule touch_hist [OF a t])
  have "log_entry_ok p lens (dv_hist d') y"
    using touch_logged [OF su base w me synced lg b i t] by (simp add: dev_logged_def log)
  moreover have "\<forall>x \<in> set (dv_log d). lg_pos x < lg_pos y"
    using acting_entries [OF act] by (auto simp: y pre_hist_def intro: trans_less_add1)
  moreover have "lg_pos y < length (tick_hist d me b i ord)" by (simp add: y tick_hist_def)
  then have "hb_eq (dv_hist d') z (lg_pos y) \<longleftrightarrow> hb_eq (tick_hist d me b i ord) z (lg_pos y)" for z
    unfolding h by (rule hb_eq_append)
  moreover have "elem_entries d' b i = elem_entries d b i @ [y]"
    by (simp add: elem_entries_def log of_elem_def y)
  moreover have "bufs_ok lens (dv_bufs d)" using base by (simp add: dev_base_def)
  ultimately show ?thesis
    using h log that [of "acquire_ops (tc_gid (dev_ctx d me)) (elem_no d b i) ord @ [OpTick (tc_gid (dev_ctx d me))] @ xs"]
      dev_cell_touch [OF _ b i b t, of lens i] by (simp add: tick_hist_def pre_hist_def)
qed

section \<open>An access keeps its element covered\<close>

lemma read_covers:
  assumes act: "acting sp checks c p lid lens d me"
    and b: "b < length (dv_bufs d)" and i: "i < length (in_data (dv_bufs d ! b))"
    and a: "access_of (dev_ctx d me) kind loc ord (dv_launch d) (dev_cell sp d b i) = (acc, now, l1)"
    and t: "d' = dev_touch sp d me b i kind loc ord stored data"
    and y: "y = \<lparr>lg_pos = length (pre_hist d me b i ord), lg_buf = b, lg_index = i, lg_access = acc\<rparr>"
    and kind: "kind = Read" and quiet: "elem_quiet p d' b i"
    and room: "length (cell_readers (dev_cell sp d b i)) < max_readers"
  shows "acc \<in> set (cell_readers (dev_cell sp d' b i))"
    and "r \<in> set (elem_entries d b i) \<Longrightarrow> lg_access r \<in> set (cell_readers (dev_cell sp d b i)) \<Longrightarrow>
      lg_access r \<in> set (cell_readers (dev_cell sp d' b i)) \<or> hb_eq (dv_hist d') (lg_pos r) (lg_pos y)"
proof -
  let ?cell = "dev_cell sp d b i"
  obtain xs where h: "dv_hist d' = dv_hist d @ xs" and log: "dv_log d' = dv_log d @ [y]"
    and pos: "\<forall>x \<in> set (dv_log d). lg_pos x < lg_pos y"
    and same: "\<And>z. hb_eq (dv_hist d') z (lg_pos y) \<longleftrightarrow> hb_eq (tick_hist d me b i ord) z (lg_pos y)"
    and e: "elem_entries d' b i = elem_entries d b i @ [y]"
    and c: "dev_cell sp d' b i = cell_after (dev_ctx d me) kind loc ord stored (dv_launch d) ?cell"
    by (rule acting_touch [OF act b i a t y]) (rule that)
  have k: "acc_kind acc = Read" using access_of_fields(5) [OF a] kind by simp
  have cell: "cell_readers (dev_cell sp d' b i) = cell_readers (snd (on_read ?cell acc now))"
    using cell_after_fields(2) [OF a] by (simp add: c on_access_def k)
  have cok: "cell_ok (elem_log d b i) ?cell" by (rule acting_cell_ok [OF act b i])
  have inlog: "z \<in> set (dv_log d)" if "z \<in> set (elem_entries d b i)" for z using that by (simp add: elem_entries_def)
  have "\<not> reread s acc" if s: "s \<in> set (cell_readers ?cell)" for s
  proof -
    obtain r where r: "r \<in> set (elem_entries d b i)" "lg_access r = s"
      using cok s by (auto simp: cell_ok_def elem_log_def elem_entries_def of_elem_def)
    then have "\<not> reread (lg_access r) (lg_access y)"
      using quiet pos inlog [OF r(1)] e unfolding elem_quiet_def by auto
    then show ?thesis by (simp add: r(2) y)
  qed
  moreover have "\<forall>s \<in> set (cell_readers ?cell). acc_kind s = Read" using cok by (simp add: cell_ok_def)
  ultimately have keep: "acc \<in> set (cell_readers (snd (on_read ?cell acc now)))"
    "\<And>s. s \<in> set (cell_readers ?cell) \<Longrightarrow> s \<in> set (cell_readers (snd (on_read ?cell acc now)))
       \<or> acc_block s = acc_block acc \<and> acc_epoch s \<noteq> acc_epoch acc"
    using on_read_keeps [where c = ?cell and acc = acc and now = now] k room by blast+
  then show "acc \<in> set (cell_readers (dev_cell sp d' b i))" by (simp add: cell)
  assume r: "r \<in> set (elem_entries d b i)" and rc: "lg_access r \<in> set (cell_readers ?cell)"
  have "hb_eq (tick_hist d me b i ord) (lg_pos r) (lg_pos y)"
    if "acc_block (lg_access r) = acc_block acc" "acc_epoch (lg_access r) \<noteq> acc_epoch acc"
    using act unfolding acting_def by (elim conjE) (simp add: y epochs_order [OF _ _ _ _ _ _ inlog [OF r] a that])
  then show "lg_access r \<in> set (cell_readers (dev_cell sp d' b i)) \<or> hb_eq (dv_hist d') (lg_pos r) (lg_pos y)"
    using keep(2) [OF rc] unfolding cell same by blast
qed

lemma touch_covered:
  assumes act: "acting sp checks c p lid lens d me"
    and b: "b < length (dv_bufs d)" and i: "i < length (in_data (dv_bufs d ! b))"
    and cov: "elem_covered sp p d b i" and t: "d' = dev_touch sp d me b i kind loc ord stored data"
  shows "elem_covered sp p d' b i"
proof -
  obtain acc now l1 where a:
    "access_of (dev_ctx d me) kind loc ord (dv_launch d) (dev_cell sp d b i) = (acc, now, l1)"
    by (rule prod_cases3)
  let ?cell = "dev_cell sp d b i"
  define y where "y = \<lparr>lg_pos = length (pre_hist d me b i ord), lg_buf = b, lg_index = i, lg_access = acc\<rparr>"
  obtain xs where h: "dv_hist d' = dv_hist d @ xs" and log: "dv_log d' = dv_log d @ [y]"
    and yok: "log_entry_ok p lens (dv_hist d') y" and pos: "\<forall>x \<in> set (dv_log d). lg_pos x < lg_pos y"
    and e: "elem_entries d' b i = elem_entries d b i @ [y]"
    and c: "dev_cell sp d' b i = cell_after (dev_ctx d me) kind loc ord stored (dv_launch d) ?cell"
    by (rule acting_touch [OF act b i a t y_def]) (rule that)
  note ent = acting_entries [OF act]
  then have ok: "\<forall>x \<in> set (dv_log d). lg_pos x < length (dv_hist d)" by blast
  have kind: "acc_kind acc = kind" by (rule access_of_fields(5) [OF a])
  note cell = cell_after_fields [OF a, of stored, folded c]
  have reads: "elem_reads d' b i = elem_reads d b i + (if kind = Read then 1 else 0)"
    by (simp add: elem_reads_def e y_def kind)
  have len: "length (cell_readers ?cell) \<le> elem_reads d b i" using cov by (simp add: elem_covered_def)
  then have "length (cell_readers (dev_cell sp d' b i)) \<le> elem_reads d' b i"
    using on_read_readers_length [of ?cell acc now] unfolding cell(2) reads by (simp add: on_access_def kind)
  moreover have "cell_knows d' b i (dev_cell sp d' b i) x"
    if quiet: "elem_quiet p d' b i" and x: "x \<in> set (elem_entries d' b i)" for x
  proof -
    have yin: "y \<in> set (elem_entries d' b i)" and acc: "lg_access y = acc" by (simp_all add: e y_def)
    have inlog: "z \<in> set (dv_log d)" if "z \<in> set (elem_entries d b i)" for z using that by (simp add: elem_entries_def)
    show ?thesis
    proof (cases "x = y")
      case True
      have "cell_last_write (dev_cell sp d' b i) = Some (lg_access y)" if "kind \<noteq> Read"
        using that by (simp add: cell on_access_def kind acc)
      moreover have "lg_access y \<in> set (cell_readers (dev_cell sp d' b i))" if "kind = Read"
        using read_covers(1) [OF act b i a t y_def that quiet] quiet len reads that by (simp add: acc elem_quiet_def)
      ultimately show ?thesis using yin hb_eq_refl kind acc True unfolding cell_knows_def by blast
    next
      case False
      then have xd: "x \<in> set (elem_entries d b i)" using x e by simp
      show ?thesis
      proof (cases "kind = Read")
        case False
        have "log_entry_ok p lens (dv_hist d') x" unfolding h using ent inlog [OF xd] by (simp add: log_entry_append)
        then have "hb_eq (dv_hist d') (lg_pos x) (lg_pos y)"
          using quiet_ordered [OF quiet x yin _ _ yok] pos inlog [OF xd] False kind acc by simp
        moreover have "cell_last_write (dev_cell sp d' b i) = Some (lg_access y)"
          using False by (simp add: cell on_access_def kind acc)
        ultimately show ?thesis using yin unfolding cell_knows_def by blast
      next
        case True
        have room: "length (cell_readers ?cell) < max_readers" using quiet len reads True by (simp add: elem_quiet_def)
        note rc = read_covers [OF act b i a t y_def True quiet room]
        have last: "cell_last_write (dev_cell sp d' b i) = cell_last_write ?cell"
          using True by (simp add: cell on_access_def kind)
        have old: "cell_knows d' b i ?cell x"
          using cov elem_quiet_prefix [OF quiet log h ok] xd cell_knows_append [OF _ log h ok]
          by (simp add: elem_covered_def)
        then consider (w) v where "v \<in> set (elem_entries d' b i)" "cell_last_write ?cell = Some (lg_access v)"
              "hb_eq (dv_hist d') (lg_pos x) (lg_pos v)"
          | (r) r where "acc_kind (lg_access x) = Read" "r \<in> set (elem_entries d' b i)"
              "lg_access r \<in> set (cell_readers ?cell)" "hb_eq (dv_hist d') (lg_pos x) (lg_pos r)"
          unfolding cell_knows_def by blast
        then show ?thesis
        proof cases
          case w
          then show ?thesis unfolding cell_knows_def last by blast
        next
          case r
          have "hb_eq (dv_hist d') (lg_pos x) (lg_pos y) \<or> lg_access r \<in> set (cell_readers (dev_cell sp d' b i))"
          proof (cases "r = y")
            case True
            then show ?thesis using r(4) by simp
          next
            case False
            then have "r \<in> set (elem_entries d b i)" using r(2) e by simp
            from rc(2) [OF this r(3)] show ?thesis using hb_eq_trans [OF r(4)] by blast
          qed
          then show ?thesis using r yin rc(1) acc unfolding cell_knows_def by blast
        qed
      qed
    qed
  qed
  ultimately show ?thesis by (simp add: elem_covered_def)
qed

definition dev_covered :: "mem_space list \<Rightarrow> launch_plan \<Rightarrow> nat list \<Rightarrow> 'a device \<Rightarrow> bool" where
  "dev_covered sp p lens d \<longleftrightarrow> (\<forall>b < length lens. \<forall>i < lens ! b. elem_covered sp p d b i)"

lemma dev_act_covered:
  assumes act: "launch_setup checks c = Inr p" "dev_sound sp c p lid lens d" "dev_epochs p d"
      "\<not> st_aborted (ls_st (dv_launch d))" "st_current (ls_st (dv_launch d)) = Some me"
    and cov: "dev_covered sp p lens d" and ok: "dev_act_ok sp d me a"
  shows "dev_covered sp p lens (dev_exec sp d me a)"
proof -
  have bufs: "bufs_ok lens (dv_bufs d)" and lg: "dev_logged sp p lens d"
    using act(2) by (simp_all add: dev_sound_def dev_base_def)
  have lens: "length (dv_bufs d) = length lens" using bufs by (auto simp: bufs_ok_def)
  have pos: "\<forall>x \<in> set (dv_log d). lg_pos x < length (dv_hist d)"
    using lg by (simp add: dev_logged_def log_entry_ok_def)
  have quiet: "dev_covered sp p lens d'" if "dv_log d' = dv_log d" "dv_hist d' = dv_hist d @ xs"
      "\<And>b i. dev_cell sp d' b i = dev_cell sp d b i" for d' xs
    unfolding dev_covered_def
  proof (intro allI impI)
    fix b i assume "b < length lens" "i < lens ! b"
    then have "elem_covered sp p d b i" using cov by (simp add: dev_covered_def)
    from elem_covered_frame [OF this _ that(2) pos that(3), of "[]"] show "elem_covered sp p d' b i"
      by (simp add: that(1))
  qed
  have "dev_cell sp (dev_exec sp d me a) b i = dev_cell sp d b i" if "dv_bufs (dev_exec sp d me a) = dv_bufs d"
      "ls_id (dv_launch (dev_exec sp d me a)) = ls_id (dv_launch d)" for b i
    using that by (rule dev_cell_cong)
  note silent = quiet [OF _ _ this]
  show ?thesis
    using ok
  proof (cases rule: dev_act_cases)
    case (touch b0 i0 kind loc ord stored data)
    obtain acc now l1 where a:
      "access_of (dev_ctx d me) kind loc ord (dv_launch d) (dev_cell sp d b0 i0) = (acc, now, l1)"
      by (rule prod_cases3)
    have tact: "acting sp checks c p lid lens d me" using act touch(3) by (simp add: acting_def)
    note f = dev_touch_fields [OF a touch(6)]
    show ?thesis
      unfolding dev_covered_def
    proof (intro allI impI)
      fix b i assume bi: "b < length lens" "i < lens ! b"
      then have old: "elem_covered sp p d b i" using cov by (simp add: dev_covered_def)
      show "elem_covered sp p (dev_exec sp d me a) b i"
      proof (cases "b = b0 \<and> i = i0")
        case True
        then show ?thesis using touch_covered [OF tact touch(1,2) _ touch(6)] old by simp
      next
        case False
        have "dev_cell sp (dev_exec sp d me a) b i = dev_cell sp d b i"
          using dev_cell_touch [OF bufs touch(1,2) _ touch(6)] bi lens False by auto
        then show ?thesis
          by (rule elem_covered_frame [OF old f(11,10) pos]) (use False in \<open>auto simp: of_elem_def\<close>)
      qed
    qed
  next
    case (miss b i kind loc fatal)
    note f = dev_miss_fields [OF miss(3)]
    show ?thesis by (rule quiet [OF f(9,8) dev_cell_miss [OF miss(3)]])
  next
    case (store b i v)
    show ?thesis unfolding store by (rule quiet [of _ "[]", OF _ _ dev_cell_store]) simp_all
  next
    case (sched s)
    then show ?thesis by (intro silent [of "[]"]) simp_all
  qed (rule silent; simp)+
qed

lemma dev_step_covered:
  assumes su: "launch_setup checks c = Inr p" and sound: "dev_sound sp c p lid lens d" and ep: "dev_epochs p d"
    and cov: "dev_covered sp p lens d" and step: "dev_step sp c p d d'"
  shows "dev_covered sp p lens d'"
  using step
proof cases
  case (act me a)
  then show ?thesis using dev_act_covered [OF su sound ep act(2,3) cov act(4)] by simp
next
  case (next_wave first n rest picks)
  have pos: "\<forall>x \<in> set (dv_log d). lg_pos x < length (dv_hist d)"
    using sound by (simp add: dev_sound_def dev_logged_def log_entry_ok_def)
  have cell: "dev_cell sp d' b i = dev_cell sp d b i" for b i
    by (rule dev_cell_cong) (simp_all add: next_wave dev_wave_def wave_begin_def dev_shared_def Let_def)
  have "dv_log d' = dv_log d @ []" "dv_hist d' = dv_hist d @ []" by (simp_all add: next_wave dev_wave_def)
  then show ?thesis using cov elem_covered_frame [OF _ _ _ pos cell] by (simp add: dev_covered_def)
qed

interpretation covered: invariant_system
  "\<lambda>d. dev_setting sp checks c p lid bufs \<and> (\<exists>picks. d = dev_begin c p picks lid bufs)" "dev_step sp c p"
  "\<lambda>d. launch_setup checks c = Inr p \<longrightarrow>
     dev_sound sp c p lid (buf_lens bufs) d \<and> dev_epochs p d \<and> dev_covered sp p (buf_lens bufs) d"
  for sp checks c p lid bufs
proof unfold_locales
  fix d assume d: "dev_setting sp checks c p lid bufs \<and> (\<exists>picks. d = dev_begin c p picks lid bufs)"
  then obtain picks where d': "d = dev_begin c p picks lid bufs" by blast
  have "dv_log d = []" unfolding d' by (simp add: dev_begin_def split: prod.split)
  then have "dev_covered sp p (buf_lens bufs) d"
    using dev_begin_cells [of sp checks c p lid bufs _ _ picks] d
    by (auto simp: dev_covered_def elem_covered_def elem_entries_def elem_reads_def d' buf_lens_def)
  then show "launch_setup checks c = Inr p \<longrightarrow>
      dev_sound sp c p lid (buf_lens bufs) d \<and> dev_epochs p d \<and> dev_covered sp p (buf_lens bufs) d"
    using d dev_begin_sound dev_begin_epochs by blast
next
  fix d d' assume "launch_setup checks c = Inr p \<longrightarrow>
      dev_sound sp c p lid (buf_lens bufs) d \<and> dev_epochs p d \<and> dev_covered sp p (buf_lens bufs) d"
    and "dev_step sp c p d d'"
  then show "launch_setup checks c = Inr p \<longrightarrow>
      dev_sound sp c p lid (buf_lens bufs) d' \<and> dev_epochs p d' \<and> dev_covered sp p (buf_lens bufs) d'"
    using dev_step_sound [of checks c p sp lid "buf_lens bufs" d d'] dev_step_epochs [of checks c p sp lid "buf_lens bufs" d d']
      dev_step_covered [of checks c p sp lid "buf_lens bufs" d d'] by simp
qed

section \<open>The next access\<close>

lemma reachable_acting:
  assumes "dev_reachable sp checks c p lid bufs d" and "\<not> st_aborted (ls_st (dv_launch d))"
    and "st_current (ls_st (dv_launch d)) = Some me" and "me \<notin> dv_inside d"
  shows "acting sp checks c p lid (buf_lens bufs) d me" and "dev_covered sp p (buf_lens bufs) d"
proof -
  have su: "launch_setup checks c = Inr p" by (rule reachable_base(1) [OF assms(1)])
  have "covered.reachable sp checks c p lid bufs d"
    using assms(1) unfolding covered.reachable_def dev_reachable_def by blast
  from covered.reachable_inv [OF this] su
  show "acting sp checks c p lid (buf_lens bufs) d me" and "dev_covered sp p (buf_lens bufs) d"
    using assms(2-4) by (auto simp: acting_def)
qed

lemma acting_wave:
  assumes "acting sp checks c p lid lens d me"
  obtains n where "in_wave p d n" and "me < n * lp_tpb p"
proof -
  obtain n where w: "in_wave p d n" using assms by (auto simp: acting_def dev_sound_def dev_base_def)
  have "me < n * lp_tpb p" using acting_thread(1) [OF _ _ w] assms by (auto simp: acting_def dev_sound_def)
  with w that show ?thesis by blast
qed

text \<open>What the concurrency rule says of the access about to be made, for an acting thread.\<close>

lemma acting_rule:
  assumes act: "acting sp checks c p lid lens d me"
    and b: "b < length (dv_bufs d)" and i: "i < length (in_data (dv_bufs d ! b))"
    and a: "access_of (dev_ctx d me) kind loc ord (dv_launch d) (dev_cell sp d b i) = (acc, now, l1)"
    and x: "x \<in> set (dv_log d)" and free: "no_collective_between (lg_access x) acc"
  shows "concurrent (lg_access x) acc now \<longleftrightarrow> acc_gid p (lg_access x) \<noteq> acc_gid p acc
    \<and> (acc_kind (lg_access x) \<noteq> Atomic \<or> acc_kind acc \<noteq> Atomic)
    \<and> \<not> hb_eq (tick_hist d me b i ord) (lg_pos x) (length (pre_hist d me b i ord))"
proof -
  have f: "launch_setup checks c = Inr p" "dev_sound sp c p lid lens d" "dev_epochs p d"
    "\<not> st_aborted (ls_st (dv_launch d))" "st_current (ls_st (dv_launch d)) = Some me" "me \<notin> dv_inside d"
    using act by (simp_all add: acting_def)
  have s: "dev_base sp c p lid lens d" "dev_synced sp p lens d" using f(2) by (simp_all add: dev_sound_def)
  obtain n where n: "in_wave p d n" "me < n * lp_tpb p" by (rule acting_wave [OF act])
  have xok: "log_entry_ok p lens (dv_hist d) x" using acting_entries [OF act] x by blast
  then have own: "acc_own p (lg_access x)" by (simp add: log_entry_ok_def)
  note order = epochs_order [OF f x a]
  show ?thesis
    unfolding concurrent_iff [OF own access_counted(4) [OF f(1) s(1) n s(2) b i a]]
      clock_test [OF f(1) s(1) n s(2) b i a xok]
    using order free unfolding no_collective_between_def by blast
qed

lemma acting_own_order:
  assumes act: "acting sp checks c p lid lens d me"
    and b: "b < length (dv_bufs d)" and i: "i < length (in_data (dv_bufs d ! b))"
    and a: "access_of (dev_ctx d me) kind loc ord (dv_launch d) (dev_cell sp d b i) = (acc, now, l1)"
    and x: "x \<in> set (dv_log d)" and own: "acc_gid p (lg_access x) = acc_gid p acc"
  shows "hb_eq (tick_hist d me b i ord) (lg_pos x) (length (pre_hist d me b i ord))"
proof -
  have f: "launch_setup checks c = Inr p" "dev_base sp c p lid lens d" "dev_synced sp p lens d"
    using act by (simp_all add: acting_def dev_sound_def)
  obtain n where n: "in_wave p d n" "me < n * lp_tpb p" by (rule acting_wave [OF act])
  have "log_entry_ok p lens (tick_hist d me b i ord) x"
    using acting_entries [OF act] x by (simp add: tick_hist_def pre_hist_def log_entry_append)
  moreover have "lg_pos x < length (pre_hist d me b i ord)"
    using acting_entries [OF act] x by (auto simp: pre_hist_def intro: trans_less_add1)
  ultimately show ?thesis
    using access_counted(5) [OF f(1,2) n f(3) b i a] own
    by (intro own_order [of _ _ _ "acc_gid p acc"]) (simp_all add: log_entry_ok_def, simp_all add: tick_hist_def)
qed

lemma conflict_remembered:
  assumes "cell_last_write cell = Some w \<and> concurrent w acc now
      \<or> acc_kind acc \<noteq> Read \<and> (\<exists>r \<in> set (cell_readers cell). concurrent r acc now)"
  shows "fst (on_access cell acc now) \<noteq> None"
proof (cases "acc_kind acc = Read")
  case True
  then have "fst (on_read cell acc now) = Some w" using assms by simp
  then show ?thesis using True by (simp add: on_access_def)
next
  case False
  then show ?thesis using assms on_write_conflict_None [of cell acc now] by (auto simp: on_access_def)
qed

lemma first_race_rule:
  assumes "dev_reachable sp checks c p lid bufs d"
    and "\<not> st_aborted (ls_st (dv_launch d))" and "st_current (ls_st (dv_launch d)) = Some me"
    and "me \<notin> dv_inside d" and "b < length (dv_bufs d)" and "i < length (in_data (dv_bufs d ! b))"
    and "access_of (dev_ctx d me) kind loc ord (dv_launch d) (dev_cell sp d b i) = (acc, now, l1)"
    and "elem_quiet p d b i" and "\<forall>x \<in> set (elem_entries d b i). no_collective_between (lg_access x) acc"
  shows "(\<exists>first. DataRace (sp ! b) i first acc
        \<in> set (findings_of (sp ! b) i (dev_ctx d me) kind loc ord (dv_launch d) (dev_cell sp d b i)))
    \<longleftrightarrow> (\<exists>x \<in> set (elem_entries d b i). acc_gid p (lg_access x) \<noteq> acc_gid p acc
          \<and> (acc_kind (lg_access x) \<noteq> Read \<or> kind \<noteq> Read)
          \<and> \<not> hb_eq (tick_hist d me b i ord) (lg_pos x) (length (pre_hist d me b i ord)))"
    (is "?reported \<longleftrightarrow> (\<exists>x \<in> ?E. ?race x)")
proof -
  let ?cell = "dev_cell sp d b i" and ?q = "length (pre_hist d me b i ord)" and ?h = "tick_hist d me b i ord"
  note act = reachable_acting(1) [OF assms(1-4)]
  have kind: "acc_kind acc = kind" by (rule access_of_fields(5) [OF assms(7)])
  have inlog: "x \<in> set (dv_log d)" if "x \<in> ?E" for x using that by (simp add: elem_entries_def)
  have plain: "acc_kind (lg_access x) \<noteq> Atomic" if "x \<in> ?E" for x using assms(8) that by (simp add: elem_quiet_def)
  note own = acting_own_order [OF act assms(5-7)]
  have rule: "concurrent (lg_access x) acc now \<longleftrightarrow> \<not> hb_eq ?h (lg_pos x) ?q" if "x \<in> ?E" for x
    using acting_rule [OF act assms(5-7) inlog [OF that]] own [OF inlog [OF that]] plain [OF that] assms(9) that
    by blast
  have rep: "?reported \<longleftrightarrow> fst (on_access ?cell acc now) \<noteq> None"
    by (cases "fst (on_access ?cell acc now)") (auto simp: findings_of_def Let_def conflict_of_def assms(7))
  show ?thesis
  proof
    assume ?reported
    then obtain a where a: "fst (on_access ?cell acc now) = Some a" using rep by blast
    from on_access_sound [OF acting_cell_ok [OF act assms(5,6)] a] obtain x where
      x: "x \<in> ?E" "lg_access x = a" and "concurrent a acc now" "acc_kind a \<noteq> Read \<or> acc_kind acc \<noteq> Read"
      by (auto simp: elem_log_def elem_entries_def of_elem_def)
    then have "?race x" using rule [OF x(1)] own [OF inlog [OF x(1)]] kind by auto
    with x(1) show "\<exists>x \<in> ?E. ?race x" by blast
  next
    assume "\<exists>x \<in> ?E. ?race x"
    then obtain x where x: "x \<in> ?E" "?race x" by blast
    have later: "\<not> hb_eq ?h (lg_pos z) ?q" if "z \<in> ?E" "hb_eq (dv_hist d) (lg_pos x) (lg_pos z)" for z
    proof -
      have "lg_pos z < length (dv_hist d)" using acting_entries [OF act] inlog [OF that(1)] by blast
      then have "hb_eq ?h (lg_pos x) (lg_pos z)" using that(2) by (simp add: tick_hist_def pre_hist_def hb_eq_append)
      then show ?thesis using x(2) hb_eq_trans by blast
    qed
    have lens: "map buf_len (dv_bufs d) = buf_lens bufs"
      using act by (simp add: acting_def dev_sound_def dev_base_def bufs_ok_def)
    then have "length (buf_lens bufs) = length (dv_bufs d)" by (metis length_map)
    moreover have "buf_lens bufs ! b = length (in_data (dv_bufs d ! b))" using nth_map [OF assms(5), of buf_len] lens
      by (simp add: buf_len_def)
    ultimately have "elem_covered sp p d b i"
      using reachable_acting(2) [OF assms(1-4)] assms(5,6) unfolding dev_covered_def by metis
    then have "cell_knows d b i ?cell x" using assms(8) x(1) by (simp add: elem_covered_def)
    then consider (w) w where "w \<in> ?E" "cell_last_write ?cell = Some (lg_access w)" "hb_eq (dv_hist d) (lg_pos x) (lg_pos w)"
      | (r) r where "acc_kind (lg_access x) = Read" "r \<in> ?E" "lg_access r \<in> set (cell_readers ?cell)"
          "hb_eq (dv_hist d) (lg_pos x) (lg_pos r)" unfolding cell_knows_def by blast
    then have "fst (on_access ?cell acc now) \<noteq> None"
    proof cases
      case w
      then show ?thesis using rule later by (intro conflict_remembered [of _ "lg_access w"]) blast
    next
      case r
      then show ?thesis using rule later x(2) kind by (intro conflict_remembered) blast
    qed
    with rep show ?reported by blast
  qed
qed



lemma duo_written_quiet:
  "case dev_play [Global ''x''] (duo_begin [0, 1]) duo_write of None \<Rightarrow> False | Some d \<Rightarrow>
     \<not> st_aborted (ls_st (dv_launch d)) \<and> st_current (ls_st (dv_launch d)) = Some 1 \<and> dv_inside d = {}
     \<and> length (dv_bufs d) = 1 \<and> length (in_data (dv_bufs d ! 0)) = 1
     \<and> (case access_of (dev_ctx d 1) Read (Location ''k.rs'' 5 9) None (dv_launch d) (dev_cell [Global ''x''] d 0 0) of
          (acc, now, l1) \<Rightarrow> (case elem_entries d 0 0 of [x] \<Rightarrow> acc_kind (lg_access x) = Write
              \<and> no_collective_between (lg_access x) acc
            | _ \<Rightarrow> False)
            \<and> findings_of (Global ''x'') 0 (dev_ctx d 1) Read (Location ''k.rs'' 5 9) None (dv_launch d)
                (dev_cell [Global ''x''] d 0 0) = [DataRace (Global ''x'') 0
                  (sample_access 0 0 0 0 1 Write\<lparr>acc_loc := Location ''k.rs'' 3 9\<rparr>) acc])"
  by (simp add: duo_write_def dev_eval elem_entries_def of_elem_def no_collective_between_def findings_of_def
      conflict_of_def upt_conv_Cons del: numeral_2_eq_2)


end
