(* ===== verification/Device_Silence.thy ===== *)
theory Device_Silence
  imports Device_First
begin

text \<open>
  What a report without a race means. As long as the report has room, an element whose accesses stay within
  what its shadow cell can remember has no two conflicting accesses out of order: silence can be trusted.
\<close>

section \<open>Reports only grow\<close>

definition grows :: "reporter \<Rightarrow> reporter \<Rightarrow> bool" where
  "grows r r' \<longleftrightarrow> (\<exists>ds. r' = foldl reporter_push r ds)"

lemma grows_refl [simp, intro]: "grows r r"
  unfolding grows_def by (rule exI [of _ "[]"]) simp

lemma grows_push [simp, intro]: "grows r (reporter_push r d)" "grows r (foldl reporter_push r ds)"
  unfolding grows_def by (rule exI [of _ "[d]"], simp) blast

lemma grows_trans: "grows r r1 \<Longrightarrow> grows r1 r2 \<Longrightarrow> grows r r2"
  unfolding grows_def by (metis foldl_append)

lemma grows_diags:
  assumes "grows r r'"
  shows "set (rep_diags r) \<subseteq> set (rep_diags r')" and "length (rep_diags r) \<le> length (rep_diags r')"
proof -
  obtain ds where ds: "r' = foldl reporter_push r ds" using assms by (auto simp: grows_def)
  have "\<exists>es. rep_diags (foldl reporter_push r ds) = rep_diags r @ es"
  proof (induction ds arbitrary: r)
    case (Cons d ds)
    have "rep_diags (reporter_push r d) = rep_diags r \<or> rep_diags (reporter_push r d) = rep_diags r @ [d]"
      by (simp add: reporter_push_def)
    then obtain es where "rep_diags (reporter_push r d) = rep_diags r @ es" by (metis append_Nil2)
    then show ?case using Cons.IH [of "reporter_push r d"] by auto
  qed simp
  then show "set (rep_diags r) \<subseteq> set (rep_diags r')" "length (rep_diags r) \<le> length (rep_diags r')"
    unfolding ds by auto
qed

lemma grows_hand_off [simp, intro]: "grows (w_rep w) (w_rep (fst (hand_off cfg w me)))"
  by (simp add: hand_off_def detect_stuck_def Let_def)

lemma grows_sched: "grows (w_rep w) (w_rep (sched_exec cfg w me a))"
proof -
  have off: "grows (w_rep w) (w_rep (fst (hand_off cfg (w\<lparr>w_st := s\<rparr>) me)))" for s
    using grows_hand_off [of "w\<lparr>w_st := s\<rparr>" cfg me] by simp
  have "grows (w_rep w) (w_rep (fst (barrier cfg w me loc)))" for loc
    using off by (simp add: barrier_def barrier_divergence_def Let_def)
  moreover have "grows (w_rep w) (w_rep (fst (warp_rendezvous cfg w me phase msk loc op)))" for phase msk loc op
    using off by (auto simp: warp_rendezvous_def Let_def split: option.split prod.split)
  moreover have "grows (w_rep w) (w_rep (finish cfg w me))"
    by (auto simp: finish_def detect_stuck_def barrier_divergence_def Let_def split: option.split prod.split)
  ultimately show ?thesis by (cases a) (simp_all add: yield_now_def push_finding_def abort_def)
qed

text \<open>A race that is pushed leaves a race in the report, unless the report is full.\<close>

lemma race_key: "dedup_key_of f = dedup_key_of g \<Longrightarrow> is_race f \<Longrightarrow> is_race g"
  by (cases f; cases g) (auto simp: is_race_def ordered_locs_def split: prod.splits if_splits)

lemma race_pushed:
  assumes "reporter_ok r" and "is_race f" and "length (rep_diags (reporter_push r f)) < max_diagnostics"
  shows "\<exists>g \<in> set (rep_diags (reporter_push r f)). is_race g"
proof (cases "dedup_key_of f \<in> rep_seen r")
  case True
  then obtain g where "g \<in> set (rep_diags r)" "dedup_key_of f = dedup_key_of g" using assms(1) by (auto simp: reporter_ok_def)
  then show ?thesis using race_key [of f g] assms(2) grows_diags(1) [OF grows_push(1), of r f] by blast
next
  case False
  have "length (rep_diags r) \<le> length (rep_diags (reporter_push r f))" by (rule grows_diags(2)) simp
  then have "length (rep_diags r) < max_diagnostics" using assms(3) by simp
  then show ?thesis using False assms(2) by (simp add: reporter_push_def)
qed

lemma race_pushed_all:
  assumes "reporter_ok r" and "f \<in> set ds" and "is_race f"
    and "length (rep_diags (foldl reporter_push r ds)) < max_diagnostics"
  shows "\<exists>g \<in> set (rep_diags (foldl reporter_push r ds)). is_race g"
  using assms(1,2,4)
proof (induction ds arbitrary: r)
  case (Cons d ds)
  have gr: "grows (reporter_push r d) (foldl reporter_push r (d # ds))" by simp
  show ?case
  proof (cases "d = f")
    case True
    have "length (rep_diags (reporter_push r f)) < max_diagnostics"
      using grows_diags(2) [OF gr] Cons.prems(3) True by simp
    from race_pushed [OF Cons.prems(1) assms(3) this] show ?thesis using grows_diags(1) [OF gr] True by blast
  next
    case False
    then show ?thesis using Cons.IH [of "reporter_push r d"] Cons.prems reporter_ok_push by auto
  qed
qed simp

section \<open>Elements within the limits of a cell\<close>

text \<open>
  Plain accesses, at most eight of them reads, no thread reading twice between two barriers, and none two
  separated by a warp collective alone.
\<close>

definition elem_fair :: "'a device \<Rightarrow> nat \<Rightarrow> nat \<Rightarrow> bool" where
  "elem_fair d b i \<longleftrightarrow> elem_reads d b i \<le> max_readers
     \<and> (\<forall>x \<in> set (elem_entries d b i). acc_kind (lg_access x) \<noteq> Atomic)
     \<and> (\<forall>x \<in> set (elem_entries d b i). \<forall>y \<in> set (elem_entries d b i). lg_pos x < lg_pos y \<longrightarrow>
          \<not> reread (lg_access x) (lg_access y) \<and> no_collective_between (lg_access x) (lg_access y))"

text \<open>No race in the report, and room in it.\<close>

definition silent :: "'a device \<Rightarrow> bool" where
  "silent d \<longleftrightarrow> (\<forall>f \<in> set (rep_diags (w_rep (ls_world (dv_launch d)))). \<not> is_race f)
     \<and> length (rep_diags (w_rep (ls_world (dv_launch d)))) < max_diagnostics"

definition dev_grows :: "'a device \<Rightarrow> 'a device \<Rightarrow> bool" where
  "dev_grows d d' \<longleftrightarrow> grows (w_rep (ls_world (dv_launch d))) (w_rep (ls_world (dv_launch d')))"

lemma silent_before: "dev_grows d d' \<Longrightarrow> silent d' \<Longrightarrow> silent d"
  using grows_diags unfolding dev_grows_def silent_def by (meson le_less_trans subsetD)

lemma dev_exec_grows:
  assumes "dev_act_ok sp d me a"
  shows "dev_grows d (dev_exec sp d me a)"
  using assms
proof (cases rule: dev_act_cases)
  case (touch b i kind loc ord stored data)
  obtain acc now l1 where a: "access_of (dev_ctx d me) kind loc ord (dv_launch d) (dev_cell sp d b i) = (acc, now, l1)"
    by (rule prod_cases3)
  show ?thesis unfolding dev_grows_def dev_touch_fields(6) [OF a touch(6)] by simp
next
  case (miss b i kind loc fatal)
  show ?thesis using dev_miss_fields(11) [OF miss(3)] by (auto simp: dev_grows_def abort_def push_finding_def)
next
  case (arrive loc)
  then show ?thesis using grows_sched [of "ls_world (dv_launch d)" "ls_sched (dv_launch d)" "tc_slot (dev_ctx d me)" "ActBarrier loc"]
    by (simp add: dev_grows_def)
next
  case (sched s)
  then show ?thesis using grows_sched by (simp add: dev_grows_def)
qed (simp_all add: dev_grows_def)


text \<open>An action that touches element \<open>i\<close> of buffer \<open>b\<close> adds one entry to its log; every other adds none.\<close>

lemma dev_exec_adds:
  assumes ok: "dev_act_ok sp d me a"
  obtains (touch) b i kind loc ord stored data where "b < length (dv_bufs d)" "i < length (in_data (dv_bufs d ! b))"
      "me \<notin> dv_inside d" "dev_exec sp d me a = dev_touch sp d me b i kind loc ord stored data" "kind \<noteq> Atomic \<Longrightarrow> stored"
    | (other) xs where "dv_log (dev_exec sp d me a) = dv_log d" "dv_hist (dev_exec sp d me a) = dv_hist d @ xs"
  using ok
proof (cases rule: dev_act_cases)
  case (touch b i kind loc ord stored data)
  then show ?thesis using that(1) by blast
next
  case (miss b i kind loc fatal)
  then show ?thesis using that(2) dev_miss_fields(8,9) [OF miss(3)] by blast
next
  case (store b i v)
  then show ?thesis using that(2) [of "[]"] by simp
next
  case (sched s)
  then show ?thesis using that(2) [of "[]"] by simp
qed (use that(2) in \<open>force+\<close>)

lemma fair_prefix:
  assumes "elem_fair d' b i" and log: "dv_log d' = dv_log d @ ys"
  shows "elem_fair d b i"
proof -
  have e: "elem_entries d' b i = elem_entries d b i @ filter (of_elem b i) ys" by (simp add: elem_entries_def log)
  have "elem_reads d b i \<le> elem_reads d' b i" by (simp add: elem_reads_def e)
  then show ?thesis using assms(1) unfolding elem_fair_def e by (auto intro: order_trans)
qed

lemma quiet_frame:
  assumes quiet: "elem_quiet p d b i" and log: "dv_log d' = dv_log d @ ys" and ys: "\<forall>y \<in> set ys. \<not> of_elem b i y"
    and hist: "dv_hist d' = dv_hist d @ xs" and pos: "\<forall>x \<in> set (dv_log d). lg_pos x < length (dv_hist d)"
  shows "elem_quiet p d' b i"
proof -
  have e: "elem_entries d' b i = elem_entries d b i" using ys by (simp add: elem_entries_def log filter_empty_conv)
  have "unordered_pair p (dv_hist d') x y \<longleftrightarrow> unordered_pair p (dv_hist d) x y" if "y \<in> set (elem_entries d b i)" for x y
  proof -
    have "lg_pos y < length (dv_hist d)" using that pos by (simp add: elem_entries_def)
    then show ?thesis by (simp add: unordered_pair_def hist hb_eq_append)
  qed
  then show ?thesis using quiet unfolding elem_quiet_def elem_reads_def e by blast
qed

text \<open>The step that matters: a silent access to a fair element leaves it quiet.\<close>

lemma touch_quiet:
  assumes reach: "dev_reachable sp checks c p lid bufs d" and run: "\<not> st_aborted (ls_st (dv_launch d))"
    and turn: "st_current (ls_st (dv_launch d)) = Some me" and me: "me \<notin> dv_inside d"
    and b: "b < length (dv_bufs d)" and i: "i < length (in_data (dv_bufs d ! b))"
    and t: "d' = dev_touch sp d me b i kind loc ord stored data" and st: "kind \<noteq> Atomic \<Longrightarrow> stored"
    and quiet: "elem_quiet p d b i" and fair: "elem_fair d' b i" and silent: "silent d'"
  shows "elem_quiet p d' b i"
proof -
  note act = reachable_acting(1) [OF reach run turn me]
  obtain acc now l1 where a: "access_of (dev_ctx d me) kind loc ord (dv_launch d) (dev_cell sp d b i) = (acc, now, l1)"
    by (rule prod_cases3)
  let ?h = "tick_hist d me b i ord" and ?q = "length (pre_hist d me b i ord)"
  let ?y = "\<lparr>lg_pos = ?q, lg_buf = b, lg_index = i, lg_access = acc\<rparr>"
  let ?ds = "findings_of (sp ! b) i (dev_ctx d me) kind loc ord (dv_launch d) (dev_cell sp d b i)"
  obtain xs where h: "dv_hist d' = ?h @ xs" and log: "dv_log d' = dv_log d @ [?y]" by (rule touch_hist [OF a t])
  have e: "elem_entries d' b i = elem_entries d b i @ [?y]" by (simp add: elem_entries_def log of_elem_def)
  have kind: "acc_kind acc = kind" by (rule access_of_fields(5) [OF a])
  then have plain: "kind \<noteq> Atomic" using fair by (simp add: elem_fair_def e)
  have pos: "lg_pos x < ?q" if "x \<in> set (elem_entries d b i)" for x
    using acting_entries [OF act] that by (auto simp: elem_entries_def pre_hist_def)
  have rep: "w_rep (ls_world (dv_launch d')) = foldl reporter_push (w_rep (ls_world (dv_launch d))) ?ds"
    using dev_touch_fields(6) [OF a t] st [OF plain] by simp
  have rok: "reporter_ok (w_rep (ls_world (dv_launch d)))"
    using act by (simp add: acting_def dev_sound_def dev_base_def world_ok_def)
  have "\<not> is_race f" if "f \<in> set ?ds" for f
    using race_pushed_all [OF rok that] silent unfolding silent_def rep by blast
  then have none: "\<nexists>first. DataRace (sp ! b) i first acc \<in> set ?ds" by (force simp: is_race_def)
  have nc: "\<forall>x \<in> set (elem_entries d b i). no_collective_between (lg_access x) acc"
    using fair pos by (auto simp: elem_fair_def e)
  have "\<not> (acc_gid p (lg_access x) \<noteq> acc_gid p acc \<and> (acc_kind (lg_access x) \<noteq> Read \<or> kind \<noteq> Read)
          \<and> \<not> hb_eq ?h (lg_pos x) ?q)" if "x \<in> set (elem_entries d b i)" for x
    using first_race_rule [OF reach run turn me b i a quiet nc] none that by blast
  moreover have hb: "hb_eq (dv_hist d') x ?q \<longleftrightarrow> hb_eq ?h x ?q" for x
    unfolding h by (rule hb_eq_append) (simp add: tick_hist_def)
  ultimately have new: "\<not> unordered_pair p (dv_hist d') x ?y" if "x \<in> set (elem_entries d b i)" for x
    using that kind by (auto simp: unordered_pair_def)
  have old: "unordered_pair p (dv_hist d') x y \<longleftrightarrow> unordered_pair p (dv_hist d) x y"
    if "y \<in> set (elem_entries d b i)" for x y
  proof -
    have "lg_pos y < length (dv_hist d)" using that acting_entries [OF act] by (auto simp: elem_entries_def)
    then show ?thesis by (simp add: unordered_pair_def h tick_hist_def pre_hist_def hb_eq_append)
  qed
  have late: "\<not> unordered_pair p (dv_hist d') ?y x" if "x \<in> set (elem_entries d' b i)" for x
  proof -
    have "lg_pos x \<le> ?q" using that pos by (auto simp: e less_imp_le)
    then show ?thesis by (simp add: unordered_pair_def)
  qed
  show ?thesis
    using fair quiet new old late unfolding elem_quiet_def elem_fair_def by (auto simp: e)
qed

lemma silent_quiet:
  assumes "dev_reachable sp checks c p lid bufs d" and "silent d"
    and "b < length bufs" and "i < buf_lens bufs ! b" and "elem_fair d b i"
  shows "elem_quiet p d b i"
proof -
  obtain picks where set: "dev_setting sp checks c p lid bufs"
    and steps: "(dev_step sp c p)\<^sup>*\<^sup>* (dev_begin c p picks lid bufs) d"
    using assms(1) by (auto simp: dev_reachable_def)
  from steps assms(2,5) show ?thesis
  proof (induction rule: rtranclp_induct)
    case base
    have "dv_log (dev_begin c p picks lid bufs) = []" by (simp add: dev_begin_def split: prod.split)
    then show ?case by (simp add: elem_quiet_def elem_entries_def elem_reads_def)
  next
    case (step d d')
    have reach: "dev_reachable sp checks c p lid bufs d" using set step.hyps(1) by (auto simp: dev_reachable_def)
    have base: "dev_base sp c p lid (buf_lens bufs) d" by (rule reachable_base(2) [OF reach])
    have sound: "dev_sound sp c p lid (buf_lens bufs) d" by (rule reachable_sound [OF reach])
    have pos: "\<forall>x \<in> set (dv_log d). lg_pos x < length (dv_hist d)"
      using sound by (simp add: dev_sound_def dev_logged_def log_entry_ok_def)
    show ?case
      using step.hyps(2)
    proof cases
      case (act me a)
      have sil: "silent d" using silent_before [OF dev_exec_grows [OF act(4)]] step.prems(1) act(1) by simp
      show ?thesis
        using act(4)
      proof (cases rule: dev_exec_adds)
        case (touch b0 i0 kind loc ord stored data)
        obtain acc now l1 where ac: "access_of (dev_ctx d me) kind loc ord (dv_launch d) (dev_cell sp d b0 i0) = (acc, now, l1)"
          by (rule prod_cases3)
        have t: "d' = dev_touch sp d me b0 i0 kind loc ord stored data" using touch(4) act(1) by simp
        note f = dev_touch_fields [OF ac t]
        have quiet: "elem_quiet p d b i" by (rule step.IH [OF sil fair_prefix [OF step.prems(2) f(11)]])
        show ?thesis
        proof (cases "b = b0 \<and> i = i0")
          case True
          then show ?thesis
            using touch_quiet [OF reach act(2,3) touch(3,1,2) t touch(5)] quiet step.prems by blast
        next
          case False
          then show ?thesis by (intro quiet_frame [OF quiet f(11) _ f(10) pos]) (auto simp: of_elem_def)
        qed
      next
        case (other xs)
        then have same: "dv_log d' = dv_log d @ []" "dv_hist d' = dv_hist d @ xs" using act(1) by simp_all
        from quiet_frame [OF step.IH [OF sil fair_prefix [OF step.prems(2) same(1)]] same(1) _ same(2) pos] show ?thesis by simp
      qed
    next
      case (next_wave first n rest picks')
      have same: "dv_log d' = dv_log d @ []" "dv_hist d' = dv_hist d @ []"
        "w_rep (ls_world (dv_launch d')) = w_rep (ls_world (dv_launch d))"
        by (simp_all add: next_wave dev_wave_def wave_begin_def dev_shared_def Let_def)
      then have "silent d" using step.prems(1) by (simp add: silent_def)
      from quiet_frame [OF step.IH [OF this fair_prefix [OF step.prems(2) same(1)]] same(1) _ same(2) pos] show ?thesis by simp
    qed
  qed
qed



text \<open>One thread hands an element over to another through a flag, in the second element of the buffer.\<close>

definition duo_pass :: "nat dev_act list" where
  "duo_pass = [DevAccess 0 0 Write (Location ''k.rs'' 3 9) None (op_write 7),
     DevAccess 0 1 Atomic (Location ''k.rs'' 4 9) (Some Release) (op_swap 1), DevSched ActYield,
     DevAccess 0 1 Atomic (Location ''k.rs'' 6 9) (Some Acquire) op_read,
     DevAccess 0 0 Read (Location ''k.rs'' 7 9) None op_read]"

definition duo_pair :: "u32 list \<Rightarrow> nat device" where
  "duo_pair plan = dev_begin duo_config duo_plan (Replay plan 0) 1 [global_new [1, 0]]"

lemma duo_pair_reachable:
  assumes "dev_play [Global ''x''] (duo_pair plan) as = Some d"
  shows "dev_reachable [Global ''x''] True duo_config duo_plan 1 [global_new [1, 0]] d"
  using dev_play_steps [OF assms] duo_setup
  by (auto simp: dev_reachable_def dev_setting_def duo_pair_def) (simp add: global_new_def)

lemma nonempty_clock: "\<not> clock_is_empty (clock_join c' (clock_observe c k (Suc n)))"
  using clock_get_is_empty [of "clock_join c' (clock_observe c k (Suc n))" k] by auto

lemma duo_passed:
  "case dev_play [Global ''x''] (duo_pair [0, 1]) duo_pass of None \<Rightarrow> False | Some d \<Rightarrow>
     rep_diags (w_rep (ls_world (dv_launch d))) = []
     \<and> (case elem_entries d 0 0 of [x, y] \<Rightarrow> lg_pos x < lg_pos y
            \<and> lg_access x = sample_access 0 0 0 0 1 Write\<lparr>acc_loc := Location ''k.rs'' 3 9\<rparr>
            \<and> lg_access y = sample_access 1 0 0 0 2 Read\<lparr>acc_loc := Location ''k.rs'' 7 9\<rparr>
          | _ \<Rightarrow> False)"
  by (simp add: duo_pass_def duo_pair_def dev_eval op_swap_def elem_entries_def of_elem_def release_into_def
      acquire_from_def release_def acquire_def is_release_def is_acquire_def nonempty_clock upt_conv_Cons del: numeral_2_eq_2)



end
