(* ===== verification/Device_Unsynced.thy ===== *)
theory Device_Unsynced
  imports Device_Silence
begin

text \<open>
  Launches that never synchronise: no atomics, no fences, no barriers, no collectives. There the shadow
  cell misses nothing, whatever the number of readers: the first access that conflicts with one of another
  thread is reported.
\<close>

section \<open>One cell\<close>

text \<open>
  What the cell of an element remembers of the accesses \<open>E\<close> made to it while nothing was reported: of reads
  alone the reading threads, or as many as it holds; with a write among them, everything is by one thread.
\<close>

definition cell_fits :: "launch_plan \<Rightarrow> access set \<Rightarrow> shadow_cell \<Rightarrow> bool" where
  "cell_fits p E c \<longleftrightarrow>
     (if \<forall>x \<in> E. acc_kind x = Read
      then cell_last_write c = None \<and> distinct (map (acc_gid p) (cell_readers c))
        \<and> (\<forall>x \<in> E. acc_gid p x \<in> acc_gid p ` set (cell_readers c) \<or> max_readers \<le> length (cell_readers c))
      else \<exists>t. (\<forall>x \<in> E. acc_gid p x = t) \<and> (\<exists>w. cell_last_write c = Some w \<and> acc_gid p w = t)
        \<and> (\<forall>r \<in> set (cell_readers c). acc_gid p r = t))"

text \<open>No barrier and no collective was passed.\<close>

definition flat :: "access \<Rightarrow> bool" where
  "flat a \<longleftrightarrow> acc_epoch a = 0 \<and> acc_warp_epoch a = 0 \<and> acc_kind a \<noteq> Atomic"

lemma all_same_short:
  assumes "distinct (map f xs)" and "\<forall>x \<in> set xs. f x = t"
  shows "length xs \<le> 1"
proof -
  have "card (f ` set xs) = length xs" using assms(1) distinct_card [of "map f xs"] by simp
  moreover have "f ` set xs \<subseteq> {t}" using assms(2) by auto
  ultimately show ?thesis using card_mono [of "{t}" "f ` set xs"] by simp
qed

lemma fits_written:
  assumes "cell_fits p E c" and "\<not> (\<forall>x \<in> E. acc_kind x = Read)"
  obtains t w where "\<forall>x \<in> E. acc_gid p x = t" and "cell_last_write c = Some w" and "acc_gid p w = t"
    and "\<forall>r \<in> set (cell_readers c). acc_gid p r = t"
  using assms(1) that unfolding cell_fits_def if_not_P [OF assms(2)] by blast

lemma fits_read:
  assumes fits: "cell_fits p E c" and kind: "acc_kind acc = Read" and acc: "acc_own p acc" "flat acc"
    and readers: "\<forall>r \<in> set (cell_readers c). acc_own p r \<and> flat r"
    and rule: "\<And>w. cell_last_write c = Some w \<Longrightarrow> concurrent w acc now \<longleftrightarrow> acc_gid p w \<noteq> acc_gid p acc"
    and quiet: "fst (on_read c acc now) = None"
  shows "cell_fits p (insert acc E) (snd (on_read c acc now))"
proof -
  let ?rs = "cell_readers c"
  have kept: "filter (\<lambda>r. acc_block r \<noteq> acc_block acc \<or> acc_epoch r = acc_epoch acc) ?rs = ?rs"
    using readers acc(2) by (simp add: flat_def)
  have dup: "list_ex (\<lambda>r. acc_block r = acc_block acc \<and> acc_thread r = acc_thread acc \<and> acc_epoch r = acc_epoch acc) ?rs
      \<longleftrightarrow> acc_gid p acc \<in> acc_gid p ` set ?rs"
  proof -
    have "acc_block r = acc_block acc \<and> acc_thread r = acc_thread acc \<and> acc_epoch r = acc_epoch acc
        \<longleftrightarrow> acc_gid p acc = acc_gid p r" if "r \<in> set ?rs" for r
      using readers that acc_gid_inj [of p acc r] acc by (auto simp: flat_def)
    then show ?thesis by (auto simp: list_ex_iff image_iff)
  qed
  have rs: "cell_readers (snd (on_read c acc now)) =
      (if acc_gid p acc \<notin> acc_gid p ` set ?rs \<and> length ?rs < max_readers then ?rs @ [acc] else ?rs)"
    unfolding on_read_readers_eq kept dup ..
  show ?thesis
  proof (cases "\<forall>x \<in> E. acc_kind x = Read")
    case True
    then have "\<forall>x \<in> insert acc E. acc_kind x = Read" using kind by simp
    then show ?thesis using fits True unfolding cell_fits_def rs by auto
  next
    case False
    then obtain t w where t: "\<forall>x \<in> E. acc_gid p x = t" "cell_last_write c = Some w" "acc_gid p w = t"
      "\<forall>r \<in> set ?rs. acc_gid p r = t" by (rule fits_written [OF fits])
    have "acc_gid p acc = t" using quiet rule [OF t(2)] t(2,3) on_read_conflict [of c acc now w] by auto
    then show ?thesis using t False unfolding cell_fits_def rs by auto
  qed
qed

lemma fits_write:
  assumes fits: "cell_fits p E c" and kind: "acc_kind acc \<noteq> Read"
    and rule: "\<And>x. cell_last_write c = Some x \<or> x \<in> set (cell_readers c) \<Longrightarrow> concurrent x acc now \<longleftrightarrow> acc_gid p x \<noteq> acc_gid p acc"
    and quiet: "fst (on_write c acc now) = None"
  shows "cell_fits p (insert acc E) (snd (on_write c acc now))"
proof -
  have w: "acc_gid p x = acc_gid p acc" if "cell_last_write c = Some x \<or> x \<in> set (cell_readers c)" for x
    using quiet rule [OF that] that unfolding on_write_conflict_None by blast
  have "acc_gid p x = acc_gid p acc" if x: "x \<in> E" for x
  proof (cases "\<forall>x \<in> E. acc_kind x = Read")
    case True
    then have d: "distinct (map (acc_gid p) (cell_readers c))"
      and r: "acc_gid p x \<in> acc_gid p ` set (cell_readers c) \<or> max_readers \<le> length (cell_readers c)"
      using fits x by (auto simp: cell_fits_def)
    have "length (cell_readers c) \<le> 1" by (rule all_same_short [OF d]) (use w in blast)
    then show ?thesis using r w by (auto simp: max_readers_def)
  next
    case False
    then obtain t v where "\<forall>x \<in> E. acc_gid p x = t" "cell_last_write c = Some v" "acc_gid p v = t"
      "\<forall>r \<in> set (cell_readers c). acc_gid p r = t" by (rule fits_written [OF fits])
    then show ?thesis using w [of v] x by simp
  qed
  then show ?thesis using kind unfolding cell_fits_def by auto
qed

text \<open>Such a cell has seen no conflict.\<close>

lemma fits_no_conflict:
  assumes "cell_fits p E c" and "x \<in> E" and "y \<in> E" and "acc_kind x \<noteq> Read \<or> acc_kind y \<noteq> Read"
  shows "acc_gid p x = acc_gid p y"
  using assms by (auto simp: cell_fits_def split: if_splits)

section \<open>Nothing but steps of threads\<close>

definition tick_only :: "sync_op list \<Rightarrow> bool" where
  "tick_only h \<longleftrightarrow> (\<forall>x \<in> set h. \<exists>g. x = OpTick g)"

lemma tick_only_edge:
  assumes "tick_only h" and "hb_edge h p q"
  shows "op_gid (h ! p) = op_gid (h ! q)"
  using assms(2)
proof cases
  case program_order
  then show ?thesis by simp
next
  case (barrier g b g')
  then show ?thesis using nth_mem [OF barrier(2)] assms(1) unfolding tick_only_def by force
next
  case (sync_with l i j)
  have "h ! q \<in> set h" using sync_with(4) by simp
  then obtain g where "h ! q = OpTick g" using assms(1) by (auto simp: tick_only_def)
  then show ?thesis using sync_with(3) by (auto simp: takes_def)
qed

lemma tick_only_hb:
  assumes "tick_only h" and "hb_eq h p q"
  shows "op_gid (h ! p) = op_gid (h ! q)"
  using assms(2) unfolding hb_eq_def
  by (induction rule: rtranclp_induct) (use tick_only_edge [OF assms(1)] in auto)

end
