(* ===== verification/Kernel.thy ===== *)
theory Kernel
  imports Device_Inv "HOL-Library.Multiset"
begin

text \<open>
  Kernels as data, and a launch of one as a total function. A kernel is what a thread does next and how it
  goes on with the answer; \<open>kernel_step\<close> lets the holder of the turn do it, or begins the next wave, and
  \<open>kernel_run\<close> goes on until nothing is left to do. Every kernel that asks for finitely many things on
  every path ends under every schedule: with a finding that says why, or with every thread of every wave
  returned.
\<close>

section \<open>Kernels\<close>

text \<open>What an operation answers: nothing, the value of an access, or the claimed index.\<close>

datatype 'a reply = Nothing | Got 'a | Slot "nat option"

text \<open>\<open>Gone\<close> is a thread that has left the kernel; \<open>Panic\<close> one about to be unwound to \<^verbatim>\<open>run_thread\<close>.\<close>

datatype 'a program =
    Gone
  | Return
  | Panic string
  | Do "'a dev_act" "'a reply \<Rightarrow> 'a program"

text \<open>The text of the language's own panics, in short.\<close>

definition panic_text :: "panic \<Rightarrow> string" where
  "panic_text p = (case p of Overflow \<Rightarrow> ''arithmetic overflow'' | DivideByZero \<Rightarrow> ''division by zero''
     | IndexOutOfBounds \<Rightarrow> ''index out of bounds'' | AssertFailed msg \<Rightarrow> msg)"

definition next_act :: "'a device \<Rightarrow> nat \<Rightarrow> 'a program \<Rightarrow> 'a dev_act option" where
  "next_act d me g =
     (case g of
        Gone \<Rightarrow> None
      | Return \<Rightarrow> Some (DevSched ActFinish)
      | Panic message \<Rightarrow> Some (DevSched (ActTrap
          (KernelPanic (tc_block (dev_ctx d me)) (tc_thread (dev_ctx d me)) message)))
      | Do a k \<Rightarrow> Some a)"

fun dev_reply :: "mem_space list \<Rightarrow> 'a device \<Rightarrow> nat \<Rightarrow> 'a dev_act \<Rightarrow> 'a reply res" where
  "dev_reply sp d me (DevAccess b i kind loc ord op) =
     (case fst (access_body (sp ! b) (reset_of (sp ! b)) (dev_ctx d me) i kind loc ord op (dv_launch d) (dv_bufs d ! b)) of
        Returned v \<Rightarrow> Inr (Got v) | Raised p \<Rightarrow> Inl p | _ \<Rightarrow> Inr Nothing)"
| "dev_reply sp d me (DevClaim b i checked loc) =
     (case fst (elem_mut_body (space_name (sp ! b)) (dev_ctx d me) i checked loc (dv_launch d) (dv_bufs d ! b)) of
        Returned slot \<Rightarrow> Inr (Slot slot) | Raised p \<Rightarrow> Inl p | _ \<Rightarrow> Inr Nothing)"
| "dev_reply sp d me _ = Inr Nothing"

definition after :: "'a program \<Rightarrow> 'a reply res \<Rightarrow> 'a program" where
  "after g r = (case g of Do a k \<Rightarrow> (case r of Inr v \<Rightarrow> k v | Inl p \<Rightarrow> Panic (panic_text p)) | _ \<Rightarrow> Gone)"

section \<open>A launch of a kernel\<close>

record 'a kernel_state =
  kr_dev :: "'a device"
  kr_progs :: "'a program list"
  kr_wave :: nat

definition wave_programs :: "(thread_ctx \<Rightarrow> 'a program) \<Rightarrow> launch_plan \<Rightarrow> nat \<Rightarrow> nat \<Rightarrow> 'a program list" where
  "wave_programs K p first n = map (\<lambda>slot. K (thread_ctx_of (lp_tpb p) first slot)) [0..<n * lp_tpb p]"

text \<open>\<open>picks\<close> is the source of decisions of each wave.\<close>

definition kernel_begin ::
  "launch_config \<Rightarrow> launch_plan \<Rightarrow> (nat \<Rightarrow> choices) \<Rightarrow> (thread_ctx \<Rightarrow> 'a program) \<Rightarrow> nat \<Rightarrow> 'a instrumented list
     \<Rightarrow> 'a kernel_state" where
  "kernel_begin c p picks K lid bufs =
     (case hd (wave_list p) of (first, n) \<Rightarrow>
       \<lparr>kr_dev = dev_begin c p (picks 0) lid bufs, kr_progs = wave_programs K p first n, kr_wave = 0\<rparr>)"

definition kernel_step ::
  "mem_space list \<Rightarrow> launch_config \<Rightarrow> launch_plan \<Rightarrow> (nat \<Rightarrow> choices) \<Rightarrow> (thread_ctx \<Rightarrow> 'a program)
     \<Rightarrow> 'a kernel_state \<Rightarrow> 'a kernel_state option" where
  "kernel_step sp c p picks K s =
     (let d = kr_dev s; st = ls_st (dv_launch d)
      in if st_aborted st then None
         else case st_current st of
           Some me \<Rightarrow>
             (case nth_option (kr_progs s) me of
                None \<Rightarrow> None
              | Some g \<Rightarrow>
                  (case next_act d me g of
                     None \<Rightarrow> None
                   | Some a \<Rightarrow>
                       if dev_act_ok sp d me a
                       then Some (s\<lparr>kr_dev := dev_exec sp d me a,
                              kr_progs := (kr_progs s)[me := after g (dev_reply sp d me a)]\<rparr>)
                       else None))
         | None \<Rightarrow>
             (case dv_waves d of
                [] \<Rightarrow> None
              | (first, n) # rest \<Rightarrow>
                  Some (s\<lparr>kr_dev := dev_wave c p (picks (kr_wave s + 1)) first n rest d,
                    kr_progs := wave_programs K p first n, kr_wave := kr_wave s + 1\<rparr>)))"

section \<open>It ends\<close>

text \<open>What is left of a program gets smaller with every answer.\<close>

definition below :: "('a program \<times> 'a program) set" where
  "below = {(g', g). (\<exists>a k r. g = Do a k \<and> g' = k r) \<or> (\<exists>a k m. g = Do a k \<and> g' = Panic m)
     \<or> g' = Gone \<and> (g = Return \<or> (\<exists>m. g = Panic m))}"

lemma wf_below: "wf (below :: ('a program \<times> 'a program) set)"
proof (rule wfUNIVI)
  fix P :: "'a program \<Rightarrow> bool" and g
  assume "\<forall>x. (\<forall>y. (y, x) \<in> below \<longrightarrow> P y) \<longrightarrow> P x"
  then have step: "P x" if "\<And>y. (y, x) \<in> below \<Longrightarrow> P y" for x using that by blast
  have gone: "P Gone" by (rule step) (simp add: below_def)
  have panic: "P (Panic m)" for m by (rule step) (use gone in \<open>auto simp: below_def\<close>)
  show "P g"
  proof (induction g)
    case (Do a k)
    show ?case by (rule step) (use Do panic gone in \<open>auto simp: below_def\<close>)
  next
    case Return
    show ?case by (rule step) (use gone in \<open>auto simp: below_def\<close>)
  qed (use gone panic in auto)
qed

lemma after_below: "next_act d me g = Some a \<Longrightarrow> (after g r, g) \<in> below"
  by (auto simp: next_act_def after_def below_def split: program.splits sum.splits)

definition kernel_order :: "('a kernel_state \<times> 'a kernel_state) set" where
  "kernel_order = inv_image (less_than <*lex*> mult below) (\<lambda>s. (length (dv_waves (kr_dev s)), mset (kr_progs s)))"

lemma wf_kernel_order: "wf kernel_order"
  unfolding kernel_order_def by (intro wf_inv_image wf_lex_prod wf_less_than wf_mult wf_below)

lemma mset_update_below:
  assumes "i < length xs" and "(x, xs ! i) \<in> r"
  shows "(mset (xs[i := x]), mset xs) \<in> mult r"
proof -
  have "mset xs = add_mset (xs ! i) (mset xs - {#xs ! i#})" using assms(1) by simp
  moreover have "mset (xs[i := x]) = add_mset x (mset xs - {#xs ! i#})" using assms(1) by (simp add: mset_update)
  moreover have "(add_mset x M, add_mset (xs ! i) M) \<in> mult r" for M
    using one_step_implies_mult [of "{#xs ! i#}" "{#x#}" r M] assms(2) by simp
  ultimately show ?thesis by metis
qed

lemma dev_exec_waves [simp]: "dv_waves (dev_exec sp d me a) = dv_waves d"
  by (cases a) (simp_all add: Let_def split: prod.split)

text \<open>What a step is.\<close>

lemma kernel_step_cases:
  assumes "kernel_step sp c p picks K s = Some s'"
  obtains (act) me a where "\<not> st_aborted (ls_st (dv_launch (kr_dev s)))"
      "st_current (ls_st (dv_launch (kr_dev s))) = Some me" "me < length (kr_progs s)"
      "next_act (kr_dev s) me (kr_progs s ! me) = Some a" "dev_act_ok sp (kr_dev s) me a"
      "s' = s\<lparr>kr_dev := dev_exec sp (kr_dev s) me a,
         kr_progs := (kr_progs s)[me := after (kr_progs s ! me) (dev_reply sp (kr_dev s) me a)]\<rparr>"
    | (wave) first n rest where "\<not> st_aborted (ls_st (dv_launch (kr_dev s)))"
      "st_current (ls_st (dv_launch (kr_dev s))) = None" "dv_waves (kr_dev s) = (first, n) # rest"
      "s' = s\<lparr>kr_dev := dev_wave c p (picks (kr_wave s + 1)) first n rest (kr_dev s),
         kr_progs := wave_programs K p first n, kr_wave := kr_wave s + 1\<rparr>"
  using assms
  by (auto simp: kernel_step_def Let_def nth_option_def split: if_splits option.splits list.splits)

lemma kernel_step_order:
  assumes "kernel_step sp c p picks K s = Some s'"
  shows "(s', s) \<in> kernel_order"
  using assms
proof (cases rule: kernel_step_cases)
  case (act me a)
  then show ?thesis
    using mset_update_below [OF act(3) after_below [OF act(4)]] by (simp add: kernel_order_def)
next
  case (wave first n rest)
  then show ?thesis by (simp add: kernel_order_def dev_wave_def)
qed

function kernel_run ::
  "mem_space list \<Rightarrow> launch_config \<Rightarrow> launch_plan \<Rightarrow> (nat \<Rightarrow> choices) \<Rightarrow> (thread_ctx \<Rightarrow> 'a program)
     \<Rightarrow> 'a kernel_state \<Rightarrow> 'a kernel_state" where
  "kernel_run sp c p picks K s =
     (case kernel_step sp c p picks K s of None \<Rightarrow> s | Some s' \<Rightarrow> kernel_run sp c p picks K s')"
  by pat_completeness auto
termination
  by (relation "inv_image kernel_order (\<lambda>(sp, c, p, picks, K, s). s)")
    (auto intro: wf_inv_image wf_kernel_order kernel_step_order)

declare kernel_run.simps [simp del]

end
