(* ===== verification/Kernel_Ends.thy ===== *)
theory Kernel_Ends
  imports Kernel Device_Races
begin

text \<open>
  How a launch of a kernel ends: what a kernel may ask for, the invariant that ties the programs to the
  threads' states, and the end of \<open>kernel_run\<close>.
\<close>

section \<open>Who has left the kernel\<close>

lemma finish_status [simp]: "st_status (w_st (finish cfg w me)) = (st_status (w_st w))[me := Finished]"
  unfolding finish_unfold [OF refl] by (auto simp: barrier_divergence_def split: option.split)

lemma barrier_finished:
  assumes ok: "cfg_ok cfg" and core: "core_ok cfg (w_st w)" and me: "me < total_threads cfg"
    and run: "st_status (w_st w) ! me = Runnable" and i: "i < total_threads cfg"
  shows "st_status (w_st (fst (barrier cfg w me loc))) ! i = Finished \<longleftrightarrow> st_status (w_st w) ! i = Finished"
proof -
  have len: "length (st_status (w_st w)) = total_threads cfg"
    using core shape_lengths(1) by (auto simp: core_ok_def)
  define s1 where "s1 = arrive_at_barrier me (block_of cfg me) loc (w_st w)"
  have len1: "length (st_status s1) = total_threads cfg" by (simp add: s1_def len)
  have stat1: "st_status s1 ! i = Finished \<longleftrightarrow> st_status (w_st w) ! i = Finished"
    using me run len by (cases "i = me") (simp_all add: s1_def)
  have "st_status (release_barrier cfg (block_of cfg me) s1) ! i = Finished \<longleftrightarrow> st_status s1 ! i = Finished"
    if "\<forall>j. block_of cfg j = block_of cfg me \<longrightarrow> st_status s1 ! j = AtBarrier"
    unfolding released_status [OF ok len1 i] using that by simp
  then show ?thesis
    using stat1 unfolding barrier_unfold [OF ok s1_def] by (auto simp: barrier_divergence_def)
qed

lemma rendezvous_finished:
  assumes ok: "cfg_ok cfg" and core: "core_ok cfg (w_st w)" and me: "me < total_threads cfg"
    and run: "st_status (w_st w) ! me = Runnable" and call: "call_ok cfg me msk" and i: "i < total_threads cfg"
  shows "st_status (w_st (fst (warp_rendezvous cfg w me phase msk loc op))) ! i = Finished
    \<longleftrightarrow> st_status (w_st w) ! i = Finished"
proof -
  have base: "base_ok cfg (w_st w)" using core by (simp add: core_ok_def)
  define wt where "wt = \<lparr>ww_phase = phase, ww_mask = msk, ww_at = loc, ww_op = op\<rparr>"
  define s1 where "s1 = park_at_warp me wt (w_st w)"
  define s2 where "s2 = release_warp cfg (block_of cfg me) (warp_of cfg me) wt
      (members cfg (block_of cfg me) (warp_of cfg me) msk) s1"
  have stat1: "st_status s1 ! i = Finished \<longleftrightarrow> st_status (w_st w) ! i = Finished"
    using park_base(2) [OF ok base me run, of wt] i by (simp add: s1_def same_barriers_def)
  have "st_status s2 ! i = Finished \<longleftrightarrow> st_status (w_st w) ! i = Finished"
    if all: "\<forall>p. mates cfg me p \<and> has_lane msk (lane_of cfg p) \<longrightarrow> st_status s1 ! p = AtWarp \<and> st_warp_wait s1 ! p = Some wt"
  proof -
    have own: "has_lane (ww_mask wt) (lane_of cfg me)" using call by (simp add: call_ok_def wt_def)
    have s2: "s2 = release_warp cfg (block_of cfg me) (warp_of cfg me) wt
        (members cfg (block_of cfg me) (warp_of cfg me) (ww_mask wt)) (park_at_warp me wt (w_st w))"
      by (simp add: s2_def s1_def wt_def)
    have "st_status s1 ! i = AtWarp" if "mates cfg me i" "has_lane (ww_mask wt) (lane_of cfg i)"
      using all that by (simp add: wt_def)
    then show ?thesis using released_warp(1) [OF ok base me own s2 i] stat1 by auto
  qed
  then show ?thesis
    using stat1 unfolding rendezvous_unfold [OF ok wt_def s1_def] s2_def by (auto split: option.split)
qed

lemma sched_exec_finished:
  assumes ok: "cfg_ok cfg" and wok: "world_ok cfg w" and run: "\<not> st_aborted (w_st w)"
    and turn: "st_current (w_st w) = Some me" and a: "act_ok cfg me a" and i: "i < total_threads cfg"
  shows "st_status (w_st (sched_exec cfg w me a)) ! i = Finished
    \<longleftrightarrow> st_status (w_st w) ! i = Finished \<or> a = ActFinish \<and> i = me"
proof -
  have core: "core_ok cfg (w_st w)" and me: "me < total_threads cfg" "st_status (w_st w) ! me = Runnable"
    using wok run turn by (auto simp: world_ok_def turn_ok_def)
  have len: "length (st_status (w_st w)) = total_threads cfg"
    using core shape_lengths(1) by (auto simp: core_ok_def)
  show ?thesis
  proof (cases a)
    case (ActBarrier loc)
    then show ?thesis using barrier_finished [OF ok core me i] by simp
  next
    case (ActWarp phase msk loc op)
    then show ?thesis using rendezvous_finished [OF ok core me _ i] a by simp
  next
    case ActFinish
    then show ?thesis using me(1) len by (auto simp: nth_list_update)
  qed (simp_all add: yield_now_def push_finding_def abort_def)
qed

section \<open>What a kernel may ask for\<close>

fun act_allowed :: "mem_space list \<Rightarrow> nat \<Rightarrow> sched_config \<Rightarrow> nat \<Rightarrow> bool \<Rightarrow> 'a dev_act \<Rightarrow> bool" where
  "act_allowed sp n cfg me leaving DevDepart \<longleftrightarrow> leaving"
| "act_allowed sp n cfg me leaving (DevAccess b i kind loc ord op) \<longleftrightarrow>
     \<not> leaving \<and> b < n \<and> (ord = None \<longleftrightarrow> kind \<noteq> Atomic) \<and> (kind \<noteq> Atomic \<longrightarrow> (\<forall>v. \<exists>x. op v = Inr x))"
| "act_allowed sp n cfg me leaving (DevClaim b i checked loc) \<longleftrightarrow>
     \<not> leaving \<and> b < n \<and> (\<exists>name. sp ! b = Global name)"
| "act_allowed sp n cfg me leaving (DevStore b i v) \<longleftrightarrow> \<not> leaving \<and> b < n"
| "act_allowed sp n cfg me leaving (DevFence ord) \<longleftrightarrow> \<not> leaving"
| "act_allowed sp n cfg me leaving (DevArrive loc) \<longleftrightarrow> \<not> leaving"
| "act_allowed sp n cfg me leaving (DevSched a) \<longleftrightarrow>
     \<not> leaving \<and> act_ok cfg me a \<and> sched_only a \<and> a \<noteq> ActFinish"

definition is_arrive :: "'a dev_act \<Rightarrow> bool" where
  "is_arrive a \<longleftrightarrow> (case a of DevArrive loc \<Rightarrow> True | _ \<Rightarrow> False)"

text \<open>
  A program of the thread in \<open>slot\<close>: buffers that exist, masks a collective accepts, every arrival at a
  barrier followed by the departure, and the end of the thread left to \<open>Return\<close>.
\<close>

primrec program_ok :: "'a program \<Rightarrow> mem_space list \<Rightarrow> nat \<Rightarrow> sched_config \<Rightarrow> nat \<Rightarrow> bool \<Rightarrow> bool" where
  "program_ok Gone sp n cfg slot leaving \<longleftrightarrow> False"
| "program_ok Return sp n cfg slot leaving \<longleftrightarrow> \<not> leaving"
| "program_ok (Panic message) sp n cfg slot leaving \<longleftrightarrow> \<not> leaving"
| "program_ok (Do a k) sp n cfg slot leaving \<longleftrightarrow>
     act_allowed sp n cfg slot leaving a \<and> (\<forall>r. program_ok (k r) sp n cfg slot (is_arrive a))"

definition kernel_ok :: "mem_space list \<Rightarrow> nat \<Rightarrow> launch_plan \<Rightarrow> (thread_ctx \<Rightarrow> 'a program) \<Rightarrow> bool" where
  "kernel_ok sp n p K \<longleftrightarrow> (\<forall>(first, blocks) \<in> set (wave_list p). \<forall>slot < blocks * lp_tpb p.
     program_ok (K (thread_ctx_of (lp_tpb p) first slot)) sp n (wave_sched p blocks) slot False)"

section \<open>The invariant\<close>

definition programs_ok :: "mem_space list \<Rightarrow> 'a kernel_state \<Rightarrow> bool" where
  "programs_ok sp s \<longleftrightarrow> (let d = kr_dev s; cfg = ls_sched (dv_launch d)
     in length (kr_progs s) = total_threads cfg
       \<and> (\<not> st_aborted (ls_st (dv_launch d)) \<longrightarrow> (\<forall>i < total_threads cfg.
            if st_status (ls_st (dv_launch d)) ! i = Finished then kr_progs s ! i = Gone
            else program_ok (kr_progs s ! i) sp (length (dv_bufs d)) cfg i (i \<in> dv_inside d))))"

definition kernel_inv ::
  "mem_space list \<Rightarrow> launch_config \<Rightarrow> launch_plan \<Rightarrow> nat \<Rightarrow> nat list \<Rightarrow> 'a kernel_state \<Rightarrow> bool" where
  "kernel_inv sp c p lid lens s \<longleftrightarrow> dev_base sp c p lid lens (kr_dev s) \<and> programs_ok sp s"

lemma dev_exec_frame:
  assumes "dev_act_ok sp d me a"
  shows "length (dv_bufs (dev_exec sp d me a)) = length (dv_bufs d)"
    and "ls_sched (dv_launch (dev_exec sp d me a)) = ls_sched (dv_launch d)"
    and "dv_inside (dev_exec sp d me a) =
      (if is_arrive a then insert me (dv_inside d) else dv_inside d - (if a = DevDepart then {me} else {}))"
proof -
  have "length (dv_bufs (dev_exec sp d me a)) = length (dv_bufs d)
    \<and> ls_sched (dv_launch (dev_exec sp d me a)) = ls_sched (dv_launch d)"
    using assms
  proof (cases rule: dev_act_cases)
    case (touch b i kind loc ord stored data)
    obtain acc now l1 where a: "access_of (dev_ctx d me) kind loc ord (dv_launch d) (dev_cell sp d b i) = (acc, now, l1)"
      by (rule prod_cases3)
    show ?thesis using dev_touch_fields(2,12) [OF a touch(6)] by simp
  next
    case (miss b i kind loc fatal)
    show ?thesis using dev_miss_fields(2,10) [OF miss(3)] by simp
  qed simp_all
  then show "length (dv_bufs (dev_exec sp d me a)) = length (dv_bufs d)"
    "ls_sched (dv_launch (dev_exec sp d me a)) = ls_sched (dv_launch d)" by simp_all
  show "dv_inside (dev_exec sp d me a) =
      (if is_arrive a then insert me (dv_inside d) else dv_inside d - (if a = DevDepart then {me} else {}))"
    by (cases a) (auto simp: is_arrive_def Let_def split: prod.split)
qed

text \<open>Actions other than the end of the thread leave nobody finished who was not.\<close>

lemma dev_exec_finished:
  assumes su: "launch_setup checks c = Inr p" and base: "dev_base sp c p lid lens d"
    and run: "\<not> st_aborted (ls_st (dv_launch d))" and turn: "st_current (ls_st (dv_launch d)) = Some me"
    and ok: "dev_act_ok sp d me a" and i: "i < total_threads (ls_sched (dv_launch d))"
  shows "st_status (ls_st (dv_launch (dev_exec sp d me a))) ! i = Finished
    \<longleftrightarrow> st_status (ls_st (dv_launch d)) ! i = Finished \<or> a = DevSched ActFinish \<and> i = me"
proof -
  obtain n where w: "in_wave p d n" using base by (auto simp: dev_base_def)
  have wok: "world_ok (ls_sched (dv_launch d)) (ls_world (dv_launch d))" using base by (simp add: dev_base_def)
  note sched = sched_exec_finished [OF in_wave_bounds(2) [OF su w] wok _ _ _ i, of me]
  have slot: "tc_slot (dev_ctx d me) = me" by (simp add: dev_ctx_def thread_ctx_of_def Let_def)
  have same: ?thesis if "st_status (w_st (ls_world (dv_launch (dev_exec sp d me a)))) = st_status (w_st (ls_world (dv_launch d)))"
    "a \<noteq> DevSched ActFinish" using that by (simp add: ls_st_def)
  show ?thesis
    using ok
  proof (cases rule: dev_act_cases)
    case (touch b i' kind loc ord stored data)
    obtain acc now l1 where a: "access_of (dev_ctx d me) kind loc ord (dv_launch d) (dev_cell sp d b i') = (acc, now, l1)"
      by (rule prod_cases3)
    have "dv_log (dev_exec sp d me a) \<noteq> dv_log d" using dev_touch_fields(11) [OF a touch(6)] by simp
    then have "a \<noteq> DevSched ActFinish" by auto
    then show ?thesis using same dev_touch_fields(5) [OF a touch(6)] by simp
  next
    case (miss b i' kind loc fatal)
    have "dv_hist (dev_exec sp d me a) \<noteq> dv_hist d" using dev_miss_fields(8) [OF miss(3)] by simp
    then have "a \<noteq> DevSched ActFinish" by auto
    then show ?thesis using same dev_miss_fields(11) [OF miss(3)] by (auto simp: abort_def push_finding_def)
  next
    case (arrive loc)
    then show ?thesis using sched [of "ActBarrier loc"] run turn by (simp add: ls_st_def slot)
  next
    case (sched s)
    then show ?thesis using \<open>\<And>a. _ \<Longrightarrow> _ \<Longrightarrow> act_ok _ me a \<Longrightarrow> _\<close> [of s] run turn by (simp add: ls_st_def)
  qed (use same in simp_all)
qed


lemma allowed_ok:
  assumes "act_allowed sp (length (dv_bufs d)) (ls_sched (dv_launch d)) me (me \<in> dv_inside d) a"
  shows "dev_act_ok sp d me a" and "a \<noteq> DevSched ActFinish"
  using assms by (cases a; simp)+

lemma next_act_ok:
  assumes "program_ok g sp (length (dv_bufs d)) (ls_sched (dv_launch d)) me (me \<in> dv_inside d)"
  obtains a where "next_act d me g = Some a" and "dev_act_ok sp d me a"
    and "a = DevSched ActFinish \<longleftrightarrow> g = Return"
    and "(\<exists>k. g = Do a k) \<or> \<not> is_arrive a \<and> a \<noteq> DevDepart \<and> (g = Return \<or> (\<exists>m. g = Panic m))"
  using assms allowed_ok [of sp d me] that
  by (cases g) (auto simp: next_act_def is_arrive_def is_race_def)

lemma dev_reply_arrive: "is_arrive a \<Longrightarrow> dev_reply sp d me a = Inr Nothing"
  by (cases a) (simp_all add: is_arrive_def)

lemma programs_act:
  assumes su: "launch_setup checks c = Inr p" and base: "dev_base sp c p lid lens (kr_dev s)"
    and progs: "programs_ok sp s"
    and run: "\<not> st_aborted (ls_st (dv_launch (kr_dev s)))"
    and turn: "st_current (ls_st (dv_launch (kr_dev s))) = Some me"
    and g: "next_act (kr_dev s) me (kr_progs s ! me) = Some a" and ok: "dev_act_ok sp (kr_dev s) me a"
    and s': "s' = s\<lparr>kr_dev := dev_exec sp (kr_dev s) me a,
       kr_progs := (kr_progs s)[me := after (kr_progs s ! me) r]\<rparr>"
    and r: "r = dev_reply sp (kr_dev s) me a"
  shows "programs_ok sp s'"
proof -
  let ?d = "kr_dev s" and ?g = "kr_progs s ! me"
  let ?cfg = "ls_sched (dv_launch ?d)" and ?d' = "dev_exec sp (kr_dev s) me a"
  obtain n where w: "in_wave p ?d n" using base by (auto simp: dev_base_def)
  note frame = dev_exec_frame [OF ok]
  have me: "me < total_threads ?cfg" "st_status (ls_st (dv_launch ?d)) ! me = Runnable"
    using acting_thread [OF su base w run turn] in_wave_bounds(4) [OF su w] by simp_all
  have old: "if st_status (ls_st (dv_launch ?d)) ! i = Finished then kr_progs s ! i = Gone
      else program_ok (kr_progs s ! i) sp (length (dv_bufs ?d)) ?cfg i (i \<in> dv_inside ?d)"
    if "i < total_threads ?cfg" for i
    using progs run that unfolding programs_ok_def Let_def by blast
  have gok: "program_ok ?g sp (length (dv_bufs ?d)) ?cfg me (me \<in> dv_inside ?d)" using old [OF me(1)] me(2) by simp
  have len: "length (kr_progs s) = total_threads ?cfg" using progs by (simp add: programs_ok_def Let_def)
  obtain a' where a': "next_act ?d me ?g = Some a'" "dev_act_ok sp ?d me a'" "a' = DevSched ActFinish \<longleftrightarrow> ?g = Return"
    "(\<exists>k. ?g = Do a' k) \<or> \<not> is_arrive a' \<and> a' \<noteq> DevDepart \<and> (?g = Return \<or> (\<exists>m. ?g = Panic m))"
    by (rule next_act_ok [OF gok])
  have a: "a' = a" using a'(1) g by simp
  have new: "if st_status (ls_st (dv_launch ?d')) ! i = Finished then kr_progs s' ! i = Gone
      else program_ok (kr_progs s' ! i) sp (length (dv_bufs ?d')) ?cfg i (i \<in> dv_inside ?d')"
    if i: "i < total_threads ?cfg" and run': "\<not> st_aborted (ls_st (dv_launch ?d'))" for i
  proof (cases "i = me")
    case False
    then have "i \<in> dv_inside ?d' \<longleftrightarrow> i \<in> dv_inside ?d" "kr_progs s' ! i = kr_progs s ! i"
      unfolding frame(3) s' by simp_all
    then show ?thesis
      using old [OF i] dev_exec_finished [OF su base run turn ok i] False unfolding frame(1)
      by (simp split: if_splits)
  next
    case True
    have prog: "kr_progs s' ! i = after ?g r" using True me(1) len by (simp add: s')
    have fin: "st_status (ls_st (dv_launch ?d')) ! i = Finished \<longleftrightarrow> ?g = Return"
      using dev_exec_finished [OF su base run turn ok i] True me(2) a'(3) a by simp
    have nopanic: "?g \<noteq> Panic m" for m
      using run' g by (auto simp: next_act_def ls_st_def abort_def)
    show ?thesis
    proof (cases "?g = Return")
      case True
      then show ?thesis using fin prog by (simp add: after_def)
    next
      case False
      then obtain k where k: "?g = Do a k" using a'(4) nopanic a by blast
      then have "program_ok (after ?g r) sp (length (dv_bufs ?d)) ?cfg me (is_arrive a)"
        using gok dev_reply_arrive [of a sp ?d me] r by (auto simp: after_def split: sum.splits)
      then show ?thesis using False fin prog True frame(1,3) k gok by (cases a) (auto simp: is_arrive_def)
    qed
  qed
  have d': "kr_dev s' = ?d'" "length (kr_progs s') = total_threads ?cfg" using len by (simp_all add: s')
  show ?thesis unfolding programs_ok_def Let_def d' frame(2) using new by simp
qed


lemma sched_init_status: "st_status (sched_init cfg ch) = replicate (total_threads cfg) Runnable"
  by (simp add: sched_init_def Let_def)

lemma programs_wave:
  assumes "kernel_ok sp (length (dv_bufs d)) p K" and "(first, n) \<in> set (wave_list p)"
    and "dv_launch d = wave_begin c p n ch sh" and "dv_inside d = {}"
  shows "programs_ok sp (s\<lparr>kr_dev := d, kr_progs := wave_programs K p first n, kr_wave := k\<rparr>)"
proof -
  have "total_threads (wave_sched p n) = n * lp_tpb p"
    by (simp add: wave_sched_def sched_config_of_def total_threads_def)
  then show ?thesis
    using assms(1,2) unfolding programs_ok_def Let_def kernel_ok_def
    by (auto simp: assms(3,4) wave_begin_def ls_st_def sched_init_status wave_programs_def Let_def)
qed

section \<open>The end of a launch\<close>

text \<open>A launch of a kernel: the same launch for the step relation of the device.\<close>

lemma kernel_step_inv:
  assumes su: "launch_setup checks c = Inr p" and inv: "kernel_inv sp c p lid lens s"
    and K: "kernel_ok sp (length lens) p K" and step: "kernel_step sp c p picks K s = Some s'"
  shows "kernel_inv sp c p lid lens s'" and "dev_step sp c p (kr_dev s) (kr_dev s')"
proof -
  have base: "dev_base sp c p lid lens (kr_dev s)" and progs: "programs_ok sp s"
    using inv by (simp_all add: kernel_inv_def)
  have len: "length (dv_bufs (kr_dev s)) = length lens" using base by (auto simp: dev_base_def bufs_ok_def)
  have "dev_step sp c p (kr_dev s) (kr_dev s') \<and> programs_ok sp s'"
    using step
  proof (cases rule: kernel_step_cases)
    case (act me a)
    then show ?thesis using dev_step.act [OF act(1,2,5)] programs_act [OF su base progs act(1,2,4,5,6) refl] by simp
  next
    case (wave first n rest)
    obtain m where w: "in_wave p (kr_dev s) m" using base by (auto simp: dev_base_def)
    then have mem: "(first, n) \<in> set (wave_list p)" using wave(3) by (auto simp: in_wave_def)
    have "world_ok (ls_sched (dv_launch (kr_dev s))) (ls_world (dv_launch (kr_dev s)))" using base by (simp add: dev_base_def)
    then have fin: "\<forall>i < total_threads (ls_sched (dv_launch (kr_dev s))). st_status (ls_st (dv_launch (kr_dev s))) ! i = Finished"
      and sl: "length (st_status (ls_st (dv_launch (kr_dev s)))) = total_threads (ls_sched (dv_launch (kr_dev s)))"
      using wave(1,2) shape_lengths(1) by (auto simp: world_ok_def turn_ok_def ls_st_def)
    then have "\<forall>st \<in> set (st_status (ls_st (dv_launch (kr_dev s)))). st = Finished" by (auto simp: in_set_conv_nth)
    from dev_step.next_wave [OF wave(1) this wave(3)] have "dev_step sp c p (kr_dev s) (kr_dev s')" by (simp add: wave(4))
    moreover have "programs_ok sp s'"
      unfolding wave(4)
      by (rule programs_wave [OF _ mem, where c = c and sh = "dev_shared (kr_dev s)" and ch = "picks (kr_wave s + 1)"])
        (use K len in \<open>simp_all add: dev_wave_def\<close>)
    ultimately show ?thesis by simp
  qed
  then show "dev_step sp c p (kr_dev s) (kr_dev s')" "kernel_inv sp c p lid lens s'"
    using dev_step_base [OF su base] by (simp_all add: kernel_inv_def)
qed

text \<open>The invariant for one thread, and for all of them once nobody can run.\<close>

lemma kernel_inv_thread:
  assumes "kernel_inv sp c p lid lens s" and "\<not> st_aborted (ls_st (dv_launch (kr_dev s)))"
    and "i < total_threads (ls_sched (dv_launch (kr_dev s)))"
  shows "if st_status (ls_st (dv_launch (kr_dev s))) ! i = Finished then kr_progs s ! i = Gone
    else program_ok (kr_progs s ! i) sp (length (dv_bufs (kr_dev s))) (ls_sched (dv_launch (kr_dev s))) i
      (i \<in> dv_inside (kr_dev s))"
  using assms unfolding kernel_inv_def programs_ok_def Let_def by blast

lemma kernel_inv_gone:
  assumes inv: "kernel_inv sp c p lid lens s" and run: "\<not> st_aborted (ls_st (dv_launch (kr_dev s)))"
    and none: "st_current (ls_st (dv_launch (kr_dev s))) = None"
  shows "\<forall>g \<in> set (kr_progs s). g = Gone"
proof -
  have "\<forall>i < total_threads (ls_sched (dv_launch (kr_dev s))). st_status (ls_st (dv_launch (kr_dev s))) ! i = Finished"
    using inv none run by (simp add: kernel_inv_def dev_base_def world_ok_def turn_ok_def ls_st_def)
  moreover have "length (kr_progs s) = total_threads (ls_sched (dv_launch (kr_dev s)))"
    using inv by (simp add: kernel_inv_def programs_ok_def Let_def)
  ultimately show ?thesis using kernel_inv_thread [OF inv run] by (auto simp: in_set_conv_nth)
qed

text \<open>Nothing is left to do only in a launch that was aborted or has come to its end.\<close>

lemma kernel_stop:
  assumes su: "launch_setup checks c = Inr p" and inv: "kernel_inv sp c p lid lens s"
    and stop: "kernel_step sp c p picks K s = None" and run: "\<not> st_aborted (ls_st (dv_launch (kr_dev s)))"
  shows "dv_waves (kr_dev s) = [] \<and> (\<forall>g \<in> set (kr_progs s). g = Gone)"
proof -
  let ?d = "kr_dev s"
  let ?cfg = "ls_sched (dv_launch ?d)"
  have base: "dev_base sp c p lid lens ?d" using inv by (simp add: kernel_inv_def)
  obtain n where w: "in_wave p ?d n" using base by (auto simp: dev_base_def)
  have len: "length (kr_progs s) = total_threads ?cfg" using inv by (simp add: kernel_inv_def programs_ok_def Let_def)
  have none: "st_current (ls_st (dv_launch ?d)) = None"
  proof (rule ccontr)
    assume "st_current (ls_st (dv_launch ?d)) \<noteq> None"
    then obtain me where turn: "st_current (ls_st (dv_launch ?d)) = Some me" by blast
    have me: "me < total_threads ?cfg" "st_status (ls_st (dv_launch ?d)) ! me = Runnable"
      using acting_thread [OF su base w run turn] in_wave_bounds(4) [OF su w] by simp_all
    have "program_ok (kr_progs s ! me) sp (length (dv_bufs ?d)) ?cfg me (me \<in> dv_inside ?d)"
      using kernel_inv_thread [OF inv run me(1)] me(2) by simp
    then obtain a where a: "next_act ?d me (kr_progs s ! me) = Some a" "dev_act_ok sp ?d me a"
      "a = DevSched ActFinish \<longleftrightarrow> kr_progs s ! me = Return"
      "(\<exists>k. kr_progs s ! me = Do a k) \<or> \<not> is_arrive a \<and> a \<noteq> DevDepart \<and> (kr_progs s ! me = Return \<or> (\<exists>m. kr_progs s ! me = Panic m))"
      by (rule next_act_ok)
    show False using stop run turn me(1) len a(1,2) by (simp add: kernel_step_def Let_def nth_option_def)
  qed
  then show ?thesis
    using kernel_inv_gone [OF inv run none] stop run by (auto simp: kernel_step_def Let_def split: list.splits)
qed

lemma kernel_run_inv:
  assumes su: "launch_setup checks c = Inr p" and K: "kernel_ok sp (length lens) p K"
    and inv: "kernel_inv sp c p lid lens s"
  shows "kernel_inv sp c p lid lens (kernel_run sp c p picks K s)
    \<and> (dev_step sp c p)\<^sup>*\<^sup>* (kr_dev s) (kr_dev (kernel_run sp c p picks K s))
    \<and> kernel_step sp c p picks K (kernel_run sp c p picks K s) = None"
  using inv
proof (induction s rule: wf_induct_rule [OF wf_kernel_order])
  case (1 s)
  show ?case
  proof (cases "kernel_step sp c p picks K s")
    case None
    then show ?thesis using "1.prems" by (subst (1 2 3) kernel_run.simps) simp
  next
    case (Some s')
    note st = kernel_step_inv [OF su "1.prems" K Some]
    have eq: "kernel_run sp c p picks K s = kernel_run sp c p picks K s'" by (subst kernel_run.simps) (simp add: Some)
    show ?thesis
      using "1.IH" [OF kernel_step_order [OF Some] st(1)] st(2) unfolding eq
      by (meson converse_rtranclp_into_rtranclp)
  qed
qed

lemma kernel_begin_inv:
  assumes set: "dev_setting sp checks c p lid bufs" and K: "kernel_ok sp (length bufs) p K"
  shows "kernel_inv sp c p lid (buf_lens bufs) (kernel_begin c p picks K lid bufs)"
    and "kr_dev (kernel_begin c p picks K lid bufs) = dev_begin c p (picks 0) lid bufs"
proof -
  have su: "launch_setup checks c = Inr p" using set by (simp add: dev_setting_def)
  obtain first n rest where w: "wave_list p = (first, n) # rest"
    using wave_list_nonempty [OF launch_setup_ok [OF su]] by (metis list.exhaust surj_pair)
  show dev: "kr_dev (kernel_begin c p picks K lid bufs) = dev_begin c p (picks 0) lid bufs"
    by (simp add: kernel_begin_def w)
  have eq: "kernel_begin c p picks K lid bufs = (kernel_begin c p picks K lid bufs)\<lparr>kr_dev := dev_begin c p (picks 0) lid bufs,
      kr_progs := wave_programs K p first n, kr_wave := 0\<rparr>" by (simp add: kernel_begin_def w)
  have "programs_ok sp (kernel_begin c p picks K lid bufs)"
    by (subst eq, rule programs_wave [where first = first and n = n and c = c and ch = "picks 0" and sh = "launch_begin lid p ()"])
      (use K in \<open>simp_all add: w dev_begin_def\<close>)
  then show "kernel_inv sp c p lid (buf_lens bufs) (kernel_begin c p picks K lid bufs)"
    using dev_begin_base [OF set] by (simp add: kernel_inv_def dev)
qed


section \<open>A launch from configuration to report\<close>

text \<open>The decisions of each wave: those asked for in the first, and a seed of its own in every other.\<close>

definition wave_picks :: "launch_config \<Rightarrow> choices \<Rightarrow> nat \<Rightarrow> choices" where
  "wave_picks c ch wave = (if wave = 0 then ch else Random (lc_seed c + of_nat wave))"

definition launch_kernel ::
  "mem_space list \<Rightarrow> bool \<Rightarrow> launch_config \<Rightarrow> choices \<Rightarrow> (thread_ctx \<Rightarrow> 'a program) \<Rightarrow> nat \<Rightarrow> 'a instrumented list
     \<Rightarrow> ((report \<times> u32 list \<times> bool) \<times> 'a kernel_state) res" where
  "launch_kernel sp checks c ch K lid bufs =
     res_bind (launch_setup checks c) (\<lambda>p.
       let s = kernel_run sp c p (wave_picks c ch) K (kernel_begin c p (wave_picks c ch) K lid bufs);
           w = ls_world (dv_launch (kr_dev s))
       in Inr ((\<lparr>report_seed = lc_seed c, diagnostics = fst (reporter_take (w_rep w)), report_aborted = was_aborted w\<rparr>,
                if lp_waves p = 1 then fst (take_trace (w_st w)) else ([], False)), s))"


text \<open>Two threads of two blocks that write one element.\<close>

definition duo_kernel :: "thread_ctx \<Rightarrow> nat program" where
  "duo_kernel ctx = Do (DevSched ActYield) (\<lambda>_.
     Do (DevAccess 0 0 Write (Location ''k.rs'' 3 9) None (op_write 7)) (\<lambda>_. Return))"

lemma duo_kernel_ok: "kernel_ok sp 1 p duo_kernel"
  by (simp add: kernel_ok_def duo_kernel_def is_arrive_def op_write_def split: prod.split)


end
