(* ===== verification/Kernel_Memory.thy ===== *)
theory Kernel_Memory
  imports Kernel_Ends
begin

text \<open>
  What the buffers of a launch hold, without shadow state, clocks or scheduler: plain lists on which each
  action answers and updates as the instrumented buffers do. A thread alone on such a memory is \<open>solo\<close>,
  and a launch in which the threads run one after the other is \<open>in_turn\<close>.
\<close>

section \<open>Plain memory\<close>

definition mem_of :: "'a device \<Rightarrow> 'a list list" where
  "mem_of d = map in_data (dv_bufs d)"

definition put :: "nat \<Rightarrow> nat \<Rightarrow> 'a \<Rightarrow> 'a list list \<Rightarrow> 'a list list" where
  "put b i v m = m[b := (m ! b)[i := v]]"

fun mem_act :: "'a list list \<Rightarrow> 'a dev_act \<Rightarrow> 'a reply res \<times> 'a list list" where
  "mem_act m (DevAccess b i kind loc ord op) =
     (if i < length (m ! b)
      then case op (m ! b ! i) of Inl p \<Rightarrow> (Inl p, m) | Inr (v, new) \<Rightarrow> (Inr (Got v), put b i new m)
      else (Inr Nothing, m))"
| "mem_act m (DevClaim b i checked loc) =
     ((if i < length (m ! b) then Inr (Slot (Some i)) else if checked then Inr (Slot None) else Inr Nothing), m)"
| "mem_act m (DevStore b i v) = (Inr Nothing, put b i v m)"
| "mem_act m _ = (Inr Nothing, m)"

text \<open>The buffers of a launch behave as plain memory.\<close>

lemma mem_of_touch:
  assumes "b < length (dv_bufs d)"
  shows "mem_of (dev_touch sp d me b i kind loc ord stored data) = (mem_of d)[b := data]"
proof -
  obtain acc now l1 where a: "access_of (dev_ctx d me) kind loc ord (dv_launch d) (dev_cell sp d b i) = (acc, now, l1)"
    by (rule prod_cases3)
  show ?thesis by (simp add: mem_of_def dev_touch_def a Let_def map_update)
qed

lemma mem_of_miss: "mem_of (dev_miss sp d me b i kind loc fatal) = mem_of d"
proof -
  have "map in_data ((dv_bufs d)[b := enter_launch (reset_of (sp ! b)) n (dv_bufs d ! b)]) = map in_data (dv_bufs d)" for n
    by (cases "b < length (dv_bufs d)")
      (simp_all add: map_update enter_launch_fields [OF reset_of_ok] list_update_same_conv list_update_beyond)
  then show ?thesis by (simp add: mem_of_def dev_miss_def split: prod.split)
qed

lemma access_mem:
  assumes b: "b < length (dv_bufs d)"
  shows "dev_reply sp d me (DevAccess b i kind loc ord op) = fst (mem_act (mem_of d) (DevAccess b i kind loc ord op))
    \<and> mem_of (dev_exec sp d me (DevAccess b i kind loc ord op)) = snd (mem_act (mem_of d) (DevAccess b i kind loc ord op))"
proof (cases "i < length (in_data (dv_bufs d ! b))")
  case False
  then have out: "length (in_data (dv_bufs d ! b)) \<le> i" by simp
  have "fst (access_body (sp ! b) (reset_of (sp ! b)) (dev_ctx d me) i kind loc ord op (dv_launch d) (dv_bufs d ! b)) = Trapped"
    using access_body_oob [OF reset_of_ok out] by simp
  then show ?thesis using False b dev_access_out [OF out, of sp me kind loc ord op]
    by (simp add: mem_of_miss) (simp add: mem_of_def)
next
  case True
  note eq = access_body_eq [where space = "sp ! b" and c = "dev_ctx d me" and l = "dv_launch d",
      OF reset_of_ok [of "sp ! b"] True refl refl, of kind loc ord op]
  have data: "in_data (enter_launch (reset_of (sp ! b)) n m) = in_data m" for n and m :: "'a instrumented"
    by (rule enter_launch_fields(1) [OF reset_of_ok])
  show ?thesis
    using True b by (cases "op (in_data (dv_bufs d ! b) ! i)")
      (auto simp: eq mem_of_def put_def map_update Let_def data list_update_same_conv split: prod.split)
qed

lemma claim_mem:
  assumes b: "b < length (dv_bufs d)" and sp: "sp ! b = Global name"
  shows "dev_reply sp d me (DevClaim b i checked loc) = fst (mem_act (mem_of d) (DevClaim b i checked loc))
    \<and> mem_of (dev_exec sp d me (DevClaim b i checked loc)) = mem_of d"
proof -
  have data: "in_data (enter_launch global_reset n m) = in_data m" for n and m :: "'a instrumented"
    using enter_launch_fields(1) [OF reset_of_ok, of "Global name" n m] by (simp add: reset_of_def)
  have "dev_reply sp d me (DevClaim b i checked loc) = fst (mem_act (mem_of d) (DevClaim b i checked loc))"
    using b data by (auto simp: elem_mut_body_def mem_of_def Let_def split: prod.split)
  moreover have "mem_of (dev_exec sp d me (DevClaim b i checked loc)) = mem_of d"
    unfolding dev_claim [OF sp]
    using b by (simp add: mem_of_touch mem_of_miss) (simp add: mem_of_def list_update_same_conv)
  ultimately show ?thesis by simp
qed

lemma dev_exec_mem:
  assumes ok: "dev_act_ok sp d me a"
  shows "dev_reply sp d me a = fst (mem_act (mem_of d) a)" and "mem_of (dev_exec sp d me a) = snd (mem_act (mem_of d) a)"
proof -
  have "dev_reply sp d me a = fst (mem_act (mem_of d) a) \<and> mem_of (dev_exec sp d me a) = snd (mem_act (mem_of d) a)"
  proof (cases a)
    case (DevAccess b i kind loc ord op)
    then show ?thesis using access_mem [of b d sp me i kind loc ord op] ok by simp
  next
    case (DevClaim b i checked loc)
    then obtain name where "b < length (dv_bufs d)" "sp ! b = Global name" using ok by auto
    from claim_mem [OF this, of me i checked loc] show ?thesis using DevClaim by simp
  next
    case (DevStore b i v)
    then show ?thesis using ok by (simp add: mem_of_def put_def deref_mut_def map_update)
  qed (simp_all add: mem_of_def)
  then show "dev_reply sp d me a = fst (mem_act (mem_of d) a)" "mem_of (dev_exec sp d me a) = snd (mem_act (mem_of d) a)"
    by simp_all
qed

section \<open>Threads alone and in turn\<close>

primrec solo :: "'a program \<Rightarrow> 'a list list \<Rightarrow> 'a list list" where
  "solo Gone m = m"
| "solo Return m = m"
| "solo (Panic message) m = m"
| "solo (Do a k) m =
     (case fst (mem_act m a) of Inr r \<Rightarrow> solo (k r) (snd (mem_act m a)) | Inl p \<Rightarrow> snd (mem_act m a))"

definition in_turn :: "(thread_ctx \<Rightarrow> 'a program) \<Rightarrow> launch_plan \<Rightarrow> (nat \<times> nat) list \<Rightarrow> 'a list list \<Rightarrow> 'a list list" where
  "in_turn K p ws m = fold (\<lambda>(first, n). fold solo (wave_programs K p first n)) ws m"

lemma solo_after: "solo (after (Do a k) (fst (mem_act m a))) (snd (mem_act m a)) = solo (Do a k) m"
  by (simp add: after_def split: sum.split)

section \<open>Programs that share nothing\<close>

fun touched :: "'a dev_act \<Rightarrow> (nat \<times> nat) set" where
  "touched (DevAccess b i kind loc ord op) = {(b, i)}"
| "touched (DevClaim b i checked loc) = {(b, i)}"
| "touched (DevStore b i v) = {(b, i)}"
| "touched _ = {}"

text \<open>The answers an action can get.\<close>

fun answers :: "'a dev_act \<Rightarrow> 'a reply set" where
  "answers (DevAccess b i kind loc ord op) = insert Nothing (range Got)"
| "answers (DevClaim b i checked loc) = {Slot (Some i), Slot None, Nothing}"
| "answers _ = {Nothing}"

lemma mem_act_answers: "fst (mem_act m a) = Inr r \<Longrightarrow> r \<in> answers a"
  by (cases a) (auto split: if_splits sum.splits prod.splits)

primrec within :: "(nat \<times> nat) set \<Rightarrow> 'a program \<Rightarrow> bool" where
  "within own Gone \<longleftrightarrow> True"
| "within own Return \<longleftrightarrow> True"
| "within own (Panic message) \<longleftrightarrow> True"
| "within own (Do a k) \<longleftrightarrow> touched a \<subseteq> own \<and> (\<forall>r \<in> answers a. within own (k r))"

lemma put_same [simp]: "length (put b i v m ! b') = length (m ! b')"
  by (cases "b = b'"; cases "b < length m") (simp_all add: put_def list_update_beyond)

lemma put_other [simp]: "(b, i) \<noteq> (b', i') \<Longrightarrow> put b i v m ! b' ! i' = m ! b' ! i'"
  by (cases "b = b'"; cases "b < length m") (auto simp: put_def list_update_beyond)

lemma put_swap: "(b, i) \<noteq> (b', i') \<Longrightarrow> put b i v (put b' i' v' m) = put b' i' v' (put b i v m)"
  by (cases "b = b'"; cases "b < length m")
    (auto simp: put_def list_update_swap [of i i'] list_update_swap [of b b'] list_update_beyond)

lemma mem_act_commute:
  assumes "touched a \<inter> touched a' = {}"
  shows "fst (mem_act (snd (mem_act m a)) a') = fst (mem_act m a')"
    and "snd (mem_act (snd (mem_act m a)) a') = snd (mem_act (snd (mem_act m a')) a)"
  using assms by (cases a; cases a'; auto simp: put_swap split: sum.split prod.split)+

lemma solo_commute:
  assumes "within own g" and "touched a \<inter> own = {}"
  shows "solo g (snd (mem_act m a)) = snd (mem_act (solo g m) a) \<and> fst (mem_act (solo g m) a) = fst (mem_act m a)"
  using assms(1)
proof (induction g arbitrary: m)
  case (Do a' k)
  have dis: "touched a \<inter> touched a' = {}" using Do.prems assms(2) by auto
  note com = mem_act_commute [OF dis] mem_act_commute(1) [of a' a, OF dis [unfolded Int_commute [of "touched a"]]]
  show ?case
  proof (cases "fst (mem_act m a')")
    case (Inl p)
    then show ?thesis using com [of m] by simp
  next
    case (Inr r)
    have "within own (k r)" using Do.prems mem_act_answers [OF Inr] by simp
    from Do.IH [OF _ this, of "snd (mem_act m a')"] show ?thesis using Inr com [of m] by simp
  qed
qed simp_all

lemma fold_solo_commute:
  assumes "\<forall>g \<in> set gs. \<exists>own. within own g \<and> touched a \<inter> own = {}"
  shows "fold solo gs (snd (mem_act m a)) = snd (mem_act (fold solo gs m) a)
    \<and> fst (mem_act (fold solo gs m) a) = fst (mem_act m a)"
  using assms
proof (induction gs arbitrary: m)
  case (Cons g gs)
  then obtain own where "within own g" "touched a \<inter> own = {}" by auto
  from solo_commute [OF this, of m] Cons.IH [of "solo g m"] Cons.prems show ?case by simp
qed simp

text \<open>A step of one thread leaves what the threads in turn will make of the memory as it is.\<close>

lemma in_turn_step:
  assumes me: "me < length gs" and g: "gs ! me = Do a k"
    and dis: "\<forall>i < me. \<exists>own. within own (gs ! i) \<and> touched a \<inter> own = {}"
  shows "fold solo (gs[me := after (Do a k) (fst (mem_act m a))]) (snd (mem_act m a)) = fold solo gs m"
proof -
  have "\<forall>g \<in> set (take me gs). \<exists>own. within own g \<and> touched a \<inter> own = {}"
    using dis me by (auto simp: in_set_conv_nth)
  note com = fold_solo_commute [OF this, of m]
  let ?m = "fold solo (take me gs) m"
  have "fold solo (gs[me := after (Do a k) (fst (mem_act m a))]) (snd (mem_act m a))
      = fold solo (drop (Suc me) gs) (solo (after (Do a k) (fst (mem_act ?m a))) (snd (mem_act ?m a)))"
    using com me by (simp add: upd_conv_take_nth_drop)
  also have "\<dots> = fold solo (drop (Suc me) gs) (solo (gs ! me) ?m)" unfolding solo_after g ..
  also have "\<dots> = fold solo gs m" by (subst (3) id_take_nth_drop [OF me]) simp
  finally show ?thesis .
qed

end
