(* ===== verification/Kernel_Disjoint.thy ===== *)
theory Kernel_Disjoint
  imports Kernel_Memory
begin

text \<open>
  Kernels whose threads share no element. Under every schedule such a launch reports no race and leaves
  in memory what its threads would leave one after the other.
\<close>

section \<open>Sharing nothing\<close>

definition disjoint_kernel :: "(nat \<Rightarrow> (nat \<times> nat) set) \<Rightarrow> launch_plan \<Rightarrow> (thread_ctx \<Rightarrow> 'a program) \<Rightarrow> bool" where
  "disjoint_kernel own p K \<longleftrightarrow> (\<forall>t t'. t \<noteq> t' \<longrightarrow> own t \<inter> own t' = {})
     \<and> (\<forall>(first, n) \<in> set (wave_list p). \<forall>slot < n * lp_tpb p.
          within (own (first * lp_tpb p + slot)) (K (thread_ctx_of (lp_tpb p) first slot)))"

text \<open>The programs own what they touch, the memory is on its way, and the log says who touched what.\<close>

definition disjoint_inv ::
  "(nat \<Rightarrow> (nat \<times> nat) set) \<Rightarrow> launch_plan \<Rightarrow> (thread_ctx \<Rightarrow> 'a program) \<Rightarrow> 'a list list \<Rightarrow> 'a kernel_state \<Rightarrow> bool" where
  "disjoint_inv own p K result s \<longleftrightarrow>
     (\<forall>i < length (kr_progs s). within (own (dv_first (kr_dev s) * lp_tpb p + i)) (kr_progs s ! i))
     \<and> in_turn K p (dv_waves (kr_dev s)) (fold solo (kr_progs s) (mem_of (kr_dev s))) = result
     \<and> (\<forall>x \<in> set (dv_log (kr_dev s)). (lg_buf x, lg_index x) \<in> own (acc_gid p (lg_access x)))"

lemma fold_solo_update:
  assumes "i < length gs" and "solo g = solo (gs ! i)"
  shows "fold solo (gs[i := g]) m = fold solo gs m"
proof -
  have "fold solo hs m = fold (\<lambda>f. f) (map solo hs) m" for hs :: "'a program list" by (simp add: fold_map comp_def)
  moreover have "map solo (gs[i := g]) = map solo gs" using assms by (simp add: map_update list_update_same_conv)
  ultimately show ?thesis by metis
qed

text \<open>What an action adds to the log.\<close>

lemma dev_exec_log:
  assumes su: "launch_setup checks c = Inr p" and base: "dev_base sp c p lid lens d"
    and run: "\<not> st_aborted (ls_st (dv_launch d))" and turn: "st_current (ls_st (dv_launch d)) = Some me"
    and x: "x \<in> set (dv_log (dev_exec sp d me a))"
  shows "x \<in> set (dv_log d) \<or> (lg_buf x, lg_index x) \<in> touched a \<and> acc_gid p (lg_access x) = dv_first d * lp_tpb p + me"
proof -
  obtain n where w: "in_wave p d n" using base by (auto simp: dev_base_def)
  note v = dev_ctx_values [OF su w acting_thread(1) [OF su base w run turn]]
  have gid: "unat (tc_block (dev_ctx d me)) * lp_tpb p + unat (tc_thread (dev_ctx d me)) = dv_first d * lp_tpb p + me"
    using v(1,2) by (simp add: distrib_right)
  show ?thesis
  proof (cases a)
    case (DevAccess b i kind loc ord op)
    obtain acc now l1 where acc: "access_of (dev_ctx d me) kind loc ord (dv_launch d) (dev_cell sp d b i) = (acc, now, l1)"
      by (rule prod_cases3)
    show ?thesis
      using x DevAccess access_of_fields(6,7) [OF acc] gid
      by (auto simp: Let_def acc acc_gid_def split: prod.splits if_splits)
  next
    case (DevClaim b i checked loc)
    then show ?thesis
      using x gid by (auto simp: Let_def acc_gid_def split: prod.splits if_splits)
  qed (use x in simp_all)
qed

lemma next_act_other:
  assumes "next_act d me g = Some a" and "\<And>k. g \<noteq> Do a k"
  shows "mem_act m a = (Inr Nothing, m)" and "touched a = {}" and "solo (after g r) = solo g"
  using assms by (cases g; auto simp: next_act_def after_def fun_eq_iff)+

lemma after_within:
  assumes "within own g" and "next_act d me g = Some a"
  shows "within own (after g (fst (mem_act m a)))"
  using assms mem_act_answers [of m a] by (cases g) (auto simp: next_act_def after_def split: sum.split)

lemma disjoint_act:
  assumes su: "launch_setup checks c = Inr p" and base: "dev_base sp c p lid lens (kr_dev s)"
    and dis: "disjoint_kernel own p K" and inv: "disjoint_inv own p K result s"
    and run: "\<not> st_aborted (ls_st (dv_launch (kr_dev s)))" and turn: "st_current (ls_st (dv_launch (kr_dev s))) = Some me"
    and me: "me < length (kr_progs s)" and g: "next_act (kr_dev s) me (kr_progs s ! me) = Some a"
    and ok: "dev_act_ok sp (kr_dev s) me a"
    and s': "s' = s\<lparr>kr_dev := dev_exec sp (kr_dev s) me a,
       kr_progs := (kr_progs s)[me := after (kr_progs s ! me) (dev_reply sp (kr_dev s) me a)]\<rparr>"
  shows "disjoint_inv own p K result s'"
proof -
  let ?d = "kr_dev s" and ?m = "mem_of (kr_dev s)" and ?gs = "kr_progs s"
  let ?base = "dv_first ?d * lp_tpb p"
  note mem = dev_exec_mem [OF ok]
  have first: "dv_first (dev_exec sp ?d me a) = dv_first ?d"
    by (cases a) (simp_all add: Let_def split: prod.split)
  have own: "within (own (?base + i)) (?gs ! i)" if "i < length ?gs" for i using inv that by (simp add: disjoint_inv_def)
  have touched: "touched a \<subseteq> own (?base + me)"
  proof (cases "\<exists>k. ?gs ! me = Do a k")
    case True
    then show ?thesis using own [OF me] by auto
  next
    case False
    then show ?thesis using next_act_other(2) [OF g] by blast
  qed
  have "fold solo (?gs[me := after (?gs ! me) (dev_reply sp ?d me a)]) (mem_of (dev_exec sp ?d me a)) = fold solo ?gs ?m"
  proof (cases "\<exists>k. ?gs ! me = Do a k")
    case True
    then obtain k where k: "?gs ! me = Do a k" ..
    have "within (own (?base + i)) (?gs ! i) \<and> touched a \<inter> own (?base + i) = {}" if i: "i < me" for i
    proof -
      have "own (?base + me) \<inter> own (?base + i) = {}"
        using dis i unfolding disjoint_kernel_def by (metis add_left_cancel less_irrefl)
      then show ?thesis using touched own [of i] i me by auto
    qed
    then show ?thesis using in_turn_step [OF me k, of ?m] unfolding mem k by blast
  next
    case False
    then have "\<And>k. ?gs ! me \<noteq> Do a k" by blast
    note other = next_act_other [OF g this]
    show ?thesis using fold_solo_update [OF me other(3)] other(1) unfolding mem by simp
  qed
  moreover have "within (own (?base + i)) (?gs[me := after (?gs ! me) (dev_reply sp ?d me a)] ! i)" if "i < length ?gs" for i
    using own [OF that] after_within [OF _ g] me unfolding mem by (cases "i = me") simp_all
  moreover have "(lg_buf x, lg_index x) \<in> own (acc_gid p (lg_access x))" if "x \<in> set (dv_log (dev_exec sp ?d me a))" for x
    using dev_exec_log [OF su base run turn that] inv touched by (auto simp: disjoint_inv_def)
  ultimately show ?thesis using inv by (simp add: disjoint_inv_def s' first)
qed

lemma disjoint_wave:
  assumes dis: "disjoint_kernel own p K" and inv: "disjoint_inv own p K result s"
    and gone: "\<forall>g \<in> set (kr_progs s). g = Gone" and mem: "(first, n) \<in> set (wave_list p)"
    and w: "dv_waves (kr_dev s) = (first, n) # rest"
  shows "disjoint_inv own p K result (s\<lparr>kr_dev := dev_wave c p ch first n rest (kr_dev s),
     kr_progs := wave_programs K p first n, kr_wave := k\<rparr>)"
proof -
  have "fold solo gs m = m" if "\<forall>g \<in> set gs. g = Gone" for gs :: "'a program list" and m
    using that by (induction gs) auto
  then have "fold solo (kr_progs s) (mem_of (kr_dev s)) = mem_of (kr_dev s)" using gone by blast
  then show ?thesis
    using inv dis mem w by (auto simp: disjoint_inv_def dev_wave_def mem_of_def in_turn_def wave_programs_def disjoint_kernel_def)
qed

lemma disjoint_step:
  assumes su: "launch_setup checks c = Inr p" and kinv: "kernel_inv sp c p lid lens s"
    and dis: "disjoint_kernel own p K" and inv: "disjoint_inv own p K result s"
    and step: "kernel_step sp c p picks K s = Some s'"
  shows "disjoint_inv own p K result s'"
  using step
proof (cases rule: kernel_step_cases)
  case (act me a)
  have base: "dev_base sp c p lid lens (kr_dev s)" using kinv by (simp add: kernel_inv_def)
  show ?thesis by (rule disjoint_act [OF su base dis inv act])
next
  case (wave first n rest)
  have "(first, n) \<in> set (wave_list p)"
    using kinv wave(3) by (auto simp: kernel_inv_def dev_base_def in_wave_def)
  then show ?thesis
    unfolding wave(4) using disjoint_wave [OF dis inv kernel_inv_gone [OF kinv wave(1,2)] _ wave(3)] by blast
qed

lemma disjoint_run:
  assumes su: "launch_setup checks c = Inr p" and K: "kernel_ok sp (length lens) p K"
    and kinv: "kernel_inv sp c p lid lens s" and dis: "disjoint_kernel own p K" and inv: "disjoint_inv own p K result s"
  shows "disjoint_inv own p K result (kernel_run sp c p picks K s)"
  using kinv inv
proof (induction s rule: wf_induct_rule [OF wf_kernel_order])
  case (1 s)
  show ?case
  proof (cases "kernel_step sp c p picks K s")
    case None
    then show ?thesis using "1.prems" by (subst kernel_run.simps) simp
  next
    case (Some s')
    have eq: "kernel_run sp c p picks K s = kernel_run sp c p picks K s'" by (subst kernel_run.simps) (simp add: Some)
    show ?thesis
      unfolding eq
      by (rule "1.IH" [OF kernel_step_order [OF Some] kernel_step_inv(1) [OF su "1.prems"(1) K Some]
            disjoint_step [OF su "1.prems"(1) dis "1.prems"(2) Some]])
  qed
qed


lemma disjoint_begin:
  assumes set: "dev_setting sp checks c p lid bufs" and dis: "disjoint_kernel own p K"
  shows "disjoint_inv own p K (in_turn K p (wave_list p) (map in_data bufs)) (kernel_begin c p picks K lid bufs)"
proof -
  obtain first n rest where w: "wave_list p = (first, n) # rest"
    using wave_list_nonempty [OF launch_setup_ok] set unfolding dev_setting_def by (metis list.exhaust surj_pair)
  have "within (own (first * lp_tpb p + i)) (K (thread_ctx_of (lp_tpb p) first i))" if "i < n * lp_tpb p" for i
    using dis that by (auto simp: disjoint_kernel_def w)
  then show ?thesis
    by (auto simp: disjoint_inv_def kernel_begin_def dev_begin_def w mem_of_def in_turn_def wave_programs_def)
qed

section \<open>What such a launch does\<close>

lemma launch_kernel_run:
  assumes "launch_setup checks c = Inr p" and "launch_kernel sp checks c ch K lid bufs = Inr ((r, trace), s)"
  shows "s = kernel_run sp c p (wave_picks c ch) K (kernel_begin c p (wave_picks c ch) K lid bufs)"
    and "diagnostics r = rep_diags (w_rep (ls_world (dv_launch (kr_dev s))))"
    and "report_aborted r = st_aborted (ls_st (dv_launch (kr_dev s)))"
  using assms(2) by (auto simp: launch_kernel_def assms(1) Let_def reporter_take_def was_aborted_def ls_st_def)

lemma disjoint_no_race:
  assumes sound: "dev_sound sp c p lid lens d" and own: "\<forall>t t'. t \<noteq> t' \<longrightarrow> own t \<inter> own t' = {}"
    and log: "\<forall>x \<in> set (dv_log d). (lg_buf x, lg_index x) \<in> own (acc_gid p (lg_access x))"
    and f: "f \<in> set (rep_diags (w_rep (ls_world (dv_launch d))))"
  shows "\<not> is_race f"
proof
  assume "is_race f"
  then have "race_explained sp p d f" using sound f by (simp add: dev_sound_def dev_explained_def races_in_def)
  then obtain x y where xy: "x \<in> set (dv_log d)" "y \<in> set (dv_log d)" "unordered_pair p (dv_hist d) x y"
    unfolding race_explained_def by blast
  then have "(lg_buf x, lg_index x) = (lg_buf y, lg_index y)" "acc_gid p (lg_access x) \<noteq> acc_gid p (lg_access y)"
    by (auto simp: unordered_pair_def)
  then show False using log xy(1,2) own by (metis IntI empty_iff)
qed

lemma disjoint_result:
  assumes "dev_setting sp checks c p lid bufs" and "kernel_ok sp (length bufs) p K"
    and "disjoint_kernel own p K" and "launch_kernel sp checks c ch K lid bufs = Inr ((r, trace), s)"
  shows "(\<forall>f \<in> set (diagnostics r). \<not> is_race f)
    \<and> (\<not> report_aborted r \<longrightarrow>
         map to_vec (dv_bufs (kr_dev s)) = in_turn K p (wave_list p) (map to_vec bufs))"
proof -
  let ?picks = "wave_picks c ch" and ?result = "in_turn K p (wave_list p) (map in_data bufs)"
  have su: "launch_setup checks c = Inr p" using assms(1) by (simp add: dev_setting_def)
  have K: "kernel_ok sp (length (buf_lens bufs)) p K" using assms(2) by (simp add: buf_lens_def)
  note eq = launch_kernel_run [OF su assms(4)]
  note b0 = kernel_begin_inv [OF assms(1,2), of ?picks]
  note run = kernel_run_inv [OF su K b0(1), of ?picks, folded eq(1)]
  have inv: "disjoint_inv own p K ?result s"
    unfolding eq(1) by (rule disjoint_run [OF su K b0(1) assms(3) disjoint_begin [OF assms(1,3)]])
  have "dev_reachable sp checks c p lid bufs (kr_dev s)"
    unfolding dev_reachable_def using assms(1) run b0(2) by metis
  from disjoint_no_race [OF reachable_sound [OF this], of own] have "\<forall>f \<in> set (diagnostics r). \<not> is_race f"
    using inv assms(3) by (auto simp: disjoint_inv_def disjoint_kernel_def eq(2))
  moreover have "map in_data (dv_bufs (kr_dev s)) = ?result" if "\<not> st_aborted (ls_st (dv_launch (kr_dev s)))"
  proof -
    have "dv_waves (kr_dev s) = []" and gone: "\<forall>g \<in> set (kr_progs s). g = Gone"
      using kernel_stop [OF su conjunct1 [OF run] conjunct2 [OF conjunct2 [OF run]] that] by simp_all
    moreover have "fold solo gs m = m" if "\<forall>g \<in> set gs. g = Gone" for gs :: "'a program list" and m
      using that by (induction gs) auto
    ultimately show ?thesis using inv by (simp add: disjoint_inv_def mem_of_def in_turn_def)
  qed
  ultimately show ?thesis by (simp add: eq(3) to_vec_def [abs_def])
qed


text \<open>Two threads of two blocks, each incrementing an element of its own.\<close>

definition own_kernel :: "thread_ctx \<Rightarrow> nat program" where
  "own_kernel ctx = Do (DevSched ActYield) (\<lambda>_.
     Do (DevAccess 0 (tc_gid ctx) Read (Location ''k.rs'' 2 9) None op_read) (\<lambda>r.
       case r of Got v \<Rightarrow> Do (DevSched ActYield) (\<lambda>_.
           Do (DevAccess 0 (tc_gid ctx) Write (Location ''k.rs'' 3 9) None (op_write (v + 1))) (\<lambda>_. Return))
       | _ \<Rightarrow> Return))"

lemma own_kernel_ok: "kernel_ok sp (Suc 0) p own_kernel"
  by (auto simp: kernel_ok_def own_kernel_def is_arrive_def op_read_def op_write_def split: prod.split reply.split)

lemma own_kernel_disjoint: "disjoint_kernel (\<lambda>t. {(0, t)}) duo_plan own_kernel"
  by (auto simp: disjoint_kernel_def own_kernel_def duo_plan_def wave_list_def thread_ctx_of_def Let_def
      numeral_2_eq_2 less_Suc_eq split: reply.split)


end
