(* ===== verification/Kernel_Calm.thy ===== *)
theory Kernel_Calm
  imports Kernel_Disjoint
begin

text \<open>
  Kernels that wait for nobody and stay within their buffers. Such a launch is never aborted, and if in
  addition its threads share nothing and it reads only what was initialised, its report is empty.
\<close>

section \<open>Calm programs\<close>

fun calm_act :: "nat list \<Rightarrow> 'a dev_act \<Rightarrow> bool" where
  "calm_act lens (DevAccess b i kind loc ord op) \<longleftrightarrow> i < lens ! b \<and> (\<forall>v. \<exists>x. op v = Inr x)"
| "calm_act lens (DevClaim b i checked loc) \<longleftrightarrow> i < lens ! b"
| "calm_act lens (DevStore b i v) \<longleftrightarrow> True"
| "calm_act lens (DevFence ord) \<longleftrightarrow> True"
| "calm_act lens (DevArrive loc) \<longleftrightarrow> False"
| "calm_act lens DevDepart \<longleftrightarrow> False"
| "calm_act lens (DevSched a) \<longleftrightarrow> a = ActYield"

text \<open>The answers it then gets.\<close>

fun calm_answers :: "'a dev_act \<Rightarrow> 'a reply set" where
  "calm_answers (DevAccess b i kind loc ord op) = range Got"
| "calm_answers (DevClaim b i checked loc) = {Slot (Some i)}"
| "calm_answers _ = {Nothing}"

primrec calm :: "nat list \<Rightarrow> 'a program \<Rightarrow> bool" where
  "calm lens Gone \<longleftrightarrow> True"
| "calm lens Return \<longleftrightarrow> True"
| "calm lens (Panic message) \<longleftrightarrow> False"
| "calm lens (Do a k) \<longleftrightarrow> calm_act lens a \<and> (\<forall>r \<in> calm_answers a. calm lens (k r))"

definition calm_kernel :: "nat list \<Rightarrow> launch_plan \<Rightarrow> (thread_ctx \<Rightarrow> 'a program) \<Rightarrow> bool" where
  "calm_kernel lens p K \<longleftrightarrow> (\<forall>(first, n) \<in> set (wave_list p). \<forall>slot < n * lp_tpb p.
     calm lens (K (thread_ctx_of (lp_tpb p) first slot)))"

lemma calm_reply:
  assumes "calm_act lens a" and "bufs_ok lens (dv_bufs d)" and ok: "dev_act_ok sp d me a"
  shows "\<exists>r \<in> calm_answers a. dev_reply sp d me a = Inr r"
proof (cases a)
  case (DevAccess b i kind loc ord op)
  then have b: "b < length (dv_bufs d)" "i < length (in_data (dv_bufs d ! b))" "\<exists>x. op (in_data (dv_bufs d ! b) ! i) = Inr x"
    using assms bufs_ok_nth [OF assms(2)] by auto
  then show ?thesis using access_mem [OF b(1), of sp me i kind loc ord op] DevAccess
    by (auto simp: mem_of_def split: prod.split)
next
  case (DevClaim b i checked loc)
  then obtain name where b: "b < length (dv_bufs d)" "sp ! b = Global name" using ok by auto
  then show ?thesis using claim_mem [OF b, of me i checked loc] DevClaim assms bufs_ok_nth [OF assms(2)]
    by (simp add: mem_of_def)
qed simp_all

lemma calm_after:
  assumes "calm lens g" and "bufs_ok lens (dv_bufs d)" and "next_act d me g = Some a" and "dev_act_ok sp d me a"
  shows "calm lens (after g (dev_reply sp d me a))"
    and "a = DevSched ActFinish \<and> g = Return \<or> calm_act lens a \<and> (\<exists>k. g = Do a k)"
  using assms calm_reply [OF _ assms(2,4)]
  by (cases g; force simp: next_act_def after_def)+

section \<open>Nothing aborts it\<close>

definition nobody_waits :: "sched_state \<Rightarrow> bool" where
  "nobody_waits s \<longleftrightarrow> \<not> st_aborted s \<and> (\<forall>st \<in> set (st_status s). st = Runnable \<or> st = Finished)
     \<and> (\<forall>n \<in> set (st_barrier_gen s) \<union> set (st_warp_gen s). n = 0)"

lemma nobody_waits_init: "nobody_waits (sched_init cfg ch)"
  by (simp add: nobody_waits_def sched_init_status) (auto simp: sched_init_def Let_def)

lemma calm_finish:
  assumes ok: "cfg_ok cfg" and wok: "world_ok cfg w" and calm: "nobody_waits (w_st w)"
    and turn: "st_current (w_st w) = Some me"
  shows "nobody_waits (w_st (finish cfg w me))" and "w_rep (finish cfg w me) = w_rep w"
proof -
  have run: "\<not> st_aborted (w_st w)" using calm by (simp add: nobody_waits_def)
  have core: "core_ok cfg (w_st w)" and me: "me < total_threads cfg" "st_status (w_st w) ! me = Runnable"
    using wok run turn by (auto simp: world_ok_def turn_ok_def)
  have base: "base_ok cfg (w_st w)" using core by (simp add: core_ok_def)
  define s1 where "s1 = (w_st w)\<lparr>st_status := (st_status (w_st w))[me := Finished]\<rparr>"
  have base1: "base_ok cfg s1" by (rule finish_base [OF ok base me s1_def])
  have len: "length (st_status s1) = total_threads cfg" by (rule shape_lengths [OF base1])
  have calm1: "\<forall>st \<in> set (st_status s1). st = Runnable \<or> st = Finished"
    using calm set_update_subset_insert [of "st_status (w_st w)" me Finished] by (auto simp: s1_def nobody_waits_def)
  have stat: "st_status s1 ! i = Runnable \<or> st_status s1 ! i = Finished" if "i < total_threads cfg" for i
    using calm1 that len by (metis nth_mem)
  have in_block: "block_of cfg i = block_of cfg me \<Longrightarrow> i < total_threads cfg" for i
    using block_of_less_iff [OF ok, of i] block_of_less_iff [OF ok, of me] me(1) by simp
  have "\<not> abandoned cfg s1 (block_of cfg me) (warp_of cfg me) (lane_of cfg me) l"
    if "l < lanes_in cfg (warp_of cfg me)" for l
  proof -
    have "mates cfg me (warp_base cfg (block_of cfg me) (warp_of cfg me) + l)"
      using lane_coords [OF ok that] by (simp add: mates_def)
    from stat [OF mates_less [OF ok this me(1)]] show ?thesis by (auto simp: abandoned_def Let_def)
  qed
  then have none: "find (abandoned cfg s1 (block_of cfg me) (warp_of cfg me) (lane_of cfg me))
      [0..<lanes_in cfg (warp_of cfg me)] = None" by (simp add: find_None_iff)
  have bar: "\<not> list_ex (\<lambda>i. st_status s1 ! i = AtBarrier) (block_range cfg (block_of cfg me))"
    using stat in_block by (force simp: list_ex_iff set_block_range [OF ok])
  have stuck: "\<not> (st_current (pick_next s1) = None \<and> list_ex (\<lambda>st. st \<noteq> Finished) (st_status s1))"
    using pick_next_None [OF base1] stat len by (auto simp: list_ex_iff in_set_conv_nth)
  have eq: "finish cfg w me = wake cfg (w\<lparr>w_st := pick_next s1\<rparr>)"
    unfolding finish_unfold [OF s1_def] none using bar stuck by auto
  show "nobody_waits (w_st (finish cfg w me))" "w_rep (finish cfg w me) = w_rep w"
    using run calm calm1 by (simp_all add: eq nobody_waits_def) (simp_all add: s1_def)
qed

text \<open>What such a launch can find: nothing but races, as long as every element is initialised.\<close>

definition initialised_device :: "mem_space list \<Rightarrow> nat list \<Rightarrow> 'a device \<Rightarrow> bool" where
  "initialised_device sp lens d \<longleftrightarrow> (\<forall>b < length lens. \<forall>i < lens ! b. cell_init (dev_cell sp d b i))"

definition only_races :: "mem_space list \<Rightarrow> nat list \<Rightarrow> 'a device \<Rightarrow> bool" where
  "only_races sp lens d \<longleftrightarrow> initialised_device sp lens d
     \<and> (\<forall>f \<in> set (rep_diags (w_rep (ls_world (dv_launch d)))). is_race f)"

definition calm_inv :: "bool \<Rightarrow> mem_space list \<Rightarrow> nat list \<Rightarrow> 'a kernel_state \<Rightarrow> bool" where
  "calm_inv ini sp lens s \<longleftrightarrow> (\<forall>g \<in> set (kr_progs s). calm lens g)
     \<and> nobody_waits (ls_st (dv_launch (kr_dev s))) \<and> (ini \<longrightarrow> only_races sp lens (kr_dev s))"

lemma findings_initialised:
  "cell_init cell \<Longrightarrow> \<forall>f \<in> set (findings_of space i c kind loc ord l cell). is_race f"
  by (auto simp: findings_of_def is_race_def Let_def split: option.splits)

lemma pushed_races:
  assumes "\<forall>f \<in> set (rep_diags r). P f" and "\<forall>f \<in> set ds. P f"
  shows "\<forall>f \<in> set (rep_diags (foldl reporter_push r ds)). P f"
  using assms
proof (induction ds arbitrary: r)
  case (Cons d ds)
  have "\<forall>f \<in> set (rep_diags (reporter_push r d)). P f" using Cons.prems by (auto simp: reporter_push_def Let_def)
  then show ?case using Cons.IH Cons.prems(2) by simp
qed simp


lemma calm_touch:
  assumes "calm_act lens a" and ok: "dev_act_ok sp d me a" and bufs: "bufs_ok lens (dv_bufs d)"
  obtains (touch) b i kind loc ord stored data where "b < length (dv_bufs d)" "i < length (in_data (dv_bufs d ! b))"
      "dev_exec sp d me a = dev_touch sp d me b i kind loc ord stored data"
    | (store) b i v where "a = DevStore b i v"
    | (fence) ord where "a = DevFence ord"
    | (yield) "a = DevSched ActYield"
proof (cases a)
  case (DevAccess b i kind loc ord op)
  then have b: "b < length (dv_bufs d)" "i < length (in_data (dv_bufs d ! b))"
    using assms bufs_ok_nth [OF bufs] by auto
  then show ?thesis using dev_access_in [OF b(2), of op sp me kind loc ord] touch [OF b] DevAccess by blast
next
  case (DevClaim b i checked loc)
  then obtain name where b: "b < length (dv_bufs d)" "i < length (in_data (dv_bufs d ! b))" "sp ! b = Global name"
    using assms bufs_ok_nth [OF bufs] by auto
  then show ?thesis using dev_claim [OF b(3), of d me i checked loc] touch [OF b(1,2)] DevClaim by simp
qed (use assms that in simp_all)

lemma calm_act_inv:
  assumes su: "launch_setup checks c = Inr p" and base: "dev_base sp c p lid lens (kr_dev s)"
    and inv: "calm_inv ini sp lens s"
    and turn: "st_current (ls_st (dv_launch (kr_dev s))) = Some me" and me: "me < length (kr_progs s)"
    and g: "next_act (kr_dev s) me (kr_progs s ! me) = Some a" and ok: "dev_act_ok sp (kr_dev s) me a"
    and s': "s' = s\<lparr>kr_dev := dev_exec sp (kr_dev s) me a,
       kr_progs := (kr_progs s)[me := after (kr_progs s ! me) (dev_reply sp (kr_dev s) me a)]\<rparr>"
  shows "calm_inv ini sp lens s'"
proof -
  let ?d = "kr_dev s" and ?d' = "dev_exec sp (kr_dev s) me a"
  obtain n where w: "in_wave p ?d n" using base by (auto simp: dev_base_def)
  have bufs: "bufs_ok lens (dv_bufs ?d)" and wok: "world_ok (ls_sched (dv_launch ?d)) (ls_world (dv_launch ?d))"
    using base by (simp_all add: dev_base_def)
  have lens: "length (dv_bufs ?d) = length lens" using bufs by (auto simp: bufs_ok_def)
  have calm: "calm lens (kr_progs s ! me)" and nw: "nobody_waits (ls_st (dv_launch ?d))"
    and races: "ini \<longrightarrow> only_races sp lens ?d"
    using inv me by (simp_all add: calm_inv_def)
  note step = calm_after [OF calm bufs g ok]
  have progs: "\<forall>g \<in> set (kr_progs s'). calm lens g"
    using inv step(1) set_update_subset_insert [of "kr_progs s" me] by (auto simp: calm_inv_def s')
  have frame: "nobody_waits (ls_st (dv_launch ?d')) \<and> (ini \<longrightarrow> only_races sp lens ?d')"
    if "nobody_waits (ls_st (dv_launch ?d'))" "w_rep (ls_world (dv_launch ?d')) = w_rep (ls_world (dv_launch ?d))"
      "\<And>b i. dev_cell sp ?d' b i = dev_cell sp ?d b i"
    using that races by (simp add: only_races_def initialised_device_def)
  have sched: "dev_cell sp (dev_exec sp ?d me (DevSched x)) b i = dev_cell sp ?d b i" for x b i
    by (rule dev_cell_cong) simp_all
  have "nobody_waits (ls_st (dv_launch ?d')) \<and> (ini \<longrightarrow> only_races sp lens ?d')"
    using step(2)
  proof
    assume "a = DevSched ActFinish \<and> kr_progs s ! me = Return"
    then have a: "a = DevSched ActFinish" by simp
    show ?thesis
      using calm_finish [OF in_wave_bounds(2) [OF su w] wok] nw turn sched [of ActFinish]
      unfolding a by (intro frame [unfolded a]) (simp_all add: ls_st_def)
  next
    assume "calm_act lens a \<and> (\<exists>k. kr_progs s ! me = Do a k)"
    then have "calm_act lens a" by simp
    then show ?thesis
      using ok bufs
    proof (cases rule: calm_touch)
      case (touch b i kind loc ord stored data)
      obtain acc now l1 where acc: "access_of (dev_ctx ?d me) kind loc ord (dv_launch ?d) (dev_cell sp ?d b i) = (acc, now, l1)"
        by (rule prod_cases3)
      note f = dev_touch_fields [OF acc touch(3)]
      have "only_races sp lens ?d'" if ini
      proof -
        have old: "initialised_device sp lens ?d" "\<forall>f \<in> set (rep_diags (w_rep (ls_world (dv_launch ?d)))). is_race f"
          using races that by (simp_all add: only_races_def)
        have "cell_init (dev_cell sp ?d b i)"
          using old(1) touch(1,2) lens bufs_ok_nth [OF bufs touch(1)] by (simp add: initialised_device_def)
        then have "\<forall>f \<in> set (rep_diags (w_rep (ls_world (dv_launch ?d')))). is_race f"
          unfolding f(6) using old(2) by (intro pushed_races) (use findings_initialised in auto)
        moreover have "initialised_device sp lens ?d'"
          using old(1) dev_cell_touch [OF bufs touch(1,2) _ touch(3)] lens
          by (auto simp: initialised_device_def cell_after_init)
        ultimately show ?thesis by (simp add: only_races_def)
      qed
      then show ?thesis using nw f(5) by (simp add: ls_st_def)
    next
      case (store b i v)
      then show ?thesis using nw dev_cell_store [of sp ?d me b i v] by (intro frame) simp_all
    next
      case (fence ord)
      have "dev_cell sp ?d' b i = dev_cell sp ?d b i" for b i by (rule dev_cell_cong) (simp_all add: fence)
      then show ?thesis using nw by (intro frame) (simp_all add: fence ls_st_def)
    next
      case yield
      have me': "me < total_threads (ls_sched (dv_launch ?d))" "st_status (w_st (ls_world (dv_launch ?d))) ! me = Runnable"
        "base_ok (ls_sched (dv_launch ?d)) (w_st (ls_world (dv_launch ?d)))"
        using wok turn nw by (auto simp: world_ok_def turn_ok_def nobody_waits_def ls_st_def)
      note quiet = hand_off_quiet [OF me'(3,1,2), of me]
      show ?thesis
        using nw quiet sched [of ActYield] unfolding yield
        by (intro frame [unfolded yield]) (simp_all add: yield_now_def nobody_waits_def ls_st_def)
    qed
  qed
  then show ?thesis using progs by (simp add: calm_inv_def s')
qed

lemma calm_step:
  assumes su: "launch_setup checks c = Inr p" and kinv: "kernel_inv sp c p lid lens s" and K: "calm_kernel lens p K"
    and inv: "calm_inv ini sp lens s" and step: "kernel_step sp c p picks K s = Some s'"
  shows "calm_inv ini sp lens s'"
  using step
proof (cases rule: kernel_step_cases)
  case (act me a)
  have base: "dev_base sp c p lid lens (kr_dev s)" using kinv by (simp add: kernel_inv_def)
  show ?thesis by (rule calm_act_inv [OF su base inv act(2-6)])
next
  case (wave first n rest)
  have "(first, n) \<in> set (wave_list p)" using kinv wave(3) by (auto simp: kernel_inv_def dev_base_def in_wave_def)
  then have "\<forall>g \<in> set (wave_programs K p first n). calm lens g" using K by (auto simp: calm_kernel_def wave_programs_def)
  moreover have "dev_cell sp (dev_wave c p ch first n rest (kr_dev s)) b i = dev_cell sp (kr_dev s) b i" for ch b i
    by (rule dev_cell_cong) (simp_all add: dev_wave_def wave_begin_def dev_shared_def Let_def)
  ultimately show ?thesis
    using inv nobody_waits_init unfolding wave(4) calm_inv_def only_races_def initialised_device_def
    by (simp add: dev_wave_def wave_begin_def dev_shared_def ls_st_def Let_def)
qed


lemma calm_run:
  assumes su: "launch_setup checks c = Inr p" and ok: "kernel_ok sp (length lens) p K"
    and kinv: "kernel_inv sp c p lid lens s" and K: "calm_kernel lens p K" and inv: "calm_inv ini sp lens s"
  shows "calm_inv ini sp lens (kernel_run sp c p picks K s)"
  using kinv inv
proof (induction s rule: wf_induct_rule [OF wf_kernel_order])
  case (1 s)
  show ?case
  proof (cases "kernel_step sp c p picks K s")
    case None
    then show ?thesis using "1.prems" by (subst kernel_run.simps) simp
  next
    case (Some s')
    have eq: "kernel_run sp c p picks K s = kernel_run sp c p picks K s'" by (subst kernel_run.simps) (simp add: Some)
    show ?thesis
      unfolding eq
      by (rule "1.IH" [OF kernel_step_order [OF Some] kernel_step_inv(1) [OF su "1.prems"(1) ok Some]
            calm_step [OF su "1.prems"(1) K "1.prems"(2) Some]])
  qed
qed

text \<open>Buffers of global memory with every element initialised.\<close>

definition ready :: "mem_space list \<Rightarrow> 'a instrumented list \<Rightarrow> bool" where
  "ready sp bufs \<longleftrightarrow> (\<forall>s \<in> set sp. \<exists>name. s = Global name) \<and> (\<forall>m \<in> set bufs. \<forall>c \<in> set (in_shadow m). cell_init c)"

lemma calm_begin:
  assumes set: "dev_setting sp checks c p lid bufs" and K: "calm_kernel (buf_lens bufs) p K" and ready: "ini \<longrightarrow> ready sp bufs"
  shows "calm_inv ini sp (buf_lens bufs) (kernel_begin c p picks K lid bufs)"
proof -
  obtain first n rest where w: "wave_list p = (first, n) # rest"
    using wave_list_nonempty [OF launch_setup_ok] set unfolding dev_setting_def by (metis list.exhaust surj_pair)
  have "\<forall>g \<in> set (wave_programs K p first n). calm (buf_lens bufs) g" using K by (auto simp: calm_kernel_def wave_programs_def w)
  moreover have "cell_init (dev_cell sp (dev_begin c p ch lid bufs) b i)"
    if ini and b: "b < length bufs" and i: "i < buf_lens bufs ! b" for ch b i
  proof -
    have ready: "ready sp bufs" using ready that(1) by simp
    have "b < length sp" using set b by (simp add: dev_setting_def)
    then obtain name where sp: "sp ! b = Global name" using ready nth_mem unfolding ready_def by blast
    have il: "i < length (in_shadow (bufs ! b))"
      using set b i by (auto simp: dev_setting_def buf_lens_def buf_len_def buf_ok_def)
    have "\<forall>c \<in> set (in_shadow (bufs ! b)). cell_init c" using ready nth_mem [OF b] by (simp add: ready_def)
    then have "cell_init (in_shadow (bufs ! b) ! i)" using nth_mem [OF il] by blast
    moreover have "dev_cell sp (dev_begin c p ch lid bufs) b i = in_shadow (enter_launch global_reset lid (bufs ! b)) ! i"
      by (simp add: dev_cell_def reset_of_def sp dev_begin_def w wave_begin_def launch_begin_def Let_def)
    ultimately show ?thesis using il
      by (simp add: enter_launch_def global_reset_def)
  qed
  ultimately show ?thesis
    by (simp add: calm_inv_def only_races_def initialised_device_def kernel_begin_def w buf_lens_def)
      (simp add: dev_begin_def w wave_begin_def launch_begin_def reporter_new_def ls_st_def nobody_waits_init Let_def)
qed

lemma calm_disjoint_result:
  assumes "dev_setting sp checks c p lid bufs" and "ready sp bufs" and "kernel_ok sp (length bufs) p K"
    and "calm_kernel (buf_lens bufs) p K" and "disjoint_kernel own p K"
  shows "\<exists>r trace s. launch_kernel sp checks c ch K lid bufs = Inr ((r, trace), s)
    \<and> is_clean r \<and> \<not> report_aborted r
    \<and> map to_vec (dv_bufs (kr_dev s)) = in_turn K p (wave_list p) (map to_vec bufs)"
proof -
  let ?picks = "wave_picks c ch"
  have su: "launch_setup checks c = Inr p" using assms(1) by (simp add: dev_setting_def)
  have K: "kernel_ok sp (length (buf_lens bufs)) p K" using assms(3) by (simp add: buf_lens_def)
  obtain r trace s where l: "launch_kernel sp checks c ch K lid bufs = Inr ((r, trace), s)"
    by (simp add: launch_kernel_def su Let_def)
  note eq = launch_kernel_run [OF su l] and b0 = kernel_begin_inv [OF assms(1,3), of ?picks]
  have "calm_inv True sp (buf_lens bufs) s"
    unfolding eq(1) by (rule calm_run [OF su K b0(1) assms(4) calm_begin [OF assms(1,4)]]) (simp add: assms(2))
  then have run: "\<not> report_aborted r" and races: "\<forall>f \<in> set (diagnostics r). is_race f"
    by (simp_all add: calm_inv_def only_races_def nobody_waits_def eq(2,3))
  have det: "(\<forall>f \<in> set (diagnostics r). \<not> is_race f)
    \<and> (\<not> report_aborted r \<longrightarrow> map to_vec (dv_bufs (kr_dev s)) = in_turn K p (wave_list p) (map to_vec bufs))"
    by (rule disjoint_result [OF assms(1,3,5) l])
  have "set (diagnostics r) = {}" using races det by auto
  then show ?thesis using l run det by (simp add: is_clean_def)
qed



text \<open>The two threads that increment an element of their own.\<close>

lemma own_kernel_calm: "calm_kernel [2] duo_plan own_kernel"
  by (auto simp: calm_kernel_def own_kernel_def duo_plan_def wave_list_def thread_ctx_of_def op_read_def op_write_def
      numeral_2_eq_2 less_Suc_eq)


end
