(* ===== verification/Kernel_Unsynced.thy ===== *)
theory Kernel_Unsynced
  imports Device_Unsynced Kernel_Calm
begin

text \<open>
  Kernels that never synchronise. If two of their threads are bound to touch one element, one of them to
  write it, a race is in the report under every seed, every plan and any number of waves: one launch is
  enough, whatever its schedule.
\<close>

section \<open>Programs\<close>

text \<open>No barrier, no fence, no atomic; \<open>L\<close> are the places the program reads at.\<close>

fun unsynced_act :: "location set \<Rightarrow> 'a dev_act \<Rightarrow> bool" where
  "unsynced_act L (DevAccess b i kind loc ord op) \<longleftrightarrow> ord = None \<and> (kind = Read \<longrightarrow> loc \<in> L)"
| "unsynced_act L (DevFence ord) \<longleftrightarrow> False"
| "unsynced_act L (DevArrive loc) \<longleftrightarrow> False"
| "unsynced_act L DevDepart \<longleftrightarrow> False"
| "unsynced_act L _ \<longleftrightarrow> True"

primrec unsynced :: "location set \<Rightarrow> 'a program \<Rightarrow> bool" where
  "unsynced L Gone \<longleftrightarrow> True"
| "unsynced L Return \<longleftrightarrow> True"
| "unsynced L (Panic message) \<longleftrightarrow> True"
| "unsynced L (Do a k) \<longleftrightarrow> unsynced_act L a \<and> (\<forall>r \<in> calm_answers a. unsynced L (k r))"

text \<open>An action every run of the program comes to, whatever the values it reads.\<close>

primrec bound_to :: "('a dev_act \<Rightarrow> bool) \<Rightarrow> 'a program \<Rightarrow> bool" where
  "bound_to P Gone \<longleftrightarrow> False"
| "bound_to P Return \<longleftrightarrow> False"
| "bound_to P (Panic message) \<longleftrightarrow> False"
| "bound_to P (Do a k) \<longleftrightarrow> P a \<or> (\<forall>r \<in> calm_answers a. bound_to P (k r))"

fun touches :: "nat \<Rightarrow> nat \<Rightarrow> bool \<Rightarrow> 'a dev_act \<Rightarrow> bool" where
  "touches b i w (DevAccess b' i' kind loc ord op) \<longleftrightarrow> b' = b \<and> i' = i \<and> (w \<longrightarrow> kind \<noteq> Read)"
| "touches b i w (DevClaim b' i' checked loc) \<longleftrightarrow> b' = b \<and> i' = i"
| "touches b i w _ \<longleftrightarrow> False"

definition unsynced_kernel :: "location set \<Rightarrow> launch_plan \<Rightarrow> (thread_ctx \<Rightarrow> 'a program) \<Rightarrow> bool" where
  "unsynced_kernel L p K \<longleftrightarrow> (\<forall>(first, n) \<in> set (wave_list p). \<forall>slot < n * lp_tpb p.
     unsynced L (K (thread_ctx_of (lp_tpb p) first slot)))"

text \<open>Thread number \<open>t\<close> of the grid, in one of the waves given.\<close>

definition due :: "launch_plan \<Rightarrow> (thread_ctx \<Rightarrow> 'a program) \<Rightarrow> ('a dev_act \<Rightarrow> bool) \<Rightarrow> nat \<Rightarrow> (nat \<times> nat) list \<Rightarrow> bool" where
  "due p K P t waves \<longleftrightarrow> (\<exists>(first, n) \<in> set waves. \<exists>slot < n * lp_tpb p.
     t = first * lp_tpb p + slot \<and> bound_to P (K (thread_ctx_of (lp_tpb p) first slot)))"

section \<open>What is owed is done\<close>

definition touched_by :: "launch_plan \<Rightarrow> 'a device \<Rightarrow> nat \<Rightarrow> nat \<Rightarrow> nat \<Rightarrow> bool \<Rightarrow> bool" where
  "touched_by p d t b i w \<longleftrightarrow> (\<exists>a \<in> elem_log d b i. acc_gid p a = t \<and> (w \<longrightarrow> acc_kind a \<noteq> Read))"

definition owed ::
  "launch_plan \<Rightarrow> (thread_ctx \<Rightarrow> 'a program) \<Rightarrow> nat \<Rightarrow> nat \<Rightarrow> nat \<Rightarrow> bool \<Rightarrow> 'a kernel_state \<Rightarrow> bool" where
  "owed p K t b i w s \<longleftrightarrow> touched_by p (kr_dev s) t b i w
     \<or> (\<exists>slot < length (kr_progs s). t = dv_first (kr_dev s) * lp_tpb p + slot
          \<and> bound_to (touches b i w) (kr_progs s ! slot))
     \<or> due p K (touches b i w) t (dv_waves (kr_dev s))"

lemma touched_by_grows:
  "dv_log d' = dv_log d @ ys \<Longrightarrow> touched_by p d t b i w \<Longrightarrow> touched_by p d' t b i w"
  by (auto simp: touched_by_def elem_log_def)

text \<open>What a calm action without synchronisation does to the history, the log and the cells.\<close>

lemma unsynced_effect:
  assumes calm: "calm_act lens a" and un: "unsynced_act L a" and ok: "dev_act_ok sp d me a" and bufs: "bufs_ok lens (dv_bufs d)"
  obtains (touch) b i kind loc data where "b < length (dv_bufs d)" "i < length (in_data (dv_bufs d ! b))"
      "me \<notin> dv_inside d" "kind \<noteq> Atomic" "kind = Read \<Longrightarrow> loc \<in> L" "dev_exec sp d me a = dev_touch sp d me b i kind loc None True data"
      "\<And>b' i' w. touches b' i' w a \<longleftrightarrow> b' = b \<and> i' = i \<and> (w \<longrightarrow> kind \<noteq> Read)"
    | (still) "dv_hist (dev_exec sp d me a) = dv_hist d" "dv_log (dev_exec sp d me a) = dv_log d"
      "\<And>b i. dev_cell sp (dev_exec sp d me a) b i = dev_cell sp d b i"
      "a = DevSched ActYield \<or> w_rep (ls_world (dv_launch (dev_exec sp d me a))) = w_rep (ls_world (dv_launch d))"
      "\<And>b i w. \<not> touches b i w a"
proof (cases a)
  case (DevAccess b i kind loc ord op)
  then have b: "b < length (dv_bufs d)" "i < length (in_data (dv_bufs d ! b))" and o1: "ord = None" "kind \<noteq> Atomic"
    and op: "\<forall>v. \<exists>x. op v = Inr x" and me: "me \<notin> dv_inside d" and L: "kind = Read \<Longrightarrow> loc \<in> L"
    using assms bufs_ok_nth [OF bufs] by auto
  obtain data where "dev_exec sp d me a = dev_touch sp d me b i kind loc None True data"
    using dev_access_in [OF b(2), of op sp me kind loc ord] op unfolding DevAccess o1 by auto
  then show ?thesis using touch [OF b me o1(2) L] DevAccess by auto
next
  case (DevClaim b i checked loc)
  then obtain name where b: "b < length (dv_bufs d)" "i < length (in_data (dv_bufs d ! b))" "sp ! b = Global name"
    and me: "me \<notin> dv_inside d"
    using assms bufs_ok_nth [OF bufs] by auto
  show ?thesis
    using touch [OF b(1,2) me, of Write loc "in_data (dv_bufs d ! b)"] dev_claim [OF b(3), of d me i checked loc] b(2) DevClaim by auto
next
  case (DevStore b i v)
  then show ?thesis using still dev_cell_store [of sp d me b i v] by simp
next
  case (DevSched x)
  have "dev_cell sp (dev_exec sp d me a) b i = dev_cell sp d b i" for b i
    by (rule dev_cell_cong) (simp_all add: DevSched)
  then show ?thesis using still DevSched calm by simp
qed (use calm un in simp_all)


lemma tick_only_touch:
  assumes "tick_only (dv_hist d)"
  shows "tick_only (tick_hist d me b i None)"
  using assms by (auto simp: tick_only_def tick_hist_def pre_hist_def acquire_ops_def)

text \<open>The epochs of an access are among those of its wave; before any barrier and any collective they are zero.\<close>

lemma access_gens:
  assumes act: "acting sp checks c p lid lens d me"
    and a: "access_of (dev_ctx d me) kind loc ord (dv_launch d) (dev_cell sp d b i) = (acc, now, l1)"
  shows "acc_epoch acc \<in> set (st_barrier_gen (ls_st (dv_launch d)))"
    and "acc_warp_epoch acc \<in> set (st_warp_gen (ls_st (dv_launch d)))"
proof -
  let ?cfg = "ls_sched (dv_launch d)" and ?st = "ls_st (dv_launch d)"
  have su: "launch_setup checks c = Inr p" and base: "dev_base sp c p lid lens d"
    using act by (simp_all add: acting_def dev_sound_def)
  obtain n where n: "Device_Inv.in_wave p d n" "me < n * lp_tpb p" by (rule acting_wave [OF act])
  note f = access_of_fields [OF a] and v = dev_ctx_values [OF su n] and w = in_wave_bounds [OF su n(1)]
  have conf: "ls_config (dv_launch d) = c" and wok: "world_ok ?cfg (ls_world (dv_launch d))"
    using base by (simp_all add: dev_base_def)
  have "unat (lc_warp_size c) = lp_warp_size p" using su by (auto simp: launch_setup_def Let_def)
  moreover have "sc_warp_size ?cfg = lp_warp_size p" "sc_blocks ?cfg = n"
    using n(1) by (simp_all add: Device_Inv.in_wave_def wave_sched_def sched_config_of_def)
  ultimately have "unat (warp_id (dv_launch d) (dev_ctx d me)) = warp_of ?cfg me"
    by (simp add: warp_id_def warp_size_def unat_div v(2) conf warp_of_def w(3))
  then have wi: "unat (warp_id (dv_launch d) (dev_ctx d me)) < sc_warps_per_block ?cfg" using warp_of_less [OF w(2)] by simp
  have blk: "wave_block (dv_launch d) (dev_ctx d me) = me div lp_tpb p" by (rule dev_wave_block [OF su conf])
  have core: "core_ok ?cfg ?st" using wok act by (simp add: world_ok_def ls_st_def acting_def)
  then have len: "length (st_barrier_gen ?st) = n" "length (st_warp_gen ?st) = n * sc_warps_per_block ?cfg"
    using shape_lengths [of ?cfg ?st] \<open>sc_blocks ?cfg = n\<close> by (simp_all add: core_ok_def)
  have "me div lp_tpb p * sc_warps_per_block ?cfg + unat (warp_id (dv_launch d) (dev_ctx d me)) < n * sc_warps_per_block ?cfg"
    using mult_le_mono1 [of "Suc (me div lp_tpb p)" n "sc_warps_per_block ?cfg"] v(7) wi by simp
  then show "acc_epoch acc \<in> set (st_barrier_gen ?st)" "acc_warp_epoch acc \<in> set (st_warp_gen ?st)"
    using v(7) len by (simp_all add: warp_gen_index_def f(8,10) epochs_def blk)
qed

lemma flat_access:
  assumes act: "acting sp checks c p lid lens d me" and nw: "nobody_waits (ls_st (dv_launch d))" and kind: "kind \<noteq> Atomic"
    and a: "access_of (dev_ctx d me) kind loc ord (dv_launch d) (dev_cell sp d b i) = (acc, now, l1)"
  shows "flat acc"
  using access_gens [OF act a] nw kind access_of_fields(5) [OF a] by (auto simp: flat_def nobody_waits_def)

text \<open>With nothing to order them, the rule only asks whether the threads differ.\<close>

lemma flat_rule:
  assumes act: "acting sp checks c p lid lens d me" and nw: "nobody_waits (ls_st (dv_launch d))"
    and b: "b < length (dv_bufs d)" and i: "i < length (in_data (dv_bufs d ! b))" and kind: "kind \<noteq> Atomic"
    and a: "access_of (dev_ctx d me) kind loc None (dv_launch d) (dev_cell sp d b i) = (acc, now, l1)"
    and tick: "tick_only (dv_hist d)" and x: "x \<in> set (dv_log d)" and flat: "flat (lg_access x)"
  shows "concurrent (lg_access x) acc now \<longleftrightarrow> acc_gid p (lg_access x) \<noteq> acc_gid p acc"
proof -
  have su: "launch_setup checks c = Inr p" and base: "dev_base sp c p lid lens d" and sy: "dev_synced sp p lens d"
    using act by (simp_all add: acting_def dev_sound_def)
  obtain n where n: "Device_Inv.in_wave p d n" "me < n * lp_tpb p" by (rule acting_wave [OF act])
  note cnt = access_counted [OF su base n sy b i a] and fa = flat_access [OF act nw kind a]
  let ?q = "length (pre_hist d me b i None)"
  have e: "log_entry_ok p lens (dv_hist d) x" using acting_entries [OF act] x by blast
  have at: "tick_hist d me b i None ! lg_pos x = OpTick (acc_gid p (lg_access x))"
    "tick_hist d me b i None ! ?q = OpTick (acc_gid p acc)"
    using e cnt(5) by (simp_all add: log_entry_ok_def tick_hist_def pre_hist_def nth_append)
  have free: "no_collective_between (lg_access x) acc" using flat fa by (simp add: no_collective_between_def flat_def)
  show ?thesis
    unfolding acting_rule [OF act b i a x free]
    using tick_only_hb [OF tick_only_touch [OF tick, of me b i], of "lg_pos x" ?q] at fa
    by (auto simp: flat_def)
qed


lemma cell_fits_cong:
  "cell_last_write c = cell_last_write c' \<Longrightarrow> cell_readers c = cell_readers c' \<Longrightarrow> cell_fits p E c = cell_fits p E c'"
  by (simp add: cell_fits_def)

lemma touch_fits:
  assumes act: "acting sp checks c p lid lens d me" and nw: "nobody_waits (ls_st (dv_launch d))"
    and b: "b < length (dv_bufs d)" and i: "i < length (in_data (dv_bufs d ! b))" and kind: "kind \<noteq> Atomic"
    and t: "d' = dev_touch sp d me b i kind loc None True data"
    and tick: "tick_only (dv_hist d)" and flat: "\<forall>x \<in> set (dv_log d). flat (lg_access x)"
    and fits: "cell_fits p (elem_log d b i) (dev_cell sp d b i)"
    and quiet: "\<forall>f \<in> set (findings_of (sp ! b) i (dev_ctx d me) kind loc None (dv_launch d) (dev_cell sp d b i)). \<not> is_race f"
  shows "cell_fits p (elem_log d' b i) (dev_cell sp d' b i)"
proof -
  let ?cell = "dev_cell sp d b i"
  obtain acc now l1 where a: "access_of (dev_ctx d me) kind loc None (dv_launch d) ?cell = (acc, now, l1)"
    by (rule prod_cases3)
  have su: "launch_setup checks c = Inr p" and base: "dev_base sp c p lid lens d" and sy: "dev_synced sp p lens d"
    using act by (simp_all add: acting_def dev_sound_def)
  have bufs: "bufs_ok lens (dv_bufs d)" using base by (simp add: dev_base_def)
  obtain n where n: "Device_Inv.in_wave p d n" "me < n * lp_tpb p" by (rule acting_wave [OF act])
  note own = access_counted(4) [OF su base n sy b i a] and fa = flat_access [OF act nw kind a]
  have k: "acc_kind acc = kind" by (rule access_of_fields(5) [OF a])
  have none: "fst (on_access ?cell acc now) = None"
  proof (rule ccontr)
    assume "fst (on_access ?cell acc now) \<noteq> None"
    then obtain w where "fst (on_access ?cell acc now) = Some w" by blast
    then have "DataRace (sp ! b) i w acc
        \<in> set (findings_of (sp ! b) i (dev_ctx d me) kind loc None (dv_launch d) ?cell)"
      by (auto simp: findings_of_def Let_def conflict_of_def a)
    then show False using quiet by (force simp: is_race_def)
  qed
  have known: "\<exists>x \<in> set (dv_log d). lg_access x = r"
    if "cell_last_write ?cell = Some r \<or> r \<in> set (cell_readers ?cell)" for r
    using acting_cell_ok [OF act b i] that by (auto simp: cell_ok_def elem_log_def)
  have rule: "concurrent r acc now \<longleftrightarrow> acc_gid p r \<noteq> acc_gid p acc"
    if "cell_last_write ?cell = Some r \<or> r \<in> set (cell_readers ?cell)" for r
    using known [OF that] flat_rule [OF act nw b i kind a tick] flat by blast
  have readers: "\<forall>r \<in> set (cell_readers ?cell). acc_own p r \<and> flat r"
    using known acting_entries [OF act] flat by (force simp: log_entry_ok_def)
  have new: "cell_fits p (insert acc (elem_log d b i)) (snd (on_access ?cell acc now))"
  proof (cases "kind = Read")
    case True
    then show ?thesis
      using fits_read [OF fits _ own fa readers rule] none by (simp add: on_access_def k)
  next
    case False
    then show ?thesis using fits_write [OF fits _ rule] none by (simp add: on_access_def k)
  qed
  have cell: "dev_cell sp d' b i = cell_after (dev_ctx d me) kind loc None True (dv_launch d) ?cell"
    using dev_cell_touch [OF bufs b i b t] by simp
  have log: "elem_log d' b i = insert acc (elem_log d b i)"
    using elem_log_snoc [OF dev_touch_fields(11) [OF a t]] by simp
  show ?thesis
    unfolding log cell using new cell_fits_cong [OF cell_after_fields [OF a, of True]] by simp
qed


section \<open>The invariant\<close>

text \<open>Such a launch can only report races and uninitialised reads, these once for each place.\<close>

definition places_known :: "location set \<Rightarrow> 'a device \<Rightarrow> bool" where
  "places_known L d \<longleftrightarrow> (\<forall>f \<in> set (rep_diags (w_rep (ls_world (dv_launch d)))).
     is_race f \<or> (\<exists>loc \<in> L. dedup_key_of f = (''uninit'', loc, None)))"

definition race_free :: "'a device \<Rightarrow> bool" where
  "race_free d \<longleftrightarrow> (\<forall>f \<in> set (rep_diags (w_rep (ls_world (dv_launch d)))). \<not> is_race f)"

definition unsynced_inv :: "location set \<Rightarrow> mem_space list \<Rightarrow> launch_plan \<Rightarrow> nat list \<Rightarrow> 'a kernel_state \<Rightarrow> bool" where
  "unsynced_inv L sp p lens s \<longleftrightarrow> (\<forall>g \<in> set (kr_progs s). unsynced L g) \<and> tick_only (dv_hist (kr_dev s))
     \<and> (\<forall>x \<in> set (dv_log (kr_dev s)). flat (lg_access x)) \<and> places_known L (kr_dev s)
     \<and> (race_free (kr_dev s) \<longrightarrow>
          (\<forall>b < length lens. \<forall>i < lens ! b. cell_fits p (elem_log (kr_dev s) b i) (dev_cell sp (kr_dev s) b i)))"

definition few_places :: "location set \<Rightarrow> bool" where
  "few_places L \<longleftrightarrow> finite L \<and> card L < max_diagnostics"

text \<open>So a report without a race has room.\<close>

lemma race_free_room:
  assumes "places_known L d" and "race_free d" and few: "few_places L" and rok: "reporter_ok (w_rep (ls_world (dv_launch d)))"
  shows "length (rep_diags (w_rep (ls_world (dv_launch d)))) < max_diagnostics"
proof -
  let ?ds = "rep_diags (w_rep (ls_world (dv_launch d)))"
  have "dedup_key_of ` set ?ds \<subseteq> (\<lambda>loc. (''uninit'', loc, None)) ` L"
    using assms(1,2) by (auto simp: places_known_def race_free_def)
  then have "card (dedup_key_of ` set ?ds) \<le> card L"
    using few surj_card_le [of L "dedup_key_of ` set ?ds"] by (simp add: few_places_def)
  moreover have "card (dedup_key_of ` set ?ds) = length ?ds"
    using rok distinct_card [of "map dedup_key_of ?ds"] by (simp add: reporter_ok_def)
  ultimately show ?thesis using few by (simp add: few_places_def)
qed

lemma race_free_before: "dev_grows d d' \<Longrightarrow> race_free d' \<Longrightarrow> race_free d"
  using grows_diags(1) unfolding dev_grows_def race_free_def by blast

lemma unsynced_touch:
  assumes act: "acting sp checks c p lid lens d me" and nw: "nobody_waits (ls_st (dv_launch d))"
    and b: "b < length (dv_bufs d)" and i: "i < length (in_data (dv_bufs d ! b))" and kind: "kind \<noteq> Atomic"
    and t: "d' = dev_touch sp d me b i kind loc None True data" and loc: "kind = Read \<Longrightarrow> loc \<in> L"
    and inv: "unsynced_inv L sp p lens (s\<lparr>kr_dev := d\<rparr>)" and gs: "\<forall>g \<in> set gs. unsynced L g"
    and few: "few_places L" and rok: "reporter_ok (w_rep (ls_world (dv_launch d')))"
  shows "unsynced_inv L sp p lens (s\<lparr>kr_dev := d', kr_progs := gs\<rparr>)"
    and "kind \<noteq> Read \<or> \<not> w \<Longrightarrow> touched_by p d' (dv_first d * lp_tpb p + me) b i w"
proof -
  obtain acc now l1 where a: "access_of (dev_ctx d me) kind loc None (dv_launch d) (dev_cell sp d b i) = (acc, now, l1)"
    by (rule prod_cases3)
  have su: "launch_setup checks c = Inr p" and base: "dev_base sp c p lid lens d" and sy: "dev_synced sp p lens d"
    using act by (simp_all add: acting_def dev_sound_def)
  have bufs: "bufs_ok lens (dv_bufs d)" and wok: "world_ok (ls_sched (dv_launch d)) (ls_world (dv_launch d))"
    using base by (simp_all add: dev_base_def)
  have lens: "length (dv_bufs d) = length lens" using bufs by (auto simp: bufs_ok_def)
  obtain n where n: "Device_Inv.in_wave p d n" "me < n * lp_tpb p" by (rule acting_wave [OF act])
  note f = dev_touch_fields [OF a t]
  have tick: "tick_only (dv_hist d)" and flat: "\<forall>x \<in> set (dv_log d). flat (lg_access x)"
    using inv by (simp_all add: unsynced_inv_def)
  have fa: "flat acc" by (rule flat_access [OF act nw kind a])
  let ?ds = "findings_of (sp ! b) i (dev_ctx d me) kind loc None (dv_launch d) (dev_cell sp d b i)"
  have rep: "w_rep (ls_world (dv_launch d')) = foldl reporter_push (w_rep (ls_world (dv_launch d))) ?ds" using f(6) by simp
  have grows: "dev_grows d d'" unfolding dev_grows_def rep by simp
  have al: "acc_loc acc = loc" using a ctx_access_fields(8) [of _ "dev_ctx d me" kind loc] unfolding access_of_def by (metis fst_conv)
  then have "is_race g \<or> (\<exists>loc \<in> L. dedup_key_of g = (''uninit'', loc, None))" if "g \<in> set ?ds" for g
    using that loc kind al unfolding findings_of_def a fst_conv Let_def
    by (cases kind) (auto simp: is_race_def split: option.splits if_splits)
  moreover have "places_known L d" using inv by (simp add: unsynced_inv_def)
  ultimately have places: "places_known L d'"
    using pushed_all [of "w_rep (ls_world (dv_launch d))" ?ds] unfolding places_known_def rep by (meson Un_iff subsetD)
  have "cell_fits p (elem_log d' b' i') (dev_cell sp d' b' i')"
    if free: "race_free d'" and bi: "b' < length lens" "i' < lens ! b'" for b' i'
  proof -
    have "\<not> is_race g" if "g \<in> set ?ds" for g
      using race_pushed_all [of "w_rep (ls_world (dv_launch d))", OF _ that] race_free_room [OF places free few rok] wok free
      by (auto simp: world_ok_def rep race_free_def)
    moreover have "cell_fits p (elem_log d b' i') (dev_cell sp d b' i')"
      using inv race_free_before [OF grows free] bi by (simp add: unsynced_inv_def)
    moreover have "elem_log d' b' i' = elem_log d b' i'" "dev_cell sp d' b' i' = dev_cell sp d b' i'" if "\<not> (b' = b \<and> i' = i)"
      using that elem_log_snoc [OF f(11), of b' i'] dev_cell_touch [OF bufs b i _ t, of b' i'] bi lens by auto
    ultimately show ?thesis
      using touch_fits [OF act nw b i kind t tick flat] by (cases "b' = b \<and> i' = i") auto
  qed
  then show "unsynced_inv L sp p lens (s\<lparr>kr_dev := d', kr_progs := gs\<rparr>)"
    using tick flat fa gs places by (auto simp: unsynced_inv_def f(10,11) tick_only_def access_ops_def)
  have "acc_gid p acc = dv_first d * lp_tpb p + me"
    using access_counted(5) [OF su base n sy b i a] dev_ctx_values(3) [OF su n] by simp
  then show "touched_by p d' (dv_first d * lp_tpb p + me) b i w" if "kind \<noteq> Read \<or> \<not> w"
    using that access_of_fields(5) [OF a] by (auto simp: touched_by_def elem_log_snoc [OF f(11)])
qed


lemma bound_after:
  assumes "bound_to P g" and "next_act d me g = Some a" and "calm lens g"
    and bufs: "bufs_ok lens (dv_bufs d)" and ok: "dev_act_ok sp d me a"
  shows "P a \<or> bound_to P (after g (dev_reply sp d me a))"
proof (cases g)
  case (Do a' k)
  then have a: "a' = a" "calm_act lens a" using assms by (simp_all add: next_act_def)
  obtain r where "r \<in> calm_answers a" "dev_reply sp d me a = Inr r" using calm_reply [OF a(2) bufs ok] by blast
  then show ?thesis using assms(1) Do a(1) by (auto simp: after_def)
qed (use assms in simp_all)

lemma unsynced_after:
  assumes "unsynced L g" and "next_act d me g = Some a" and "calm lens g" and "bufs_ok lens (dv_bufs d)" and "dev_act_ok sp d me a"
  shows "unsynced L (after g (dev_reply sp d me a))" and "a = DevSched ActFinish \<or> calm_act lens a \<and> unsynced_act L a"
  using assms calm_reply [OF _ assms(4,5)]
  by (cases g; force simp: next_act_def after_def)+

lemma unsynced_still:
  assumes inv: "unsynced_inv L sp p lens (s\<lparr>kr_dev := d\<rparr>)" and gs: "\<forall>g \<in> set gs. unsynced L g"
    and "dv_hist d' = dv_hist d" and "dv_log d' = dv_log d" and "\<And>b i. dev_cell sp d' b i = dev_cell sp d b i"
    and "w_rep (ls_world (dv_launch d')) = w_rep (ls_world (dv_launch d))"
  shows "unsynced_inv L sp p lens (s\<lparr>kr_dev := d', kr_progs := gs, kr_wave := k\<rparr>)"
  using inv gs by (auto simp: unsynced_inv_def elem_log_def places_known_def race_free_def assms(3-6))

text \<open>A thread of such a kernel that yields or returns reports nothing.\<close>

lemma quiet_sched:
  assumes su: "launch_setup checks c = Inr p" and base: "dev_base sp c p lid lens d" and nw: "nobody_waits (ls_st (dv_launch d))"
    and turn: "st_current (ls_st (dv_launch d)) = Some me" and x: "x = ActYield \<or> x = ActFinish"
  shows "w_rep (ls_world (dv_launch (dev_exec sp d me (DevSched x)))) = w_rep (ls_world (dv_launch d))"
proof -
  obtain n where w: "Device_Inv.in_wave p d n" using base by (auto simp: dev_base_def)
  have wok: "world_ok (ls_sched (dv_launch d)) (ls_world (dv_launch d))" using base by (simp add: dev_base_def)
  then have me: "me < total_threads (ls_sched (dv_launch d))" "st_status (w_st (ls_world (dv_launch d))) ! me = Runnable"
    "base_ok (ls_sched (dv_launch d)) (w_st (ls_world (dv_launch d)))"
    using turn nw by (auto simp: world_ok_def turn_ok_def nobody_waits_def ls_st_def)
  show ?thesis
    using x hand_off_quiet [OF me(3,1,2), of me] calm_finish(2) [OF in_wave_bounds(2) [OF su w] wok] nw turn
    by (auto simp: yield_now_def ls_st_def)
qed

lemma unsynced_act_inv:
  assumes reach: "dev_reachable sp checks c p lid bufs (kr_dev s)" and lens: "lens = buf_lens bufs"
    and calm: "calm_inv False sp lens s" and inv: "unsynced_inv L sp p lens s" and few: "few_places L"
    and run: "\<not> st_aborted (ls_st (dv_launch (kr_dev s)))"
    and turn: "st_current (ls_st (dv_launch (kr_dev s))) = Some me" and me: "me < length (kr_progs s)"
    and g: "next_act (kr_dev s) me (kr_progs s ! me) = Some a" and ok: "dev_act_ok sp (kr_dev s) me a"
    and s': "s' = s\<lparr>kr_dev := dev_exec sp (kr_dev s) me a,
       kr_progs := (kr_progs s)[me := after (kr_progs s ! me) (dev_reply sp (kr_dev s) me a)]\<rparr>"
  shows "unsynced_inv L sp p lens s' \<and> (owed p K t b i w s \<longrightarrow> owed p K t b i w s')"
proof -
  let ?d = "kr_dev s" and ?d' = "dev_exec sp (kr_dev s) me a" and ?g = "kr_progs s ! me"
  let ?g' = "after ?g (dev_reply sp ?d me a)"
  have bufs: "bufs_ok lens (dv_bufs ?d)" using reachable_base(2) [OF reach] lens by (simp add: dev_base_def)
  have cg: "calm lens ?g" "unsynced L ?g" using calm inv me by (simp_all add: calm_inv_def unsynced_inv_def)
  have nw: "nobody_waits (ls_st (dv_launch ?d))" using calm by (simp add: calm_inv_def)
  note quiet = quiet_sched [OF reachable_base [OF reach] nw turn]
  have "dev_reachable sp checks c p lid bufs ?d'"
    using reach dev_step.act [OF run turn ok] unfolding dev_reachable_def by (meson rtranclp.rtrancl_into_rtrancl)
  from reachable_base(2) [OF this] have rok: "reporter_ok (w_rep (ls_world (dv_launch ?d')))"
    by (simp add: dev_base_def world_ok_def)
  have gs: "\<forall>g \<in> set ((kr_progs s)[me := ?g']). unsynced L g"
    using inv unsynced_after(1) [OF cg(2) g cg(1) bufs ok] set_update_subset_insert [of "kr_progs s" me ?g']
    by (auto simp: unsynced_inv_def)
  have inv': "unsynced_inv L sp p lens (s\<lparr>kr_dev := ?d\<rparr>)" using inv by simp
  have frame: "dv_first ?d' = dv_first ?d" "dv_waves ?d' = dv_waves ?d" by (cases a; simp add: Let_def split: prod.split)+
  obtain ys where log: "dv_log ?d' = dv_log ?d @ ys"
    by (cases rule: dev_exec_adds [OF ok]) (metis dev_touch_fields(11) prod_cases3, simp)
  have pass: "owed p K t b i w s'"
    if "owed p K t b i w s" "touches b i w a \<Longrightarrow> touched_by p ?d' (dv_first ?d * lp_tpb p + me) b i w"
    using that bound_after [of "touches b i w" ?g ?d me a lens sp] g cg(1) bufs ok touched_by_grows [OF log] me
    unfolding owed_def s' by (simp add: frame nth_list_update) (metis nth_list_update)
  consider (fin) "a = DevSched ActFinish" | (calm) "calm_act lens a" "unsynced_act L a"
    using unsynced_after(2) [OF cg(2) g cg(1) bufs ok] by blast
  then show ?thesis
  proof cases
    case fin
    have "dev_cell sp ?d' b i = dev_cell sp ?d b i" for b i by (rule dev_cell_cong) (simp_all add: fin)
    then have "unsynced_inv L sp p lens s'"
      using unsynced_still [OF inv' gs, of ?d' "kr_wave s"] quiet [of ActFinish] by (simp add: s' fin)
    then show ?thesis using pass by (simp add: fin)
  next
    case calm
    show ?thesis
      using calm ok bufs
    proof (cases rule: unsynced_effect)
      case (touch b0 i0 kind loc data)
      have act: "acting sp checks c p lid lens ?d me" using reachable_acting(1) [OF reach run turn touch(3)] lens by simp
      note u = unsynced_touch [OF act nw touch(1,2,4,6,5) inv' gs few rok]
      show ?thesis using u(1) u(2) [of w] pass touch(7) by (auto simp: s')
    next
      case still
      have "unsynced_inv L sp p lens s'"
        using unsynced_still [OF inv' gs still(1-3), of "kr_wave s"] still(4) quiet [of ActYield] by (auto simp: s')
      then show ?thesis using pass still(5) by blast
    qed
  qed
qed


lemma unsynced_step:
  assumes reach: "dev_reachable sp checks c p lid bufs (kr_dev s)" and lens: "lens = buf_lens bufs"
    and kinv: "kernel_inv sp c p lid lens s" and K: "kernel_ok sp (length lens) p K" and un: "unsynced_kernel L p K"
    and calm: "calm_inv False sp lens s" and inv: "unsynced_inv L sp p lens s" and few: "few_places L"
    and step: "kernel_step sp c p picks K s = Some s'"
  shows "unsynced_inv L sp p lens s' \<and> (owed p K t b i w s \<longrightarrow> owed p K t b i w s')"
  using step
proof (cases rule: kernel_step_cases)
  case (act me a)
  then show ?thesis by (rule unsynced_act_inv [OF reach lens calm inv few])
next
  case (wave first n rest)
  define d' where "d' = dev_wave c p (picks (kr_wave s + 1)) first n rest (kr_dev s)"
  note wave = wave [folded d'_def]
  have mem: "(first, n) \<in> set (wave_list p)" using kinv wave(3) by (auto simp: kernel_inv_def dev_base_def Device_Inv.in_wave_def)
  then have gs: "\<forall>g \<in> set (wave_programs K p first n). unsynced L g" using un by (auto simp: unsynced_kernel_def wave_programs_def)
  have same: "dv_hist d' = dv_hist (kr_dev s)" "dv_log d' = dv_log (kr_dev s)"
    "dev_cell sp d' b i = dev_cell sp (kr_dev s) b i" "dv_first d' = first" "dv_waves d' = rest"
    "w_rep (ls_world (dv_launch d')) = w_rep (ls_world (dv_launch (kr_dev s)))" for b i
    by (simp_all add: d'_def dev_wave_def wave_begin_def dev_shared_def Let_def)
      (rule dev_cell_cong; simp add: d'_def dev_wave_def wave_begin_def dev_shared_def Let_def)
  have "unsynced_inv L sp p lens (s\<lparr>kr_dev := kr_dev s\<rparr>)" using inv by simp
  then have "unsynced_inv L sp p lens s'"
    unfolding wave(4) using unsynced_still [OF _ gs same(1-3) same(6)] by blast
  moreover have "owed p K t b i w s'" if o1: "owed p K t b i w s"
  proof -
    have gone: "\<forall>g \<in> set (kr_progs s). g = Gone" by (rule kernel_inv_gone [OF kinv wave(1,2)])
    have "\<not> bound_to P (kr_progs s ! slot)" if "slot < length (kr_progs s)" for P slot
      using gone nth_mem [OF that] by fastforce
    then have "touched_by p (kr_dev s) t b i w \<or> due p K (touches b i w) t (dv_waves (kr_dev s))"
      using o1 by (auto simp: owed_def)
    then show ?thesis
      using touched_by_grows [of d' "kr_dev s" "[]" p t b i w] wave(3,4)
      by (auto simp: owed_def due_def same wave_programs_def)
  qed
  ultimately show ?thesis by blast
qed

lemma unsynced_run:
  assumes set: "dev_setting sp checks c p lid bufs" and lens: "lens = buf_lens bufs"
    and K: "kernel_ok sp (length lens) p K" and cK: "calm_kernel lens p K" and un: "unsynced_kernel L p K" and few: "few_places L"
    and start: "(dev_step sp c p)\<^sup>*\<^sup>* (dev_begin c p (picks 0) lid bufs) (kr_dev s)"
    and "kernel_inv sp c p lid lens s" and "calm_inv False sp lens s" and "unsynced_inv L sp p lens s"
  shows "unsynced_inv L sp p lens (kernel_run sp c p picks K s)
    \<and> (owed p K t b i w s \<longrightarrow> owed p K t b i w (kernel_run sp c p picks K s))"
  using assms(7-10)
proof (induction s rule: wf_induct_rule [OF wf_kernel_order])
  case (1 s)
  have su: "launch_setup checks c = Inr p" using set by (simp add: dev_setting_def)
  show ?case
  proof (cases "kernel_step sp c p picks K s")
    case None
    then show ?thesis using "1.prems" by (subst (1 2) kernel_run.simps) simp
  next
    case (Some s')
    have eq: "kernel_run sp c p picks K s = kernel_run sp c p picks K s'" by (subst kernel_run.simps) (simp add: Some)
    note st = kernel_step_inv [OF su "1.prems"(2) K Some] and cs = calm_step [OF su "1.prems"(2) cK "1.prems"(3) Some]
    have reach: "dev_reachable sp checks c p lid bufs (kr_dev s)" using set "1.prems"(1) by (auto simp: dev_reachable_def)
    note us = unsynced_step [OF reach lens "1.prems"(2) K un "1.prems"(3,4) few Some]
    have "(dev_step sp c p)\<^sup>*\<^sup>* (dev_begin c p (picks 0) lid bufs) (kr_dev s')"
      using "1.prems"(1) st(2) by (rule rtranclp.rtrancl_into_rtrancl)
    from "1.IH" [OF kernel_step_order [OF Some] this st(1) cs] us show ?thesis unfolding eq by blast
  qed
qed

lemma unsynced_result:
  assumes "dev_setting sp checks c p lid bufs" and "few_places L" and "kernel_ok sp (length bufs) p K"
    and "calm_kernel (buf_lens bufs) p K" and "unsynced_kernel L p K"
    and "b < length bufs" and "i < buf_lens bufs ! b" and "t \<noteq> t'"
    and "due p K (touches b i True) t (wave_list p)" and "due p K (touches b i False) t' (wave_list p)"
  shows "\<exists>r trace s. launch_kernel sp checks c ch K lid bufs = Inr ((r, trace), s) \<and> has_race r \<and> \<not> report_aborted r"
proof -
  let ?picks = "wave_picks c ch" and ?s0 = "kernel_begin c p (wave_picks c ch) K lid bufs" and ?lens = "buf_lens bufs"
  have su: "launch_setup checks c = Inr p" using assms(1) by (simp add: dev_setting_def)
  have K: "kernel_ok sp (length ?lens) p K" using assms(3) by (simp add: buf_lens_def)
  obtain r trace s where l: "launch_kernel sp checks c ch K lid bufs = Inr ((r, trace), s)"
    by (simp add: launch_kernel_def su Let_def)
  note eq = launch_kernel_run [OF su l] and b0 = kernel_begin_inv [OF assms(1,3), of ?picks]
  note run = kernel_run_inv [OF su K b0(1), of ?picks, folded eq(1)]
  have c0: "calm_inv False sp ?lens ?s0" by (rule calm_begin [OF assms(1,4)]) simp
  have calm: "calm_inv False sp ?lens s"
    unfolding eq(1) by (rule calm_run [OF su K b0(1) assms(4) c0])
  then have quiet: "\<not> report_aborted r" by (simp add: calm_inv_def nobody_waits_def eq(3))
  obtain first n rest where w: "wave_list p = (first, n) # rest"
    using wave_list_nonempty [OF launch_setup_ok [OF su]] by (metis list.exhaust surj_pair)
  have start: "rep_diags (w_rep (ls_world (dv_launch (kr_dev ?s0)))) = []" "dv_hist (kr_dev ?s0) = []" "dv_log (kr_dev ?s0) = []" "dv_waves (kr_dev ?s0) = rest" "dv_first (kr_dev ?s0) = first"
    "kr_progs ?s0 = wave_programs K p first n"
    unfolding b0(2)
    by (simp_all add: dev_begin_def kernel_begin_def w wave_begin_def launch_begin_def reporter_new_def Let_def)
  have "cell_fits p {} (dev_cell sp (kr_dev ?s0) b' i')" if "b' < length ?lens" "i' < ?lens ! b'" for b' i'
    unfolding b0(2) using dev_begin_cells [OF assms(1), of b' i' "?picks 0"] that by (simp add: cell_fits_def buf_lens_def)
  then have u0: "unsynced_inv L sp p ?lens ?s0"
    using assms(5) by (auto simp: unsynced_inv_def start places_known_def tick_only_def elem_log_def unsynced_kernel_def w wave_programs_def)
  have owed0: "owed p K x b i v ?s0" if "due p K (touches b i v) x (wave_list p)" for x v
    using that by (auto simp: owed_def due_def start w wave_programs_def)
  have "(dev_step sp c p)\<^sup>*\<^sup>* (dev_begin c p (?picks 0) lid bufs) (kr_dev ?s0)" by (simp add: b0(2))
  note u = unsynced_run [where picks = ?picks, OF assms(1) refl K assms(4,5,2) this b0(1) c0 u0, folded eq(1)]
  have "\<not> st_aborted (ls_st (dv_launch (kr_dev s)))" using calm by (simp add: calm_inv_def nobody_waits_def)
  note stop = kernel_stop [OF su conjunct1 [OF run] conjunct2 [OF conjunct2 [OF run]] this]
  have done_: "touched_by p (kr_dev s) x b i v" if d0: "due p K (touches b i v) x (wave_list p)" for x v
  proof -
    have "\<not> bound_to P (kr_progs s ! slot)" if "slot < length (kr_progs s)" for P slot
      using stop nth_mem [OF that] by fastforce
    then show ?thesis using u [of x b i v] owed0 [OF d0] stop by (auto simp: owed_def due_def)
  qed
  obtain x y where xy: "x \<in> elem_log (kr_dev s) b i" "acc_gid p x = t" "acc_kind x \<noteq> Read"
    "y \<in> elem_log (kr_dev s) b i" "acc_gid p y = t'"
    using done_ [OF assms(9)] done_ [OF assms(10)] by (auto simp: touched_by_def)
  have "\<exists>f \<in> set (diagnostics r). is_race f"
  proof (rule ccontr)
    assume "\<not> (\<exists>f \<in> set (diagnostics r). is_race f)"
    then have "race_free (kr_dev s)" by (simp add: race_free_def eq(2))
    then have "cell_fits p (elem_log (kr_dev s) b i) (dev_cell sp (kr_dev s) b i)"
      using u assms(6,7) by (simp add: unsynced_inv_def buf_lens_def)
    from fits_no_conflict [OF this xy(1,4)] xy assms(8) show False by simp
  qed
  then have "has_race r" by (auto simp: has_race_def is_race_def list_ex_iff split: diagnostic.splits)
  then show ?thesis using l quiet by blast
qed



text \<open>Two threads of two blocks that write one element, under one seed for all of them.\<close>

lemma duo_kernel_calm: "calm_kernel [1] duo_plan duo_kernel" "unsynced_kernel {} duo_plan duo_kernel"
  by (auto simp: calm_kernel_def unsynced_kernel_def duo_kernel_def op_write_def)

lemma duo_kernel_due: "t < 2 \<Longrightarrow> due duo_plan duo_kernel (touches 0 0 w) t (wave_list duo_plan)"
  by (auto simp: due_def duo_kernel_def duo_plan_def wave_list_def Let_def less_Suc_eq numeral_2_eq_2)


end
