(* ===== verification/Kernel_Replay.thy ===== *)
theory Kernel_Replay
  imports Kernel_Calm Sched_Replay
begin

text \<open>
  Record and replay of a whole launch. \<open>Sched_Replay\<close> shows that a scheduler that follows a recorded trace
  goes through the same states when the threads do the same; here the threads are a kernel on instrumented
  memory, and the replayed launch gives the same report and leaves the same memory.
\<close>

section \<open>A launch that follows a plan\<close>

definition plan_launch :: "u32 list \<Rightarrow> launch_state \<Rightarrow> launch_state" where
  "plan_launch full l = l\<lparr>ls_world := with_plan full (ls_world l)\<rparr>"

definition dev_plan :: "u32 list \<Rightarrow> 'a device \<Rightarrow> 'a device" where
  "dev_plan full d = d\<lparr>dv_launch := plan_launch full (dv_launch d)\<rparr>"

lemma plan_launch_fields [simp]:
  "ls_id (plan_launch full l) = ls_id l" "ls_config (plan_launch full l) = ls_config l"
  "ls_sched (plan_launch full l) = ls_sched l" "ls_sync (plan_launch full l) = ls_sync l"
  "ls_world (plan_launch full l) = with_plan full (ls_world l)" "ls_st (plan_launch full l) = plan_state full (ls_st l)"
  by (simp_all add: plan_launch_def ls_st_def)

lemma dev_plan_fields [simp]:
  "dv_launch (dev_plan full d) = plan_launch full (dv_launch d)" "dv_first (dev_plan full d) = dv_first d"
  "dv_waves (dev_plan full d) = dv_waves d" "dv_bufs (dev_plan full d) = dv_bufs d"
  "dv_inside (dev_plan full d) = dv_inside d" "dv_hist (dev_plan full d) = dv_hist d" "dv_log (dev_plan full d) = dv_log d"
  by (simp_all add: dev_plan_def)

lemma plan_launch_commutes:
  "(plan_launch full l)\<lparr>ls_sync := s\<rparr> = plan_launch full (l\<lparr>ls_sync := s\<rparr>)"
  "(plan_launch full l)\<lparr>ls_world := with_plan full w\<rparr> = plan_launch full (l\<lparr>ls_world := w\<rparr>)"
  "ctx_report f (plan_launch full l) = plan_launch full (ctx_report f l)"
  "ctx_trap f (plan_launch full l) = plan_launch full (ctx_trap f l)"
  "acquire_from (plan_launch full l) c source o1 = plan_launch full (acquire_from l c source o1)"
  "release_into (plan_launch full l) c target o1 = release_into l c target o1"
  "ctx_fence (plan_launch full l) c o1 = plan_launch full (ctx_fence l c o1)"
  "sync_threads_leave (plan_launch full l) c = plan_launch full (sync_threads_leave l c)"
  by (simp_all add: plan_launch_def ctx_report_def ctx_trap_def abort_def plan_world_commutes acquire_from_def
      release_into_def ctx_fence_def sync_threads_leave_def)

lemma plan_places [simp]:
  "wave_block (plan_launch full l) c = wave_block l c" "warp_id (plan_launch full l) c = warp_id l c"
  "epochs cfg (plan_state full s) b w = epochs cfg s b w"
  by (simp_all add: wave_block_def block_count_def warp_id_def warp_size_def epochs_def)

lemma plan_ctx_access:
  assumes "ctx_access l c kind loc = (acc, now, l1)"
  shows "ctx_access (plan_launch full l) c kind loc = (acc, now, plan_launch full l1)"
  using assms by (auto simp: ctx_access_def plan_launch_commutes split: prod.splits)

lemma plan_elem_mut:
  assumes "elem_mut_body name c i checked loc l m = (r, l1, m1)"
  shows "elem_mut_body name c i checked loc (plan_launch full l) m = (r, plan_launch full l1, m1)"
proof -
  obtain acc now l2 where a: "ctx_access l c Write loc = (acc, now, l2)" by (rule prod_cases3)
  from assms show ?thesis
    unfolding elem_mut_body_def a plan_ctx_access [OF a] prod.case
    by (auto simp: Let_def plan_launch_commutes split: prod.splits option.splits if_splits)
qed

lemma plan_access:
  assumes "access_body space reset c i kind loc ord op l m = (r, l1, m1)"
  shows "access_body space reset c i kind loc ord op (plan_launch full l) m = (r, plan_launch full l1, m1)"
proof -
  let ?m = "enter_launch reset (ls_id l) m"
  define l0 where "l0 = (case ord of Some o1 \<Rightarrow> acquire_from l c (cell_release (in_shadow ?m ! i)) o1 | None \<Rightarrow> l)"
  have l0': "(case ord of Some o1 \<Rightarrow> acquire_from (plan_launch full l) c (cell_release (in_shadow ?m ! i)) o1
      | None \<Rightarrow> plan_launch full l) = plan_launch full l0"
    by (simp add: l0_def plan_launch_commutes split: option.split)
  obtain acc now l2 where a: "ctx_access l c kind loc = (acc, now, l2)" by (rule prod_cases3)
  obtain acc' now' l3 where b: "ctx_access l0 c kind loc = (acc', now', l3)" by (rule prod_cases3)
  obtain conflict cell where o1: "on_access (in_shadow ?m ! i) acc' now' = (conflict, cell)" by (rule prod.exhaust)
  show ?thesis
    using assms
    unfolding access_body_def Let_def plan_launch_fields l0' l0_def [symmetric] a b plan_ctx_access [OF a]
      plan_ctx_access [OF b] prod.case o1
    by (auto simp: plan_launch_commutes split: sum.splits option.splits if_splits)
qed

section \<open>Steps\<close>

lemma plan_dev [simp]:
  "dev_ctx (dev_plan full d) me = dev_ctx d me" "dev_cell sp (dev_plan full d) b i = dev_cell sp d b i"
  "elem_no (dev_plan full d) b i = elem_no d b i" "dev_act_ok sp (dev_plan full d) me a = dev_act_ok sp d me a"
  by (simp_all add: dev_ctx_def dev_cell_def elem_no_def) (cases a; simp)

lemma plan_next [simp]: "next_act (dev_plan full d) me g = next_act d me g"
  by (cases g) (simp_all add: next_act_def)

lemma plan_reply [simp]: "dev_reply sp (dev_plan full d) me a = dev_reply sp d me a"
proof (cases a)
  case (DevAccess b i kind loc ord op)
  obtain r l1 m1 where "access_body (sp ! b) (reset_of (sp ! b)) (dev_ctx d me) i kind loc ord op (dv_launch d) (dv_bufs d ! b)
      = (r, l1, m1)" by (rule prod_cases3)
  from plan_access [OF this, of full] this show ?thesis by (simp add: DevAccess)
next
  case (DevClaim b i checked loc)
  obtain r l1 m1 where "elem_mut_body (space_name (sp ! b)) (dev_ctx d me) i checked loc (dv_launch d) (dv_bufs d ! b)
      = (r, l1, m1)" by (rule prod_cases3)
  from plan_elem_mut [OF this, of full] this show ?thesis by (simp add: DevClaim)
qed simp_all

lemma plan_exec:
  assumes ok: "cfg_ok (ls_sched (dv_launch d))" and len: "length (st_status (ls_st (dv_launch d))) < 2 ^ 32"
    and slot: "tc_slot (dev_ctx d me) = me"
    and tr: "traced full (ls_st (dv_launch (dev_exec sp d me a)))"
  shows "dev_exec sp (dev_plan full d) me a = dev_plan full (dev_exec sp d me a)"
proof (cases a)
  case (DevAccess b i kind loc ord op)
  obtain r l1 m1 where x: "access_body (sp ! b) (reset_of (sp ! b)) (dev_ctx d me) i kind loc ord op (dv_launch d) (dv_bufs d ! b)
      = (r, l1, m1)" by (rule prod_cases3)
  obtain acc now l2 where "access_of (dev_ctx d me) kind loc ord (dv_launch d) (dev_cell sp d b i) = (acc, now, l2)"
    by (rule prod_cases3)
  moreover have "fst (access_of (dev_ctx d me) kind loc ord (plan_launch full (dv_launch d)) (dev_cell sp d b i)) = acc"
    using calculation plan_ctx_access
    by (cases ord) (auto simp: access_of_def acquired_def plan_launch_commutes dest!: plan_ctx_access [where full = full])
  ultimately show ?thesis
    using x plan_access [OF x, of full] by (simp add: DevAccess Let_def)
next
  case (DevClaim b i checked loc)
  obtain r l1 m1 where x: "elem_mut_body (space_name (sp ! b)) (dev_ctx d me) i checked loc (dv_launch d) (dv_bufs d ! b)
      = (r, l1, m1)" by (rule prod_cases3)
  obtain acc now l2 where y: "ctx_access (dv_launch d) (dev_ctx d me) Write loc = (acc, now, l2)" by (rule prod_cases3)
  show ?thesis
    using x y plan_elem_mut [OF x, of full] plan_ctx_access [OF y, of full]
    by (simp add: DevClaim Let_def)
next
  case (DevArrive loc)
  let ?l = "dv_launch d"
  have "sched_exec (ls_sched ?l) (with_plan full (ls_world ?l)) me (ActBarrier loc)
      = with_plan full (sched_exec (ls_sched ?l) (ls_world ?l) me (ActBarrier loc))"
    by (rule exec_plan [OF ok]) (use len tr slot in \<open>simp_all add: ls_st_def DevArrive\<close>)
  then have "fst (sync_threads_enter (plan_launch full ?l) (dev_ctx d me) loc) = plan_launch full (fst (sync_threads_enter ?l (dev_ctx d me) loc))"
    using slot by (simp add: sync_threads_enter_def Let_def plan_launch_def split_beta)
  then show ?thesis by (simp add: DevArrive)
next
  case (DevSched x)
  have "sched_exec (ls_sched (dv_launch d)) (with_plan full (ls_world (dv_launch d))) me x
      = with_plan full (sched_exec (ls_sched (dv_launch d)) (ls_world (dv_launch d)) me x)"
    by (rule exec_plan [OF ok]) (use len tr in \<open>simp_all add: ls_st_def DevSched\<close>)
  then show ?thesis by (simp add: DevSched plan_launch_commutes)
qed (simp_all add: plan_launch_commutes)


text \<open>Every action extends the trace by one decision at most.\<close>

lemma dev_exec_extends:
  assumes cfg: "cfg_ok (ls_sched (dv_launch d))" and ok: "dev_act_ok sp d me a"
  shows "extends 1 (ls_st (dv_launch d)) (ls_st (dv_launch (dev_exec sp d me a)))"
  using ok
proof (cases rule: dev_act_cases)
  case (touch b i kind loc ord stored data)
  obtain acc now l1 where a: "access_of (dev_ctx d me) kind loc ord (dv_launch d) (dev_cell sp d b i) = (acc, now, l1)"
    by (rule prod_cases3)
  show ?thesis using dev_touch_fields(5) [OF a touch(6)] by (simp add: ls_st_def)
next
  case (miss b i kind loc fatal)
  show ?thesis using dev_miss_fields(11) [OF miss(3)]
    by (auto simp: ls_st_def abort_def set_aborted_def wake_def push_finding_def extends_def)
next
  case (arrive loc)
  have "extends 1 (w_st (ls_world (dv_launch d)))
      (w_st (sched_exec (ls_sched (dv_launch d)) (ls_world (dv_launch d)) (tc_slot (dev_ctx d me)) (ActBarrier loc)))"
    by (rule exec_extends [OF cfg])
  then show ?thesis by (simp add: arrive ls_st_def sync_threads_enter_def Let_def split_beta)
next
  case (sched x)
  then show ?thesis using exec_extends [OF cfg, of "ls_world (dv_launch d)" me x] by (simp add: ls_st_def)
qed (simp_all add: ls_st_def ctx_fence_def sync_threads_leave_def)

section \<open>A whole launch\<close>

definition kr_plan :: "u32 list \<Rightarrow> 'a kernel_state \<Rightarrow> 'a kernel_state" where
  "kr_plan full s = s\<lparr>kr_dev := dev_plan full (kr_dev s)\<rparr>"

lemma kr_plan_fields [simp]:
  "kr_dev (kr_plan full s) = dev_plan full (kr_dev s)" "kr_progs (kr_plan full s) = kr_progs s"
  by (simp_all add: kr_plan_def)

lemma kernel_step_plan:
  assumes su: "launch_setup checks c = Inr p" and inv: "kernel_inv sp c p lid lens s"
    and last: "dv_waves (kr_dev s) = []" and step: "kernel_step sp c p picks K s = Some s'"
    and tr: "traced full (ls_st (dv_launch (kr_dev s')))"
  shows "kernel_step sp c p picks' K (kr_plan full s) = Some (kr_plan full s')"
    and "traced full (ls_st (dv_launch (kr_dev s)))" and "dv_waves (kr_dev s') = []"
proof -
  let ?d = "kr_dev s"
  have base: "dev_base sp c p lid lens ?d" using inv by (simp add: kernel_inv_def)
  obtain n where w: "in_wave p ?d n" using base by (auto simp: dev_base_def)
  note cfg = in_wave_bounds(2) [OF su w]
  have "base_ok (ls_sched (dv_launch ?d)) (w_st (ls_world (dv_launch ?d)))" using base by (simp add: dev_base_def world_ok_def)
  from shape_lengths(1) [OF this] have len: "length (st_status (ls_st (dv_launch ?d))) < 2 ^ 32"
    using cfg_okD(6) [OF cfg] by (simp add: ls_st_def)
  from step obtain me a where act: "\<not> st_aborted (ls_st (dv_launch ?d))"
      "st_current (ls_st (dv_launch ?d)) = Some me" "me < length (kr_progs s)"
      "next_act ?d me (kr_progs s ! me) = Some a" "dev_act_ok sp ?d me a"
      "s' = s\<lparr>kr_dev := dev_exec sp ?d me a, kr_progs := (kr_progs s)[me := after (kr_progs s ! me) (dev_reply sp ?d me a)]\<rparr>"
    by (cases rule: kernel_step_cases) (simp_all add: last)
  have slot: "tc_slot (dev_ctx ?d me) = me" by (simp add: dev_ctx_def thread_ctx_of_def Let_def)
  have tr': "traced full (ls_st (dv_launch (dev_exec sp ?d me a)))" using tr by (simp add: act(6))
  show "traced full (ls_st (dv_launch ?d))" by (rule extends_traced [OF dev_exec_extends [OF cfg act(5)] tr'])
  show "dv_waves (kr_dev s') = []" using last by (simp add: act(6))
  show "kernel_step sp c p picks' K (kr_plan full s) = Some (kr_plan full s')"
    using act(1-5) by (simp add: kernel_step_def Let_def nth_option_def plan_exec [OF cfg len slot tr'] act(6))
      (simp add: kr_plan_def)
qed

lemma kernel_stop_plan:
  assumes "kernel_step sp c p picks K s = None" and "dv_waves (kr_dev s) = []"
  shows "kernel_step sp c p picks' K (kr_plan full s) = None"
  using assms by (auto simp: kernel_step_def Let_def split: option.splits if_splits)

lemma kernel_run_plan:
  assumes su: "launch_setup checks c = Inr p" and K: "kernel_ok sp (length lens) p K"
    and "kernel_inv sp c p lid lens s" and "dv_waves (kr_dev s) = []"
    and "traced full (ls_st (dv_launch (kr_dev (kernel_run sp c p picks K s))))"
  shows "kernel_run sp c p picks' K (kr_plan full s) = kr_plan full (kernel_run sp c p picks K s)
    \<and> traced full (ls_st (dv_launch (kr_dev s)))"
  using assms(3-5)
proof (induction s rule: wf_induct_rule [OF wf_kernel_order])
  case (1 s)
  show ?case
  proof (cases "kernel_step sp c p picks K s")
    case None
    have "kernel_run sp c p picks K s = s" by (subst kernel_run.simps) (simp add: None)
    moreover have "kernel_run sp c p picks' K (kr_plan full s) = kr_plan full s"
      by (subst kernel_run.simps) (simp add: kernel_stop_plan [OF None "1.prems"(2)])
    ultimately show ?thesis using "1.prems"(3) by simp
  next
    case (Some s')
    have eq: "kernel_run sp c p picks K s = kernel_run sp c p picks K s'" by (subst kernel_run.simps) (simp add: Some)
    have waves: "dv_waves (kr_dev s') = []"
      using Some "1.prems"(2) by (cases rule: kernel_step_cases) simp_all
    note ih = "1.IH" [OF kernel_step_order [OF Some] kernel_step_inv(1) [OF su "1.prems"(1) K Some] waves
        "1.prems"(3) [unfolded eq]]
    note st = kernel_step_plan [OF su "1.prems"(1,2) Some conjunct2 [OF ih]]
    have "kernel_run sp c p picks' K (kr_plan full s) = kernel_run sp c p picks' K (kr_plan full s')"
      by (subst kernel_run.simps) (simp add: st(1) [where picks' = picks'])
    then show ?thesis using ih st(2) eq by simp
  qed
qed

lemma kernel_begin_plan:
  assumes set: "dev_setting sp checks c p lid bufs" and one: "lp_waves p = 1"
    and tr: "traced full (ls_st (dv_launch (kr_dev (kernel_begin c p picks K lid bufs))))"
    and first: "picks' 0 = Replay full 0"
  shows "kernel_begin c p picks' K lid bufs = kr_plan full (kernel_begin c p picks K lid bufs)"
    and "dv_waves (kr_dev (kernel_begin c p picks K lid bufs)) = []"
proof -
  have su: "launch_setup checks c = Inr p" using set by (simp add: dev_setting_def)
  obtain f n where w: "wave_list p = [(f, n)]" using one by (simp add: wave_list_def Let_def)
  have "cfg_ok (wave_sched p n)" by (rule waves_are_schedulable [OF su, of f]) (simp add: w)
  from init_plan [OF this, of full "picks 0"] tr
  have "sched_init (wave_sched p n) (Replay full 0) = plan_state full (sched_init (wave_sched p n) (picks 0))"
    by (simp add: kernel_begin_def w dev_begin_def wave_begin_def Let_def ls_st_def)
  then show "kernel_begin c p picks' K lid bufs = kr_plan full (kernel_begin c p picks K lid bufs)"
    by (simp add: kernel_begin_def w dev_begin_def wave_begin_def Let_def first kr_plan_def dev_plan_def
        plan_launch_def with_plan_def)
  show "dv_waves (kr_dev (kernel_begin c p picks K lid bufs)) = []" by (simp add: kernel_begin_def w dev_begin_def)
qed


lemma launch_replayed:
  assumes "dev_setting sp checks c p lid bufs" and "kernel_ok sp (length bufs) p K"
    and "launch_kernel sp checks c ch K lid bufs = Inr ((r, trace, True), s)"
  shows "\<exists>s'. launch_kernel sp checks c (Replay trace 0) K lid bufs = Inr ((r, trace, True), s')
    \<and> s' = kr_plan trace s \<and> dv_bufs (kr_dev s') = dv_bufs (kr_dev s)
    \<and> ls_sync (dv_launch (kr_dev s')) = ls_sync (dv_launch (kr_dev s)) \<and> dv_log (kr_dev s') = dv_log (kr_dev s)"
proof -
  let ?picks = "wave_picks c ch" and ?picks' = "wave_picks c (Replay trace 0)"
  define s0 where "s0 = kernel_begin c p ?picks K lid bufs"
  have su: "launch_setup checks c = Inr p" using assms(1) by (simp add: dev_setting_def)
  have K: "kernel_ok sp (length (buf_lens bufs)) p K" using assms(2) by (simp add: buf_lens_def)
  have s: "s = kernel_run sp c p ?picks K s0"
    using assms(3) by (simp add: launch_kernel_def su Let_def s0_def)
  then have "r = \<lparr>report_seed = lc_seed c, diagnostics = fst (reporter_take (w_rep (ls_world (dv_launch (kr_dev s))))),
      report_aborted = was_aborted (ls_world (dv_launch (kr_dev s)))\<rparr>"
    and "(if lp_waves p = 1 then fst (take_trace (w_st (ls_world (dv_launch (kr_dev s))))) else ([], False)) = (trace, True)"
    using assms(3) by (auto simp: launch_kernel_def su Let_def s0_def split: if_splits)
  then have r: "r = \<lparr>report_seed = lc_seed c, diagnostics = fst (reporter_take (w_rep (ls_world (dv_launch (kr_dev s))))),
      report_aborted = st_aborted (ls_st (dv_launch (kr_dev s)))\<rparr>"
    and one: "lp_waves p = 1" and tr: "st_trace (ls_st (dv_launch (kr_dev s))) = trace"
      "st_trace_complete (ls_st (dv_launch (kr_dev s)))"
    by (auto simp: was_aborted_def ls_st_def take_trace_def split: if_splits)
  have final: "traced trace (ls_st (dv_launch (kr_dev s)))" using tr by (simp add: traced_def)
  have "dv_waves (kr_dev s0) = []"
    using one kernel_begin_inv(2) [OF assms(1,2), of ?picks] by (simp add: s0_def dev_begin_def wave_list_def Let_def)
  note run = kernel_run_plan [OF su K kernel_begin_inv(1) [OF assms(1,2), of ?picks, folded s0_def] this
      final [unfolded s]]
  have "kernel_begin c p ?picks' K lid bufs = kr_plan trace s0"
    unfolding s0_def by (rule kernel_begin_plan(1) [OF assms(1) one run [THEN conjunct2, unfolded s0_def]])
      (simp add: wave_picks_def)
  then have "kernel_run sp c p ?picks' K (kernel_begin c p ?picks' K lid bufs) = kr_plan trace s"
    using run [THEN conjunct1, of ?picks'] by (simp add: s)
  then show ?thesis
    using one tr by (simp add: launch_kernel_def su Let_def r was_aborted_def ls_st_def take_trace_def)
qed

text \<open>
  C7: a launch replayed from its own recording is the same launch. Take any kernel on any buffers, launched
  under any seed or plan, whose trace was recorded completely (so the launch was one wave). A second launch
  of the same kernel on the same buffers that follows the recorded trace returns the same report, records
  the same trace, and leaves the same memory, shadow and clocks: only the source of decisions of its
  scheduler differs. So a schedule written down with a finding is enough to see the finding again.
\<close>

theorem recorded_launch_replays:
  assumes "dev_setting sp checks c p lid bufs" and "kernel_ok sp (length bufs) p K"
    and "launch_kernel sp checks c ch K lid bufs = Inr ((r, trace, True), s)"
  shows "\<exists>s'. launch_kernel sp checks c (Replay trace 0) K lid bufs = Inr ((r, trace, True), s')
    \<and> s' = kr_plan trace s \<and> dv_bufs (kr_dev s') = dv_bufs (kr_dev s)
    \<and> ls_sync (dv_launch (kr_dev s')) = ls_sync (dv_launch (kr_dev s)) \<and> dv_log (kr_dev s') = dv_log (kr_dev s)"
  by (rule launch_replayed [OF assms])

lemma pair_of_two: "replicate 2 x = [x, x]"
  by (simp add: numeral_2_eq_2)

lemma duo_kernel_recorded:
  "\<exists>r trace s. launch_kernel [Global ''x''] True duo_config (Replay [1] 0) duo_kernel 1 [global_new [1 :: nat]]
    = Inr ((r, trace, True), s)"
  unfolding launch_kernel_def duo_setup
  by (simp add: kernel_run.simps kernel_begin_def kernel_step_def wave_programs_def wave_picks_def duo_kernel_def
      next_act_def after_def was_aborted_def take_trace_def reporter_take_def finish_def Let_def
      block_of_def warp_of_def lane_of_def warp_base_def lanes_in_def block_range_def abandoned_def pair_of_two
      dev_eval upt_conv_Cons del: numeral_2_eq_2)


theorem recorded_launch_replays_witness:
  "\<exists>r trace s s'. launch_kernel [Global ''x''] True duo_config (Replay [1] 0) duo_kernel 1 [global_new [1]]
      = Inr ((r, trace, True), s)
    \<and> launch_kernel [Global ''x''] True duo_config (Replay trace 0) duo_kernel 1 [global_new [1]] = Inr ((r, trace, True), s')
    \<and> dv_bufs (kr_dev s') = dv_bufs (kr_dev s)"
proof -
  have set: "dev_setting [Global ''x''] True duo_config duo_plan 1 [global_new [1 :: nat]]"
    using duo_setup by (auto simp: dev_setting_def) (simp add: global_new_def)
  have ok: "kernel_ok [Global ''x''] (length [global_new [1 :: nat]]) duo_plan duo_kernel"
    using duo_kernel_ok [of _ duo_plan] by simp
  obtain r trace s where "launch_kernel [Global ''x''] True duo_config (Replay [1] 0) duo_kernel 1 [global_new [1 :: nat]]
      = Inr ((r, trace, True), s)" using duo_kernel_recorded by blast
  from this recorded_launch_replays [OF set ok this] show ?thesis by blast
qed

end
