(* ===== verification/Kernel_Fresh.thy ===== *)
theory Kernel_Fresh
  imports Kernel_Ends
begin

text \<open>
  A launch on fresh buffers does not depend on its number. \<^verbatim>\<open>launch.rs\<close> draws the number from a global counter and
  buffers compare it with the launch they were last used in; two launches of one kernel on equal buffers
  neither has touched find the same and leave the same memory. Exploration rests on this: it runs the
  kernel again and again, each time under the next number.
\<close>

section \<open>Forgetting the number\<close>

text \<open>The buffer as the launch \<open>lid\<close> first sees it, with \<open>b\<close> written for its number.\<close>

definition entered_buf :: "nat \<Rightarrow> nat \<Rightarrow> mem_space \<Rightarrow> 'a instrumented \<Rightarrow> 'a instrumented" where
  "entered_buf lid b space m = (enter_launch (reset_of space) lid m)\<lparr>in_launch := b\<rparr>"

definition norm_launch :: "nat \<Rightarrow> launch_state \<Rightarrow> launch_state" where
  "norm_launch b l = l\<lparr>ls_id := b\<rparr>"

definition norm_dev :: "mem_space list \<Rightarrow> nat \<Rightarrow> 'a device \<Rightarrow> 'a device" where
  "norm_dev sp b d = d\<lparr>dv_launch := norm_launch b (dv_launch d),
     dv_bufs := map2 (entered_buf (ls_id (dv_launch d)) b) sp (dv_bufs d)\<rparr>"

lemma norm_launch_fields [simp]:
  "ls_id (norm_launch b l) = b" "ls_config (norm_launch b l) = ls_config l" "ls_sched (norm_launch b l) = ls_sched l"
  "ls_sync (norm_launch b l) = ls_sync l" "ls_world (norm_launch b l) = ls_world l" "ls_st (norm_launch b l) = ls_st l"
  by (simp_all add: norm_launch_def ls_st_def)

lemma norm_dev_fields [simp]:
  "dv_launch (norm_dev sp b d) = norm_launch b (dv_launch d)" "dv_first (norm_dev sp b d) = dv_first d"
  "dv_waves (norm_dev sp b d) = dv_waves d" "dv_inside (norm_dev sp b d) = dv_inside d"
  "dv_bufs (norm_dev sp b d) = map2 (entered_buf (ls_id (dv_launch d)) b) sp (dv_bufs d)"
  "dv_hist (norm_dev sp b d) = dv_hist d" "dv_log (norm_dev sp b d) = dv_log d"
  by (simp_all add: norm_dev_def)

lemma reset_of_fields [simp]:
  "in_launch (reset_of space m) = in_launch m" "in_data (reset_of space m) = in_data m"
  "reset_of space (m\<lparr>in_data := xs\<rparr>) = (reset_of space m)\<lparr>in_data := xs\<rparr>"
  by (cases space; simp add: reset_of_def global_reset_def shared_reset_def)+

lemma entered_fields [simp]:
  "in_launch (entered_buf lid b space m) = b" "in_data (entered_buf lid b space m) = in_data m"
  "in_shadow (entered_buf lid b space m) = in_shadow (enter_launch (reset_of space) lid m)"
  by (simp_all add: entered_buf_def enter_launch_def)

lemma enter_fields [simp]:
  "in_launch (enter_launch reset lid m) = lid" "in_data (enter_launch (reset_of space) lid m) = in_data m"
  by (simp_all add: enter_launch_def)

text \<open>A buffer that has been entered is what it was, but for the number.\<close>

lemma entered_again [simp]:
  "enter_launch (reset_of space) b (entered_buf lid b space m) = entered_buf lid b space m"
  "in_launch m = lid \<Longrightarrow> entered_buf lid b space m = m\<lparr>in_launch := b\<rparr>"
  by (simp_all add: enter_launch_def entered_buf_def)

lemma entered_store: "entered_buf lid b space (m\<lparr>in_data := xs\<rparr>) = (entered_buf lid b space m)\<lparr>in_data := xs\<rparr>"
  by (simp add: entered_buf_def enter_launch_def)

lemma entered_enter: "entered_buf lid b space m = (enter_launch (reset_of space) lid m)\<lparr>in_launch := b\<rparr>"
  by (fact entered_buf_def)

lemma entered_fresh:
  "in_launch m \<noteq> lid \<Longrightarrow> in_launch m \<noteq> lid' \<Longrightarrow> entered_buf lid b space m = entered_buf lid' b space m"
  by (simp add: entered_buf_def enter_launch_def)

section \<open>Accesses\<close>

lemma norm_commutes:
  "(norm_launch b l)\<lparr>ls_sync := s\<rparr> = norm_launch b (l\<lparr>ls_sync := s\<rparr>)"
  "(norm_launch b l)\<lparr>ls_world := w\<rparr> = norm_launch b (l\<lparr>ls_world := w\<rparr>)"
  "ctx_report f (norm_launch b l) = norm_launch b (ctx_report f l)"
  "ctx_trap f (norm_launch b l) = norm_launch b (ctx_trap f l)"
  "acquire_from (norm_launch b l) c source o1 = norm_launch b (acquire_from l c source o1)"
  "release_into (norm_launch b l) c target o1 = release_into l c target o1"
  "ctx_fence (norm_launch b l) c o1 = norm_launch b (ctx_fence l c o1)"
  "sync_threads_leave (norm_launch b l) c = norm_launch b (sync_threads_leave l c)"
  by (simp_all add: norm_launch_def ctx_report_def ctx_trap_def acquire_from_def release_into_def ctx_fence_def
      sync_threads_leave_def)

lemma norm_places [simp]:
  "wave_block (norm_launch b l) c = wave_block l c" "warp_id (norm_launch b l) c = warp_id l c"
  by (simp_all add: wave_block_def block_count_def warp_id_def warp_size_def)

lemma norm_ctx_access:
  assumes "ctx_access l c kind loc = (acc, now, l1)"
  shows "ctx_access (norm_launch b l) c kind loc = (acc, now, norm_launch b l1)"
  using assms by (auto simp: ctx_access_def norm_commutes split: prod.splits)

lemma norm_access_made: "fst (ctx_access (norm_launch b l) c kind loc) = fst (ctx_access l c kind loc)"
  by (simp add: ctx_access_def split: prod.split)

lemma norm_elem_mut:
  assumes "elem_mut_body name c i checked loc l m = (r, l1, m1)"
  shows "elem_mut_body name c i checked loc (norm_launch b l) (entered_buf (ls_id l) b (Global name) m)
      = (r, norm_launch b l1, m1\<lparr>in_launch := b\<rparr>)"
    and "in_launch m1 = ls_id l"
proof -
  obtain acc now l2 where a: "ctx_access l c Write loc = (acc, now, l2)" by (rule prod_cases3)
  then have id2: "ls_id l2 = ls_id l" using ctx_access_fields [of l c Write loc] by simp
  have reset: "reset_of (Global name) = global_reset" by (simp add: reset_of_def)
  show "elem_mut_body name c i checked loc (norm_launch b l) (entered_buf (ls_id l) b (Global name) m)
      = (r, norm_launch b l1, m1\<lparr>in_launch := b\<rparr>)" "in_launch m1 = ls_id l"
    using assms entered_again(1) [of "Global name" b "ls_id l" m, unfolded reset]
    unfolding elem_mut_body_def a norm_ctx_access [OF a] prod.case
    by (auto simp: Let_def norm_commutes id2 entered_enter reset split: prod.splits option.splits if_splits)
qed

lemma norm_access:
  assumes "access_body space (reset_of space) c i kind loc ord op l m = (r, l1, m1)"
  shows "access_body space (reset_of space) c i kind loc ord op (norm_launch b l) (entered_buf (ls_id l) b space m)
      = (r, norm_launch b l1, m1\<lparr>in_launch := b\<rparr>)"
    and "in_launch m1 = ls_id l"
proof -
  let ?m = "enter_launch (reset_of space) (ls_id l) m"
  define l0 where "l0 = (case ord of Some o1 \<Rightarrow> acquire_from l c (cell_release (in_shadow ?m ! i)) o1 | None \<Rightarrow> l)"
  have l0': "(case ord of Some o1 \<Rightarrow> acquire_from (norm_launch b l) c (cell_release (in_shadow ?m ! i)) o1
      | None \<Rightarrow> norm_launch b l) = norm_launch b l0"
    by (simp add: l0_def norm_commutes split: option.split)
  obtain acc now l2 where a: "ctx_access l c kind loc = (acc, now, l2)" by (rule prod_cases3)
  obtain acc' now' l3 where a': "ctx_access l0 c kind loc = (acc', now', l3)" by (rule prod_cases3)
  obtain conflict cell where o1: "on_access (in_shadow ?m ! i) acc' now' = (conflict, cell)" by (rule prod.exhaust)
  show "access_body space (reset_of space) c i kind loc ord op (norm_launch b l) (entered_buf (ls_id l) b space m)
      = (r, norm_launch b l1, m1\<lparr>in_launch := b\<rparr>)" "in_launch m1 = ls_id l"
    using assms
    unfolding access_body_def Let_def norm_launch_fields entered_again(1) entered_fields enter_fields l0'
      l0_def [symmetric] a a' norm_ctx_access [OF a] norm_ctx_access [OF a'] prod.case o1
    by (auto simp: norm_commutes entered_enter split: sum.splits option.splits if_splits)
qed

section \<open>Steps\<close>

lemma map2_at:
  assumes "length xs = length ys" and "i < length ys"
  shows "map2 f xs ys ! i = f (xs ! i) (ys ! i)" and "(map2 f xs ys)[i := f (xs ! i) y] = map2 f xs (ys[i := y])"
  using assms by (auto intro: nth_equalityI simp: nth_list_update)

lemma norm_dev_ctx [simp]: "dev_ctx (norm_dev sp b d) me = dev_ctx d me"
  by (simp add: dev_ctx_def)

lemma norm_buf: "length sp = length (dv_bufs d) \<Longrightarrow> k < length (dv_bufs d) \<Longrightarrow>
    dv_bufs (norm_dev sp b d) ! k = entered_buf (ls_id (dv_launch d)) b (sp ! k) (dv_bufs d ! k)"
  by (simp add: map2_at)

lemma norm_elem_no [simp]: "length sp = length (dv_bufs d) \<Longrightarrow> elem_no (norm_dev sp b d) k i = elem_no d k i"
  by (simp add: elem_no_def)

lemma norm_act_ok [simp]:
  "length sp = length (dv_bufs d) \<Longrightarrow> dev_act_ok sp (norm_dev sp b d) me a = dev_act_ok sp d me a"
  by (cases a) simp_all

lemma norm_cell: "length sp = length (dv_bufs d) \<Longrightarrow> k < length (dv_bufs d) \<Longrightarrow>
    dev_cell sp (norm_dev sp b d) k i = dev_cell sp d k i"
  by (simp add: dev_cell_def map2_at)

lemma norm_next: "next_act (norm_dev sp b d) me g = next_act d me g"
  by (cases g) (simp_all add: next_act_def)

lemma norm_reply:
  assumes len: "length sp = length (dv_bufs d)" and "dev_act_ok sp d me a"
  shows "dev_reply sp (norm_dev sp b d) me a = dev_reply sp d me a"
proof (cases a)
  case (DevAccess k i kind loc ord op)
  then have k: "k < length (dv_bufs d)" using assms by simp
  obtain r l1 m1 where "access_body (sp ! k) (reset_of (sp ! k)) (dev_ctx d me) i kind loc ord op (dv_launch d) (dv_bufs d ! k)
      = (r, l1, m1)" by (rule prod_cases3)
  from norm_access(1) [OF this, of b] this show ?thesis
    using norm_buf [OF len k] by (simp add: DevAccess del: norm_dev_fields(5))
next
  case (DevClaim k i checked loc)
  then obtain name where k: "k < length (dv_bufs d)" "sp ! k = Global name" using assms by auto
  obtain r l1 m1 where "elem_mut_body name (dev_ctx d me) i checked loc (dv_launch d) (dv_bufs d ! k) = (r, l1, m1)"
    by (rule prod_cases3)
  from norm_elem_mut(1) [OF this, of b] this show ?thesis
    using norm_buf [OF len k(1)] k(2) by (simp add: DevClaim space_name_def del: norm_dev_fields(5))
qed simp_all


lemma norm_buf_update:
  assumes "length sp = length bufs" and "k < length bufs"
  shows "(map2 (entered_buf lid b) sp bufs)[k := entered_buf lid b (sp ! k) m] = map2 (entered_buf lid b) sp (bufs[k := m])"
  by (rule map2_at(2) [OF assms])

lemma dev_exec_id [simp]: "ls_id (dv_launch (dev_exec sp d me a)) = ls_id (dv_launch d)"
proof (cases a)
  case (DevAccess k i kind loc ord op)
  obtain r l1 m1 where x: "access_body (sp ! k) (reset_of (sp ! k)) (dev_ctx d me) i kind loc ord op (dv_launch d) (dv_bufs d ! k)
      = (r, l1, m1)" by (rule prod_cases3)
  then have "ls_id l1 = ls_id (dv_launch d)"
    by (auto simp: access_body_def Let_def ctx_report_def ctx_trap_def acquire_from_def ctx_access_def
        split: prod.splits option.splits sum.splits if_splits)
  then show ?thesis using x by (simp add: DevAccess Let_def)
next
  case (DevClaim k i checked loc)
  obtain r l1 m1 where x: "elem_mut_body (space_name (sp ! k)) (dev_ctx d me) i checked loc (dv_launch d) (dv_bufs d ! k)
      = (r, l1, m1)" by (rule prod_cases3)
  then have "ls_id l1 = ls_id (dv_launch d)"
    by (auto simp: elem_mut_body_def Let_def ctx_report_def ctx_trap_def ctx_access_def
        split: prod.splits option.splits if_splits)
  then show ?thesis using x by (simp add: DevClaim Let_def)
qed (simp_all add: ctx_fence_def sync_threads_leave_def sync_threads_enter_def Let_def split: prod.split)

lemma norm_exec:
  assumes len: "length sp = length (dv_bufs d)" and ok: "dev_act_ok sp d me a"
  shows "dev_exec sp (norm_dev sp b d) me a = norm_dev sp b (dev_exec sp d me a)"
proof (cases a)
  case (DevAccess k i kind loc ord op)
  have k: "k < length (dv_bufs d)" using ok DevAccess by simp
  let ?lid = "ls_id (dv_launch d)"
  obtain r l1 m1 where x: "access_body (sp ! k) (reset_of (sp ! k)) (dev_ctx d me) i kind loc ord op (dv_launch d) (dv_bufs d ! k)
      = (r, l1, m1)" by (rule prod_cases3)
  have id1: "ls_id l1 = ?lid" using dev_exec_id [of sp d me a] x by (simp add: DevAccess Let_def)
  have m1: "m1\<lparr>in_launch := b\<rparr> = entered_buf ?lid b (sp ! k) m1" using norm_access(2) [OF x] by simp
  have acc: "fst (access_of (dev_ctx d me) kind loc ord (norm_launch b (dv_launch d)) (dev_cell sp d k i))
      = fst (access_of (dev_ctx d me) kind loc ord (dv_launch d) (dev_cell sp d k i))"
    by (cases ord) (simp_all add: access_of_def acquired_def norm_commutes norm_access_made)
  have upd: "(map2 (entered_buf ?lid b) sp (dv_bufs d))[k := m1\<lparr>in_launch := b\<rparr>]
      = map2 (entered_buf ?lid b) sp ((dv_bufs d)[k := m1])"
    unfolding m1 by (rule norm_buf_update [OF len k])
  define H L where "H = dv_hist (dev_exec sp d me a)" and "L = dv_log (dev_exec sp d me a)"
  have "dev_exec sp d me a = d\<lparr>dv_launch := l1, dv_bufs := (dv_bufs d)[k := m1], dv_hist := H, dv_log := L\<rparr>"
    unfolding H_def L_def by (simp add: DevAccess Let_def x)
  moreover have "dev_exec sp (norm_dev sp b d) me a = (norm_dev sp b d)\<lparr>dv_launch := norm_launch b l1,
      dv_bufs := map2 (entered_buf ?lid b) sp ((dv_bufs d)[k := m1]), dv_hist := H, dv_log := L\<rparr>"
    unfolding H_def L_def upd [symmetric] using len
    by (simp add: DevAccess Let_def x norm_access(1) [OF x] norm_buf [OF len k, simplified] norm_cell [OF len k] acc
        norm_elem_no [OF len])
  ultimately show ?thesis by (simp add: norm_dev_def id1)
next
  case (DevClaim k i checked loc)
  then obtain name where k: "k < length (dv_bufs d)" "sp ! k = Global name" using ok by auto
  let ?lid = "ls_id (dv_launch d)"
  obtain r l1 m1 where x: "elem_mut_body name (dev_ctx d me) i checked loc (dv_launch d) (dv_bufs d ! k) = (r, l1, m1)"
    by (rule prod_cases3)
  obtain acc now l2 where y: "ctx_access (dv_launch d) (dev_ctx d me) Write loc = (acc, now, l2)" by (rule prod_cases3)
  have id1: "ls_id l1 = ?lid" using dev_exec_id [of sp d me a] x by (simp add: DevClaim Let_def k(2) space_name_def)
  have m1: "m1\<lparr>in_launch := b\<rparr> = entered_buf ?lid b (sp ! k) m1" using norm_elem_mut(2) [OF x] by simp
  have upd: "(map2 (entered_buf ?lid b) sp (dv_bufs d))[k := m1\<lparr>in_launch := b\<rparr>]
      = map2 (entered_buf ?lid b) sp ((dv_bufs d)[k := m1])"
    unfolding m1 by (rule norm_buf_update [OF len k(1)])
  define H L where "H = dv_hist (dev_exec sp d me a)" and "L = dv_log (dev_exec sp d me a)"
  have "dev_exec sp d me a = d\<lparr>dv_launch := l1, dv_bufs := (dv_bufs d)[k := m1], dv_hist := H, dv_log := L\<rparr>"
    unfolding H_def L_def by (simp add: DevClaim Let_def x k(2) space_name_def)
  moreover have "dev_exec sp (norm_dev sp b d) me a = (norm_dev sp b d)\<lparr>dv_launch := norm_launch b l1,
      dv_bufs := map2 (entered_buf ?lid b) sp ((dv_bufs d)[k := m1]), dv_hist := H, dv_log := L\<rparr>"
    unfolding H_def L_def upd [symmetric] using len k(2)
    by (simp add: DevClaim Let_def x norm_elem_mut(1) [OF x] norm_buf [OF len k(1), simplified] space_name_def y
        norm_ctx_access [OF y])
  ultimately show ?thesis by (simp add: norm_dev_def id1)
next
  case (DevStore k i v)
  have k: "k < length (dv_bufs d)" using ok DevStore by simp
  show ?thesis
    using norm_buf [OF len k, of b] norm_buf_update [OF len k, of "ls_id (dv_launch d)" b "deref_mut i v (dv_bufs d ! k)"]
    by (simp add: DevStore norm_dev_def) (simp add: deref_mut_def entered_store map2_at [OF len k])
next
  case (DevArrive loc)
  have "sync_threads_enter (norm_launch b (dv_launch d)) (dev_ctx d me) loc
      = (norm_launch b (fst (sync_threads_enter (dv_launch d) (dev_ctx d me) loc)), snd (sync_threads_enter (dv_launch d) (dev_ctx d me) loc))"
    by (simp add: sync_threads_enter_def Let_def norm_launch_def split: prod.split)
  moreover have "ls_id (fst (sync_threads_enter (dv_launch d) (dev_ctx d me) loc)) = ls_id (dv_launch d)"
    by (simp add: sync_threads_enter_def Let_def split: prod.split)
  ultimately show ?thesis by (simp add: DevArrive norm_dev_def norm_launch_def dev_ctx_def)
next
  case (DevSched x)
  then show ?thesis by (simp add: norm_dev_def norm_launch_def)
next
  case DevDepart
  then show ?thesis by (simp add: norm_dev_def norm_commutes dev_ctx_def)
next
  case (DevFence ord)
  then show ?thesis by (simp add: norm_dev_def norm_commutes dev_ctx_def ctx_fence_def)
qed


section \<open>Launches\<close>

definition kr_norm :: "mem_space list \<Rightarrow> nat \<Rightarrow> 'a kernel_state \<Rightarrow> 'a kernel_state" where
  "kr_norm sp b s = s\<lparr>kr_dev := norm_dev sp b (kr_dev s)\<rparr>"

lemma kr_norm_fields [simp]:
  "kr_dev (kr_norm sp b s) = norm_dev sp b (kr_dev s)" "kr_progs (kr_norm sp b s) = kr_progs s"
  "kr_wave (kr_norm sp b s) = kr_wave s"
  by (simp_all add: kr_norm_def)

lemma norm_wave:
  "dev_wave c p ch first n rest (norm_dev sp b d) = norm_dev sp b (dev_wave c p ch first n rest d)"
  by (simp add: dev_wave_def norm_dev_def dev_shared_def wave_begin_def Let_def norm_launch_def)

lemma kernel_step_norm:
  assumes len: "length sp = length (dv_bufs (kr_dev s))"
  shows "kernel_step sp c p picks K (kr_norm sp b s) = map_option (kr_norm sp b) (kernel_step sp c p picks K s)"
proof (cases "kernel_step sp c p picks K s")
  case None
  then show ?thesis
    using len by (auto simp: kernel_step_def Let_def norm_next split: option.splits if_splits list.splits)
next
  case (Some s')
  then show ?thesis
  proof (cases rule: kernel_step_cases)
    case (act me a)
    then show ?thesis
      using Some len
      by (simp add: kernel_step_def Let_def nth_option_def norm_next norm_exec [OF len] norm_reply [OF len])
  next
    case (wave first n rest)
    then show ?thesis using Some by (simp add: kernel_step_def Let_def norm_wave)
  qed
qed

lemma kernel_step_len:
  assumes "kernel_step sp c p picks K s = Some s'"
  shows "length (dv_bufs (kr_dev s')) = length (dv_bufs (kr_dev s))"
  using assms
proof (cases rule: kernel_step_cases)
  case (act me a)
  then show ?thesis using dev_exec_frame(1) [OF act(5)] by simp
next
  case (wave first n rest)
  then show ?thesis by (simp add: dev_wave_def)
qed

lemma kernel_run_norm:
  assumes "length sp = length (dv_bufs (kr_dev s))"
  shows "kernel_run sp c p picks K (kr_norm sp b s) = kr_norm sp b (kernel_run sp c p picks K s)
    \<and> length sp = length (dv_bufs (kr_dev (kernel_run sp c p picks K s)))"
  using assms
proof (induction s rule: wf_induct_rule [OF wf_kernel_order])
  case (1 s)
  show ?case
  proof (cases "kernel_step sp c p picks K s")
    case None
    then show ?thesis
      using kernel_step_norm [OF "1.prems", of c p picks K b] "1.prems" by (subst (1 2 3) kernel_run.simps) simp
  next
    case (Some s')
    have "length sp = length (dv_bufs (kr_dev s'))" using kernel_step_len [OF Some] "1.prems" by simp
    note ih = "1.IH" [OF kernel_step_order [OF Some] this]
    have "kernel_run sp c p picks K s = kernel_run sp c p picks K s'" by (subst kernel_run.simps) (simp add: Some)
    moreover have "kernel_run sp c p picks K (kr_norm sp b s) = kernel_run sp c p picks K (kr_norm sp b s')"
      using kernel_step_norm [OF "1.prems", of c p picks K b] Some by (subst kernel_run.simps) simp
    ultimately show ?thesis using ih by simp
  qed
qed

text \<open>Two numbers no buffer knows yet.\<close>

definition unused :: "nat \<Rightarrow> 'a instrumented list \<Rightarrow> bool" where
  "unused lid bufs \<longleftrightarrow> (\<forall>m \<in> set bufs. in_launch m \<noteq> lid)"

lemma kernel_begin_norm:
  assumes "unused lid bufs" and "unused lid' bufs"
  shows "kr_norm sp b (kernel_begin c p picks K lid bufs) = kr_norm sp b (kernel_begin c p picks K lid' bufs)"
proof -
  obtain f n where w: "hd (wave_list p) = (f, n)" by (rule prod.exhaust)
  have "entered_buf lid b space m = entered_buf lid' b space m" if "(space, m) \<in> set (zip sp bufs)" for space m
    using assms entered_fresh that by (metis in_set_zipE unused_def)
  then have "map2 (entered_buf lid b) sp bufs = map2 (entered_buf lid' b) sp bufs" by (auto intro: map_cong)
  then show ?thesis
    by (simp add: kernel_begin_def w kr_norm_def norm_dev_def dev_begin_def wave_begin_def launch_begin_def Let_def
        norm_launch_def)
qed

lemma launch_renumbered:
  assumes "length sp = length bufs" and "unused lid bufs" and "unused lid' bufs"
    and "launch_kernel sp checks c ch K lid bufs = Inr (rt, s)"
  shows "\<exists>s'. launch_kernel sp checks c ch K lid' bufs = Inr (rt, s')
    \<and> map to_vec (dv_bufs (kr_dev s')) = map to_vec (dv_bufs (kr_dev s))"
proof -
  obtain p where su: "launch_setup checks c = Inr p" using assms(4) by (auto simp: launch_kernel_def elim: res_bind_Inr_E)
  let ?picks = "wave_picks c ch"
  define run where "run = (\<lambda>i. kernel_run sp c p ?picks K (kernel_begin c p ?picks K i bufs))"
  have len: "length sp = length (dv_bufs (kr_dev (kernel_begin c p ?picks K i bufs)))" for i
    using assms(1) by (simp add: kernel_begin_def dev_begin_def split: prod.split)
  have eq: "kr_norm sp 0 (run lid) = kr_norm sp 0 (run lid')"
    using kernel_run_norm [OF len, of c p ?picks K 0 lid] kernel_run_norm [OF len, of c p ?picks K 0 lid']
      kernel_begin_norm [OF assms(2,3), of sp 0 c p ?picks K] by (simp add: run_def)
  have lens: "length sp = length (dv_bufs (kr_dev (run i)))" for i
    using kernel_run_norm [OF len, of c p ?picks K 0 i] by (simp add: run_def)
  have "norm_launch 0 (dv_launch (kr_dev (run lid))) = norm_launch 0 (dv_launch (kr_dev (run lid')))"
    and "dv_bufs (norm_dev sp 0 (kr_dev (run lid))) = dv_bufs (norm_dev sp 0 (kr_dev (run lid')))"
    using arg_cong [OF eq, of "\<lambda>s. dv_launch (kr_dev s)"] arg_cong [OF eq, of "\<lambda>s. dv_bufs (kr_dev s)"] by simp_all
  then have w: "ls_world (dv_launch (kr_dev (run lid'))) = ls_world (dv_launch (kr_dev (run lid)))"
    and "map to_vec (dv_bufs (norm_dev sp 0 (kr_dev (run lid')))) = map to_vec (dv_bufs (norm_dev sp 0 (kr_dev (run lid))))"
    using norm_launch_fields(5) by metis+
  moreover have "map to_vec (dv_bufs (norm_dev sp 0 (kr_dev (run i)))) = map to_vec (dv_bufs (kr_dev (run i)))" for i
    using lens [of i] by (auto intro!: nth_equalityI simp: to_vec_def)
  ultimately have bufs: "map to_vec (dv_bufs (kr_dev (run lid'))) = map to_vec (dv_bufs (kr_dev (run lid)))" by metis
  have launch: "launch_kernel sp checks c ch K i bufs = Inr ((\<lparr>report_seed = lc_seed c,
      diagnostics = fst (reporter_take (w_rep (ls_world (dv_launch (kr_dev (run i)))))),
      report_aborted = was_aborted (ls_world (dv_launch (kr_dev (run i))))\<rparr>,
      if lp_waves p = 1 then fst (take_trace (w_st (ls_world (dv_launch (kr_dev (run i)))))) else ([], False)), run i)" for i
    by (simp add: launch_kernel_def su Let_def run_def)
  have "s = run lid" using assms(4) unfolding launch [of lid] by simp
  then show ?thesis using assms(4) bufs unfolding launch [of lid] launch [of lid'] w by simp
qed

end
