(* ===== verification/Kernel_Explore.thy ===== *)
theory Kernel_Explore
  imports Kernel_Fresh Kernel_Replay Kernel_Unsynced Explore_Props
begin

text \<open>
  Exploration of kernels: \<^verbatim>\<open>Explore::run\<close> and \<^verbatim>\<open>Explore::run_with\<close> (\<^verbatim>\<open>explore.rs\<close>) over whole launches. \<open>run_with\<close> builds
  the buffers afresh for every launch; launches differ in their number only, which does not matter, so the
  search is that of a function of the configuration and the decisions, and its failures are shrunk.
\<close>

section \<open>The two ways to run\<close>

text \<open>
  What every launch of an exploration returns. A configuration that the checks refuse makes the first
  launch panic; \<open>explore_checked\<close> ends there, so the value for it is never used.
\<close>

definition launch_result :: "((report \<times> u32 list \<times> bool) \<times> 'a kernel_state) res \<Rightarrow> report \<times> u32 list \<times> bool" where
  "launch_result r = (case r of Inr (rt, s) \<Rightarrow> rt
     | Inl p \<Rightarrow> (\<lparr>report_seed = 0, diagnostics = [], report_aborted = False\<rparr>, [], False))"

definition explore_checked :: "bool \<Rightarrow> explore_opts \<Rightarrow> 's launcher \<Rightarrow> 's \<Rightarrow> (exploration \<times> 's) res" where
  "explore_checked checks ex run s =
     (if ex_seeds ex = 0 then Inr (search ex run s)
      else res_bind (launch_setup checks (ex_base ex)) (\<lambda>_. Inr (search ex run s)))"

text \<open>\<open>run_with\<close>: every launch has the next number and the buffers that \<^verbatim>\<open>setup\<close> builds.\<close>

definition fresh_launcher ::
  "mem_space list \<Rightarrow> bool \<Rightarrow> (thread_ctx \<Rightarrow> 'a program) \<Rightarrow> 'a instrumented list \<Rightarrow> nat launcher" where
  "fresh_launcher sp checks K bufs config ch lid = (launch_result (launch_kernel sp checks config ch K lid bufs), lid + 1)"

definition explore_run_with ::
  "mem_space list \<Rightarrow> bool \<Rightarrow> explore_opts \<Rightarrow> (thread_ctx \<Rightarrow> 'a program) \<Rightarrow> 'a instrumented list \<Rightarrow> nat
     \<Rightarrow> (exploration \<times> nat) res" where
  "explore_run_with sp checks ex K bufs lid = explore_checked checks ex (fresh_launcher sp checks K bufs) lid"

text \<open>\<open>run\<close>: the buffers carry over.\<close>

definition carried_launcher ::
  "mem_space list \<Rightarrow> bool \<Rightarrow> (thread_ctx \<Rightarrow> 'a program) \<Rightarrow> (nat \<times> 'a instrumented list) launcher" where
  "carried_launcher sp checks K config ch st =
     (case st of (lid, bufs) \<Rightarrow> let r = launch_kernel sp checks config ch K lid bufs
        in (launch_result r, (lid + 1, case r of Inr (rt, s) \<Rightarrow> dv_bufs (kr_dev s) | Inl p \<Rightarrow> bufs)))"

definition explore_run ::
  "mem_space list \<Rightarrow> bool \<Rightarrow> explore_opts \<Rightarrow> (thread_ctx \<Rightarrow> 'a program) \<Rightarrow> 'a instrumented list \<Rightarrow> nat
     \<Rightarrow> (exploration \<times> nat \<times> 'a instrumented list) res" where
  "explore_run sp checks ex K bufs lid = explore_checked checks ex (carried_launcher sp checks K) (lid, bufs)"

section \<open>Launchers whose result does not depend on the host's state\<close>

locale stateless_launcher =
  fixes run :: "'s launcher" and f :: "launch_config \<Rightarrow> choices \<Rightarrow> report \<times> u32 list \<times> bool" and ok :: "'s \<Rightarrow> bool"
  assumes run_eq: "ok s \<Longrightarrow> fst (run config ch s) = f config ch \<and> ok (snd (run config ch s))"
begin

lemma runs_as: "ok s \<Longrightarrow> \<exists>s1. run config ch s = (f config ch, s1) \<and> ok s1"
  using run_eq [of s config ch] by (cases "run config ch s") simp

lemma test_sim:
  assumes "ok s"
  shows "\<exists>s1. reproduces run config target plan (b, s) = (0 < b \<and> exhibits f config target plan, b - 1, s1) \<and> ok s1"
proof (cases "b = 0")
  case False
  obtain s1 where "run config (Replay plan 0) s = (f config (Replay plan 0), s1)" "ok s1" using runs_as [OF assms] by blast
  then show ?thesis using False by (auto simp: reproduces_def exhibits_def split: prod.split)
qed (use assms in \<open>simp add: reproduces_def\<close>)

lemma double_sim:
  assumes "ok s" and "double_loop (reproduces (pure_launcher f) config target) trace lo step (b, t) = (r, b', t')"
  shows "\<exists>s1. double_loop (reproduces run config target) trace lo step (b, s) = (r, b', s1) \<and> ok s1"
  using assms
proof (induction "length trace - step" arbitrary: lo step b s rule: less_induct)
  case less
  show ?case
  proof (cases "0 < step \<and> step < length trace")
    case True
    obtain s1 where t: "reproduces run config target (take step trace) (b, s)
        = (0 < b \<and> exhibits f config target (take step trace), b - 1, s1)" "ok s1" using test_sim [OF less.prems(1)] by blast
    have "length trace - step * 2 < length trace - step" using True by arith
    note ih = less.hyps [OF this t(2)]
    show ?thesis
      using less.prems(2) ih t(2) True
      unfolding double_go [where test = "reproduces run config target", OF conjunct1 [OF True] conjunct2 [OF True] t(1)]
        double_go [where test = "reproduces (pure_launcher f) config target", OF conjunct1 [OF True] conjunct2 [OF True] pure_reproduces]
      by (auto split: if_splits)
  next
    case False
    then show ?thesis using less.prems by (simp add: double_stop)
  qed
qed

lemma bisect_sim:
  assumes "ok s" and "bisect_loop (reproduces (pure_launcher f) config target) trace lo hi (b, t) = (r, b', t')"
  shows "\<exists>s1. bisect_loop (reproduces run config target) trace lo hi (b, s) = (r, b', s1) \<and> ok s1"
  using assms
proof (induction "hi - lo" arbitrary: lo hi b s rule: less_induct)
  case less
  show ?case
  proof (cases "lo + 1 < hi")
    case True
    define mid where "mid = lo + (hi - lo) div 2"
    note m = bisect_mid [OF True mid_def]
    obtain s1 where t: "reproduces run config target (take mid trace) (b, s)
        = (0 < b \<and> exhibits f config target (take mid trace), b - 1, s1)" "ok s1" using test_sim [OF less.prems(1)] by blast
    note ih = less.hyps [OF m(3) t(2)] less.hyps [OF m(4) t(2)]
    show ?thesis
      using less.prems(2) ih
      unfolding bisect_go [where test = "reproduces run config target", OF True mid_def t(1)]
        bisect_go [where test = "reproduces (pure_launcher f) config target", OF True mid_def pure_reproduces]
      by (auto split: if_splits)
  next
    case False
    then show ?thesis using less.prems by (simp add: bisect_stop)
  qed
qed

lemma prefix_sim:
  assumes "ok s" and "shortest_prefix (reproduces (pure_launcher f) config target) trace (b, t) = (r, b', t')"
  shows "\<exists>s1. shortest_prefix (reproduces run config target) trace (b, s) = (r, b', s1) \<and> ok s1"
proof -
  obtain s1 where t: "reproduces run config target [] (b, s) = (0 < b \<and> exhibits f config target [], b - 1, s1)" "ok s1"
    using test_sim [OF assms(1)] by blast
  show ?thesis
  proof (cases "0 < b \<and> exhibits f config target []")
    case True
    then show ?thesis using assms(2) t by (simp add: shortest_prefix_def pure_reproduces)
  next
    case False
    obtain lo hi b2 t2 where d: "double_loop (reproduces (pure_launcher f) config target) trace 0 1 (b - 1, t) = ((lo, hi), b2, t2)"
      by (metis surj_pair)
    from double_sim [OF t(2) d] obtain s2
      where d': "double_loop (reproduces run config target) trace 0 1 (b - 1, s1) = ((lo, hi), b2, s2)" "ok s2" by blast
    have "bisect_loop (reproduces (pure_launcher f) config target) trace lo hi (b2, t2) = (r, b', t')"
      using assms(2) False d unfolding shortest_prefix_def pure_reproduces prod.case by auto
    from bisect_sim [OF d'(2) this] show ?thesis
      using False d'(1) unfolding shortest_prefix_def t(1) prod.case by auto
  qed
qed

lemma drop_sim:
  assumes "ok s" and "drop_switches (reproduces (pure_launcher f) config target) is plan (b, t) = (r, b', t')"
  shows "\<exists>s1. drop_switches (reproduces run config target) is plan (b, s) = (r, b', s1) \<and> ok s1"
  using assms
proof (induction "is" arbitrary: plan b s)
  case (Cons i "is")
  define candidate where "candidate = plan[i := plan ! (i - 1)]"
  obtain s1 where t: "reproduces run config target candidate (b, s) = (0 < b \<and> exhibits f config target candidate, b - 1, s1)"
    "ok s1" using test_sim [OF Cons.prems(1)] by blast
  show ?case
    using Cons.prems Cons.IH [OF Cons.prems(1), of plan b] Cons.IH [OF t(2)]
    unfolding drop_switches.simps Let_def candidate_def [symmetric] t(1) pure_reproduces prod.case
    by (simp split: if_splits)
qed simp

lemma shrink_sim:
  assumes "ok s" and "shrink_failure ex (pure_launcher f) config report trace complete t = (sh, t')"
  shows "\<exists>s1. shrink_failure ex run config report trace complete s = (sh, s1) \<and> ok s1"
proof (cases "ex_minimise ex \<and> complete \<and> first_fingerprint report \<noteq> None")
  case False
  then show ?thesis using assms by (auto simp: shrink_failure_def split: if_splits)
next
  case True
  then obtain target where target: "first_fingerprint report = Some target" by auto
  obtain s1 where x: "reproduces run config target trace (ex_budget ex, s)
      = (0 < ex_budget ex \<and> exhibits f config target trace, ex_budget ex - 1, s1)" "ok s1"
    using test_sim [OF assms(1)] by blast
  note unf = shrink_failure_def target option.case Let_def x(1) pure_reproduces prod.case
  show ?thesis
  proof (cases "0 < ex_budget ex \<and> exhibits f config target trace")
    case False
    then show ?thesis using assms(2) x(2) True unfolding unf by auto
  next
    case hit: True
    obtain hi b2 t2 where p: "shortest_prefix (reproduces (pure_launcher f) config target) trace (ex_budget ex - 1, t) = (hi, b2, t2)"
      by (metis surj_pair)
    from prefix_sim [OF x(2) p] obtain s2
      where p': "shortest_prefix (reproduces run config target) trace (ex_budget ex - 1, s1) = (hi, b2, s2)" "ok s2" by blast
    obtain plan b3 t3 where d: "drop_switches (reproduces (pure_launcher f) config target) [1..<length (take hi trace)]
        (take hi trace) (b2, t2) = (plan, b3, t3)" by (metis surj_pair)
    from drop_sim [OF p'(2) d] obtain s3 where d': "drop_switches (reproduces run config target)
        [1..<length (take hi trace)] (take hi trace) (b2, s2) = (plan, b3, s3)" "ok s3" by blast
    show ?thesis
      using assms(2) hit True d'(2) unfolding unf p p'(1) d d'(1) by auto
  qed
qed

lemma search_sim:
  assumes "ok s" and "search_from ex (pure_launcher f) i n t = (e, t')"
  shows "\<exists>s1. search_from ex run i n s = (e, s1) \<and> ok s1"
  using assms
proof (induction n arbitrary: i s)
  case (Suc n)
  let ?config = "(ex_base ex)\<lparr>lc_seed := lc_seed (ex_base ex) + of_nat i\<rparr>" and ?ch = "Random (lc_seed (ex_base ex) + of_nat i)"
  obtain s1 where r: "run ?config ?ch s = (f ?config ?ch, s1)" "ok s1" using runs_as [OF Suc.prems(1)] by blast
  obtain report trace complete where f: "f ?config ?ch = (report, trace, complete)" by (rule prod_cases3)
  obtain sh t2 where p: "shrink_failure ex (pure_launcher f) ?config report trace complete t = (sh, t2)" by (rule prod.exhaust)
  from shrink_sim [OF r(2) p] obtain s2
    where p': "shrink_failure ex run ?config report trace complete s1 = (sh, s2)" "ok s2" by blast
  show ?case
    using Suc.prems(2) Suc.IH [OF r(2)] p'(2)
    by (simp add: Let_def r(1) f pure_launcher_def [of f ?config ?ch t] p p'(1) split: if_splits)
qed simp

lemma search_as_pure:
  assumes "ok s"
  shows "fst (search ex run s) = fst (search ex (pure_launcher f) t)"
proof -
  obtain e t' where "search_from ex (pure_launcher f) 0 (unat (ex_seeds ex)) t = (e, t')" by (rule prod.exhaust)
  from search_sim [OF assms this] this show ?thesis by (auto simp: search_def)
qed

end

section \<open>Fresh launches\<close>

text \<open>From \<open>lid\<close> on no number is in any buffer.\<close>

definition numbered :: "mem_space list \<Rightarrow> 'a instrumented list \<Rightarrow> nat \<Rightarrow> bool" where
  "numbered sp bufs lid \<longleftrightarrow> length sp = length bufs \<and> (\<forall>i \<ge> lid. unused i bufs)"

definition fresh_result ::
  "mem_space list \<Rightarrow> bool \<Rightarrow> (thread_ctx \<Rightarrow> 'a program) \<Rightarrow> 'a instrumented list \<Rightarrow> nat \<Rightarrow> launch_config \<Rightarrow> choices
     \<Rightarrow> report \<times> u32 list \<times> bool" where
  "fresh_result sp checks K bufs lid config ch = launch_result (launch_kernel sp checks config ch K lid bufs)"

lemma launch_refused: "launch_kernel sp checks c ch K lid bufs = Inl e \<longleftrightarrow> launch_setup checks c = Inl e"
  by (cases "launch_setup checks c") (simp_all add: launch_kernel_def Let_def)

lemma fresh_result_renumbered:
  assumes "numbered sp bufs lid" and "lid \<le> i"
  shows "fresh_result sp checks K bufs i config ch = fresh_result sp checks K bufs lid config ch"
proof (cases "launch_kernel sp checks config ch K lid bufs")
  case (Inl e)
  then have "launch_kernel sp checks config ch K i bufs = Inl e" by (simp add: launch_refused)
  then show ?thesis using Inl by (simp add: fresh_result_def launch_result_def)
next
  case (Inr r)
  obtain rt s where r: "r = (rt, s)" by (rule prod.exhaust)
  have "length sp = length bufs" "unused lid bufs" "unused i bufs" using assms by (auto simp: numbered_def)
  from launch_renumbered [OF this Inr [unfolded r]] show ?thesis
    using Inr r by (auto simp: fresh_result_def launch_result_def)
qed

interpretation fresh_launches: stateless_launcher "fresh_launcher sp checks K bufs" "fresh_result sp checks K bufs lid"
    "\<lambda>i. numbered sp bufs lid \<and> lid \<le> i"
  for sp checks K bufs lid
  by unfold_locales (use fresh_result_renumbered in \<open>auto simp: fresh_launcher_def fresh_result_def\<close>)

lemma setup_seed [simp]: "launch_setup checks (c\<lparr>lc_seed := x\<rparr>) = launch_setup checks c"
  by (simp add: launch_setup_def)

section \<open>Failures of deterministic launches are shrunk\<close>

text \<open>
  For a result that depends on the configuration and the decisions only, and that a complete recording
  reproduces: the failure of a search is shrunk unless the recording is incomplete.
\<close>

definition shrunk_failure ::
  "(launch_config \<Rightarrow> choices \<Rightarrow> report \<times> u32 list \<times> bool) \<Rightarrow> explore_opts \<Rightarrow> nat \<Rightarrow> failure \<Rightarrow> bool" where
  "shrunk_failure f ex j fl \<longleftrightarrow> (\<exists>target trace complete. failure_target fl = Some target
    \<and> f (seed_config ex j) (Random (fail_seed fl)) = (fail_report fl, trace, complete) \<and> fail_decisions fl = length trace
    \<and> (if complete then \<exists>sch. fail_shrink fl = Minimised sch \<and> schedule_len sch \<le> length trace
         \<and> contains (fst (f (seed_config ex j) (Replay (schedule_plan sch) 0))) target
       else fail_shrink fl = TraceTruncated))"

lemma pure_failures_shrunk:
  assumes rep: "\<And>j ch r t. f (seed_config ex j) ch = (r, t, True) \<Longrightarrow> fst (f (seed_config ex j) (Replay t 0)) = r"
    and on: "ex_minimise ex" "0 < ex_budget ex"
    and fl: "failure_of f ex j s fl" and bad: "\<not> is_clean (seed_report f ex j)"
  shows "shrunk_failure f ex j fl"
proof -
  let ?c = "seed_config ex j"
  obtain trace complete where run: "f ?c (Random (lc_seed ?c)) = (fail_report fl, trace, complete)"
    and sh: "fst (shrink_failure ex (pure_launcher f) ?c (fail_report fl) trace complete s) = fail_shrink fl"
    and seed: "fail_seed fl = lc_seed ?c" and dec: "fail_decisions fl = length trace"
    using fl by (auto simp: failure_of_def seed_config_def)
  have "diagnostics (fail_report fl) \<noteq> []" using bad run by (simp add: seed_report_def is_clean_def)
  then obtain target where target: "first_fingerprint (fail_report fl) = Some target"
    by (cases "diagnostics (fail_report fl)") (simp_all add: first_fingerprint_def)
  have "if complete then \<exists>sch. fail_shrink fl = Minimised sch \<and> schedule_len sch \<le> length trace
         \<and> contains (fst (f ?c (Replay (schedule_plan sch) 0))) target else fail_shrink fl = TraceTruncated"
  proof (cases complete)
    case False
    then show ?thesis using sh on by (simp add: shrink_failure_def)
  next
    case True
    let ?test = "reproduces (pure_launcher f :: 'b launcher) ?c target"
    have "fst (f ?c (Replay trace 0)) = fail_report fl" using rep run True by simp
    then have t: "?test trace (ex_budget ex, s) = (True, ex_budget ex - 1, s)"
      using on(2) first_fingerprint_contained [OF target] by (simp add: pure_reproduces exhibits_def)
    obtain hi bs1 where p: "shortest_prefix ?test trace (ex_budget ex - 1, s) = (hi, bs1)" by (rule prod.exhaust)
    obtain plan bs2 where d: "drop_switches ?test [1..<length (take hi trace)] (take hi trace) bs1 = (plan, bs2)"
      by (rule prod.exhaust)
    have "shrink_failure ex (pure_launcher f) ?c (fail_report fl) trace complete s = (Minimised (Schedule plan), snd bs2)"
      using on(1) True unfolding shrink_failure_def target option.case Let_def t prod.case p d by simp
    then have "fail_shrink fl = Minimised (Schedule plan)" "schedule_len (Schedule plan) \<le> length trace"
      "contains (fst (f ?c (Replay plan 0))) target"
      using minimised_sound [OF _ target, of ex "pure_launcher f" ?c trace complete s "Schedule plan" "snd bs2"] sh True
      by auto
    then show ?thesis using True by (auto intro!: exI [of _ "Schedule plan"])
  qed
  then show ?thesis using target run dec by (auto simp: shrunk_failure_def failure_target_def seed)
qed


section \<open>Explored kernels\<close>

lemma fresh_result_replays:
  assumes "numbered sp bufs lid" and "\<forall>m \<in> set bufs. buf_ok m" and "launch_setup checks config = Inr p"
    and "kernel_ok sp (length bufs) p K" and "fresh_result sp checks K bufs lid config ch = (r, t, True)"
  shows "fst (fresh_result sp checks K bufs lid config (Replay t 0)) = r"
proof -
  have set: "dev_setting sp checks config p lid bufs" using assms(1-3) by (auto simp: dev_setting_def numbered_def unused_def)
  obtain rt s where "launch_kernel sp checks config ch K lid bufs = Inr (rt, s)"
    using launch_refused [of sp checks config ch K lid bufs] assms(3)
    by (cases "launch_kernel sp checks config ch K lid bufs") auto
  moreover from this have "rt = (r, t, True)" using assms(5) by (simp add: fresh_result_def launch_result_def)
  ultimately obtain s where "launch_kernel sp checks config ch K lid bufs = Inr ((r, t, True), s)" by simp
  from launch_replayed [OF set assms(4) this] show ?thesis by (auto simp: fresh_result_def launch_result_def)
qed

lemma explored:
  assumes run: "explore_run_with sp checks ex K bufs lid = Inr (e, lid')" and num: "numbered sp bufs lid"
    and bufs: "\<forall>m \<in> set bufs. buf_ok m" and su: "launch_setup checks (ex_base ex) = Inr p"
    and K: "kernel_ok sp (length bufs) p K" and on: "ex_minimise ex" "0 < ex_budget ex"
    and f: "f = fresh_result sp checks K bufs lid"
  shows "case found_failure e of
      None \<Rightarrow> \<forall>j < unat (ex_seeds ex). is_clean (seed_report f ex j)
    | Some fl \<Rightarrow> \<exists>j < unat (ex_seeds ex). (\<forall>k < j. is_clean (seed_report f ex k))
        \<and> seeds_tried e = of_nat j + 1 \<and> fail_seed fl = lc_seed (seed_config ex j) \<and> shrunk_failure f ex j fl"
proof -
  have "search ex (fresh_launcher sp checks K bufs) lid = (e, lid')"
    using run su by (auto simp: explore_run_with_def explore_checked_def split: if_splits)
  then have "fst (search ex (pure_launcher f) ()) = e"
    using fresh_launches.search_as_pure [of sp bufs lid lid ex checks K "()"] num by (simp add: f)
  then have "search_from ex (pure_launcher f) 0 (unat (ex_seeds ex)) () = (e, ())" by (simp add: search_def prod_eq_iff)
  note cases = search_from_cases [OF this]
  have rep: "fst (f (seed_config ex j) (Replay t 0)) = r" if "f (seed_config ex j) ch = (r, t, True)" for j ch r t
    using fresh_result_replays [OF num bufs _ K] that su by (simp add: f seed_config_def)
  show ?thesis
  proof (cases "found_failure e")
    case None
    then show ?thesis using cases by simp
  next
    case (Some fl)
    from cases [unfolded Some option.case] obtain j where j: "j < 0 + unat (ex_seeds ex)"
      "\<not> is_clean (seed_report f ex j)" "\<forall>k. 0 \<le> k \<and> k < j \<longrightarrow> is_clean (seed_report f ex k)"
      "seeds_tried e = of_nat j + 1" "failure_of f ex j () fl" by (elim exE conjE)
    have "fail_seed fl = lc_seed (seed_config ex j)" using j(5) by (auto simp: failure_of_def seed_config_def)
    moreover have "shrunk_failure f ex j fl" by (rule pure_failures_shrunk [OF rep on j(5,2)])
    ultimately show ?thesis unfolding Some option.case using j(1,3,4) by (intro exI [of _ j]) simp
  qed
qed



text \<open>A kernel that races under every schedule is found under the first seed.\<close>

lemma race_not_clean: "has_race r \<Longrightarrow> \<not> is_clean r"
  by (auto simp: has_race_def is_clean_def)

lemma explore_accepted:
  assumes "launch_setup checks (ex_base ex) = Inr p"
  shows "\<exists>e lid'. explore_run_with sp checks ex K bufs lid = Inr (e, lid')"
  by (cases "search ex (fresh_launcher sp checks K bufs) lid")
    (simp add: explore_run_with_def explore_checked_def assms)

lemma explored_first:
  assumes run: "explore_run_with sp checks ex K bufs lid = Inr (e, lid')" and num: "numbered sp bufs lid"
    and "\<forall>m \<in> set bufs. buf_ok m" and su: "launch_setup checks (ex_base ex) = Inr p"
    and "kernel_ok sp (length bufs) p K" and "ex_minimise ex" and "0 < ex_budget ex" and seeds: "0 < unat (ex_seeds ex)"
    and race: "\<And>config ch. launch_setup checks config = Inr p \<Longrightarrow>
      \<exists>r trace s. launch_kernel sp checks config ch K lid bufs = Inr ((r, trace), s) \<and> has_race r \<and> \<not> report_aborted r"
  shows "\<exists>fl. found_failure e = Some fl \<and> seeds_tried e = 1 \<and> fail_seed fl = lc_seed (ex_base ex)
    \<and> has_race (fail_report fl) \<and> shrunk_failure (fresh_result sp checks K bufs lid) ex 0 fl"
proof -
  let ?f = "fresh_result sp checks K bufs lid"
  have races: "has_race (fst (?f (seed_config ex j) ch))" for j ch
  proof -
    have "launch_setup checks (seed_config ex j) = Inr p" using su by (simp add: seed_config_def)
    from race [OF this, of ch] show ?thesis by (auto simp: fresh_result_def launch_result_def)
  qed
  then have dirty: "\<not> is_clean (seed_report ?f ex j)" for j
    unfolding seed_report_def by (rule race_not_clean)
  note e = explored [OF assms(1-7) refl]
  have "found_failure e \<noteq> None"
  proof
    assume "found_failure e = None"
    then show False using e dirty seeds by simp
  qed
  then obtain fl where fl: "found_failure e = Some fl" by blast
  from e [unfolded fl option.case] obtain j where j: "\<forall>k < j. is_clean (seed_report ?f ex k)"
    "seeds_tried e = of_nat j + 1" "fail_seed fl = lc_seed (seed_config ex j)" "shrunk_failure ?f ex j fl" by blast
  have "j = 0" using j(1) dirty by blast
  moreover have "has_race (fail_report fl)" using j(4) races [of j "Random (fail_seed fl)"] by (auto simp: shrunk_failure_def)
  ultimately show ?thesis using fl j by (auto simp: seed_config_def)
qed


end
