(* ===== verification/Kernel_Api.thy ===== *)
theory Kernel_Api
  imports Kernel_Unsynced
begin

text \<open>
  The calls of the library as parts of a program, each with its continuation, and what the predicates on
  programs say of them, so that a kernel is read off its source and its side conditions are decided by
  \<open>simp\<close>. An access is a scheduling point and the access; a claim and a barrier likewise come in two steps.
\<close>

section \<open>The calls\<close>

definition do_access ::
  "nat \<Rightarrow> nat \<Rightarrow> access_kind \<Rightarrow> location \<Rightarrow> mem_ordering option \<Rightarrow> ('a \<Rightarrow> ('a \<times> 'a) res) \<Rightarrow> ('a \<Rightarrow> 'a program) \<Rightarrow> 'a program" where
  "do_access b i kind loc ord op k = Do (DevSched ActYield) (\<lambda>_. Do (DevAccess b i kind loc ord op)
     (\<lambda>r. case r of Got v \<Rightarrow> k v | _ \<Rightarrow> Return))"

definition do_read :: "nat \<Rightarrow> nat \<Rightarrow> location \<Rightarrow> ('a \<Rightarrow> 'a program) \<Rightarrow> 'a program" where
  "do_read b i loc k = do_access b i Read loc None op_read k"

definition do_write :: "nat \<Rightarrow> nat \<Rightarrow> 'a \<Rightarrow> location \<Rightarrow> 'a program \<Rightarrow> 'a program" where
  "do_write b i v loc k = do_access b i Write loc None (op_write v) (\<lambda>_. k)"

definition do_atomic ::
  "nat \<Rightarrow> nat \<Rightarrow> mem_ordering \<Rightarrow> location \<Rightarrow> ('a \<Rightarrow> ('a \<times> 'a) res) \<Rightarrow> ('a \<Rightarrow> 'a program) \<Rightarrow> 'a program" where
  "do_atomic b i ord loc op k = do_access b i Atomic loc (Some ord) op k"

text \<open>A claim of an element by raw index, and a write through it.\<close>

definition do_claim :: "nat \<Rightarrow> nat \<Rightarrow> location \<Rightarrow> 'a program \<Rightarrow> 'a program" where
  "do_claim b i loc k = Do (DevSched ActYield) (\<lambda>_. Do (DevClaim b i False loc)
     (\<lambda>r. case r of Slot (Some j) \<Rightarrow> k | _ \<Rightarrow> Return))"

definition do_store :: "nat \<Rightarrow> nat \<Rightarrow> 'a \<Rightarrow> 'a program \<Rightarrow> 'a program" where
  "do_store b i v k = Do (DevStore b i v) (\<lambda>_. k)"

definition do_sync :: "location \<Rightarrow> 'a program \<Rightarrow> 'a program" where
  "do_sync loc k = Do (DevArrive loc) (\<lambda>_. Do DevDepart (\<lambda>_. k))"

definition do_fence :: "'a program \<Rightarrow> 'a program" where
  "do_fence k = Do (DevFence AcqRel) (\<lambda>_. k)"

text \<open>An operation that may panic.\<close>

definition do_res :: "'b res \<Rightarrow> ('b \<Rightarrow> 'a program) \<Rightarrow> 'a program" where
  "do_res r k = (case r of Inr v \<Rightarrow> k v | Inl p \<Rightarrow> Panic (panic_text p))"

lemma do_res_Inr [simp]: "do_res (Inr v) k = k v"
  by (simp add: do_res_def)

section \<open>What the predicates say of them\<close>

lemma op_total [simp]: "\<exists>a b. op_read v = Inr (a, b)" "\<exists>a b. op_write u v = Inr (a, b)" "\<exists>a b. op_swap u v = Inr (a, b)"
  by (simp_all add: op_read_def op_write_def op_swap_def)

lemma all_replies: "(\<forall>r. P r) \<longleftrightarrow> P Nothing \<and> (\<forall>v. P (Got v)) \<and> (\<forall>s. P (Slot s))"
  by (metis reply.exhaust)

lemma all_slots: "(\<forall>s :: nat option. P s) \<longleftrightarrow> P None \<and> (\<forall>j. P (Some j))"
  by (metis option.exhaust)

lemma program_ok_access [simp]:
  "program_ok (do_access b i kind loc ord op k) sp n cfg slot leaving \<longleftrightarrow> \<not> leaving \<and> b < n
     \<and> (ord = None \<longleftrightarrow> kind \<noteq> Atomic) \<and> (kind \<noteq> Atomic \<longrightarrow> (\<forall>v. \<exists>x. op v = Inr x))
     \<and> (\<forall>v. program_ok (k v) sp n cfg slot False)"
  by (auto simp: do_access_def is_arrive_def all_replies)

lemma program_ok_calls [simp]:
  "program_ok (do_read b i loc k) sp n cfg slot leaving \<longleftrightarrow> \<not> leaving \<and> b < n \<and> (\<forall>v. program_ok (k v) sp n cfg slot False)"
  "program_ok (do_write b i v loc g) sp n cfg slot leaving \<longleftrightarrow> \<not> leaving \<and> b < n \<and> program_ok g sp n cfg slot False"
  "program_ok (do_atomic b i o1 loc op k) sp n cfg slot leaving \<longleftrightarrow> \<not> leaving \<and> b < n \<and> (\<forall>v. program_ok (k v) sp n cfg slot False)"
  "program_ok (do_claim b i loc g) sp n cfg slot leaving \<longleftrightarrow> \<not> leaving \<and> b < n \<and> (\<exists>name. sp ! b = Global name)
     \<and> program_ok g sp n cfg slot False"
  "program_ok (do_store b i v g) sp n cfg slot leaving \<longleftrightarrow> \<not> leaving \<and> b < n \<and> program_ok g sp n cfg slot False"
  "program_ok (do_sync loc g) sp n cfg slot leaving \<longleftrightarrow> \<not> leaving \<and> program_ok g sp n cfg slot False"
  "program_ok (do_fence g) sp n cfg slot leaving \<longleftrightarrow> \<not> leaving \<and> program_ok g sp n cfg slot False"
  by (auto simp: do_read_def do_write_def do_atomic_def do_claim_def do_store_def do_sync_def do_fence_def is_arrive_def
      all_replies all_slots)

lemma calm_calls [simp]:
  "calm lens (do_read b i loc k) \<longleftrightarrow> i < lens ! b \<and> (\<forall>v. calm lens (k v))"
  "calm lens (do_write b i v loc g) \<longleftrightarrow> i < lens ! b \<and> calm lens g"
  "calm lens (do_atomic b i o1 loc op k) \<longleftrightarrow> i < lens ! b \<and> (\<forall>v. \<exists>x. op v = Inr x) \<and> (\<forall>v. calm lens (k v))"
  "calm lens (do_claim b i loc g) \<longleftrightarrow> i < lens ! b \<and> calm lens g"
  "calm lens (do_store b i v g) \<longleftrightarrow> calm lens g"
  "calm lens (do_fence g) \<longleftrightarrow> calm lens g"
  by (auto simp: do_read_def do_write_def do_atomic_def do_access_def do_claim_def do_store_def do_fence_def)

lemma unsynced_calls [simp]:
  "unsynced L (do_read b i loc k) \<longleftrightarrow> loc \<in> L \<and> (\<forall>v. unsynced L (k v))"
  "unsynced L (do_write b i v loc g) \<longleftrightarrow> unsynced L g"
  "unsynced L (do_claim b i loc g) \<longleftrightarrow> unsynced L g"
  "unsynced L (do_store b i v g) \<longleftrightarrow> unsynced L g"
  by (auto simp: do_read_def do_write_def do_access_def do_claim_def do_store_def)

lemma bound_to_calls [simp]:
  "bound_to (touches b i w) (do_read b' i' loc k) \<longleftrightarrow> (b' = b \<and> i' = i \<and> \<not> w) \<or> (\<forall>v. bound_to (touches b i w) (k v))"
  "bound_to (touches b i w) (do_write b' i' v loc g) \<longleftrightarrow> (b' = b \<and> i' = i) \<or> bound_to (touches b i w) g"
  "bound_to (touches b i w) (do_claim b' i' loc g) \<longleftrightarrow> (b' = b \<and> i' = i) \<or> bound_to (touches b i w) g"
  "bound_to (touches b i w) (do_store b' i' v g) \<longleftrightarrow> bound_to (touches b i w) g"
  by (auto simp: do_read_def do_write_def do_access_def do_claim_def do_store_def)

lemma within_calls [simp]:
  "within own (do_read b i loc k) \<longleftrightarrow> (b, i) \<in> own \<and> (\<forall>v. within own (k v))"
  "within own (do_write b i v loc g) \<longleftrightarrow> (b, i) \<in> own \<and> within own g"
  "within own (do_claim b i loc g) \<longleftrightarrow> (b, i) \<in> own \<and> within own g"
  "within own (do_store b i v g) \<longleftrightarrow> (b, i) \<in> own \<and> within own g"
  by (auto simp: do_read_def do_write_def do_access_def do_claim_def do_store_def)

lemma solo_calls [simp]:
  "i < length (m ! b) \<Longrightarrow> solo (do_read b i loc k) m = solo (k (m ! b ! i)) (put b i (m ! b ! i) m)"
  "i < length (m ! b) \<Longrightarrow> solo (do_write b i v loc g) m = solo g (put b i v m)"
  "i < length (m ! b) \<Longrightarrow> solo (do_claim b i loc g) m = solo g m"
  "solo (do_store b i v g) m = solo g (put b i v m)"
  by (simp_all add: do_read_def do_write_def do_access_def do_claim_def do_store_def op_read_def op_write_def)

section \<open>Kernels of one-dimensional grids\<close>

text \<open>The threads of all waves, one after the other.\<close>

lemma in_turn_grid:
  assumes p: "plan_ok p" and K: "\<And>first n slot. (first, n) \<in> set (wave_list p) \<Longrightarrow> slot < n * lp_tpb p \<Longrightarrow>
     K (thread_ctx_of (lp_tpb p) first slot) = G (first * lp_tpb p + slot)"
  shows "in_turn K p (wave_list p) m = fold (\<lambda>t. solo (G t)) [0..<lp_blocks p * lp_tpb p] m"
proof -
  have wave: "fold solo (wave_programs K p first n) m
      = fold (\<lambda>t. solo (G t)) [first * lp_tpb p..<first * lp_tpb p + n * lp_tpb p] m"
    if "(first, n) \<in> set (wave_list p)" for first n m
  proof -
    have "wave_programs K p first n = map (\<lambda>slot. G (first * lp_tpb p + slot)) [0..<n * lp_tpb p]"
      using K [OF that] by (simp add: wave_programs_def)
    also have "\<dots> = map G [first * lp_tpb p..<first * lp_tpb p + n * lp_tpb p]"
      by (simp add: map_shift_upt [symmetric] o_def)
    finally show ?thesis by (simp add: fold_map o_def)
  qed
  have "fold (\<lambda>(first, n). fold solo (wave_programs K p first n)) ws m
      = fold (\<lambda>t. solo (G t)) (concat (map (\<lambda>(f, n). [f * lp_tpb p..<f * lp_tpb p + n * lp_tpb p]) ws)) m"
    if "set ws \<subseteq> set (wave_list p)" for ws m
    using that by (induction ws arbitrary: m) (auto simp: wave)
  from this [OF subset_refl] show ?thesis unfolding in_turn_def waves_cover [OF p] .
qed

text \<open>Every thread number of the grid has its place in a wave.\<close>

lemma thread_in_wave:
  assumes p: "plan_ok p" and t: "t < lp_blocks p * lp_tpb p"
  obtains first n slot where "(first, n) \<in> set (wave_list p)" "slot < n * lp_tpb p" "t = first * lp_tpb p + slot"
proof -
  have "t \<in> set (concat (map (\<lambda>(f, n). [f * lp_tpb p..<f * lp_tpb p + n * lp_tpb p]) (wave_list p)))"
    unfolding waves_cover [OF p] using t by simp
  then obtain f n where "(f, n) \<in> set (wave_list p)" "f * lp_tpb p \<le> t" "t < f * lp_tpb p + n * lp_tpb p" by auto
  then show thesis using that [of f n "t - f * lp_tpb p"] by auto
qed

end
