(* ===== verification/Examples.thy ===== *)
theory Examples
  imports Kernel_Api Kernel_Explore Oxide
begin

text \<open>
  The kernels of \<^verbatim>\<open>examples/\<close> as programs, in the order of their calls. Buffers of device memory and the
  shared arrays of each block are the buffers of the launch, by number. What the comments of the examples
  promise is proved: the correct scatter is clean under every schedule and writes every slot once, the buggy
  one and the missing barrier are reported under every schedule.
\<close>

section \<open>oxide_kernel.rs\<close>

definition oxide_blocks :: u32 where "oxide_blocks = 4"
definition oxide_threads :: u32 where "oxide_threads = 8"

definition at_oxide :: "nat \<Rightarrow> nat \<Rightarrow> location" where
  "at_oxide line column = Location ''examples/oxide_kernel.rs'' line column"

text \<open>
  \<^verbatim>\<open>scatter\<close>: buffer 0 is the slice. Addition and multiplication of \<^verbatim>\<open>u32\<close> panic on overflow when \<open>checks\<close> is
  on; \<open>grid\<close> and \<open>block\<close> are the extents of the launch.
\<close>

definition scatter :: "bool \<Rightarrow> dim3 \<Rightarrow> dim3 \<Rightarrow> u32 \<Rightarrow> thread_ctx \<Rightarrow> u32 program" where
  "scatter checks grid block stride t =
     do_res (from_linear checks (tc_block t) grid) (\<lambda>bi.
     do_res (mul_u32 checks (dim_x bi) stride) (\<lambda>base.
     do_res (from_linear checks (tc_thread t) block) (\<lambda>ti.
     do_res (add_u32 checks base (dim_x ti)) (\<lambda>i.
     do_claim 0 (unat i) (at_oxide 26 24) (do_store 0 (unat i) i Return)))))"

text \<open>The launch of \<^verbatim>\<open>main\<close>, and the count it prints.\<close>

definition oxide_config :: launch_config where
  "oxide_config = with_seed (launch_config_new (dim3_from_u32 oxide_blocks) (dim3_from_u32 oxide_threads)) 2026"

definition oxide_main ::
  "bool \<Rightarrow> u32 \<Rightarrow> nat \<Rightarrow> ((report \<times> u32 list \<times> bool) \<times> u32 kernel_state) res" where
  "oxide_main checks stride lid =
     launch_kernel [Global ''out''] checks oxide_config (Random (lc_seed oxide_config))
       (scatter checks (lc_grid oxide_config) (lc_block oxide_config) stride) lid
       [global_new (replicate (unat (oxide_blocks * oxide_threads)) 0)]"

definition slots_written :: "u32 kernel_state \<Rightarrow> nat" where
  "slots_written s = length (filter (\<lambda>x. x \<noteq> 0) (to_vec (dv_bufs (kr_dev s) ! 0)))"

section \<open>shrink.rs\<close>

definition at_shrink :: "nat \<Rightarrow> nat \<Rightarrow> location" where
  "at_shrink line column = Location ''examples/shrink.rs'' line column"

text \<open>\<^verbatim>\<open>structural\<close>: buffer 0 is \<^verbatim>\<open>out\<close>, buffer 1 the shared array \<^verbatim>\<open>tile\<close> of the only block.\<close>

definition structural_config :: launch_config where
  "structural_config = launch_config_new (dim3_from_u32 1) (dim3_from_u32 64)"

definition structural :: "thread_ctx \<Rightarrow> u32 program" where
  "structural t =
     (let i = thread_linear t
      in do_write 1 i (of_nat i) (at_shrink 35 18)
           (do_read 1 ((i + 1) mod 64) (at_shrink 37 34) (\<lambda>v.
            do_write 0 i v (at_shrink 37 17) Return)))"

definition structural_spaces :: "mem_space list" where
  "structural_spaces = [Global ''out'', Shared 0 ''tile'']"

definition structural_bufs :: "u32 instrumented list" where
  "structural_bufs = [global_new (replicate 64 0), shared_new 0 64]"

text \<open>The exploration of \<^verbatim>\<open>structural\<close>.\<close>

definition structural_found :: "bool \<Rightarrow> nat \<Rightarrow> (exploration \<times> nat) res" where
  "structural_found checks lid =
     explore_run_with structural_spaces checks (with_seeds (explore_new structural_config) 64) structural structural_bufs lid"

text \<open>\<^verbatim>\<open>order_dependent\<close>: buffer 0 is \<^verbatim>\<open>flag\<close>, buffer 1 is \<^verbatim>\<open>out\<close>.\<close>

definition order_config :: launch_config where
  "order_config = launch_config_new (dim3_from_u32 1) (dim3_from_u32 4)"

definition order_dependent :: "bool \<Rightarrow> thread_ctx \<Rightarrow> u32 program" where
  "order_dependent checks t =
     (let i = thread_linear t
      in if i = 0
         then do_atomic 0 0 Relaxed (at_shrink 72 22) (op_combine (add_u32 checks) 1) (\<lambda>_. Return)
         else do_atomic 0 0 Relaxed (at_shrink 73 28) (op_combine (add_u32 checks) 0) (\<lambda>v.
                if v = 0 then do_write 1 0 (of_nat i) (at_shrink 75 21) Return else Return))"

definition order_spaces :: "mem_space list" where
  "order_spaces = [Global ''flag'', Global ''out'']"

definition order_bufs :: "u32 instrumented list" where
  "order_bufs = [global_new [0], global_new [0]]"

section \<open>reduction.rs\<close>

definition at_reduction :: "nat \<Rightarrow> nat \<Rightarrow> location" where
  "at_reduction line column = Location ''examples/reduction.rs'' line column"

text \<open>
  \<^verbatim>\<open>reduce\<close>: buffer 0 is \<^verbatim>\<open>input\<close>, buffer 1 is \<^verbatim>\<open>partial\<close>, buffer \<open>2 + block\<close> the shared array of a block. The
  loop halves \<^verbatim>\<open>stride\<close> until it is zero.
\<close>

function reduce_loop :: "bool \<Rightarrow> bool \<Rightarrow> nat \<Rightarrow> nat \<Rightarrow> nat \<Rightarrow> u32 program \<Rightarrow> u32 program" where
  "reduce_loop checks buggy tile i stride g =
     (if stride = 0 then g
      else let rest = reduce_loop checks buggy tile i (stride div 2) g;
               sync = (if buggy then rest else do_sync (at_reduction 25 15) rest)
           in if i < stride
              then do_read tile i (at_reduction 21 28) (\<lambda>a.
                   do_read tile (i + stride) (at_reduction 21 46) (\<lambda>b.
                   do_res (add_u32 checks a b) (\<lambda>sum.
                   do_write tile i sum (at_reduction 22 18) sync)))
              else sync)"
  by pat_completeness auto
termination
  by (relation "measure (\<lambda>(checks, buggy, tile, i, stride, g). stride)") auto

declare reduce_loop.simps [simp del]

definition reduce :: "bool \<Rightarrow> bool \<Rightarrow> thread_ctx \<Rightarrow> u32 program" where
  "reduce checks buggy t =
     (let i = thread_linear t; tile = 2 + block_linear t
      in do_read 0 (global_linear t) (at_reduction 15 28) (\<lambda>v.
         do_write tile i v (at_reduction 15 10)
           (do_sync (at_reduction 16 7)
             (reduce_loop checks buggy tile i (64 div 2)
               (if i = 0
                then do_read tile 0 (at_reduction 31 49) (\<lambda>v.
                     do_write 1 (block_linear t) v (at_reduction 31 17) Return)
                else Return)))))"

definition reduce_spaces :: "nat \<Rightarrow> mem_space list" where
  "reduce_spaces blocks = [Global ''input'', Global ''partial''] @ map (\<lambda>b. Shared (of_nat b) ''tile'') [0..<blocks]"

section \<open>message_passing.rs\<close>

definition at_passing :: "nat \<Rightarrow> nat \<Rightarrow> location" where
  "at_passing line column = Location ''examples/message_passing.rs'' line column"

text \<open>Buffers 0, 1 and 2 are \<^verbatim>\<open>data\<close>, \<^verbatim>\<open>flag\<close> and \<^verbatim>\<open>seen\<close>. The consumer looks at the flag 200 times.\<close>

fun wait_flag :: "nat \<Rightarrow> u32 program \<Rightarrow> u32 program" where
  "wait_flag 0 g = Return"
| "wait_flag (Suc n) g = do_atomic 1 0 Relaxed (at_passing 38 29) op_read (\<lambda>v.
     if v = 1 then g else wait_flag n g)"

definition pass_message :: "bool \<Rightarrow> thread_ctx \<Rightarrow> u32 program" where
  "pass_message fenced t =
     (let lane = thread_linear t; fence = (if fenced then do_fence else (\<lambda>g. g))
      in if block_linear t = 0
         then do_write 0 lane (100 + of_nat lane) (at_passing 26 22)
                (do_sync (at_passing 28 19)
                  (if lane = 0
                   then fence (do_atomic 1 0 Relaxed (at_passing 33 26) (op_write 1) (\<lambda>_. Return))
                   else Return))
         else wait_flag 200
                (fence (do_read 0 lane (at_passing 47 38) (\<lambda>value.
                   do_write 2 lane value (at_passing 48 26) Return))))"

definition pass_spaces :: "mem_space list" where
  "pass_spaces = [Global ''data'', Global ''flag'', Global ''seen'']"

definition pass_config :: launch_config where
  "pass_config = with_seed (launch_config_new (dim3_from_u32 2) (dim3_from_u32 4)) 2026"

section \<open>One-dimensional launches\<close>

definition one_dim :: "launch_config \<Rightarrow> u32 \<Rightarrow> u32 \<Rightarrow> bool" where
  "one_dim c blocks threads \<longleftrightarrow> lc_grid c = dim3_from_u32 blocks \<and> lc_block c = dim3_from_u32 threads"

lemma unat_u32: "unat (n :: u32) < 2 ^ 32"
  using unsigned_less [of n, where 'a = nat] by simp

lemma count_1d [simp]: "dim3_count checks (dim3_from_u32 n) = Inr n"
  using unat_u32 [of n] by (simp add: dim3_count_def dim3_from_u32_def dim3_new_def mul_u32_no_overflow)

lemma one_dim_plan:
  assumes "launch_setup checks c = Inr p" and "one_dim c blocks threads"
  shows "lp_blocks p = unat blocks" and "lp_tpb p = unat threads"
  using assms by (auto simp: launch_setup_def one_dim_def Let_def)

lemma from_linear_1d:
  assumes "unat i < unat n"
  obtains d where "from_linear checks i (dim3_from_u32 n) = Inr d" "dim_x d = i"
proof -
  have "volume (dim3_from_u32 n) = unat n" by (simp add: volume_def dim3_from_u32_def dim3_new_def)
  then have "volume (dim3_from_u32 n) < 2 ^ 32" "unat i < volume (dim3_from_u32 n)" using assms unat_u32 [of n] by simp_all
  then obtain d where "from_linear checks i (dim3_from_u32 n) = Inr d"
    "unat (dim_x d) = unat i mod unat (dim_x (dim3_from_u32 n))" by (rule from_linear_value)
  moreover from this assms have "dim_x d = i" by (simp add: dim3_from_u32_def dim3_new_def word_unat_eq_iff)
  ultimately show thesis using that by blast
qed

section \<open>The scatter\<close>

text \<open>Where a thread writes: its block times the stride plus its number in the block, without overflow.\<close>

lemma scatter_thread:
  assumes su: "launch_setup checks0 c = Inr p" and one: "one_dim c blocks threads" and s: "unat stride \<le> unat threads"
    and w: "(first, n) \<in> set (wave_list p)" and slot: "slot < n * lp_tpb p"
    and i: "i = (first + slot div lp_tpb p) * unat stride + slot mod lp_tpb p"
  shows "scatter checks (lc_grid c) (lc_block c) stride (thread_ctx_of (lp_tpb p) first slot) =
      do_claim 0 i (at_oxide 26 24) (do_store 0 i (of_nat i) Return)"
    and "i < lp_total p"
proof -
  let ?t = "thread_ctx_of (lp_tpb p) first slot"
  have p: "plan_ok p" by (rule launch_setup_ok [OF su])
  have f: "first + n \<le> lp_blocks p" by (rule wave_list_bounds [OF w])
  note v = thread_ctx_values [OF p f slot] and pl = one_dim_plan [OF su one]
  have tpb: "0 < lp_tpb p" and tot: "lp_total p = lp_blocks p * lp_tpb p" "lp_total p < 2 ^ 32"
    using p by (auto simp: plan_ok_def)
  have "slot div lp_tpb p < n" using slot by (simp add: less_mult_imp_div_less)
  then have b: "unat (tc_block ?t) < unat blocks" using f v(1) pl(1) by simp
  have t: "unat (tc_thread ?t) < unat threads" using v(2) pl(2) tpb by simp
  have ieq: "i = unat (tc_block ?t) * unat stride + unat (tc_thread ?t)" by (simp add: i v)
  have "unat (tc_block ?t) * unat stride \<le> unat (tc_block ?t) * lp_tpb p" unfolding pl(2) using s by (rule mult_le_mono2)
  then have "i < Suc (unat (tc_block ?t)) * lp_tpb p" using ieq t unfolding pl(2) mult_Suc by linarith
  also have "\<dots> \<le> lp_total p" unfolding tot(1) using b pl(1) by (intro mult_le_mono1) simp
  finally show lt: "i < lp_total p" .
  have no: "unat (tc_block ?t) * unat stride < 2 ^ 32" using lt tot(2) ieq by linarith
  have sum: "unat (tc_block ?t * stride) + unat (tc_thread ?t) < 2 ^ 32"
    using lt tot(2) ieq unat_mult_u32 [OF no] by linarith
  obtain db dt where d: "from_linear checks (tc_block ?t) (lc_grid c) = Inr db" "dim_x db = tc_block ?t"
    "from_linear checks (tc_thread ?t) (lc_block c) = Inr dt" "dim_x dt = tc_thread ?t"
    using from_linear_1d [OF b, of checks] from_linear_1d [OF t, of checks] one unfolding one_dim_def by metis
  have "unat (tc_block ?t * stride + tc_thread ?t) = i"
    using sum ieq unat_mult_u32 [OF no] by (simp add: unat_word_ariths)
  then have "tc_block ?t * stride + tc_thread ?t = of_nat i" "unat (tc_block ?t * stride + tc_thread ?t) = i" by auto
  then show "scatter checks (lc_grid c) (lc_block c) stride ?t = do_claim 0 i (at_oxide 26 24) (do_store 0 i (of_nat i) Return)"
    by (simp add: scatter_def d mul_u32_no_overflow [OF no] add_u32_no_overflow [OF sum])
qed

lemma scatter_kernel:
  assumes su: "launch_setup checks0 c = Inr p" and one: "one_dim c blocks threads" and s: "unat stride \<le> unat threads"
  shows "kernel_ok [Global name] (Suc 0) p (scatter checks (lc_grid c) (lc_block c) stride)"
    and "calm_kernel [lp_total p] p (scatter checks (lc_grid c) (lc_block c) stride)"
    and "unsynced_kernel {} p (scatter checks (lc_grid c) (lc_block c) stride)"
  using scatter_thread [OF su one s _ _ refl]
  by (auto simp: kernel_ok_def calm_kernel_def unsynced_kernel_def)

definition scatter_bufs :: "nat \<Rightarrow> u32 instrumented list" where
  "scatter_bufs n = [global_new (replicate n 0)]"

lemma scatter_setting:
  assumes "launch_setup checks c = Inr p" and "lid \<noteq> 0"
  shows "dev_setting [Global name] checks c p lid (scatter_bufs n)" and "buf_lens (scatter_bufs n) = [n]"
    and "ready [Global name] (scatter_bufs n)"
  using assms by (auto simp: dev_setting_def scatter_bufs_def global_new_def buf_ok_def buf_lens_def buf_len_def ready_def
      cell_initialised_def)

lemma fold_puts: "fold (\<lambda>t. put 0 t (f t)) [0..<n] [xs] = [map f [0..<min n (length xs)] @ drop n xs]"
proof (induction n)
  case (Suc n)
  show ?case
  proof (cases "n < length xs")
    case True
    then have "drop n xs = xs ! n # drop (Suc n) xs" by (rule Cons_nth_drop_Suc [symmetric])
    then show ?thesis using True Suc by (simp add: put_def list_update_append min_def)
  next
    case False
    then show ?thesis using Suc by (simp add: put_def min_def list_update_beyond)
  qed
qed simp


text \<open>
  C13: the correct scatter of \<^verbatim>\<open>oxide_kernel.rs\<close>, in every one-dimensional launch whatever its size, seed, schedule
  and number of waves: with the block size as stride the report is empty, nothing aborts, and slot \<open>i\<close> holds
  \<open>i\<close> for every thread number of the grid.
\<close>

theorem scatter_is_clean:
  assumes "launch_setup checks c = Inr p" and "one_dim c blocks threads" and "lid \<noteq> 0"
  shows "\<exists>r trace s. launch_kernel [Global ''out''] checks c ch (scatter checks (lc_grid c) (lc_block c) threads) lid
      (scatter_bufs (lp_total p)) = Inr ((r, trace), s)
    \<and> is_clean r \<and> \<not> report_aborted r \<and> map to_vec (dv_bufs (kr_dev s)) = [map of_nat [0..<lp_total p]]"
proof -
  let ?K = "scatter checks (lc_grid c) (lc_block c) threads" and ?G = "\<lambda>i. do_claim 0 i (at_oxide 26 24) (do_store 0 i (of_nat i) Return)"
  have p: "plan_ok p" by (rule launch_setup_ok [OF assms(1)])
  note set = scatter_setting [OF assms(1,3)] and K = scatter_kernel [OF assms(1,2) order_refl]
  have thr: "?K (thread_ctx_of (lp_tpb p) first slot) = ?G (first * lp_tpb p + slot)"
    if "(first, n) \<in> set (wave_list p)" "slot < n * lp_tpb p" for first n slot
  proof -
    have "(first + slot div lp_tpb p) * unat threads + slot mod lp_tpb p = first * lp_tpb p + slot"
      unfolding one_dim_plan(2) [OF assms(1,2)] distrib_right add.assoc div_mult_mod_eq ..
    then show ?thesis using scatter_thread(1) [OF assms(1,2) order_refl that refl, of checks] by simp
  qed
  have lens: "length (scatter_bufs (lp_total p)) = Suc 0" by (simp add: scatter_bufs_def)
  have disj: "disjoint_kernel (\<lambda>t. {(0, t)}) p ?K" using thr by (auto simp: disjoint_kernel_def)
  have "in_turn ?K p (wave_list p) [replicate (lp_total p) 0] = fold (\<lambda>t. solo (?G t)) [0..<lp_total p] [replicate (lp_total p) 0]"
    using in_turn_grid [of p ?K ?G, OF p thr] p by (simp add: plan_ok_def)
  also have "\<dots> = fold (\<lambda>t. put 0 t (of_nat t)) [0..<lp_total p] [replicate (lp_total p) 0]"
  proof -
    have "fold (\<lambda>t. solo (?G t)) ts [xs] = fold (\<lambda>t. put 0 t (of_nat t)) ts [xs]" if "\<forall>t \<in> set ts. t < length xs" for ts and xs :: "u32 list"
      using that by (induction ts arbitrary: xs) (simp_all add: put_def)
    then show ?thesis by simp
  qed
  also have "\<dots> = [map of_nat [0..<lp_total p]]" by (simp add: fold_puts)
  finally have mem: "in_turn ?K p (wave_list p) (map to_vec (scatter_bufs (lp_total p))) = [map of_nat [0..<lp_total p]]"
    by (simp add: scatter_bufs_def to_vec_def global_new_def)
  have ok: "kernel_ok [Global ''out''] (length (scatter_bufs (lp_total p))) p ?K"
    and calm: "calm_kernel (buf_lens (scatter_bufs (lp_total p))) p ?K" using K lens by (simp_all add: set(2))
  from calm_disjoint_result [OF set(1,3) ok calm disj, of ch] show ?thesis unfolding mem .
qed


text \<open>The two launches of the example.\<close>

definition oxide_plan :: launch_plan where
  "oxide_plan = \<lparr>lp_blocks = 4, lp_tpb = 8, lp_total = 32, lp_warp_size = 32, lp_warps_per_block = 1,
     lp_resident = 4, lp_waves = 1\<rparr>"

lemma oxide_setup: "launch_setup True oxide_config = Inr oxide_plan" "one_dim oxide_config 4 8"
  by (simp_all add: oxide_config_def with_seed_def launch_config_new_def oxide_blocks_def oxide_threads_def one_dim_def
      launch_setup_def oxide_plan_def is_power_of_two_def default_warp_size_def checked_mul_u32_def clamp_u32_def
      max_threads_def expect_u32_def div_ceil_def Let_def)

lemma oxide_main_eq: "oxide_main checks stride lid = launch_kernel [Global ''out''] checks oxide_config (Random 2026)
    (scatter checks (lc_grid oxide_config) (lc_block oxide_config) stride) lid (scatter_bufs (lp_total oxide_plan))"
  by (simp add: oxide_main_def oxide_config_def with_seed_def scatter_bufs_def oxide_plan_def oxide_blocks_def oxide_threads_def)

theorem scatter_is_clean_witness:
  "\<exists>r trace s. oxide_main True oxide_threads 1 = Inr ((r, trace), s) \<and> is_clean r \<and> slots_written s = 31"
proof -
  obtain r trace s where "oxide_main True oxide_threads 1 = Inr ((r, trace), s)" "is_clean r"
    and v: "map to_vec (dv_bufs (kr_dev s)) = [map of_nat [0..<32]]"
    using scatter_is_clean [OF oxide_setup, of 1 "Random 2026"]
    by (auto simp: oxide_main_eq oxide_plan_def oxide_threads_def)
  moreover have "dv_bufs (kr_dev s) \<noteq> []" using v by auto
  then have "to_vec (dv_bufs (kr_dev s) ! 0) = map of_nat [0..<32]" using v nth_map [of 0 "dv_bufs (kr_dev s)" to_vec] by simp
  then have "slots_written s = 31" by (simp add: slots_written_def upt_conv_Cons del: numeral_2_eq_2)
  ultimately show ?thesis by blast
qed



section \<open>The missing barrier\<close>

definition structural_plan :: launch_plan where
  "structural_plan = \<lparr>lp_blocks = 1, lp_tpb = 64, lp_total = 64, lp_warp_size = 32, lp_warps_per_block = 2,
     lp_resident = 1, lp_waves = 1\<rparr>"

lemma structural_setup: "launch_setup checks (with_seed structural_config seed) = Inr structural_plan"
proof -
  have "checked_mul_u32 1 64 = Some 64" by (simp add: checked_mul_u32_def)
  then show ?thesis
    by (simp add: structural_config_def with_seed_def launch_config_new_def launch_setup_def structural_plan_def
        is_power_of_two_def default_warp_size_def clamp_u32_def max_threads_def expect_u32_def div_ceil_def Let_def)
qed

lemma structural_waves [simp]: "wave_list structural_plan = [(0, 1)]" "lp_tpb structural_plan = 64"
  by (simp_all add: structural_plan_def wave_list_def)

lemma structural_thread: "slot < 64 \<Longrightarrow> thread_linear (thread_ctx_of 64 0 slot) = slot"
  by (simp add: thread_linear_def thread_ctx_of_def Let_def unat_of_nat)

lemma structural_kernel:
  "kernel_ok structural_spaces 2 structural_plan structural" "calm_kernel [64, 64] structural_plan structural"
  "unsynced_kernel {at_shrink 37 34} structural_plan structural"
  by (auto simp: kernel_ok_def calm_kernel_def unsynced_kernel_def structural_def structural_thread Let_def)

lemma structural_setup_any:
  assumes "launch_setup checks c = Inr structural_plan"
  shows "\<exists>r trace s. launch_kernel structural_spaces checks c ch structural (Suc k) structural_bufs = Inr ((r, trace), s)
    \<and> has_race r \<and> \<not> report_aborted r"
proof -
  have set: "dev_setting structural_spaces checks c structural_plan (Suc k) structural_bufs"
    by (simp add: dev_setting_def assms structural_spaces_def structural_bufs_def global_new_def shared_new_def buf_ok_def)
  have lens: "buf_lens structural_bufs = [64, 64]"
    by (simp add: buf_lens_def buf_len_def structural_bufs_def global_new_def shared_new_def)
  have few: "few_places {at_shrink 37 34}" by (simp add: few_places_def max_diagnostics_def)
  have ok: "kernel_ok structural_spaces (length structural_bufs) structural_plan structural"
    using structural_kernel(1) by (simp add: structural_bufs_def numeral_2_eq_2)
  have calm: "calm_kernel (buf_lens structural_bufs) structural_plan structural" unfolding lens by (rule structural_kernel(2))
  have due: "due structural_plan structural (touches 1 1 w) t (wave_list structural_plan)" if "t = 1 \<or> t = 0 \<and> \<not> w" for t w
    using that structural_thread [of t]
    by (auto simp: due_def structural_def Let_def)
  have "1 < length structural_bufs" "1 < buf_lens structural_bufs ! 1" "(1 :: nat) \<noteq> 0"
    unfolding lens by (simp_all add: structural_bufs_def)
  from unsynced_result [OF set few ok calm structural_kernel(3) this due due, of ch] show ?thesis by simp
qed

text \<open>
  C16: the missing barrier of \<^verbatim>\<open>shrink.rs\<close>, "any schedule finds it": under every seed and every replayed plan the
  launch of the 64 threads runs to its end and reports a data race, although each read of an unwritten slot
  is reported as well. So the exploration of the example stops at its first seed with a failure that has the
  race, shrunk as every failure is.
\<close>

theorem missing_barrier_is_always_found:
  "(\<exists>r trace s. launch_kernel structural_spaces checks (with_seed structural_config seed) ch structural (Suc k)
      structural_bufs = Inr ((r, trace), s)
    \<and> has_race r \<and> \<not> report_aborted r)
  \<and> (\<exists>e lid' fl. structural_found checks (Suc k) = Inr (e, lid') \<and> found_failure e = Some fl \<and> seeds_tried e = 1
    \<and> has_race (fail_report fl)
    \<and> shrunk_failure (fresh_result structural_spaces checks structural structural_bufs (Suc k))
        (with_seeds (explore_new structural_config) 64) 0 fl)"
proof (rule conjI [OF structural_setup_any [OF structural_setup]])
  let ?ex = "with_seeds (explore_new structural_config) 64"
  have ex: "ex_base ?ex = structural_config" "ex_minimise ?ex" "0 < ex_budget ?ex" "0 < unat (ex_seeds ?ex)"
    by (simp_all add: explore_new_def with_seeds_def)
  have su: "launch_setup checks (ex_base ?ex) = Inr structural_plan"
    using structural_setup [of checks "lc_seed structural_config"] by (simp add: ex with_seed_def)
  from explore_accepted [OF su] obtain e lid' where run: "structural_found checks (Suc k) = Inr (e, lid')"
    unfolding structural_found_def by blast
  have num: "numbered structural_spaces structural_bufs (Suc k)" "\<forall>m \<in> set structural_bufs. buf_ok m"
    by (auto simp: numbered_def unused_def structural_spaces_def structural_bufs_def global_new_def shared_new_def buf_ok_def)
  have ok: "kernel_ok structural_spaces (length structural_bufs) structural_plan structural"
    using structural_kernel(1) by (simp add: structural_bufs_def numeral_2_eq_2)
  from explored_first [OF run [unfolded structural_found_def] num su ok ex(2,3,4) structural_setup_any] run
  show "\<exists>e lid' fl. structural_found checks (Suc k) = Inr (e, lid') \<and> found_failure e = Some fl \<and> seeds_tried e = 1
    \<and> has_race (fail_report fl)
    \<and> shrunk_failure (fresh_result structural_spaces checks structural structural_bufs (Suc k)) ?ex 0 fl" by blast
qed

section \<open>The other kernels end\<close>

lemma reduce_loop_ok:
  "tile < n \<Longrightarrow> program_ok g sp n cfg slot False \<Longrightarrow> program_ok (reduce_loop checks buggy tile i stride g) sp n cfg slot False"
proof (induction checks buggy tile i stride g rule: reduce_loop.induct)
  case (1 checks buggy tile i stride g)
  then show ?case
    by (subst reduce_loop.simps) (cases buggy; auto simp: Let_def do_res_def split: sum.split)
qed

lemma wait_flag_ok:
  "1 < n \<Longrightarrow> program_ok g sp n cfg slot False \<Longrightarrow> program_ok (wait_flag k g) sp n cfg slot False"
  by (induction k) simp_all

lemma example_kernels_ok:
  assumes "plan_ok p"
  shows "kernel_ok (reduce_spaces (lp_blocks p)) (2 + lp_blocks p) p (reduce checks buggy)"
    and "kernel_ok order_spaces 2 p (order_dependent checks)"
    and "kernel_ok pass_spaces 3 p (pass_message fenced)"
proof -
  have "block_linear (thread_ctx_of (lp_tpb p) first slot) < lp_blocks p"
    if "(first, n) \<in> set (wave_list p)" "slot < n * lp_tpb p" for first n slot
    using thread_ctx_values(1) [OF assms wave_list_bounds [OF that(1)] that(2)] wave_list_bounds [OF that(1)]
      less_mult_imp_div_less [OF that(2)] by (simp add: block_linear_def)
  then show "kernel_ok (reduce_spaces (lp_blocks p)) (2 + lp_blocks p) p (reduce checks buggy)"
    by (auto simp: kernel_ok_def reduce_def Let_def intro!: reduce_loop_ok)
  show "kernel_ok order_spaces 2 p (order_dependent checks)" "kernel_ok pass_spaces 3 p (pass_message fenced)"
    by (auto simp: kernel_ok_def order_dependent_def pass_message_def Let_def intro!: wait_flag_ok)
qed

end
