(* ===== verification/Kernel_Outline.thy ===== *)
theory Kernel_Outline
  imports Kernel_Calm Kernel_Api
begin

text \<open>
  Kernels whose threads meet at barriers. The phases of a kernel lie between its barriers; an outline says
  which elements a thread reads and writes in each phase and what every element holds at its start. When no
  thread touches what another thread of the block writes in the same phase, nor what a thread of another
  block writes at all, the outline is what happens under every schedule, and nothing is reported.
\<close>

section \<open>Outlines\<close>

text \<open>
  Threads are numbered through the grid; an element is a buffer and an index. \<open>ou_value\<close> takes the block, the phase
  and the element, and is \<open>None\<close> for an element that is not initialised.
\<close>

record 'a outline =
  ou_reads :: "nat \<Rightarrow> nat \<Rightarrow> (nat \<times> nat) set"
  ou_writes :: "nat \<Rightarrow> nat \<Rightarrow> (nat \<times> nat) set"
  ou_value :: "nat \<Rightarrow> nat \<Rightarrow> nat \<times> nat \<Rightarrow> 'a option"
  ou_phases :: nat

definition ou_block :: "nat \<Rightarrow> 'a outline \<Rightarrow> nat \<Rightarrow> (nat \<times> nat) set" where
  "ou_block tpb Q b = {x. \<exists>e t. t div tpb = b \<and> x \<in> ou_reads Q e t \<union> ou_writes Q e t}"

text \<open>The value during a phase, when the thread has written the elements of \<open>W\<close>.\<close>

definition ou_now :: "'a outline \<Rightarrow> nat \<Rightarrow> nat \<Rightarrow> (nat \<times> nat) set \<Rightarrow> nat \<times> nat \<Rightarrow> 'a option" where
  "ou_now Q b e W x = (if x \<in> W then ou_value Q b (e + 1) x else ou_value Q b e x)"

text \<open>The thread has nothing left to write in this phase.\<close>

definition settled :: "'a outline \<Rightarrow> nat \<Rightarrow> nat \<Rightarrow> nat \<Rightarrow> (nat \<times> nat) set \<Rightarrow> bool" where
  "settled Q b t e W \<longleftrightarrow> (\<forall>x \<in> ou_writes Q e t - W. ou_value Q b (e + 1) x = ou_value Q b e x)"

text \<open>What the update of an access returns, when it is the same whatever a write finds.\<close>

definition reads_as :: "('a \<Rightarrow> ('a \<times> 'a) res) \<Rightarrow> 'a \<Rightarrow> 'a \<Rightarrow> bool" where
  "reads_as op v r \<longleftrightarrow> op v = Inr (r, v)"

definition writes_as :: "('a \<Rightarrow> ('a \<times> 'a) res) \<Rightarrow> 'a \<Rightarrow> 'a \<Rightarrow> bool" where
  "writes_as op v r \<longleftrightarrow> (\<forall>u. op u = Inr (r, v))"

lemma access_as [simp]:
  "reads_as op_read v r \<longleftrightarrow> r = v" "writes_as (op_write u) v r \<longleftrightarrow> v = u \<and> r = u"
  "Ex (writes_as (op_write u) u)"
  by (auto simp: reads_as_def writes_as_def op_read_def op_write_def intro: exI [of _ u])

text \<open>
  A program keeps to the outline: \<open>leaving\<close> is a thread between its arrival at a barrier and its departure.
\<close>

primrec phased :: "'a program \<Rightarrow> 'a outline \<Rightarrow> nat \<Rightarrow> nat \<Rightarrow> nat \<Rightarrow> (nat \<times> nat) set \<Rightarrow> bool \<Rightarrow> bool" where
  "phased Gone Q b t e W leaving \<longleftrightarrow> False"
| "phased Return Q b t e W leaving \<longleftrightarrow> \<not> leaving \<and> e = ou_phases Q \<and> settled Q b t e W"
| "phased (Panic message) Q b t e W leaving \<longleftrightarrow> False"
| "phased (Do a k) Q b t e W leaving \<longleftrightarrow>
     (case a of
        DevAccess k' i kind loc ord op \<Rightarrow> \<not> leaving \<and> ord = None \<and>
          (case kind of
             Read \<Rightarrow> (k', i) \<in> ou_reads Q e t
               \<and> (\<exists>v r. ou_now Q b e W (k', i) = Some v \<and> reads_as op v r \<and> phased (k (Got r)) Q b t e W False)
           | Write \<Rightarrow> (k', i) \<in> ou_writes Q e t
               \<and> (\<exists>v r. ou_value Q b (e + 1) (k', i) = Some v \<and> writes_as op v r
                    \<and> phased (k (Got r)) Q b t e (insert (k', i) W) False)
           | Atomic \<Rightarrow> False)
      | DevArrive loc \<Rightarrow> \<not> leaving \<and> e < ou_phases Q \<and> settled Q b t e W \<and> phased (k Nothing) Q b t (e + 1) {} True
      | DevDepart \<Rightarrow> leaving \<and> phased (k Nothing) Q b t e W False
      | DevFence ord \<Rightarrow> \<not> leaving \<and> phased (k Nothing) Q b t e W False
      | DevSched x \<Rightarrow> \<not> leaving \<and> x = ActYield \<and> phased (k Nothing) Q b t e W False
      | _ \<Rightarrow> False)"

lemma phased_calls [simp]:
  "phased (do_read b' i loc k) Q b t e W leaving \<longleftrightarrow> \<not> leaving \<and> (b', i) \<in> ou_reads Q e t
     \<and> (\<exists>v. ou_now Q b e W (b', i) = Some v \<and> phased (k v) Q b t e W False)"
  "phased (do_write b' i v loc g) Q b t e W leaving \<longleftrightarrow> \<not> leaving \<and> (b', i) \<in> ou_writes Q e t
     \<and> ou_value Q b (e + 1) (b', i) = Some v \<and> phased g Q b t e (insert (b', i) W) False"
  "phased (do_sync loc g) Q b t e W leaving \<longleftrightarrow> \<not> leaving \<and> e < ou_phases Q \<and> settled Q b t e W
     \<and> phased g Q b t (e + 1) {} False"
  "phased (do_fence g) Q b t e W leaving \<longleftrightarrow> \<not> leaving \<and> phased g Q b t e W False"
  by (auto simp: do_read_def do_write_def do_access_def do_sync_def do_fence_def)

text \<open>
  The conditions on the outline: who may touch what, indices inside the buffers, elements nobody writes in a
  phase keep their value, and the buffers start with the values of phase 0.
\<close>

definition separate :: "nat \<Rightarrow> 'a outline \<Rightarrow> bool" where
  "separate tpb Q \<longleftrightarrow> (\<forall>e t e' t' x. t \<noteq> t' \<and> (t div tpb \<noteq> t' div tpb \<or> e = e') \<and> x \<in> ou_writes Q e t
     \<longrightarrow> x \<notin> ou_reads Q e' t' \<union> ou_writes Q e' t')"

definition start_value :: "mem_space list \<Rightarrow> 'a instrumented list \<Rightarrow> nat \<times> nat \<Rightarrow> 'a option" where
  "start_value sp bufs x = (case x of (k, i) \<Rightarrow>
     (case sp ! k of
        Global name \<Rightarrow> if cell_init (in_shadow (bufs ! k) ! i) then Some (in_data (bufs ! k) ! i) else None
      | Shared block name \<Rightarrow> None))"

definition outline_ok :: "nat list \<Rightarrow> launch_plan \<Rightarrow> 'a outline \<Rightarrow> bool" where
  "outline_ok lens p Q \<longleftrightarrow> separate (lp_tpb p) Q
     \<and> (\<forall>b < lp_blocks p. \<forall>(k, i) \<in> ou_block (lp_tpb p) Q b. k < length lens \<and> i < lens ! k)
     \<and> (\<forall>b < lp_blocks p. \<forall>x \<in> ou_block (lp_tpb p) Q b. \<forall>e \<le> ou_phases Q.
          (\<forall>t. t div lp_tpb p = b \<longrightarrow> x \<notin> ou_writes Q e t) \<longrightarrow> ou_value Q b (e + 1) x = ou_value Q b e x)"

definition outline_starts :: "mem_space list \<Rightarrow> 'a instrumented list \<Rightarrow> launch_plan \<Rightarrow> 'a outline \<Rightarrow> bool" where
  "outline_starts sp bufs p Q \<longleftrightarrow>
     (\<forall>b < lp_blocks p. \<forall>x \<in> ou_block (lp_tpb p) Q b. start_value sp bufs x = ou_value Q b 0 x)"

definition phased_kernel :: "launch_plan \<Rightarrow> 'a outline \<Rightarrow> (thread_ctx \<Rightarrow> 'a program) \<Rightarrow> bool" where
  "phased_kernel p Q K \<longleftrightarrow> (\<forall>(first, n) \<in> set (wave_list p). \<forall>slot < n * lp_tpb p.
     phased (K (thread_ctx_of (lp_tpb p) first slot)) Q (first + slot div lp_tpb p) (first * lp_tpb p + slot) 0 {} False)"

section \<open>The scheduler\<close>

text \<open>A barrier in a block where nobody has left and nobody waits in a collective reports nothing.\<close>

lemma quiet_barrier:
  assumes ok: "cfg_ok cfg" and core: "core_ok cfg (w_st w)" and me: "me < total_threads cfg"
    and run: "st_status (w_st w) ! me = Runnable"
    and sts: "\<forall>i < total_threads cfg. block_of cfg i = block_of cfg me \<longrightarrow>
      st_status (w_st w) ! i = Runnable \<or> st_status (w_st w) ! i = AtBarrier"
    and w': "w' = fst (barrier cfg w me loc)"
    and all: "all_in \<longleftrightarrow> (\<forall>i < total_threads cfg. i \<noteq> me \<longrightarrow> block_of cfg i = block_of cfg me \<longrightarrow>
      st_status (w_st w) ! i = AtBarrier)"
  shows "st_aborted (w_st w') = st_aborted (w_st w)" and "w_rep w' = w_rep w"
    and "i < total_threads cfg \<Longrightarrow> st_status (w_st w') ! i =
      (if all_in \<and> block_of cfg i = block_of cfg me then Runnable
       else if i = me then AtBarrier else st_status (w_st w) ! i)"
    and "st_barrier_gen (w_st w') = (if all_in
      then (st_barrier_gen (w_st w))[block_of cfg me := st_barrier_gen (w_st w) ! block_of cfg me + 1] else st_barrier_gen (w_st w))"
    and "st_warp_gen (w_st w') = st_warp_gen (w_st w)"
proof -
  have mates: "st_status (w_st w) ! i = Runnable \<or> st_status (w_st w) ! i = AtBarrier"
    if "i < total_threads cfg" "block_of cfg i = block_of cfg me" for i using sts that by blast
  have base: "base_ok cfg (w_st w)" using core by (simp add: core_ok_def)
  have len: "length (st_status (w_st w)) = total_threads cfg" by (rule shape_lengths [OF base])
  define s1 where "s1 = arrive_at_barrier me (block_of cfg me) loc (w_st w)"
  have base1: "base_ok cfg s1" unfolding s1_def by (rule arrive_base [OF ok base me run])
  have inb: "i < total_threads cfg" if "block_of cfg i = block_of cfg me" for i by (rule blockE [OF ok that me])
  have st1: "st_status s1 ! i = (if i = me then AtBarrier else st_status (w_st w) ! i)" if "i < total_threads cfg" for i
    using that len by (simp add: s1_def status_at)
  have len1: "length (st_status s1) = total_threads cfg" by (simp add: s1_def len)
  have nofin: "\<not> (\<exists>i. block_of cfg i = block_of cfg me \<and> st_status s1 ! i = Finished)"
  proof
    assume "\<exists>i. block_of cfg i = block_of cfg me \<and> st_status s1 ! i = Finished"
    then obtain i where i: "block_of cfg i = block_of cfg me" "st_status s1 ! i = Finished" by blast
    show False using mates [OF inb [OF i(1)] i(1)] st1 [OF inb [OF i(1)]] i(2) by (simp split: if_splits)
  qed
  have alli: "(\<forall>i. block_of cfg i = block_of cfg me \<longrightarrow> st_status s1 ! i = AtBarrier) \<longleftrightarrow> all_in"
    unfolding all
  proof (intro iffI allI impI)
    fix i assume "\<forall>i. block_of cfg i = block_of cfg me \<longrightarrow> st_status s1 ! i = AtBarrier"
      and i: "i < total_threads cfg" "i \<noteq> me" "block_of cfg i = block_of cfg me"
    then show "st_status (w_st w) ! i = AtBarrier" using st1 [OF i(1)] by simp
  next
    fix i assume "\<forall>i < total_threads cfg. i \<noteq> me \<longrightarrow> block_of cfg i = block_of cfg me \<longrightarrow> st_status (w_st w) ! i = AtBarrier"
      and i: "block_of cfg i = block_of cfg me"
    then show "st_status s1 ! i = AtBarrier" using st1 [OF inb [OF i]] inb [OF i] by simp
  qed
  define s2 where "s2 = (if all_in then release_barrier cfg (block_of cfg me) s1 else s1)"
  have st2: "st_status s2 ! i = (if all_in \<and> block_of cfg i = block_of cfg me then Runnable
       else if i = me then AtBarrier else st_status (w_st w) ! i)" if "i < total_threads cfg" for i
    using that st1 [OF that] released_status [OF ok len1 that] by (auto simp: s2_def)
  have base2: "base_ok cfg s2"
    using base1 release_core [OF ok core me run s1_def] alli by (simp add: s2_def core_ok_def)
  have eq: "barrier cfg w me loc = hand_off cfg (w\<lparr>w_st := s2\<rparr>) me"
    unfolding barrier_unfold [OF ok s1_def] alli by (simp add: s2_def nofin)
  have "\<exists>i < total_threads cfg. st_status s2 ! i = Runnable"
  proof (cases all_in)
    case True
    then show ?thesis using me st2 [OF me] by auto
  next
    case False
    then obtain i where i: "i < total_threads cfg" "i \<noteq> me" "block_of cfg i = block_of cfg me" "st_status (w_st w) ! i \<noteq> AtBarrier"
      unfolding all by blast
    then show ?thesis using mates [OF i(1,3)] st2 [OF i(1)] False by auto
  qed
  then obtain j where j: "j < total_threads cfg" "st_status s2 ! j = Runnable" by blast
  have f: "st_aborted s2 = st_aborted (w_st w)" "st_barrier_gen s2 = (if all_in
      then (st_barrier_gen (w_st w))[block_of cfg me := st_barrier_gen (w_st w) ! block_of cfg me + 1] else st_barrier_gen (w_st w))"
    by (simp_all add: s2_def s1_def)
  note q = hand_off_quiet [where w = "w\<lparr>w_st := s2\<rparr>" and i = j and me = me and cfg = cfg, simplified, OF base2 j]
  show "st_aborted (w_st w') = st_aborted (w_st w)" "w_rep w' = w_rep w" using q f by (simp_all add: w' eq)
  show "st_warp_gen (w_st w') = st_warp_gen (w_st w)" by (simp add: w' eq s2_def s1_def)
  show "st_barrier_gen (w_st w') = (if all_in
      then (st_barrier_gen (w_st w))[block_of cfg me := st_barrier_gen (w_st w) ! block_of cfg me + 1] else st_barrier_gen (w_st w))"
    using f(2) by (simp add: w' eq)
  show "st_status (w_st w') ! i = (if all_in \<and> block_of cfg i = block_of cfg me then Runnable
       else if i = me then AtBarrier else st_status (w_st w) ! i)" if "i < total_threads cfg"
    using st2 [OF that] by (simp add: w' eq)
qed


text \<open>So does a thread that returns when nobody of its block waits, as long as somebody can run wherever one does.\<close>

lemma quiet_finish:
  assumes ok: "cfg_ok cfg" and wok: "world_ok cfg w" and run: "\<not> st_aborted (w_st w)"
    and turn: "st_current (w_st w) = Some me"
    and sts: "\<forall>i < total_threads cfg. st_status (w_st w) ! i \<noteq> AtWarp
      \<and> (block_of cfg i = block_of cfg me \<longrightarrow> st_status (w_st w) ! i \<noteq> AtBarrier)
      \<and> (st_status (w_st w) ! i = AtBarrier \<longrightarrow>
          (\<exists>j < total_threads cfg. block_of cfg j = block_of cfg i \<and> st_status (w_st w) ! j = Runnable))"
  shows "\<not> st_aborted (w_st (finish cfg w me))" and "w_rep (finish cfg w me) = w_rep w"
    and "st_barrier_gen (w_st (finish cfg w me)) = st_barrier_gen (w_st w)"
    and "st_warp_gen (w_st (finish cfg w me)) = st_warp_gen (w_st w)"
proof -
  have nowarp: "st_status (w_st w) ! i \<noteq> AtWarp" if "i < total_threads cfg" for i using sts that by blast
  have nobar: "st_status (w_st w) ! i \<noteq> AtBarrier" if "i < total_threads cfg" "block_of cfg i = block_of cfg me" for i
    using sts that by blast
  have live: "\<exists>j < total_threads cfg. block_of cfg j = block_of cfg i \<and> st_status (w_st w) ! j = Runnable"
    if "i < total_threads cfg" "st_status (w_st w) ! i = AtBarrier" for i using sts that by blast
  have core: "core_ok cfg (w_st w)" and me: "me < total_threads cfg" "st_status (w_st w) ! me = Runnable"
    using wok run turn by (auto simp: world_ok_def turn_ok_def)
  have base: "base_ok cfg (w_st w)" using core by (simp add: core_ok_def)
  define s1 where "s1 = (w_st w)\<lparr>st_status := (st_status (w_st w))[me := Finished]\<rparr>"
  have base1: "base_ok cfg s1" by (rule finish_base [OF ok base me s1_def])
  have len: "length (st_status (w_st w)) = total_threads cfg" by (rule shape_lengths [OF base])
  have st1: "st_status s1 ! i = (if i = me then Finished else st_status (w_st w) ! i)" if "i < total_threads cfg" for i
    using that len by (simp add: s1_def status_at)
  have len1: "length (st_status s1) = total_threads cfg" by (simp add: s1_def len)
  have "\<not> abandoned cfg s1 (block_of cfg me) (warp_of cfg me) (lane_of cfg me) l"
    if "l < lanes_in cfg (warp_of cfg me)" for l
  proof -
    have m: "mates cfg me (warp_base cfg (block_of cfg me) (warp_of cfg me) + l)"
      using lane_coords [OF ok that] by (simp add: mates_def)
    have "warp_base cfg (block_of cfg me) (warp_of cfg me) + l < total_threads cfg" by (rule mates_less [OF ok m me(1)])
    with nowarp [OF this] st1 [OF this] show ?thesis by (auto simp: abandoned_def Let_def split: if_splits)
  qed
  then have none: "find (abandoned cfg s1 (block_of cfg me) (warp_of cfg me) (lane_of cfg me))
      [0..<lanes_in cfg (warp_of cfg me)] = None" by (simp add: find_None_iff)
  have bar: "\<not> list_ex (\<lambda>i. st_status s1 ! i = AtBarrier) (block_range cfg (block_of cfg me))"
  proof
    assume "list_ex (\<lambda>i. st_status s1 ! i = AtBarrier) (block_range cfg (block_of cfg me))"
    then obtain i where i: "block_of cfg i = block_of cfg me" "st_status s1 ! i = AtBarrier"
      by (auto simp: list_ex_iff set_block_range [OF ok])
    have "i < total_threads cfg" by (rule blockE [OF ok i(1) me(1)])
    then show False using st1 [of i] nobar [of i] i by (simp split: if_splits)
  qed
  have stuck: "\<not> (st_current (pick_next s1) = None \<and> list_ex (\<lambda>st. st \<noteq> Finished) (st_status s1))"
  proof
    assume stuck: "st_current (pick_next s1) = None \<and> list_ex (\<lambda>st. st \<noteq> Finished) (st_status s1)"
    then obtain i where i: "i < total_threads cfg" "st_status s1 ! i \<noteq> Finished" by (auto simp: list_ex_iff in_set_conv_nth len1)
    have norun: "st_status s1 ! j \<noteq> Runnable" if "j < total_threads cfg" for j
      using pick_next_None [OF base1] stuck that by simp
    have "st_status s1 ! i = AtBarrier" using norun [OF i(1)] st1 [OF i(1)] nowarp [OF i(1)] i(2)
      by (cases "st_status (w_st w) ! i") (simp_all split: if_splits)
    then have at: "st_status (w_st w) ! i = AtBarrier" using st1 [OF i(1)] by (simp split: if_splits)
    obtain j where j: "j < total_threads cfg" "block_of cfg j = block_of cfg i" "st_status (w_st w) ! j = Runnable"
      using live [OF i(1) at] by blast
    have "j \<noteq> me" using nobar [OF i(1)] at j(2) by auto
    then show False using norun [OF j(1)] st1 [OF j(1)] j(3) by simp
  qed
  have eq: "finish cfg w me = wake cfg (w\<lparr>w_st := pick_next s1\<rparr>)"
    unfolding finish_unfold [OF s1_def] none using bar stuck by auto
  show "\<not> st_aborted (w_st (finish cfg w me))" "w_rep (finish cfg w me) = w_rep w"
    "st_barrier_gen (w_st (finish cfg w me)) = st_barrier_gen (w_st w)"
    "st_warp_gen (w_st (finish cfg w me)) = st_warp_gen (w_st w)"
    using run by (simp_all add: eq) (simp_all add: s1_def)
qed

section \<open>Blocks that meet at every barrier\<close>

text \<open>
  The epoch of a block of the wave, and a wave whose threads run, wait at a barrier that is not the last, or
  have returned after \<open>N\<close> of them.
\<close>

definition gen_of :: "'a device \<Rightarrow> nat \<Rightarrow> nat" where
  "gen_of d j = st_barrier_gen (ls_st (dv_launch d)) ! j"

definition orderly :: "launch_plan \<Rightarrow> nat \<Rightarrow> nat \<Rightarrow> 'a device \<Rightarrow> bool" where
  "orderly p N n d \<longleftrightarrow> \<not> st_aborted (ls_st (dv_launch d)) \<and> (\<forall>i < n * lp_tpb p.
     (case st_status (ls_st (dv_launch d)) ! i of
        Runnable \<Rightarrow> True
      | AtBarrier \<Rightarrow> gen_of d (i div lp_tpb p) < N
      | AtWarp \<Rightarrow> False
      | Finished \<Rightarrow> gen_of d (i div lp_tpb p) = N))"

lemma orderlyD:
  assumes "orderly p N n d" and "i < n * lp_tpb p"
  shows "st_status (ls_st (dv_launch d)) ! i = AtBarrier \<Longrightarrow> gen_of d (i div lp_tpb p) < N"
    and "st_status (ls_st (dv_launch d)) ! i \<noteq> AtWarp"
    and "st_status (ls_st (dv_launch d)) ! i = Finished \<Longrightarrow> gen_of d (i div lp_tpb p) = N"
  using assms by (auto simp: orderly_def split: status.splits)

lemma arrive_effect:
  assumes su: "launch_setup checks c = Inr p" and base: "dev_base sp c p lid lens d" and w: "in_wave p d n"
    and ord: "orderly p N n d" and turn: "st_current (ls_st (dv_launch d)) = Some me" and more: "gen_of d (me div lp_tpb p) < N"
    and all: "all_in \<longleftrightarrow> (\<forall>i < n * lp_tpb p. i \<noteq> me \<longrightarrow> i div lp_tpb p = me div lp_tpb p \<longrightarrow>
      st_status (ls_st (dv_launch d)) ! i = AtBarrier)"
    and d': "d' = dev_exec sp d me (DevArrive loc)"
  shows "\<not> st_aborted (ls_st (dv_launch d'))" and "w_rep (ls_world (dv_launch d')) = w_rep (ls_world (dv_launch d))"
    and "gen_of d' j = (if all_in \<and> j = me div lp_tpb p then gen_of d j + 1 else gen_of d j)"
    and "i < n * lp_tpb p \<Longrightarrow> st_status (ls_st (dv_launch d')) ! i = (if all_in \<and> i div lp_tpb p = me div lp_tpb p then Runnable
      else if i = me then AtBarrier else st_status (ls_st (dv_launch d)) ! i)"
    and "st_warp_gen (ls_st (dv_launch d')) = st_warp_gen (ls_st (dv_launch d))"
proof -
  let ?cfg = "ls_sched (dv_launch d)" and ?w = "ls_world (dv_launch d)"
  note cfg = in_wave_bounds [OF su w]
  have run: "\<not> st_aborted (ls_st (dv_launch d))" using ord by (simp add: orderly_def)
  have wok: "world_ok ?cfg ?w" using base by (simp add: dev_base_def)
  then have core: "core_ok ?cfg (w_st ?w)" using run by (simp add: world_ok_def ls_st_def)
  have me: "me < total_threads ?cfg" "st_status (w_st ?w) ! me = Runnable"
    using acting_thread [OF su base w run turn] cfg(4) by (simp_all add: ls_st_def)
  have mates: "\<forall>i < total_threads ?cfg. block_of ?cfg i = block_of ?cfg me \<longrightarrow>
      st_status (w_st ?w) ! i = Runnable \<or> st_status (w_st ?w) ! i = AtBarrier"
  proof (intro allI impI)
    fix i assume "i < total_threads ?cfg" "block_of ?cfg i = block_of ?cfg me"
    then show "st_status (w_st ?w) ! i = Runnable \<or> st_status (w_st ?w) ! i = AtBarrier"
      using orderlyD [OF ord, of i] more cfg(3,4) by (cases "st_status (w_st ?w) ! i") (auto simp: block_of_def ls_st_def)
  qed
  have all': "all_in \<longleftrightarrow> (\<forall>i < total_threads ?cfg. i \<noteq> me \<longrightarrow> block_of ?cfg i = block_of ?cfg me \<longrightarrow>
      st_status (w_st ?w) ! i = AtBarrier)" using all cfg(3,4) by (simp add: block_of_def ls_st_def)
  have slot: "tc_slot (dev_ctx d me) = me" by (simp add: dev_ctx_def thread_ctx_of_def Let_def)
  have w': "ls_world (dv_launch d') = fst (barrier ?cfg ?w me loc)"
    by (simp add: d' sync_threads_enter_def slot split_beta Let_def)
  note q = quiet_barrier [OF cfg(2) core me mates w' all']
  have "sc_blocks ?cfg = n" using w by (simp add: in_wave_def wave_sched_def sched_config_of_def)
  then have lt: "me div lp_tpb p < length (st_barrier_gen (w_st ?w))"
    using shape_lengths(4) [of ?cfg "w_st ?w"] core less_mult_imp_div_less [of me n "lp_tpb p"] me(1) cfg(4) by (simp add: core_ok_def)
  show "\<not> st_aborted (ls_st (dv_launch d'))" "w_rep (ls_world (dv_launch d')) = w_rep ?w"
    "st_warp_gen (ls_st (dv_launch d')) = st_warp_gen (ls_st (dv_launch d))"
    using q(1,2,5) run by (simp_all add: ls_st_def)
  show "gen_of d' j = (if all_in \<and> j = me div lp_tpb p then gen_of d j + 1 else gen_of d j)"
    using q(4) lt cfg(3) by (auto simp: gen_of_def ls_st_def block_of_def)
  show "st_status (ls_st (dv_launch d')) ! i = (if all_in \<and> i div lp_tpb p = me div lp_tpb p then Runnable
      else if i = me then AtBarrier else st_status (ls_st (dv_launch d)) ! i)" if "i < n * lp_tpb p"
    using q(3) [of i] that cfg(3,4) by (simp add: ls_st_def block_of_def)
qed

lemma finish_effect:
  assumes su: "launch_setup checks c = Inr p" and base: "dev_base sp c p lid lens d" and w: "in_wave p d n"
    and ord: "orderly p N n d" and turn: "st_current (ls_st (dv_launch d)) = Some me" and last: "gen_of d (me div lp_tpb p) = N"
    and d': "d' = dev_exec sp d me (DevSched ActFinish)"
  shows "\<not> st_aborted (ls_st (dv_launch d'))" and "w_rep (ls_world (dv_launch d')) = w_rep (ls_world (dv_launch d))"
    and "gen_of d' j = gen_of d j"
    and "i < n * lp_tpb p \<Longrightarrow> st_status (ls_st (dv_launch d')) ! i = (if i = me then Finished else st_status (ls_st (dv_launch d)) ! i)"
    and "st_warp_gen (ls_st (dv_launch d')) = st_warp_gen (ls_st (dv_launch d))"
proof -
  let ?cfg = "ls_sched (dv_launch d)" and ?w = "ls_world (dv_launch d)"
  note cfg = in_wave_bounds [OF su w]
  have run: "\<not> st_aborted (w_st ?w)" using ord by (simp add: orderly_def ls_st_def)
  have wok: "world_ok ?cfg ?w" using base by (simp add: dev_base_def)
  then have core: "core_ok ?cfg (w_st ?w)" using run by (simp add: world_ok_def)
  have turn': "st_current (w_st ?w) = Some me" using turn by (simp add: ls_st_def)
  have nowarp: "st_status (w_st ?w) ! i \<noteq> AtWarp" if "i < total_threads ?cfg" for i
    using orderlyD(2) [OF ord] that cfg(4) by (simp add: ls_st_def)
  have nobar: "st_status (w_st ?w) ! i \<noteq> AtBarrier" if "i < total_threads ?cfg" "block_of ?cfg i = block_of ?cfg me" for i
    using orderlyD(1) [OF ord, of i] that last cfg(3,4) by (auto simp: ls_st_def block_of_def)
  have live: "\<exists>j < total_threads ?cfg. block_of ?cfg j = block_of ?cfg i \<and> st_status (w_st ?w) ! j = Runnable"
    if i: "i < total_threads ?cfg" "st_status (w_st ?w) ! i = AtBarrier" for i
  proof -
    have "barrier_waits_ok ?cfg (w_st ?w) i" using core i by (simp add: core_ok_def barriers_ok_def)
    then obtain j where j: "block_of ?cfg j = block_of ?cfg i" "st_status (w_st ?w) ! j \<noteq> AtBarrier"
      "st_status (w_st ?w) ! j \<noteq> Finished" by (auto simp: barrier_waits_ok_def)
    have lt: "j < total_threads ?cfg" by (rule blockE [OF cfg(2) j(1) i(1)])
    then have "st_status (w_st ?w) ! j = Runnable" using nowarp [OF lt] j(2,3) by (cases "st_status (w_st ?w) ! j") auto
    then show ?thesis using j(1) lt by blast
  qed
  have "\<forall>i < total_threads ?cfg. st_status (w_st ?w) ! i \<noteq> AtWarp
      \<and> (block_of ?cfg i = block_of ?cfg me \<longrightarrow> st_status (w_st ?w) ! i \<noteq> AtBarrier)
      \<and> (st_status (w_st ?w) ! i = AtBarrier \<longrightarrow>
          (\<exists>j < total_threads ?cfg. block_of ?cfg j = block_of ?cfg i \<and> st_status (w_st ?w) ! j = Runnable))"
    using nowarp nobar live by blast
  note q = quiet_finish [OF cfg(2) wok run turn' this]
  have len: "length (st_status (w_st ?w)) = total_threads ?cfg" using core shape_lengths(1) by (auto simp: core_ok_def)
  show "\<not> st_aborted (ls_st (dv_launch d'))" "w_rep (ls_world (dv_launch d')) = w_rep ?w" "gen_of d' j = gen_of d j"
    "st_warp_gen (ls_st (dv_launch d')) = st_warp_gen (ls_st (dv_launch d))"
    using q by (simp_all add: d' ls_st_def gen_of_def)
  show "st_status (ls_st (dv_launch d')) ! i = (if i = me then Finished else st_status (ls_st (dv_launch d)) ! i)"
    if "i < n * lp_tpb p"
    using that len cfg(4) by (simp add: d' ls_st_def nth_list_update)
qed

text \<open>A scheduling point lets somebody go on.\<close>

lemma yield_effect:
  assumes su: "launch_setup checks c = Inr p" and base: "dev_base sp c p lid lens d" and w: "in_wave p d n"
    and run: "\<not> st_aborted (ls_st (dv_launch d))" and turn: "st_current (ls_st (dv_launch d)) = Some me"
    and d': "d' = dev_exec sp d me (DevSched ActYield)"
  shows "\<not> st_aborted (ls_st (dv_launch d'))" and "w_rep (ls_world (dv_launch d')) = w_rep (ls_world (dv_launch d))"
    and "gen_of d' j = gen_of d j" and "st_status (ls_st (dv_launch d')) = st_status (ls_st (dv_launch d))"
    and "st_warp_gen (ls_st (dv_launch d')) = st_warp_gen (ls_st (dv_launch d))"
proof -
  let ?cfg = "ls_sched (dv_launch d)" and ?w = "ls_world (dv_launch d)"
  have "world_ok ?cfg ?w" using base by (simp add: dev_base_def)
  then have me: "me < total_threads ?cfg" "st_status (w_st ?w) ! me = Runnable" "base_ok ?cfg (w_st ?w)"
    using acting_thread [OF su base w run turn] in_wave_bounds(4) [OF su w] by (simp_all add: ls_st_def world_ok_def)
  note quiet = hand_off_quiet [OF me(3,1,2), of me]
  show "\<not> st_aborted (ls_st (dv_launch d'))" "w_rep (ls_world (dv_launch d')) = w_rep ?w" "gen_of d' j = gen_of d j"
    "st_status (ls_st (dv_launch d')) = st_status (ls_st (dv_launch d))"
    "st_warp_gen (ls_st (dv_launch d')) = st_warp_gen (ls_st (dv_launch d))"
    using run quiet by (simp_all add: d' gen_of_def ls_st_def yield_now_def)
qed

text \<open>The access the thread of a slot makes.\<close>

lemma phase_access:
  assumes su: "launch_setup checks c = Inr p" and base: "dev_base sp c p lid lens d" and w: "in_wave p d n"
    and me: "me < n * lp_tpb p"
    and a: "access_of (dev_ctx d me) kind loc ord (dv_launch d) cell = (acc, now, l1)"
  shows "acc_own p acc" and "acc_gid p acc = dv_first d * lp_tpb p + me" and "acc_epoch acc = gen_of d (me div lp_tpb p)"
    and "acc_kind acc = kind"
proof -
  have p: "plan_ok p" by (rule launch_setup_ok [OF su])
  note v = dev_ctx_values [OF su w me] and f = access_of_fields [OF a]
  have "tc_gid (dev_ctx d me) = unat (tc_block (dev_ctx d me)) * lp_tpb p + unat (tc_thread (dev_ctx d me))"
    using v p by (simp add: distrib_right plan_ok_def)
  then show gid: "acc_gid p acc = dv_first d * lp_tpb p + me" using v(3) by (simp add: acc_gid_def f(6,7))
  show "acc_own p acc" using v(2,3,5) p gid by (simp add: acc_own_def f(7) plan_ok_def)
  show "acc_epoch acc = gen_of d (me div lp_tpb p)"
    using dev_wave_block [OF su, of d me] base by (simp add: f(8) epochs_def gen_of_def dev_base_def)
  show "acc_kind acc = kind" by (rule f(5))
qed

end
