(* ===== verification/Kernel_Phased.thy ===== *)
theory Kernel_Phased
  imports Kernel_Outline
begin

text \<open>
  A kernel that keeps to an outline: the invariant of its launch, for the threads, the values and the cells,
  and that every action of a thread keeps it.
\<close>

section \<open>The invariant\<close>

text \<open>What a thread is about to do, given the phase of its block and the elements it has written in it.\<close>

definition thread_fits ::
  "'a outline \<Rightarrow> nat \<Rightarrow> nat \<Rightarrow> nat \<Rightarrow> (nat \<times> nat) set \<Rightarrow> bool \<Rightarrow> status \<Rightarrow> 'a program \<Rightarrow> bool" where
  "thread_fits Q b t e W leaving st g \<longleftrightarrow> W \<subseteq> ou_writes Q e t \<and>
     (case st of
        Runnable \<Rightarrow> phased g Q b t e W leaving
      | AtBarrier \<Rightarrow> leaving \<and> e < ou_phases Q \<and> settled Q b t e W \<and> phased g Q b t (e + 1) {} True
      | AtWarp \<Rightarrow> False
      | Finished \<Rightarrow> e = ou_phases Q \<and> settled Q b t e W)"

definition threads_fit :: "launch_plan \<Rightarrow> 'a outline \<Rightarrow> nat \<Rightarrow> (nat \<Rightarrow> (nat \<times> nat) set) \<Rightarrow> 'a kernel_state \<Rightarrow> bool" where
  "threads_fit p Q n W s \<longleftrightarrow> (\<forall>i < n * lp_tpb p.
     thread_fits Q (dv_first (kr_dev s) + i div lp_tpb p) (dv_first (kr_dev s) * lp_tpb p + i)
       (gen_of (kr_dev s) (i div lp_tpb p)) (W i) (i \<in> dv_inside (kr_dev s))
       (st_status (ls_st (dv_launch (kr_dev s))) ! i) (kr_progs s ! i))"

text \<open>The elements the threads of a block of the wave have written in its phase.\<close>

definition written :: "launch_plan \<Rightarrow> nat \<Rightarrow> (nat \<Rightarrow> (nat \<times> nat) set) \<Rightarrow> nat \<Rightarrow> (nat \<times> nat) set" where
  "written p n W j = {x. \<exists>i < n * lp_tpb p. i div lp_tpb p = j \<and> x \<in> W i}"

definition elem_value :: "mem_space list \<Rightarrow> 'a device \<Rightarrow> nat \<times> nat \<Rightarrow> 'a option" where
  "elem_value sp d x = (if cell_init (dev_cell sp d (fst x) (snd x)) then Some (mem_of d ! fst x ! snd x) else None)"

text \<open>What an element of a block holds: the block is done, running, or still to come.\<close>

definition block_value :: "launch_plan \<Rightarrow> 'a outline \<Rightarrow> nat \<Rightarrow> (nat \<Rightarrow> (nat \<times> nat) set) \<Rightarrow> 'a device \<Rightarrow> nat \<Rightarrow> nat \<times> nat \<Rightarrow> 'a option" where
  "block_value p Q n W d b x =
     (if b < dv_first d then ou_value Q b (ou_phases Q + 1) x
      else if b < dv_first d + n then ou_now Q b (gen_of d (b - dv_first d)) (written p n W (b - dv_first d)) x
      else ou_value Q b 0 x)"

definition values_fit :: "mem_space list \<Rightarrow> launch_plan \<Rightarrow> 'a outline \<Rightarrow> nat \<Rightarrow> (nat \<Rightarrow> (nat \<times> nat) set) \<Rightarrow> 'a device \<Rightarrow> bool" where
  "values_fit sp p Q n W d \<longleftrightarrow>
     (\<forall>b < lp_blocks p. \<forall>x \<in> ou_block (lp_tpb p) Q b. elem_value sp d x = block_value p Q n W d b x)"

text \<open>Every access a cell remembers is one of the outline.\<close>

definition remembered_ok :: "launch_plan \<Rightarrow> 'a outline \<Rightarrow> nat \<times> nat \<Rightarrow> shadow_cell \<Rightarrow> bool" where
  "remembered_ok p Q x cell \<longleftrightarrow>
     (\<forall>a. cell_last_write cell = Some a \<longrightarrow> acc_own p a \<and> x \<in> ou_writes Q (acc_epoch a) (acc_gid p a))
     \<and> (\<forall>a \<in> set (cell_readers cell). acc_own p a \<and> x \<in> ou_reads Q (acc_epoch a) (acc_gid p a))"

definition cells_fit :: "mem_space list \<Rightarrow> nat list \<Rightarrow> launch_plan \<Rightarrow> 'a outline \<Rightarrow> 'a device \<Rightarrow> bool" where
  "cells_fit sp lens p Q d \<longleftrightarrow>
     (\<forall>k < length lens. \<forall>i < lens ! k. remembered_ok p Q (k, i) (dev_cell sp d k i))"

definition untroubled :: "'a device \<Rightarrow> bool" where
  "untroubled d \<longleftrightarrow> \<not> st_aborted (ls_st (dv_launch d)) \<and> rep_diags (w_rep (ls_world (dv_launch d))) = []"

definition phased_inv ::
  "mem_space list \<Rightarrow> nat list \<Rightarrow> launch_plan \<Rightarrow> 'a outline \<Rightarrow> nat \<Rightarrow> (nat \<Rightarrow> (nat \<times> nat) set) \<Rightarrow> 'a kernel_state \<Rightarrow> bool" where
  "phased_inv sp lens p Q n W s \<longleftrightarrow> untroubled (kr_dev s) \<and> threads_fit p Q n W s
     \<and> values_fit sp p Q n W (kr_dev s) \<and> cells_fit sp lens p Q (kr_dev s)"

section \<open>Accesses\<close>

text \<open>No access of the outline conflicts with what the cell remembers.\<close>

lemma quiet_cell:
  assumes sep: "separate (lp_tpb p) Q" and rem: "remembered_ok p Q x cell" and own: "acc_own p acc"
    and kind: "acc_kind acc = Read \<and> x \<in> ou_reads Q (acc_epoch acc) (acc_gid p acc)
      \<or> acc_kind acc = Write \<and> x \<in> ou_writes Q (acc_epoch acc) (acc_gid p acc)"
  shows "fst (on_access cell acc now) = None" and "remembered_ok p Q x (snd (on_access cell acc now))"
proof -
  have block: "acc_gid p a div lp_tpb p = unat (acc_block a)" if "acc_own p a" for a
    using that by (simp add: acc_own_def acc_gid_def)
  have quiet: "\<not> concurrent a acc now"
    if a: "acc_own p a" "x \<in> ou_reads Q (acc_epoch a) (acc_gid p a) \<union> ou_writes Q (acc_epoch a) (acc_gid p a)"
      and w: "x \<in> ou_writes Q (acc_epoch a) (acc_gid p a) \<or> acc_kind acc = Write" for a
  proof (cases "acc_gid p a = acc_gid p acc")
    case True
    then show ?thesis using acc_gid_inj [OF a(1) own] by (simp add: concurrent_def)
  next
    case False
    have "acc_gid p a div lp_tpb p = acc_gid p acc div lp_tpb p \<and> acc_epoch a \<noteq> acc_epoch acc"
      using sep a(2) w kind False unfolding separate_def by (metis UnI1 UnI2 access_kind.distinct(1))
    then have "acc_block a = acc_block acc" "acc_epoch a \<noteq> acc_epoch acc"
      using block [OF a(1)] block [OF own] by (simp_all add: word_unat_eq_iff)
    then show ?thesis by (simp add: concurrent_def)
  qed
  have lw: "\<not> concurrent a acc now" if "cell_last_write cell = Some a" for a
    using rem that by (intro quiet) (auto simp: remembered_ok_def)
  have rd: "\<not> concurrent a acc now" if "a \<in> set (cell_readers cell)" "acc_kind acc = Write" for a
    using rem that by (intro quiet) (auto simp: remembered_ok_def)
  show "fst (on_access cell acc now) = None"
  proof (cases "acc_kind acc = Read")
    case True
    then show ?thesis using lw by (cases "fst (on_read cell acc now)") (auto simp: on_access_def)
  next
    case False
    then show ?thesis using lw rd kind by (auto simp: on_access_def on_write_conflict_None)
  qed
  show "remembered_ok p Q x (snd (on_access cell acc now))"
    using rem own kind by (auto simp: on_access_def remembered_ok_def on_read_readers_eq)
qed

definition plays :: "'a outline \<Rightarrow> nat \<Rightarrow> nat \<Rightarrow> access_kind \<Rightarrow> nat \<times> nat \<Rightarrow> bool" where
  "plays Q e t kind x \<longleftrightarrow> kind = Read \<and> x \<in> ou_reads Q e t \<or> kind = Write \<and> x \<in> ou_writes Q e t"

lemma phase_touch:
  assumes su: "launch_setup checks c = Inr p" and base: "dev_base sp c p lid lens d" and w: "in_wave p d n"
    and me: "me < n * lp_tpb p" and sep: "separate (lp_tpb p) Q" and cells: "cells_fit sp lens p Q d"
    and k: "k < length (dv_bufs d)" and i: "i < length (in_data (dv_bufs d ! k))"
    and plays: "plays Q (gen_of d (me div lp_tpb p)) (dv_first d * lp_tpb p + me) kind (k, i)"
    and init: "kind = Read \<longrightarrow> cell_init (dev_cell sp d k i)"
    and d': "d' = dev_touch sp d me k i kind loc None True data"
  shows "w_rep (ls_world (dv_launch d')) = w_rep (ls_world (dv_launch d))" and "cells_fit sp lens p Q d'"
    and "k' < length (dv_bufs d) \<Longrightarrow> cell_init (dev_cell sp d' k' i')
      \<longleftrightarrow> cell_init (dev_cell sp d k' i') \<or> (k', i') = (k, i)"
proof -
  have bufs: "bufs_ok lens (dv_bufs d)" using base by (simp add: dev_base_def)
  then have lens: "length (dv_bufs d) = length lens" by (auto simp: bufs_ok_def)
  let ?cell = "dev_cell sp d k i"
  obtain acc now l1 where a: "access_of (dev_ctx d me) kind loc None (dv_launch d) ?cell = (acc, now, l1)"
    by (rule prod_cases3)
  note acc = phase_access [OF su base w me a]
  have "i < lens ! k" using bufs_ok_nth [OF bufs k] i by simp
  then have rem: "remembered_ok p Q (k, i) ?cell" using cells k lens by (simp add: cells_fit_def)
  have pl: "acc_kind acc = Read \<and> (k, i) \<in> ou_reads Q (acc_epoch acc) (acc_gid p acc)
      \<or> acc_kind acc = Write \<and> (k, i) \<in> ou_writes Q (acc_epoch acc) (acc_gid p acc)"
    using plays by (simp add: plays_def acc)
  note q = quiet_cell [OF sep rem acc(1) pl, of now]
  have after: "cell_after (dev_ctx d me) kind loc None True (dv_launch d) ?cell = snd (on_access ?cell acc now)"
    by (simp add: cell_after_def a Let_def)
  have "findings_of (sp ! k) i (dev_ctx d me) kind loc None (dv_launch d) ?cell = []"
    using q(1) init plays by (auto simp: findings_of_def conflict_of_def a Let_def plays_def)
  then show "w_rep (ls_world (dv_launch d')) = w_rep (ls_world (dv_launch d))"
    using dev_touch_fields(6) [OF a d'] by simp
  note cell = dev_cell_touch [OF bufs k i _ d', unfolded after]
  show "cells_fit sp lens p Q d'"
    using cells q(2) cell lens by (auto simp: cells_fit_def)
  show "cell_init (dev_cell sp d' k' i') \<longleftrightarrow> cell_init (dev_cell sp d k' i') \<or> (k', i') = (k, i)"
    if "k' < length (dv_bufs d)"
    using cell [OF that, of i'] cell_after_init [of "dev_ctx d me" kind loc None True "dv_launch d" ?cell, unfolded after]
      init plays by (auto simp: plays_def)
qed

section \<open>Steps of one thread\<close>

lemma slot_gid:
  assumes "0 < tpb"
  shows "(first * tpb + i) div tpb = first + i div (tpb :: nat)"
  using assms by (simp add: add.commute)

lemma threads_fitD:
  "threads_fit p Q n W s \<Longrightarrow> i < n * lp_tpb p \<Longrightarrow>
     thread_fits Q (dv_first (kr_dev s) + i div lp_tpb p) (dv_first (kr_dev s) * lp_tpb p + i)
       (gen_of (kr_dev s) (i div lp_tpb p)) (W i) (i \<in> dv_inside (kr_dev s))
       (st_status (ls_st (dv_launch (kr_dev s))) ! i) (kr_progs s ! i)"
  by (simp add: threads_fit_def)

lemma threads_fit_step:
  assumes fit: "threads_fit p Q n W s"
    and "dv_first (kr_dev s') = dv_first (kr_dev s)" and "\<And>j. gen_of (kr_dev s') j = gen_of (kr_dev s) j"
    and "\<And>i. i < n * lp_tpb p \<Longrightarrow> i \<noteq> me \<Longrightarrow>
      st_status (ls_st (dv_launch (kr_dev s'))) ! i = st_status (ls_st (dv_launch (kr_dev s))) ! i
      \<and> (i \<in> dv_inside (kr_dev s') \<longleftrightarrow> i \<in> dv_inside (kr_dev s)) \<and> kr_progs s' ! i = kr_progs s ! i"
    and "thread_fits Q (dv_first (kr_dev s) + me div lp_tpb p) (dv_first (kr_dev s) * lp_tpb p + me)
       (gen_of (kr_dev s) (me div lp_tpb p)) X (me \<in> dv_inside (kr_dev s'))
       (st_status (ls_st (dv_launch (kr_dev s'))) ! me) (kr_progs s' ! me)"
  shows "threads_fit p Q n (W(me := X)) s'"
  using assms by (auto simp: threads_fit_def)

text \<open>Of the elements a thread plays with, only it has written any in this phase.\<close>

lemma written_own:
  assumes sep: "separate (lp_tpb p) Q" and tpb: "0 < lp_tpb p" and fit: "threads_fit p Q n W s" and me: "me < n * lp_tpb p"
    and x: "plays Q (gen_of (kr_dev s) (me div lp_tpb p)) (dv_first (kr_dev s) * lp_tpb p + me) kind x"
  shows "x \<in> written p n W (me div lp_tpb p) \<longleftrightarrow> x \<in> W me"
proof
  assume "x \<in> written p n W (me div lp_tpb p)"
  then obtain i where i: "i < n * lp_tpb p" "i div lp_tpb p = me div lp_tpb p" "x \<in> W i" by (auto simp: written_def)
  have "x \<in> ou_writes Q (gen_of (kr_dev s) (me div lp_tpb p)) (dv_first (kr_dev s) * lp_tpb p + i)"
    using threads_fitD [OF fit i(1)] i(2,3) by (auto simp: thread_fits_def)
  then have "dv_first (kr_dev s) * lp_tpb p + i = dv_first (kr_dev s) * lp_tpb p + me"
    using sep x unfolding separate_def plays_def by blast
  then show "x \<in> W me" using i(3) by simp
qed (use me in \<open>auto simp: written_def\<close>)

lemma plays_block:
  assumes sep: "separate (lp_tpb p) Q" and x: "x \<in> ou_writes Q e t" and b: "x \<in> ou_block (lp_tpb p) Q b"
  shows "b = t div lp_tpb p"
proof -
  obtain e' t' where t': "t' div lp_tpb p = b" "x \<in> ou_reads Q e' t' \<union> ou_writes Q e' t'"
    using b by (auto simp: ou_block_def)
  show ?thesis
  proof (cases "t = t'")
    case False
    then show ?thesis using sep x t' unfolding separate_def by metis
  qed (use t' in simp)
qed

text \<open>The block of a thread of the wave, among the blocks of the grid.\<close>

lemma block_value_own:
  assumes "me < n * lp_tpb p"
  shows "block_value p Q n W d (dv_first d + me div lp_tpb p) x =
    ou_now Q (dv_first d + me div lp_tpb p) (gen_of d (me div lp_tpb p)) (written p n W (me div lp_tpb p)) x"
  using less_mult_imp_div_less [OF assms] by (simp add: block_value_def)

text \<open>A step that changes no value and nothing a thread has written.\<close>

lemma values_fit_same:
  assumes "values_fit sp p Q n W d" and "mem_of d' = mem_of d" and "\<And>k i. dev_cell sp d' k i = dev_cell sp d k i"
    and "dv_first d' = dv_first d" and "\<And>j. gen_of d' j = gen_of d j"
  shows "values_fit sp p Q n W d'"
proof -
  have "elem_value sp d' x = elem_value sp d x" "block_value p Q n W d' b x = block_value p Q n W d b x" for b x
    by (simp_all add: elem_value_def block_value_def assms(2-5))
  then show ?thesis using assms(1) by (simp add: values_fit_def)
qed

lemma cells_fit_same:
  "cells_fit sp lens p Q d \<Longrightarrow> (\<And>k i. dev_cell sp d' k i = dev_cell sp d k i) \<Longrightarrow> cells_fit sp lens p Q d'"
  by (simp add: cells_fit_def)

text \<open>The holder of the turn and its program.\<close>

definition phase_point ::
  "bool \<Rightarrow> mem_space list \<Rightarrow> launch_config \<Rightarrow> launch_plan \<Rightarrow> nat \<Rightarrow> nat list \<Rightarrow> 'a outline \<Rightarrow> nat \<Rightarrow> (nat \<Rightarrow> (nat \<times> nat) set)
     \<Rightarrow> 'a kernel_state \<Rightarrow> nat \<Rightarrow> bool" where
  "phase_point checks sp c p lid lens Q n W s me \<longleftrightarrow> launch_setup checks c = Inr p \<and> kernel_inv sp c p lid lens s
     \<and> in_wave p (kr_dev s) n \<and> outline_ok lens p Q \<and> phased_inv sp lens p Q n W s
     \<and> st_current (ls_st (dv_launch (kr_dev s))) = Some me"

lemma phase_pointD:
  assumes "phase_point checks sp c p lid lens Q n W s me"
  shows "launch_setup checks c = Inr p" and "dev_base sp c p lid lens (kr_dev s)" and "in_wave p (kr_dev s) n"
    and "me < n * lp_tpb p" and "me < length (kr_progs s)" and "separate (lp_tpb p) Q" and "0 < lp_tpb p"
    and "untroubled (kr_dev s)" and "threads_fit p Q n W s" and "values_fit sp p Q n W (kr_dev s)"
    and "cells_fit sp lens p Q (kr_dev s)" and "st_status (ls_st (dv_launch (kr_dev s))) ! me = Runnable"
    and "W me \<subseteq> ou_writes Q (gen_of (kr_dev s) (me div lp_tpb p)) (dv_first (kr_dev s) * lp_tpb p + me)"
    and "phased (kr_progs s ! me) Q (dv_first (kr_dev s) + me div lp_tpb p) (dv_first (kr_dev s) * lp_tpb p + me)
      (gen_of (kr_dev s) (me div lp_tpb p)) (W me) (me \<in> dv_inside (kr_dev s))"
    and "dv_first (kr_dev s) + me div lp_tpb p < lp_blocks p"
proof -
  show f: "launch_setup checks c = Inr p" "dev_base sp c p lid lens (kr_dev s)" "in_wave p (kr_dev s) n" "separate (lp_tpb p) Q"
    "untroubled (kr_dev s)" "threads_fit p Q n W s" "values_fit sp p Q n W (kr_dev s)" "cells_fit sp lens p Q (kr_dev s)"
    using assms by (simp_all add: phase_point_def phased_inv_def kernel_inv_def outline_ok_def)
  show "0 < lp_tpb p" using launch_setup_ok [OF f(1)] by (simp add: plan_ok_def)
  have run: "\<not> st_aborted (ls_st (dv_launch (kr_dev s)))" using f(5) by (simp add: untroubled_def)
  show me: "me < n * lp_tpb p" "st_status (ls_st (dv_launch (kr_dev s))) ! me = Runnable"
    using acting_thread [OF f(1-3) run] assms by (simp_all add: phase_point_def)
  have "length (kr_progs s) = total_threads (ls_sched (dv_launch (kr_dev s)))"
    using assms by (simp add: phase_point_def kernel_inv_def programs_ok_def Let_def)
  then show "me < length (kr_progs s)" using me(1) in_wave_bounds(4) [OF f(1,3)] by simp
  show "W me \<subseteq> ou_writes Q (gen_of (kr_dev s) (me div lp_tpb p)) (dv_first (kr_dev s) * lp_tpb p + me)"
    "phased (kr_progs s ! me) Q (dv_first (kr_dev s) + me div lp_tpb p) (dv_first (kr_dev s) * lp_tpb p + me)
      (gen_of (kr_dev s) (me div lp_tpb p)) (W me) (me \<in> dv_inside (kr_dev s))"
    using threads_fitD [OF f(6) me(1)] me(2) by (simp_all add: thread_fits_def)
  show "dv_first (kr_dev s) + me div lp_tpb p < lp_blocks p"
    using in_wave_bounds(1) [OF f(1,3)] less_mult_imp_div_less [OF me(1)] by simp
qed

lemma phase_orderly:
  assumes "phase_point checks sp c p lid lens Q n W s me"
  shows "orderly p (ou_phases Q) n (kr_dev s)"
proof -
  note f = phase_pointD [OF assms]
  have "case st_status (ls_st (dv_launch (kr_dev s))) ! i of Runnable \<Rightarrow> True
      | AtBarrier \<Rightarrow> gen_of (kr_dev s) (i div lp_tpb p) < ou_phases Q | AtWarp \<Rightarrow> False
      | Finished \<Rightarrow> gen_of (kr_dev s) (i div lp_tpb p) = ou_phases Q" if "i < n * lp_tpb p" for i
    using threads_fitD [OF f(9) that] by (cases "st_status (ls_st (dv_launch (kr_dev s))) ! i") (simp_all add: thread_fits_def)
  then show ?thesis using f(8) by (simp add: orderly_def untroubled_def)
qed

text \<open>A step that only its own thread can tell.\<close>

lemma phase_private:
  assumes pt: "phase_point checks sp c p lid lens Q n W s me"
    and d': "dv_first d' = dv_first (kr_dev s)" "mem_of d' = mem_of (kr_dev s)"
      "\<And>k i. dev_cell sp d' k i = dev_cell sp (kr_dev s) k i"
    and st: "st_status (ls_st (dv_launch d')) = st_status (ls_st (dv_launch (kr_dev s)))"
      "\<And>j. gen_of d' j = gen_of (kr_dev s) j"
      "st_aborted (ls_st (dv_launch d')) = st_aborted (ls_st (dv_launch (kr_dev s)))"
      "w_rep (ls_world (dv_launch d')) = w_rep (ls_world (dv_launch (kr_dev s)))"
    and ins: "\<And>i. i \<noteq> me \<Longrightarrow> i \<in> dv_inside d' \<longleftrightarrow> i \<in> dv_inside (kr_dev s)"
    and g: "phased g Q (dv_first (kr_dev s) + me div lp_tpb p) (dv_first (kr_dev s) * lp_tpb p + me)
      (gen_of (kr_dev s) (me div lp_tpb p)) (W me) (me \<in> dv_inside d')"
  shows "phased_inv sp lens p Q n W (s\<lparr>kr_dev := d', kr_progs := (kr_progs s)[me := g]\<rparr>)"
proof -
  note f = phase_pointD [OF pt]
  let ?s' = "s\<lparr>kr_dev := d', kr_progs := (kr_progs s)[me := g]\<rparr>"
  note gen = st(2)
  have "threads_fit p Q n (W(me := W me)) ?s'"
    by (rule threads_fit_step [OF f(9)]) (use d' st ins g gen f(5,12,13) in \<open>simp_all add: thread_fits_def\<close>)
  moreover have "untroubled d'" using f(8) st by (simp add: untroubled_def)
  ultimately show ?thesis
    using values_fit_same [OF f(10) d'(2,3,1) gen] cells_fit_same [OF f(11) d'(3)] by (simp add: phased_inv_def)
qed

text \<open>A read finds the value of the outline.\<close>

lemma outline_elem:
  assumes "outline_ok lens p Q" and "b < lp_blocks p" and "(k, i) \<in> ou_block (lp_tpb p) Q b"
  shows "k < length lens" and "i < lens ! k"
  using assms by (auto simp: outline_ok_def)

lemma plays_in_block:
  assumes "plays Q e t kind x"
  shows "x \<in> ou_block tpb Q (t div tpb)"
  using assms by (auto simp: plays_def ou_block_def)

text \<open>An access of the outline: where it happens, and what it is.\<close>

lemma phase_access_in:
  assumes pt: "phase_point checks sp c p lid lens Q n W s me"
    and plays: "plays Q (gen_of (kr_dev s) (me div lp_tpb p)) (dv_first (kr_dev s) * lp_tpb p + me) kind (k, i)"
  shows "k < length (dv_bufs (kr_dev s))" and "i < length (in_data (dv_bufs (kr_dev s) ! k))"
    and "elem_value sp (kr_dev s) (k, i) = ou_now Q (dv_first (kr_dev s) + me div lp_tpb p)
      (gen_of (kr_dev s) (me div lp_tpb p)) (W me) (k, i)"
proof -
  note f = phase_pointD [OF pt]
  have ok: "outline_ok lens p Q" using pt by (simp add: phase_point_def)
  have bufs: "bufs_ok lens (dv_bufs (kr_dev s))" using f(2) by (simp add: dev_base_def)
  then have lens: "length (dv_bufs (kr_dev s)) = length lens" by (auto simp: bufs_ok_def)
  let ?b = "dv_first (kr_dev s) + me div lp_tpb p"
  have x: "(k, i) \<in> ou_block (lp_tpb p) Q ?b" using plays_in_block [OF plays, of "lp_tpb p"] by (simp only: slot_gid [OF f(7)])
  show k: "k < length (dv_bufs (kr_dev s))" using outline_elem(1) [OF ok f(15) x] lens by simp
  show "i < length (in_data (dv_bufs (kr_dev s) ! k))" using outline_elem(2) [OF ok f(15) x] bufs_ok_nth [OF bufs k] by simp
  have "elem_value sp (kr_dev s) (k, i) = block_value p Q n W (kr_dev s) ?b (k, i)"
    using f(10,15) x by (simp add: values_fit_def)
  also have "\<dots> = ou_now Q ?b (gen_of (kr_dev s) (me div lp_tpb p)) (W me) (k, i)"
    unfolding block_value_own [OF f(4)] using written_own [OF f(6,7,9,4) plays] by (simp add: ou_now_def)
  finally show "elem_value sp (kr_dev s) (k, i) = \<dots>" .
qed

text \<open>What an access of an outline with a known result does to the memory and the cells.\<close>

lemma phase_access_exec:
  assumes pt: "phase_point checks sp c p lid lens Q n W s me"
    and plays: "plays Q (gen_of (kr_dev s) (me div lp_tpb p)) (dv_first (kr_dev s) * lp_tpb p + me) kind (k, i)"
    and init: "kind = Read \<longrightarrow> cell_init (dev_cell sp (kr_dev s) k i)"
    and op: "op (mem_of (kr_dev s) ! k ! i) = Inr (r, v)" and ok: "dev_act_ok sp (kr_dev s) me (DevAccess k i kind loc None op)"
    and d': "d' = dev_exec sp (kr_dev s) me (DevAccess k i kind loc None op)"
  shows "dev_reply sp (kr_dev s) me (DevAccess k i kind loc None op) = Inr (Got r)"
    and "mem_of d' = put k i v (mem_of (kr_dev s))" and "untroubled d'" and "cells_fit sp lens p Q d'"
    and "dv_first d' = dv_first (kr_dev s)" and "dv_inside d' = dv_inside (kr_dev s)"
    and "w_st (ls_world (dv_launch d')) = w_st (ls_world (dv_launch (kr_dev s)))"
    and "k' < length (dv_bufs (kr_dev s)) \<Longrightarrow> cell_init (dev_cell sp d' k' i')
      \<longleftrightarrow> cell_init (dev_cell sp (kr_dev s) k' i') \<or> (k', i') = (k, i)"
proof -
  note f = phase_pointD [OF pt] and x = phase_access_in [OF pt plays]
  have i: "i < length (mem_of (kr_dev s) ! k)" using x(1,2) by (simp add: mem_of_def)
  show "dev_reply sp (kr_dev s) me (DevAccess k i kind loc None op) = Inr (Got r)" "mem_of d' = put k i v (mem_of (kr_dev s))"
    using access_mem [OF x(1), of sp me i kind loc None op] i op unfolding d' by simp_all
  have total: "\<forall>v. \<exists>x. op v = Inr x" using ok by simp
  obtain data where t: "d' = dev_touch sp (kr_dev s) me k i kind loc None True data"
    using dev_access_in [OF x(2), of op sp me kind loc None] total unfolding d' by fastforce
  obtain acc now l1 where a: "access_of (dev_ctx (kr_dev s) me) kind loc None (dv_launch (kr_dev s)) (dev_cell sp (kr_dev s) k i)
      = (acc, now, l1)" by (rule prod_cases3)
  note g = dev_touch_fields [OF a t] and h = phase_touch [OF f(1-4,6,11) x(1,2) plays init t]
  show "untroubled d'" using f(8) g(5) h(1) by (simp add: untroubled_def ls_st_def)
  show "cells_fit sp lens p Q d'" by (rule h(2))
  show "dv_first d' = dv_first (kr_dev s)" "dv_inside d' = dv_inside (kr_dev s)"
    "w_st (ls_world (dv_launch d')) = w_st (ls_world (dv_launch (kr_dev s)))" by (rule g(7), rule g(9), rule g(5))
  show "k' < length (dv_bufs (kr_dev s)) \<Longrightarrow> cell_init (dev_cell sp d' k' i')
      \<longleftrightarrow> cell_init (dev_cell sp (kr_dev s) k' i') \<or> (k', i') = (k, i)" by (rule h(3))
qed

lemma phase_read:
  assumes pt: "phase_point checks sp c p lid lens Q n W s me"
    and g: "kr_progs s ! me = Do (DevAccess k i Read loc ord op) cont"
    and ok: "dev_act_ok sp (kr_dev s) me (DevAccess k i Read loc ord op)"
    and s': "s' = s\<lparr>kr_dev := dev_exec sp (kr_dev s) me (DevAccess k i Read loc ord op),
       kr_progs := (kr_progs s)[me := after (kr_progs s ! me) (dev_reply sp (kr_dev s) me (DevAccess k i Read loc ord op))]\<rparr>"
  shows "phased_inv sp lens p Q n W s'"
proof -
  note f = phase_pointD [OF pt]
  have ord: "ord = None" using ok by simp
  obtain v r where ph: "\<not> me \<in> dv_inside (kr_dev s)"
    "(k, i) \<in> ou_reads Q (gen_of (kr_dev s) (me div lp_tpb p)) (dv_first (kr_dev s) * lp_tpb p + me)"
    and v: "ou_now Q (dv_first (kr_dev s) + me div lp_tpb p) (gen_of (kr_dev s) (me div lp_tpb p)) (W me) (k, i) = Some v"
      "reads_as op v r" and nxt: "phased (cont (Got r)) Q (dv_first (kr_dev s) + me div lp_tpb p)
        (dv_first (kr_dev s) * lp_tpb p + me) (gen_of (kr_dev s) (me div lp_tpb p)) (W me) False"
    using f(14) by (auto simp: g)
  have plays: "plays Q (gen_of (kr_dev s) (me div lp_tpb p)) (dv_first (kr_dev s) * lp_tpb p + me) Read (k, i)"
    using ph by (simp add: plays_def)
  have el: "elem_value sp (kr_dev s) (k, i) = Some v" using phase_access_in(3) [OF pt plays] v(1) by simp
  then have init: "cell_init (dev_cell sp (kr_dev s) k i)" and mv: "mem_of (kr_dev s) ! k ! i = v"
    by (auto simp: elem_value_def split: if_splits)
  have op: "op (mem_of (kr_dev s) ! k ! i) = Inr (r, v)" using v(2) by (simp add: mv reads_as_def)
  define d' where "d' = dev_exec sp (kr_dev s) me (DevAccess k i Read loc ord op)"
  have d'_eq: "d' = dev_exec sp (kr_dev s) me (DevAccess k i Read loc None op)" by (simp only: d'_def ord)
  have s'_eq: "s' = s\<lparr>kr_dev := d', kr_progs := (kr_progs s)[me := after (kr_progs s ! me)
      (dev_reply sp (kr_dev s) me (DevAccess k i Read loc None op))]\<rparr>" by (simp only: s' d'_def ord)
  note x = phase_access_exec [OF pt plays impI [OF init] op ok [unfolded ord] d'_eq]
  have mem: "mem_of d' = mem_of (kr_dev s)" unfolding x(2) put_def mv [symmetric] by simp
  have gen: "gen_of d' j = gen_of (kr_dev s) j" for j using x(7) by (simp add: gen_of_def ls_st_def)
  have "threads_fit p Q n (W(me := W me)) s'"
    by (rule threads_fit_step [OF f(9)])
      (use x gen f(5,12,13) nxt ph(1) in \<open>simp_all add: s'_eq thread_fits_def ls_st_def g after_def del: dev_exec.simps dev_reply.simps\<close>)
  moreover have "values_fit sp p Q n W d'"
    unfolding values_fit_def
  proof (intro allI impI ballI)
    fix b y assume b: "b < lp_blocks p" and y: "y \<in> ou_block (lp_tpb p) Q b"
    have "fst y < length lens" using outline_elem(1) [of lens p Q b "fst y" "snd y"] pt b y by (simp add: phase_point_def)
    then have "fst y < length (dv_bufs (kr_dev s))" using f(2) by (auto simp: dev_base_def bufs_ok_def)
    then have "elem_value sp d' y = elem_value sp (kr_dev s) y"
      using x(8) [of "fst y" "snd y"] init by (auto simp: elem_value_def mem)
    moreover have "block_value p Q n W d' b y = block_value p Q n W (kr_dev s) b y"
      by (simp add: block_value_def gen x(5))
    ultimately show "elem_value sp d' y = block_value p Q n W d' b y" using f(10) b y by (simp add: values_fit_def)
  qed
  ultimately show ?thesis using x(3,4) by (simp add: phased_inv_def s'_eq)
qed

lemma written_insert:
  assumes "me < n * lp_tpb p"
  shows "y \<in> written p n (W(me := insert x (W me))) j \<longleftrightarrow> y \<in> written p n W j \<or> y = x \<and> j = me div lp_tpb p"
  using assms by (auto simp: written_def)

lemma phase_write:
  assumes pt: "phase_point checks sp c p lid lens Q n W s me"
    and g: "kr_progs s ! me = Do (DevAccess k i Write loc ord op) cont"
    and ok: "dev_act_ok sp (kr_dev s) me (DevAccess k i Write loc ord op)"
    and s': "s' = s\<lparr>kr_dev := dev_exec sp (kr_dev s) me (DevAccess k i Write loc ord op),
       kr_progs := (kr_progs s)[me := after (kr_progs s ! me) (dev_reply sp (kr_dev s) me (DevAccess k i Write loc ord op))]\<rparr>"
  shows "phased_inv sp lens p Q n (W(me := insert (k, i) (W me))) s'"
proof -
  note f = phase_pointD [OF pt]
  have ord: "ord = None" using ok by simp
  let ?b = "dv_first (kr_dev s) + me div lp_tpb p" and ?e = "gen_of (kr_dev s) (me div lp_tpb p)"
    and ?t = "dv_first (kr_dev s) * lp_tpb p + me" and ?W = "W(me := insert (k, i) (W me))"
  obtain v r where ph: "\<not> me \<in> dv_inside (kr_dev s)" "(k, i) \<in> ou_writes Q ?e ?t"
    and v: "ou_value Q ?b (?e + 1) (k, i) = Some v" "writes_as op v r"
    and nxt: "phased (cont (Got r)) Q ?b ?t ?e (insert (k, i) (W me)) False"
    using f(14) by (auto simp: g)
  have plays: "plays Q ?e ?t Write (k, i)" using ph by (simp add: plays_def)
  have op: "op (mem_of (kr_dev s) ! k ! i) = Inr (r, v)" using v(2) by (simp add: writes_as_def)
  define d' where "d' = dev_exec sp (kr_dev s) me (DevAccess k i Write loc ord op)"
  have d'_eq: "d' = dev_exec sp (kr_dev s) me (DevAccess k i Write loc None op)" by (simp only: d'_def ord)
  have s'_eq: "s' = s\<lparr>kr_dev := d', kr_progs := (kr_progs s)[me := after (kr_progs s ! me)
      (dev_reply sp (kr_dev s) me (DevAccess k i Write loc None op))]\<rparr>" by (simp only: s' d'_def ord)
  have noread: "Write = Read \<longrightarrow> cell_init (dev_cell sp (kr_dev s) k i)" by simp
  note x = phase_access_exec [OF pt plays noread op ok [unfolded ord] d'_eq] and a = phase_access_in [OF pt plays]
  have gen: "gen_of d' j = gen_of (kr_dev s) j" for j using x(7) by (simp add: gen_of_def ls_st_def)
  have "threads_fit p Q n ?W s'"
    by (rule threads_fit_step [OF f(9)])
      (use x gen f(5,12,13) nxt ph in \<open>simp_all add: s'_eq thread_fits_def ls_st_def g after_def del: dev_exec.simps dev_reply.simps\<close>)
  moreover have "values_fit sp p Q n ?W d'"
    unfolding values_fit_def
  proof (intro allI impI ballI)
    fix b y assume b: "b < lp_blocks p" and y: "y \<in> ou_block (lp_tpb p) Q b"
    have "fst y < length lens" using outline_elem(1) [of lens p Q b "fst y" "snd y"] pt b y by (simp add: phase_point_def)
    then have len: "fst y < length (dv_bufs (kr_dev s))" using f(2) by (auto simp: dev_base_def bufs_ok_def)
    show "elem_value sp d' y = block_value p Q n ?W d' b y"
    proof (cases "y = (k, i)")
      case True
      have "b = ?b" using plays_block [OF f(6) ph(2)] y True by (simp only: slot_gid [OF f(7)])
      moreover have "block_value p Q n ?W d' ?b y = Some v"
        using block_value_own [OF f(4), of Q ?W d' y, unfolded x(5)] v(1) True written_insert [OF f(4), of y W "(k, i)" "me div lp_tpb p"]
        by (simp add: x(5) gen ou_now_def)
      moreover have "elem_value sp d' y = Some v"
        using x(8) [OF len, of "snd y"] x(2) a(1,2) True by (simp add: elem_value_def put_def mem_of_def)
      ultimately show ?thesis by simp
    next
      case False
      have "elem_value sp d' y = elem_value sp (kr_dev s) y"
        using x(8) [OF len, of "snd y"] x(2) False put_other [of k i "fst y" "snd y" v "mem_of (kr_dev s)"]
        by (cases y) (auto simp: elem_value_def)
      moreover have "block_value p Q n ?W d' b y = block_value p Q n W (kr_dev s) b y"
        using False by (simp add: block_value_def gen x(5) ou_now_def written_insert [OF f(4)])
      ultimately show ?thesis using f(10) b y by (simp add: values_fit_def)
    qed
  qed
  ultimately show ?thesis using x(3,4) by (simp add: phased_inv_def s'_eq)
qed

text \<open>Scheduling points, fences and the way out of a barrier.\<close>

lemma phase_quiet:
  assumes pt: "phase_point checks sp c p lid lens Q n W s me"
    and g: "kr_progs s ! me = Do a cont" and a: "a = DevSched ActYield \<or> (\<exists>ord. a = DevFence ord) \<or> a = DevDepart"
    and s': "s' = s\<lparr>kr_dev := dev_exec sp (kr_dev s) me a,
       kr_progs := (kr_progs s)[me := after (kr_progs s ! me) (dev_reply sp (kr_dev s) me a)]\<rparr>"
  shows "phased_inv sp lens p Q n W s'"
proof -
  note f = phase_pointD [OF pt]
  let ?d' = "dev_exec sp (kr_dev s) me a"
  have run: "\<not> st_aborted (ls_st (dv_launch (kr_dev s)))" using f(8) by (simp add: untroubled_def)
  have turn: "st_current (ls_st (dv_launch (kr_dev s))) = Some me" using pt by (simp add: phase_point_def)
  note yield = yield_effect [OF f(1-3) run turn refl]
  have d': "dv_first ?d' = dv_first (kr_dev s)" "mem_of ?d' = mem_of (kr_dev s)"
    using a by (auto simp: mem_of_def)
  have cell: "dev_cell sp ?d' k i = dev_cell sp (kr_dev s) k i" for k i
    by (rule dev_cell_cong) (use a in auto)
  have st: "st_status (ls_st (dv_launch ?d')) = st_status (ls_st (dv_launch (kr_dev s)))"
    "\<And>j. gen_of ?d' j = gen_of (kr_dev s) j"
    "st_aborted (ls_st (dv_launch ?d')) = st_aborted (ls_st (dv_launch (kr_dev s)))"
    "w_rep (ls_world (dv_launch ?d')) = w_rep (ls_world (dv_launch (kr_dev s)))"
    using a yield run by (auto simp: ls_st_def gen_of_def)
  have ins: "i \<in> dv_inside ?d' \<longleftrightarrow> i \<in> dv_inside (kr_dev s)" if "i \<noteq> me" for i using a that by auto
  have nxt: "phased (after (kr_progs s ! me) (dev_reply sp (kr_dev s) me a)) Q (dv_first (kr_dev s) + me div lp_tpb p)
      (dv_first (kr_dev s) * lp_tpb p + me) (gen_of (kr_dev s) (me div lp_tpb p)) (W me) (me \<in> dv_inside ?d')"
    using a f(14) by (auto simp: g after_def)
  show ?thesis unfolding s' by (rule phase_private [OF pt d' cell st ins nxt])
qed

text \<open>The end of a thread.\<close>

lemma phase_finish:
  assumes pt: "phase_point checks sp c p lid lens Q n W s me"
    and g: "kr_progs s ! me = Return"
    and s': "s' = s\<lparr>kr_dev := dev_exec sp (kr_dev s) me (DevSched ActFinish), kr_progs := (kr_progs s)[me := Gone]\<rparr>"
  shows "phased_inv sp lens p Q n W s'"
proof -
  note f = phase_pointD [OF pt]
  let ?d' = "dev_exec sp (kr_dev s) me (DevSched ActFinish)"
  have turn: "st_current (ls_st (dv_launch (kr_dev s))) = Some me" using pt by (simp add: phase_point_def)
  have fin: "gen_of (kr_dev s) (me div lp_tpb p) = ou_phases Q" "settled Q (dv_first (kr_dev s) + me div lp_tpb p)
      (dv_first (kr_dev s) * lp_tpb p + me) (ou_phases Q) (W me)" using f(14) by (auto simp: g)
  note q = finish_effect [OF f(1-3) phase_orderly [OF pt] turn fin(1) refl]
  have cell: "dev_cell sp ?d' k i = dev_cell sp (kr_dev s) k i" for k i by (rule dev_cell_cong) simp_all
  have same: "dv_first ?d' = dv_first (kr_dev s)" "mem_of ?d' = mem_of (kr_dev s)" "dv_inside ?d' = dv_inside (kr_dev s)"
    by (simp_all add: mem_of_def)
  have st: "st_status (ls_st (dv_launch ?d')) ! i = (if i = me then Finished else st_status (ls_st (dv_launch (kr_dev s))) ! i)"
    if "i < n * lp_tpb p" for i using q(4) [OF that] .
  have "threads_fit p Q n (W(me := W me)) s'"
    by (rule threads_fit_step [OF f(9)])
      (use q(3) st same f(4,5,13) fin in \<open>simp_all add: s' thread_fits_def del: dev_exec.simps\<close>)
  moreover have "untroubled ?d'" using q(1,2) f(8) by (simp add: untroubled_def del: dev_exec.simps)
  moreover have "values_fit sp p Q n W ?d'"
    by (rule values_fit_same [OF f(10) same(2) cell same(1) q(3)])
  ultimately show ?thesis
    using cells_fit_same [OF f(11) cell] by (simp add: phased_inv_def s' del: dev_exec.simps)
qed

text \<open>
  An arrival at a barrier. When every other thread of the block is there, the block goes on to its next
  phase, in which nobody has written anything yet.
\<close>

definition onwards :: "launch_plan \<Rightarrow> bool \<Rightarrow> nat \<Rightarrow> (nat \<Rightarrow> (nat \<times> nat) set) \<Rightarrow> nat \<Rightarrow> (nat \<times> nat) set" where
  "onwards p all_in me W i = (if all_in \<and> i div lp_tpb p = me div lp_tpb p then {} else W i)"

lemma written_onwards:
  "written p n (onwards p all_in me W) j = (if all_in \<and> j = me div lp_tpb p then {} else written p n W j)"
  by (auto simp: written_def onwards_def)

text \<open>At the end of a phase an element has its value in the next one.\<close>

lemma phase_over:
  assumes ok: "outline_ok lens p Q" and bb: "b < lp_blocks p" and e: "e \<le> ou_phases Q" and x: "x \<in> ou_block (lp_tpb p) Q b"
    and b: "first \<le> b" "b < first + n" and tpb: "0 < lp_tpb p"
    and settled: "\<And>i. i < n * lp_tpb p \<Longrightarrow> i div lp_tpb p = b - first \<Longrightarrow> settled Q b (first * lp_tpb p + i) e (W i)"
  shows "ou_now Q b e (written p n W (b - first)) x = ou_value Q b (e + 1) x"
proof (cases "x \<in> written p n W (b - first) \<or> (\<forall>t. t div lp_tpb p = b \<longrightarrow> x \<notin> ou_writes Q e t)")
  case True
  moreover have "ou_value Q b (e + 1) x = ou_value Q b e x" if "\<forall>t. t div lp_tpb p = b \<longrightarrow> x \<notin> ou_writes Q e t"
    using ok bb e x that by (simp add: outline_ok_def)
  ultimately show ?thesis by (auto simp: ou_now_def)
next
  case False
  then obtain t where t: "t div lp_tpb p = b" "x \<in> ou_writes Q e t" by blast
  define i where "i = t - first * lp_tpb p"
  have "first * lp_tpb p \<le> t" using b(1) t(1) tpb by (metis div_times_less_eq_dividend le_trans mult_le_mono1)
  then have ti: "t = first * lp_tpb p + i" by (simp add: i_def)
  have bi: "b = first + i div lp_tpb p" using t(1) slot_gid [OF tpb, of first i] unfolding ti by simp
  then have i: "i < n * lp_tpb p" "i div lp_tpb p = b - first" using b(2) tpb by (simp_all add: div_less_iff_less_mult)
  have "x \<notin> W i" using False i by (auto simp: written_def)
  then have "ou_value Q b (e + 1) x = ou_value Q b e x"
    using settled [OF i] t(2) unfolding settled_def ti by blast
  then show ?thesis using False by (simp add: ou_now_def)
qed

lemma phase_arrive:
  assumes pt: "phase_point checks sp c p lid lens Q n W s me"
    and g: "kr_progs s ! me = Do (DevArrive loc) cont"
    and all: "all_in \<longleftrightarrow> (\<forall>i < n * lp_tpb p. i \<noteq> me \<longrightarrow> i div lp_tpb p = me div lp_tpb p \<longrightarrow>
      st_status (ls_st (dv_launch (kr_dev s))) ! i = AtBarrier)"
    and s': "s' = s\<lparr>kr_dev := dev_exec sp (kr_dev s) me (DevArrive loc), kr_progs := (kr_progs s)[me := cont Nothing]\<rparr>"
  shows "phased_inv sp lens p Q n (onwards p all_in me W) s'"
proof -
  note f = phase_pointD [OF pt]
  let ?d' = "dev_exec sp (kr_dev s) me (DevArrive loc)" and ?b = "\<lambda>i. dv_first (kr_dev s) + i div lp_tpb p"
    and ?t = "\<lambda>i. dv_first (kr_dev s) * lp_tpb p + i" and ?e = "\<lambda>i. gen_of (kr_dev s) (i div lp_tpb p)"
  have turn: "st_current (ls_st (dv_launch (kr_dev s))) = Some me" using pt by (simp add: phase_point_def)
  have fit: "thread_fits Q (?b i) (?t i) (?e i) (W i) (i \<in> dv_inside (kr_dev s)) (st_status (ls_st (dv_launch (kr_dev s))) ! i) (kr_progs s ! i)"
    if "i < n * lp_tpb p" for i by (rule threads_fitD [OF f(9) that])
  have ph: "me \<notin> dv_inside (kr_dev s)" "?e me < ou_phases Q" "settled Q (?b me) (?t me) (?e me) (W me)"
    "phased (cont Nothing) Q (?b me) (?t me) (?e me + 1) {} True" using f(14) by (auto simp: g)
  note q = arrive_effect [where loc = loc, OF f(1-3) phase_orderly [OF pt] turn ph(2) all refl]
  note gen = q(3) and st = q(4)
  have "untroubled ?d'" using q(1,2) f(8) by (simp add: untroubled_def del: dev_exec.simps)
  moreover have "threads_fit p Q n (onwards p all_in me W) s'"
    unfolding threads_fit_def
  proof (intro allI impI)
    fix i assume i: "i < n * lp_tpb p"
    have waits: "st_status (ls_st (dv_launch (kr_dev s))) ! i = AtBarrier" if "all_in" "i div lp_tpb p = me div lp_tpb p" "i \<noteq> me"
      using all that i by simp
    show "thread_fits Q (dv_first (kr_dev s') + i div lp_tpb p) (dv_first (kr_dev s') * lp_tpb p + i)
        (gen_of (kr_dev s') (i div lp_tpb p)) (onwards p all_in me W i) (i \<in> dv_inside (kr_dev s'))
        (st_status (ls_st (dv_launch (kr_dev s'))) ! i) (kr_progs s' ! i)"
      using fit [OF i] ph f(5,13) waits st [OF i] gen [of "i div lp_tpb p"]
      by (cases "i = me") (auto simp: s' thread_fits_def onwards_def)
  qed
  moreover have cell: "dev_cell sp ?d' k i = dev_cell sp (kr_dev s) k i" for k i
    by (rule dev_cell_cong) (simp_all add: sync_threads_enter_def Let_def split: prod.split)
  moreover have "values_fit sp p Q n (onwards p all_in me W) ?d'"
    unfolding values_fit_def
  proof (intro allI impI ballI)
    fix b y assume b: "b < lp_blocks p" and y: "y \<in> ou_block (lp_tpb p) Q b"
    have "elem_value sp ?d' y = elem_value sp (kr_dev s) y"
      unfolding elem_value_def cell by (simp add: mem_of_def)
    also have "\<dots> = block_value p Q n W (kr_dev s) b y" using f(10) b y by (simp add: values_fit_def)
    also have "\<dots> = block_value p Q n (onwards p all_in me W) ?d' b y"
    proof (cases "all_in \<and> b = ?b me")
      case False
      then show ?thesis using gen [of "b - dv_first (kr_dev s)"]
        by (auto simp: block_value_def written_onwards)
    next
      case True
      have "ou_now Q (?b me) (?e me) (written p n W (?b me - dv_first (kr_dev s))) y = ou_value Q (?b me) (?e me + 1) y"
      proof (rule phase_over [OF _ f(15) _ _ _ _ f(7)])
        show "outline_ok lens p Q" using pt by (simp add: phase_point_def)
        show "settled Q (?b me) (?t i) (?e me) (W i)" if "i < n * lp_tpb p" "i div lp_tpb p = ?b me - dv_first (kr_dev s)" for i
        proof (cases "i = me")
          case False
          then have "st_status (ls_st (dv_launch (kr_dev s))) ! i = AtBarrier" using all True that by simp
          then show ?thesis using fit [OF that(1)] that(2) by (simp add: thread_fits_def)
        qed (use ph(3) in simp)
      qed (use ph(2) y True less_mult_imp_div_less [OF f(4)] in simp_all)
      then have "block_value p Q n W (kr_dev s) (?b me) y = ou_value Q (?b me) (?e me + 1) y"
        using block_value_own [OF f(4), of Q W "kr_dev s" y] by simp
      moreover have "block_value p Q n (onwards p all_in me W) ?d' (?b me) y = ou_value Q (?b me) (?e me + 1) y"
        using block_value_own [OF f(4), of Q "onwards p all_in me W" ?d' y] gen [of "me div lp_tpb p"] True
        by (simp add: written_onwards ou_now_def)
      ultimately show ?thesis using True by (simp del: dev_exec.simps)
    qed
    finally show "elem_value sp ?d' y = block_value p Q n (onwards p all_in me W) ?d' b y" .
  qed
  ultimately show ?thesis
    using cells_fit_same [OF f(11) cell] by (simp add: phased_inv_def s' del: dev_exec.simps)
qed

text \<open>Whatever the holder of the turn does, the invariant holds after it.\<close>

lemma phase_act:
  assumes pt: "phase_point checks sp c p lid lens Q n W s me"
    and a: "next_act (kr_dev s) me (kr_progs s ! me) = Some a" and ok: "dev_act_ok sp (kr_dev s) me a"
    and s': "s' = s\<lparr>kr_dev := dev_exec sp (kr_dev s) me a,
       kr_progs := (kr_progs s)[me := after (kr_progs s ! me) (dev_reply sp (kr_dev s) me a)]\<rparr>"
  shows "\<exists>W'. phased_inv sp lens p Q n W' s'"
proof (cases "kr_progs s ! me")
  case Return
  have "s' = s\<lparr>kr_dev := dev_exec sp (kr_dev s) me (DevSched ActFinish), kr_progs := (kr_progs s)[me := Gone]\<rparr>"
    using a Return unfolding s' by (simp add: next_act_def after_def del: dev_exec.simps)
  from phase_finish [OF pt Return this] show ?thesis by blast
next
  case (Do a' cont)
  then have g: "kr_progs s ! me = Do a cont" using a by (simp add: next_act_def)
  have ph: "phased (Do a cont) Q (dv_first (kr_dev s) + me div lp_tpb p) (dv_first (kr_dev s) * lp_tpb p + me)
      (gen_of (kr_dev s) (me div lp_tpb p)) (W me) (me \<in> dv_inside (kr_dev s))"
    using phase_pointD(14) [OF pt] g by simp
  show ?thesis
  proof (cases a)
    case (DevAccess k i kind loc ord op)
    show ?thesis
    proof (cases kind)
      case Read
      show ?thesis using phase_read [OF pt g [unfolded DevAccess Read] ok [unfolded DevAccess Read] s' [unfolded DevAccess Read]] by blast
    next
      case Write
      show ?thesis using phase_write [OF pt g [unfolded DevAccess Write] ok [unfolded DevAccess Write] s' [unfolded DevAccess Write]] by blast
    next
      case Atomic
      then show ?thesis using ph by (simp add: DevAccess)
    qed
  next
    case (DevArrive loc)
    have "s' = s\<lparr>kr_dev := dev_exec sp (kr_dev s) me (DevArrive loc), kr_progs := (kr_progs s)[me := cont Nothing]\<rparr>"
      unfolding s' g by (simp add: DevArrive after_def del: dev_exec.simps)
    from phase_arrive [OF pt g [unfolded DevArrive] refl this] show ?thesis by blast
  next
    case DevDepart
    then show ?thesis using phase_quiet [OF pt g _ s'] by blast
  next
    case (DevFence ord)
    then show ?thesis using phase_quiet [OF pt g _ s'] by blast
  next
    case (DevSched x)
    then have "x = ActYield" using ph by simp
    then show ?thesis using phase_quiet [OF pt g _ s'] DevSched by blast
  qed (use ph in simp_all)
qed (use phase_pointD(14) [OF pt] in simp_all)

end
