(* ===== verification/Kernel_Phased_Run.thy ===== *)
theory Kernel_Phased_Run
  imports Kernel_Phased
begin

text \<open>
  The waves and the launch of a kernel that keeps to an outline: a wave leaves its blocks at the end of their
  last phase, and the launch ends with nothing reported and every element as the outline says.
\<close>

section \<open>Waves\<close>

text \<open>A wave that has returned leaves its blocks at the end of their last phase.\<close>

lemma wave_over:
  assumes su: "launch_setup checks c = Inr p" and inv: "kernel_inv sp c p lid lens s" and w: "in_wave p (kr_dev s) n"
    and ok: "outline_ok lens p Q" and ph: "phased_inv sp lens p Q n W s"
    and none: "st_current (ls_st (dv_launch (kr_dev s))) = None"
    and b: "b < lp_blocks p" and x: "x \<in> ou_block (lp_tpb p) Q b"
  shows "elem_value sp (kr_dev s) x =
    (if b < dv_first (kr_dev s) + n then ou_value Q b (ou_phases Q + 1) x else ou_value Q b 0 x)"
proof -
  let ?d = "kr_dev s"
  have f: "untroubled ?d" "threads_fit p Q n W s" "values_fit sp p Q n W ?d"
    using ph by (simp_all add: phased_inv_def)
  have base: "dev_base sp c p lid lens ?d" using inv by (simp add: kernel_inv_def)
  have tpb: "0 < lp_tpb p" using launch_setup_ok [OF su] by (simp add: plan_ok_def)
  have fin: "st_status (ls_st (dv_launch ?d)) ! i = Finished" if "i < n * lp_tpb p" for i
    using base none f(1) that in_wave_bounds(4) [OF su w]
    by (simp add: dev_base_def world_ok_def turn_ok_def ls_st_def untroubled_def)
  have val: "elem_value sp ?d x = block_value p Q n W ?d b x" using f(3) b x by (simp add: values_fit_def)
  show ?thesis
  proof (cases "dv_first ?d \<le> b \<and> b < dv_first ?d + n")
    case True
    let ?j = "b - dv_first ?d"
    have set: "gen_of ?d ?j = ou_phases Q \<and> settled Q b (dv_first ?d * lp_tpb p + i) (ou_phases Q) (W i)"
      if i: "i < n * lp_tpb p" "i div lp_tpb p = ?j" for i
      using threads_fitD [OF f(2) i(1)] fin [OF i(1)] i(2) True by (auto simp: thread_fits_def)
    have "?j < n" using True by arith
    then have "?j * lp_tpb p < n * lp_tpb p" using tpb by simp
    then have gen: "gen_of ?d ?j = ou_phases Q" using set [of "?j * lp_tpb p"] tpb by simp
    have "ou_now Q b (ou_phases Q) (written p n W ?j) x = ou_value Q b (ou_phases Q + 1) x"
      by (rule phase_over [OF ok b _ x _ _ tpb]) (use True set in auto)
    then show ?thesis using val True gen by (simp add: block_value_def)
  next
    case False
    then show ?thesis using val by (auto simp: block_value_def)
  qed
qed

text \<open>The start of a wave: nobody has written anything, and every block of it is in its first phase.\<close>

lemma phased_wave:
  assumes su: "launch_setup checks c = Inr p" and K: "phased_kernel p Q K" and mem: "(first, n) \<in> set (wave_list p)"
    and d: "dv_launch d = wave_begin c p n ch sh" "dv_first d = first" "dv_inside d = {}"
    and calm: "rep_diags (lh_reporter sh) = []" and cells: "cells_fit sp lens p Q d"
    and vals: "\<And>b x. b < lp_blocks p \<Longrightarrow> x \<in> ou_block (lp_tpb p) Q b \<Longrightarrow>
      elem_value sp d x = (if b < first then ou_value Q b (ou_phases Q + 1) x else ou_value Q b 0 x)"
  shows "phased_inv sp lens p Q n (\<lambda>_. {}) (s\<lparr>kr_dev := d, kr_progs := wave_programs K p first n, kr_wave := k\<rparr>)"
proof -
  have cfg: "total_threads (wave_sched p n) = n * lp_tpb p" "sc_blocks (wave_sched p n) = n"
    by (simp_all add: wave_sched_def sched_config_of_def total_threads_def)
  have st: "ls_st (dv_launch d) = sched_init (wave_sched p n) ch" and rep: "rep_diags (w_rep (ls_world (dv_launch d))) = []"
    using calm by (simp_all add: d(1) wave_begin_def ls_st_def Let_def)
  have gen: "gen_of d j = 0" if "j < n" for j
    using that by (simp add: gen_of_def st sched_init_def cfg Let_def)
  have run: "\<not> st_aborted (sched_init (wave_sched p n) ch)" by (simp add: sched_init_def Let_def)
  have "phased (K (thread_ctx_of (lp_tpb p) first i)) Q (first + i div lp_tpb p) (first * lp_tpb p + i) 0 {} False"
    if "i < n * lp_tpb p" for i using K mem that by (auto simp: phased_kernel_def)
  then have "threads_fit p Q n (\<lambda>_. {}) (s\<lparr>kr_dev := d, kr_progs := wave_programs K p first n, kr_wave := k\<rparr>)"
    by (simp add: threads_fit_def thread_fits_def d(2,3) st sched_init_status cfg gen less_mult_imp_div_less wave_programs_def)
  moreover have "written p n (\<lambda>_. {}) j = {}" for j by (simp add: written_def)
  then have "values_fit sp p Q n (\<lambda>_. {}) d"
    using vals gen by (auto simp: values_fit_def block_value_def ou_now_def d(2))
  ultimately show ?thesis using cells rep run by (simp add: phased_inv_def untroubled_def st)
qed

lemma dev_exec_first: "dv_first (dev_exec sp d me a) = dv_first d"
  by (cases a) (simp_all add: Let_def split: prod.split)

definition phased_state :: "mem_space list \<Rightarrow> nat list \<Rightarrow> launch_plan \<Rightarrow> 'a outline \<Rightarrow> 'a kernel_state \<Rightarrow> bool" where
  "phased_state sp lens p Q s \<longleftrightarrow> (\<exists>n W. in_wave p (kr_dev s) n \<and> phased_inv sp lens p Q n W s)"

lemma phased_step:
  assumes su: "launch_setup checks c = Inr p" and inv: "kernel_inv sp c p lid lens s" and ok: "outline_ok lens p Q"
    and K: "phased_kernel p Q K" and ph: "phased_state sp lens p Q s" and step: "kernel_step sp c p picks K s = Some s'"
  shows "phased_state sp lens p Q s'"
proof -
  obtain n W where n: "in_wave p (kr_dev s) n" and W: "phased_inv sp lens p Q n W s" using ph by (auto simp: phased_state_def)
  show ?thesis
    using step
  proof (cases rule: kernel_step_cases)
    case (act me a)
    have pt: "phase_point checks sp c p lid lens Q n W s me" using su inv n ok W act(2) by (simp add: phase_point_def)
    have fr: "in_wave p (dev_exec sp (kr_dev s) me a) n"
      using n dev_exec_frame(2) [OF act(5)] dev_exec_waves [of sp "kr_dev s" me a] dev_exec_first [of sp "kr_dev s" me a]
      by (simp add: in_wave_def)
    show ?thesis using phase_act [OF pt act(4,5,6)] fr act(6) by (auto simp: phased_state_def)
  next
    case (wave first m rest)
    obtain past where past: "wave_list p = past @ (dv_first (kr_dev s), n) # (first, m) # rest"
      using n wave(3) by (auto simp: in_wave_def)
    then have mem: "(first, m) \<in> set (wave_list p)" and first: "first = dv_first (kr_dev s) + n"
      using wave_list_next by auto
    let ?d' = "dev_wave c p (picks (kr_wave s + 1)) first m rest (kr_dev s)"
    have cell: "dev_cell sp ?d' k i = dev_cell sp (kr_dev s) k i" for k i
      by (rule dev_cell_cong) (simp_all add: dev_wave_def wave_begin_def dev_shared_def Let_def)
    have mem_d: "mem_of ?d' = mem_of (kr_dev s)" by (simp add: mem_of_def dev_wave_def)
    have "phased_inv sp lens p Q m (\<lambda>_. {}) s'"
      unfolding wave(4)
    proof (rule phased_wave [OF su K mem])
      show "dv_launch ?d' = wave_begin c p m (picks (kr_wave s + 1)) (dev_shared (kr_dev s))" "dv_first ?d' = first"
        "dv_inside ?d' = {}" by (simp_all add: dev_wave_def)
      show "rep_diags (lh_reporter (dev_shared (kr_dev s))) = []"
        using W by (simp add: dev_shared_def phased_inv_def untroubled_def)
      show "cells_fit sp lens p Q ?d'" using cells_fit_same [OF _ cell] W by (simp add: phased_inv_def)
      show "elem_value sp ?d' x = (if b < first then ou_value Q b (ou_phases Q + 1) x else ou_value Q b 0 x)"
        if "b < lp_blocks p" "x \<in> ou_block (lp_tpb p) Q b" for b x
        unfolding elem_value_def cell mem_d unfolding first
        by (rule wave_over [OF su inv n ok W wave(2) that, unfolded elem_value_def])
    qed
    moreover have "in_wave p (kr_dev s') m"
      unfolding in_wave_def wave(4)
      by (intro conjI exI [of _ "past @ [(dv_first (kr_dev s), n)]"]) (simp_all add: past dev_wave_def wave_begin_def Let_def)
    ultimately show ?thesis by (auto simp: phased_state_def)
  qed
qed

section \<open>The launch\<close>

lemma phased_run:
  assumes su: "launch_setup checks c = Inr p" and ok: "kernel_ok sp (length lens) p K" and out: "outline_ok lens p Q"
    and K: "phased_kernel p Q K" and kinv: "kernel_inv sp c p lid lens s" and ph: "phased_state sp lens p Q s"
  shows "phased_state sp lens p Q (kernel_run sp c p picks K s)"
  using kinv ph
proof (induction s rule: wf_induct_rule [OF wf_kernel_order])
  case (1 s)
  show ?case
  proof (cases "kernel_step sp c p picks K s")
    case None
    then show ?thesis using "1.prems" by (subst kernel_run.simps) simp
  next
    case (Some s')
    have eq: "kernel_run sp c p picks K s = kernel_run sp c p picks K s'" by (subst kernel_run.simps) (simp add: Some)
    show ?thesis
      unfolding eq
      by (rule "1.IH" [OF kernel_step_order [OF Some] kernel_step_inv(1) [OF su "1.prems"(1) ok Some]
            phased_step [OF su "1.prems"(1) out K "1.prems"(2) Some]])
  qed
qed

lemma phased_begin:
  assumes set: "dev_setting sp checks c p lid bufs" and out: "outline_ok (buf_lens bufs) p Q"
    and starts: "outline_starts sp bufs p Q" and K: "phased_kernel p Q K"
  shows "phased_state sp (buf_lens bufs) p Q (kernel_begin c p picks K lid bufs)"
proof -
  have su: "launch_setup checks c = Inr p" using set by (simp add: dev_setting_def)
  obtain first n rest where w: "wave_list p = (first, n) # rest"
    using wave_list_nonempty [OF launch_setup_ok [OF su]] by (metis list.exhaust surj_pair)
  have first: "first = 0" using w by (cases "lp_waves p") (simp_all add: wave_list_def Let_def)
  let ?d = "dev_begin c p (picks 0) lid bufs"
  have eq: "kernel_begin c p picks K lid bufs = (kernel_begin c p picks K lid bufs)\<lparr>kr_dev := ?d,
      kr_progs := wave_programs K p first n, kr_wave := 0\<rparr>" by (simp add: kernel_begin_def w)
  have d: "dv_launch ?d = wave_begin c p n (picks 0) (launch_begin lid p () :: (unit, unit, unit) launch_shared)"
    "dv_first ?d = first" "dv_inside ?d = {}" "dv_bufs ?d = bufs" "dv_waves ?d = rest" "ls_id (dv_launch ?d) = lid"
    by (simp_all add: dev_begin_def w wave_begin_def launch_begin_def Let_def)
  have "phased_inv sp (buf_lens bufs) p Q n (\<lambda>_. {}) ((kernel_begin c p picks K lid bufs)\<lparr>kr_dev := ?d,
      kr_progs := wave_programs K p first n, kr_wave := 0\<rparr>)"
  proof (rule phased_wave [OF su K _ d(1-3)])
    show "(first, n) \<in> set (wave_list p)" by (simp add: w)
    show "rep_diags (lh_reporter (launch_begin lid p () :: (unit, unit, unit) launch_shared)) = []"
      by (simp add: launch_begin_def reporter_new_def)
    show "cells_fit sp (buf_lens bufs) p Q ?d"
      using dev_begin_cells [OF set, of _ _ "picks 0"] by (simp add: cells_fit_def remembered_ok_def buf_lens_def)
    show "elem_value sp ?d x = (if b < first then ou_value Q b (ou_phases Q + 1) x else ou_value Q b 0 x)"
      if b: "b < lp_blocks p" and x: "x \<in> ou_block (lp_tpb p) Q b" for b x
    proof -
      obtain k i where ki: "x = (k, i)" by (cases x)
      have in_: "k < length bufs" "i < buf_lens bufs ! k" using outline_elem [OF out b x [unfolded ki]] by (simp_all add: buf_lens_def)
      have il: "i < length (in_shadow (bufs ! k))" "in_launch (bufs ! k) \<noteq> lid"
        using set in_ by (auto simp: dev_setting_def buf_lens_def buf_len_def buf_ok_def)
      have "elem_value sp ?d x = start_value sp bufs x"
        using il by (cases "sp ! k") (simp_all add: ki elem_value_def start_value_def dev_cell_def d(4,6) reset_of_def mem_of_def in_(1)
            enter_launch_def global_reset_def shared_reset_def cell_default_def)
      then show ?thesis using starts b x by (simp add: first outline_starts_def)
    qed
  qed
  then have "phased_inv sp (buf_lens bufs) p Q n (\<lambda>_. {}) (kernel_begin c p picks K lid bufs)" by (subst eq)
  moreover have "in_wave p (kr_dev (kernel_begin c p picks K lid bufs)) n"
    using w d by (simp add: in_wave_def kernel_begin_def wave_begin_def Let_def)
  ultimately show ?thesis by (auto simp: phased_state_def)
qed

text \<open>The last wave ends the grid.\<close>

lemma last_wave:
  assumes su: "launch_setup checks c = Inr p" and w: "wave_list p = past @ [(first, n)]"
  shows "first + n = lp_blocks p"
proof -
  have p: "plan_ok p" by (rule launch_setup_ok [OF su])
  have n: "0 < n"
    using waves_are_schedulable [OF su, of first n] by (simp add: w cfg_ok_def wave_sched_def sched_config_of_def)
  have "concat (map (\<lambda>(f, n). [f..<f + n]) past) @ [first..<first + n] = [0..<lp_blocks p]"
    using waves_cover [OF p, of 1] by (simp add: w)
  then have "last [0..<lp_blocks p] = last [first..<first + n]" using n by (metis last_appendR less_add_same_cancel1 upt_rec list.distinct(1))
  then have "lp_blocks p - 1 = first + n - 1" using n p by (simp add: plan_ok_def)
  moreover have "0 < lp_blocks p" using p by (simp add: plan_ok_def)
  ultimately show ?thesis using n by arith
qed

lemma phased_result:
  assumes set: "dev_setting sp checks c p lid bufs" and ok: "kernel_ok sp (length bufs) p K"
    and out: "outline_ok (buf_lens bufs) p Q" and starts: "outline_starts sp bufs p Q" and K: "phased_kernel p Q K"
  shows "\<exists>r trace s. launch_kernel sp checks c ch K lid bufs = Inr ((r, trace), s)
    \<and> is_clean r \<and> \<not> report_aborted r \<and> buf_lens (dv_bufs (kr_dev s)) = buf_lens bufs
    \<and> (\<forall>b < lp_blocks p. \<forall>(k, i) \<in> ou_block (lp_tpb p) Q b. \<forall>v. ou_value Q b (ou_phases Q + 1) (k, i) = Some v
         \<longrightarrow> to_vec (dv_bufs (kr_dev s) ! k) ! i = v)"
proof -
  let ?picks = "wave_picks c ch"
  have su: "launch_setup checks c = Inr p" using set by (simp add: dev_setting_def)
  have K': "kernel_ok sp (length (buf_lens bufs)) p K" using ok by (simp add: buf_lens_def)
  obtain r trace s where l: "launch_kernel sp checks c ch K lid bufs = Inr ((r, trace), s)"
    by (simp add: launch_kernel_def su Let_def)
  note eq = launch_kernel_run [OF su l] and b0 = kernel_begin_inv [OF set ok, of ?picks]
  note run = kernel_run_inv [OF su K' b0(1), of ?picks, folded eq(1)]
  have "phased_state sp (buf_lens bufs) p Q s"
    unfolding eq(1) by (rule phased_run [OF su K' out K b0(1) phased_begin [OF set out starts K]])
  then obtain n W where n: "in_wave p (kr_dev s) n" and W: "phased_inv sp (buf_lens bufs) p Q n W s"
    by (auto simp: phased_state_def)
  have calm: "\<not> report_aborted r" "diagnostics r = []" using W by (simp_all add: phased_inv_def untroubled_def eq(2,3))
  have live: "\<not> st_aborted (ls_st (dv_launch (kr_dev s)))" using W by (simp add: phased_inv_def untroubled_def)
  have stop: "dv_waves (kr_dev s) = [] \<and> (\<forall>g \<in> set (kr_progs s). g = Gone)"
    by (rule kernel_stop [OF su conjunct1 [OF run] conjunct2 [OF conjunct2 [OF run]] live])
  obtain past where "wave_list p = past @ [(dv_first (kr_dev s), n)]" using n stop by (auto simp: in_wave_def)
  then have last: "dv_first (kr_dev s) + n = lp_blocks p" by (rule last_wave [OF su])
  have none: "st_current (ls_st (dv_launch (kr_dev s))) = None"
  proof (rule ccontr)
    assume "st_current (ls_st (dv_launch (kr_dev s))) \<noteq> None"
    then obtain me where "st_current (ls_st (dv_launch (kr_dev s))) = Some me" by blast
    then have pt: "phase_point checks sp c p lid (buf_lens bufs) Q n W s me"
      using su run n out W by (simp add: phase_point_def)
    have "kr_progs s ! me = Gone" using stop phase_pointD(5) [OF pt] nth_mem by blast
    then show False using phase_pointD(14) [OF pt] by simp
  qed
  have "to_vec (dv_bufs (kr_dev s) ! k) ! i = v"
    if b: "b < lp_blocks p" and x: "(k, i) \<in> ou_block (lp_tpb p) Q b" and v: "ou_value Q b (ou_phases Q + 1) (k, i) = Some v"
    for b k i v
  proof -
    have "elem_value sp (kr_dev s) (k, i) = Some v"
      using wave_over [OF su conjunct1 [OF run] n out W none b x] b last v by simp
    moreover have "bufs_ok (buf_lens bufs) (dv_bufs (kr_dev s))" using run by (simp add: kernel_inv_def dev_base_def)
    then have "k < length (dv_bufs (kr_dev s))"
      using outline_elem(1) [OF out b x] unfolding bufs_ok_def by (metis length_map)
    ultimately show ?thesis by (auto simp: elem_value_def mem_of_def to_vec_def split: if_splits)
  qed
  moreover have "buf_lens (dv_bufs (kr_dev s)) = buf_lens bufs"
    using run by (simp add: kernel_inv_def dev_base_def bufs_ok_def buf_lens_def)
  ultimately show ?thesis using l calm by (auto simp: is_clean_def)
qed

text \<open>
  C5: barriers that suffice. A kernel whose threads keep to an outline, with buffers that start as it says:
  under every seed, every plan and any number of waves the launch is not aborted, its report is empty, no
  thread is left at a barrier, and every element of every block holds the value the outline has for the end.
\<close>

theorem phased_kernels_are_clean:
  assumes "dev_setting sp checks c p lid bufs" and "kernel_ok sp (length bufs) p K"
    and "outline_ok (buf_lens bufs) p Q" and "outline_starts sp bufs p Q" and "phased_kernel p Q K"
  shows "\<exists>r trace s. launch_kernel sp checks c ch K lid bufs = Inr ((r, trace), s)
    \<and> is_clean r \<and> \<not> report_aborted r \<and> buf_lens (dv_bufs (kr_dev s)) = buf_lens bufs
    \<and> (\<forall>b < lp_blocks p. \<forall>(k, i) \<in> ou_block (lp_tpb p) Q b. \<forall>v. ou_value Q b (ou_phases Q + 1) (k, i) = Some v
         \<longrightarrow> to_vec (dv_bufs (kr_dev s) ! k) ! i = v)"
  by (rule phased_result [OF assms])

text \<open>
  Two blocks of two threads, one block to a wave. Each thread writes its own number in the block to its
  element; after a barrier the first takes over what the second has written.
\<close>

definition pair_config :: launch_config where
  "pair_config = (launch_config_new (dim3_from_u32 2) (dim3_from_u32 2))\<lparr>lc_resident := Some 1\<rparr>"

definition pair_plan :: launch_plan where
  "pair_plan = \<lparr>lp_blocks = 2, lp_tpb = 2, lp_total = 4, lp_warp_size = 32, lp_warps_per_block = 1,
     lp_resident = 1, lp_waves = 2\<rparr>"

lemma pair_setup: "launch_setup True pair_config = Inr pair_plan"
  by (simp add: launch_setup_def pair_config_def pair_plan_def launch_config_new_def dim3_from_u32_def
      dim3_new_def dim3_count_def mul_u32_def is_power_of_two_def checked_mul_u32_def clamp_u32_def
      max_threads_def default_warp_size_def Let_def div_ceil_def expect_u32_def)

definition take_over :: "thread_ctx \<Rightarrow> nat program" where
  "take_over ctx =
     (let t = global_linear ctx
      in do_write 0 t (t mod 2) (Location ''k.rs'' 3 9) (do_sync (Location ''k.rs'' 4 9)
           (if t mod 2 = 0
            then do_read 0 (t + 1) (Location ''k.rs'' 6 17) (\<lambda>v. do_write 0 t v (Location ''k.rs'' 6 13) Return)
            else Return)))"

definition pair_outline :: "nat outline" where
  "pair_outline = \<lparr>ou_reads = \<lambda>e t. if e = 1 \<and> t mod 2 = 0 then {(0, t + 1)} else {},
     ou_writes = \<lambda>e t. if e = 0 \<or> e = 1 \<and> t mod 2 = 0 then {(0, t)} else {},
     ou_value = \<lambda>b e x. Some (if e = 0 then 5 else if e = 1 then snd x mod 2 else 1), ou_phases = 1\<rparr>"

lemma pair_elems: "x \<in> ou_block 2 pair_outline b \<longleftrightarrow> x = (0, 2 * b) \<or> x = (0, 2 * b + 1)"
proof
  assume "x \<in> ou_block 2 pair_outline b"
  then obtain t where t: "t div 2 = b" "x = (0, t) \<or> t mod 2 = 0 \<and> x = (0, t + 1)"
    by (auto simp: ou_block_def pair_outline_def split: if_splits)
  have "t = 2 * b \<or> t = 2 * b + 1 \<and> t mod 2 \<noteq> 0" using t(1) by presburger
  then show "x = (0, 2 * b) \<or> x = (0, 2 * b + 1)" using t(2) by auto
next
  have "(0, t) \<in> ou_block 2 pair_outline b" if "t div 2 = b" for t
  proof -
    have "(0, t) \<in> ou_reads pair_outline 0 t \<union> ou_writes pair_outline 0 t" by (simp add: pair_outline_def)
    then show ?thesis using that unfolding ou_block_def by blast
  qed
  then show "x \<in> ou_block 2 pair_outline b" if "x = (0, 2 * b) \<or> x = (0, 2 * b + 1)" using that by auto
qed

lemma pair_kept:
  assumes x: "x \<in> ou_block 2 pair_outline b" and e: "e \<le> 1"
    and nobody: "\<forall>t. t div 2 = b \<longrightarrow> x \<notin> ou_writes pair_outline e t"
  shows "ou_value pair_outline b (e + 1) x = ou_value pair_outline b e x"
proof (cases "x = (0, 2 * b)")
  case True
  then show ?thesis using e nobody [rule_format, of "2 * b"] by (auto simp: pair_outline_def split: if_splits)
next
  case False
  then have "x = (0, 2 * b + 1)" using x by (simp add: pair_elems)
  then show ?thesis using e nobody [rule_format, of "2 * b + 1"] by (cases "e = 0") (auto simp: pair_outline_def)
qed

lemma pair_phased: "phased_kernel pair_plan pair_outline take_over"
proof -
  have "phased (take_over (thread_ctx_of 2 first slot)) pair_outline (first + slot div 2) (first * 2 + slot) 0 {} False"
    if "(first, n) \<in> set (wave_list pair_plan)" "slot < n * 2" for first n slot
  proof -
    have pl: "plan_ok pair_plan" by (rule launch_setup_ok [OF pair_setup])
    have gid: "global_linear (thread_ctx_of 2 first slot) = first * 2 + slot"
      using thread_ctx_values(3) [OF pl wave_list_bounds [OF that(1)], of slot] that(2)
      by (simp add: global_linear_def pair_plan_def)
    show ?thesis
      by (auto simp: take_over_def gid Let_def pair_outline_def ou_now_def settled_def)
  qed
  then show ?thesis by (auto simp: phased_kernel_def pair_plan_def)
qed

theorem phased_kernels_are_clean_witness:
  "\<exists>r trace s. launch_kernel [Global ''x''] True pair_config (Random 7) take_over 1 [global_new [5, 5, 5, 5]] = Inr ((r, trace), s)
    \<and> is_clean r \<and> \<not> report_aborted r \<and> to_vec (dv_bufs (kr_dev s) ! 0) ! 0 = 1 \<and> to_vec (dv_bufs (kr_dev s) ! 0) ! 3 = 1"
proof -
  let ?bufs = "[global_new [5, 5, 5, 5 :: nat]]"
  have set: "dev_setting [Global ''x''] True pair_config pair_plan 1 ?bufs"
    using pair_setup by (auto simp: dev_setting_def) (simp add: global_new_def)
  have ok: "kernel_ok [Global ''x''] (length ?bufs) pair_plan take_over"
    by (auto simp: kernel_ok_def take_over_def Let_def)
  have lens: "buf_lens ?bufs = [4]" by (simp add: buf_lens_def buf_len_def global_new_def)
  have tpb: "lp_tpb pair_plan = 2" "lp_blocks pair_plan = 2" by (simp_all add: pair_plan_def)
  have sep: "separate 2 pair_outline" unfolding separate_def pair_outline_def by (auto split: if_splits)
  have out: "outline_ok (buf_lens ?bufs) pair_plan pair_outline"
  proof -
    have "\<forall>b < 2. \<forall>(k, i) \<in> ou_block 2 pair_outline b. k < length [4 :: nat] \<and> i < [4] ! k"
      by (auto simp: pair_elems less_2_cases_iff)
    moreover have "ou_phases pair_outline = 1" by (simp add: pair_outline_def)
    ultimately show ?thesis unfolding outline_ok_def tpb lens using sep pair_kept by simp
  qed
  have starts: "outline_starts [Global ''x''] ?bufs pair_plan pair_outline"
    unfolding outline_starts_def tpb
  proof (intro allI impI ballI)
    fix b x assume "b < 2" "x \<in> ou_block 2 pair_outline b"
    then have "x = (0, 0) \<or> x = (0, 1) \<or> x = (0, 2) \<or> x = (0, 3)" by (auto simp: pair_elems less_2_cases_iff)
    then show "start_value [Global ''x''] ?bufs x = ou_value pair_outline b 0 x"
      by (elim disjE) (simp_all add: start_value_def global_new_def cell_initialised_def pair_outline_def)
  qed
  from phased_kernels_are_clean [OF set ok out starts pair_phased, of "Random 7"] obtain r trace s
    where l: "launch_kernel [Global ''x''] True pair_config (Random 7) take_over 1 ?bufs = Inr ((r, trace), s)"
      "is_clean r" "\<not> report_aborted r"
    and vals: "\<forall>b < 2. \<forall>(k, i) \<in> ou_block 2 pair_outline b. \<forall>v.
      ou_value pair_outline b (ou_phases pair_outline + 1) (k, i) = Some v \<longrightarrow> to_vec (dv_bufs (kr_dev s) ! k) ! i = v"
    unfolding tpb by blast
  have "to_vec (dv_bufs (kr_dev s) ! k) ! i = 1" if "b < 2" "(k, i) \<in> ou_block 2 pair_outline b" for b k i
    using vals [rule_format, OF that(1), of "(k, i)"] that(2) by (simp add: pair_outline_def)
  from this [of 0 0 0] this [of 1 0 3] show ?thesis using l by (simp add: pair_elems)
qed

end
