(* ===== verification/Kernel_Reduction.thy ===== *)
theory Kernel_Reduction
  imports Kernel_Phased_Run Examples
begin

text \<open>
  \<^verbatim>\<open>examples/reduction.rs\<close>: the tree reduction with its barriers in place. Its outline has a phase for the
  load, one for each round of the tree and one for the result; under every schedule the launch is clean and
  the result of a block is the sum of its inputs.
\<close>

section \<open>The tree\<close>

text \<open>The shared array after \<open>e\<close> rounds; \<open>f\<close> is what the threads have loaded. Round \<open>e\<close> has stride \<open>64 div 2 ^ e\<close>.\<close>

primrec tree :: "(nat \<Rightarrow> 'a :: plus) \<Rightarrow> nat \<Rightarrow> nat \<Rightarrow> 'a" where
  "tree f 0 i = f i"
| "tree f (Suc e) i = (if i < 64 div 2 ^ Suc e then tree f e i + tree f e (i + 64 div 2 ^ Suc e) else tree f e i)"

lemma sum_halves:
  fixes g :: "nat \<Rightarrow> 'a :: comm_monoid_add"
  shows "(\<Sum>i < m. g i + g (i + m)) = (\<Sum>i < 2 * m. g i)"
proof -
  have "(\<Sum>i < 2 * m. g i) = (\<Sum>i < m. g i) + (\<Sum>i = m..<2 * m. g i)"
    using sum.atLeastLessThan_concat [of 0 m "2 * m" g] by (simp add: atLeast0LessThan)
  also have "(\<Sum>i = m..<2 * m. g i) = (\<Sum>i < m. g (i + m))"
    using sum.shift_bounds_nat_ivl [of g 0 m m] by (simp add: atLeast0LessThan mult_2)
  finally show ?thesis by (simp add: sum.distrib)
qed

lemma strides:
  assumes "e < 6"
  shows "64 div 2 ^ e = 2 * (64 div 2 ^ Suc e :: nat)" and "0 < (64 div 2 ^ Suc e :: nat)"
proof -
  have "e = 0 \<or> e = 1 \<or> e = 2 \<or> e = 3 \<or> e = 4 \<or> e = 5" using assms by linarith
  then show "64 div 2 ^ e = 2 * (64 div 2 ^ Suc e :: nat)" "0 < (64 div 2 ^ Suc e :: nat)" by (elim disjE; simp)+
qed

text \<open>What is left to add up is always the sum of the inputs.\<close>

lemma tree_sum:
  fixes f :: "nat \<Rightarrow> 'a :: comm_monoid_add"
  assumes "e \<le> 6"
  shows "(\<Sum>i < 64 div 2 ^ e. tree f e i) = (\<Sum>i < 64. f i)"
  using assms
proof (induction e)
  case (Suc e)
  let ?m = "64 div 2 ^ Suc e :: nat"
  have "(\<Sum>i < ?m. tree f (Suc e) i) = (\<Sum>i < ?m. tree f e i + tree f e (i + ?m))" by (rule sum.cong) simp_all
  also have "\<dots> = (\<Sum>i < 2 * ?m. tree f e i)" by (rule sum_halves)
  also have "\<dots> = (\<Sum>i < 64. f i)" using Suc strides(1) [of e] by simp
  finally show ?case .
qed simp

corollary tree_root: "tree f 6 0 = (\<Sum>i < 64. f i)"
  for f :: "nat \<Rightarrow> 'a :: comm_monoid_add"
  using tree_sum [of 6 f] by simp

text \<open>Without overflow the sums of words are the sums of their numbers.\<close>

lemma tree_unat:
  fixes f :: "nat \<Rightarrow> u32"
  assumes "(\<Sum>i < 64. unat (f i)) < 2 ^ 32" and "e \<le> 6" and "i < 64 div 2 ^ e"
  shows "unat (tree f e i) = tree (\<lambda>i. unat (f i)) e i"
  using assms(2,3)
proof (induction e arbitrary: i)
  case (Suc e)
  let ?m = "64 div 2 ^ Suc e :: nat" and ?g = "\<lambda>i. unat (f i)"
  have e: "e < 6" using Suc.prems(1) by simp
  have lt: "i < 64 div 2 ^ e" "i + ?m < 64 div 2 ^ e" using Suc.prems(2) strides(1) [OF e] by linarith+
  have IH: "unat (tree f e i) = tree ?g e i" "unat (tree f e (i + ?m)) = tree ?g e (i + ?m)"
    using Suc.IH lt e by simp_all
  have "tree ?g (Suc e) i \<le> (\<Sum>i < ?m. tree ?g (Suc e) i)" by (rule member_le_sum) (use Suc.prems(2) in auto)
  also have "\<dots> < 2 ^ 32" using tree_sum [OF Suc.prems(1), of ?g] assms(1) by simp
  finally have "tree ?g e i + tree ?g e (i + ?m) < 2 ^ 32" using Suc.prems(2) by simp
  then show ?case using IH Suc.prems(2) by (simp add: unat_plus_if' )
qed simp

lemma round_sum:
  fixes f :: "nat \<Rightarrow> u32"
  assumes "checks \<longrightarrow> (\<Sum>i < 64. unat (f i)) < 2 ^ 32" and e: "e < 6" and i: "i < 64 div 2 ^ Suc e"
  shows "add_u32 checks (tree f e i) (tree f e (i + 64 div 2 ^ Suc e)) = Inr (tree f (Suc e) i)"
proof (cases checks)
  case True
  let ?m = "64 div 2 ^ Suc e :: nat" and ?g = "\<lambda>i. unat (f i)"
  have small: "(\<Sum>i < 64. ?g i) < 2 ^ 32" using assms(1) True by simp
  have lt: "i < 64 div 2 ^ e" "i + ?m < 64 div 2 ^ e" using i strides(1) [OF e] by linarith+
  have "tree ?g (Suc e) i \<le> (\<Sum>i < ?m. tree ?g (Suc e) i)" by (rule member_le_sum) (use i in auto)
  also have "\<dots> < 2 ^ 32" using tree_sum [of "Suc e" ?g] small e by simp
  finally have "unat (tree f e i) + unat (tree f e (i + ?m)) < 2 ^ 32"
    using i tree_unat [OF small _ lt(1)] tree_unat [OF small _ lt(2)] e by simp
  then show ?thesis using i by (simp add: add_u32_no_overflow)
next
  case False
  then show ?thesis using i by (simp add: add_u32_def)
qed

section \<open>The outline\<close>

definition reduce_reads :: "nat \<Rightarrow> nat \<Rightarrow> (nat \<times> nat) set" where
  "reduce_reads e t =
     (if e = 0 then {(0, t)}
      else if t mod 64 < 64 div 2 ^ e then {(2 + t div 64, t mod 64), (2 + t div 64, t mod 64 + 64 div 2 ^ e)}
      else if e = 7 \<and> t mod 64 = 0 then {(2 + t div 64, 0)} else {})"

definition reduce_writes :: "nat \<Rightarrow> nat \<Rightarrow> (nat \<times> nat) set" where
  "reduce_writes e t =
     (if t mod 64 < 64 div 2 ^ e then {(2 + t div 64, t mod 64)}
      else if e = 7 \<and> t mod 64 = 0 then {(1, t div 64)} else {})"

definition loaded :: "'a list \<Rightarrow> nat \<Rightarrow> nat \<Rightarrow> 'a" where
  "loaded inp b i = inp ! (64 * b + i)"

definition reduce_value :: "u32 list \<Rightarrow> u32 list \<Rightarrow> nat \<Rightarrow> nat \<Rightarrow> nat \<times> nat \<Rightarrow> u32 option" where
  "reduce_value inp part b e x =
     (if fst x = 0 then Some (inp ! snd x)
      else if fst x = 1 then Some (if e \<le> 7 then part ! snd x else tree (loaded inp b) 6 0)
      else if e = 0 then None else Some (tree (loaded inp b) (e - 1) (snd x)))"

definition reduce_outline :: "u32 list \<Rightarrow> u32 list \<Rightarrow> u32 outline" where
  "reduce_outline inp part = \<lparr>ou_reads = reduce_reads, ou_writes = reduce_writes, ou_value = reduce_value inp part, ou_phases = 7\<rparr>"

lemma reduce_outline_simps [simp]:
  "ou_reads (reduce_outline inp part) = reduce_reads" "ou_writes (reduce_outline inp part) = reduce_writes"
  "ou_value (reduce_outline inp part) = reduce_value inp part" "ou_phases (reduce_outline inp part) = 7"
  by (simp_all add: reduce_outline_def)

lemma reduce_writes_elem:
  "x \<in> reduce_writes e t \<longleftrightarrow> x = (2 + t div 64, t mod 64) \<and> t mod 64 < 64 div 2 ^ e
     \<or> x = (1, t div 64) \<and> e = 7 \<and> t mod 64 = 0"
  by (auto simp: reduce_writes_def split: if_splits)

lemma reduce_reads_elem:
  "x \<in> reduce_reads e t \<longleftrightarrow> x = (0, t) \<and> e = 0
     \<or> x = (2 + t div 64, t mod 64) \<and> e \<noteq> 0 \<and> t mod 64 < 64 div 2 ^ e
     \<or> x = (2 + t div 64, t mod 64 + 64 div 2 ^ e) \<and> e \<noteq> 0 \<and> t mod 64 < 64 div 2 ^ e
     \<or> x = (2 + t div 64, 0) \<and> e = 7 \<and> t mod 64 = 0"
  by (auto simp: reduce_reads_def split: if_splits)

lemma same_thread: "t div 64 = t' div 64 \<Longrightarrow> t mod 64 = t' mod 64 \<Longrightarrow> t = (t' :: nat)"
  by (metis div_mult_mod_eq)

lemma reduce_separate: "separate 64 (reduce_outline inp part)"
proof -
  have False
    if "t \<noteq> t'" "t div 64 \<noteq> t' div 64 \<or> e = e'" "x \<in> reduce_writes e t" "x \<in> reduce_reads e' t' \<union> reduce_writes e' t'"
    for e t e' t' x
    using that same_thread [of t t'] by (auto simp: reduce_writes_elem reduce_reads_elem)
  then show ?thesis unfolding separate_def reduce_outline_simps by blast
qed

text \<open>The elements of a block.\<close>

lemma half_stride: "e \<noteq> 0 \<Longrightarrow> 64 div 2 ^ e \<le> (32 :: nat)"
proof -
  assume "e \<noteq> 0"
  then obtain e' where "e = Suc e'" by (cases e) auto
  then have "64 div 2 ^ e = 32 div (2 ^ e' :: nat)" by (simp add: div_mult2_eq [of 64 2])
  then show ?thesis by simp
qed

lemma reduce_block:
  "x \<in> ou_block 64 (reduce_outline inp part) b \<longleftrightarrow>
     (\<exists>i < 64. x = (0, 64 * b + i)) \<or> x = (1, b) \<or> (\<exists>i < 64. x = (2 + b, i))"
proof
  assume "x \<in> ou_block 64 (reduce_outline inp part) b"
  then obtain e t where t: "t div 64 = b" and x: "x \<in> reduce_reads e t \<union> reduce_writes e t" by (auto simp: ou_block_def)
  have tb: "t = 64 * b + t mod 64" "t mod 64 < 64" using t by auto
  have "t mod 64 + 64 div 2 ^ e < 64" if "e \<noteq> 0" "t mod 64 < 64 div 2 ^ e" using half_stride [OF that(1)] that(2) by linarith
  then show "(\<exists>i < 64. x = (0, 64 * b + i)) \<or> x = (1, b) \<or> (\<exists>i < 64. x = (2 + b, i))"
    using x tb t unfolding Un_iff reduce_reads_elem reduce_writes_elem by (metis zero_less_numeral)
next
  assume x: "(\<exists>i < 64. x = (0, 64 * b + i)) \<or> x = (1, b) \<or> (\<exists>i < 64. x = (2 + b, i))"
  have in_: "x \<in> ou_block 64 (reduce_outline inp part) b" if "t div 64 = b" "x \<in> reduce_reads e t \<union> reduce_writes e t" for e t
    using that by (auto simp: ou_block_def)
  show "x \<in> ou_block 64 (reduce_outline inp part) b"
    using x
  proof (elim disjE exE conjE)
    show ?thesis if "i < 64" "x = (0, 64 * b + i)" for i
      by (rule in_ [of "64 * b + i" 0]) (use that in \<open>simp_all add: reduce_reads_elem\<close>)
    show ?thesis if "x = (1, b)"
      by (rule in_ [of "64 * b" 7]) (use that in \<open>simp_all add: reduce_writes_elem\<close>)
    show ?thesis if "i < 64" "x = (2 + b, i)" for i
      by (rule in_ [of "64 * b + i" 0]) (use that in \<open>simp_all add: reduce_writes_elem\<close>)
  qed
qed

section \<open>The kernel keeps to it\<close>

definition reduce_bufs :: "u32 list \<Rightarrow> u32 list \<Rightarrow> u32 instrumented list" where
  "reduce_bufs inp part = [global_new inp, global_new part] @ replicate (length part) (shared_new 0 64)"

lemma reduce_lens: "buf_lens (reduce_bufs inp part) = [length inp, length part] @ replicate (length part) 64"
  by (simp add: reduce_bufs_def buf_lens_def buf_len_def global_new_def shared_new_def)

lemma reduce_setting:
  assumes "launch_setup checks c = Inr p" and "length part = lp_blocks p"
  shows "dev_setting (reduce_spaces (lp_blocks p)) checks c p (Suc k) (reduce_bufs inp part)"
  using assms by (auto simp: dev_setting_def reduce_spaces_def reduce_bufs_def buf_ok_def global_new_def shared_new_def)

text \<open>The value of a phase stays in an element nobody of the block writes.\<close>

lemma reduce_kept:
  assumes x: "x \<in> ou_block 64 (reduce_outline inp part) b" and e: "e \<le> 7"
    and nobody: "\<forall>t. t div 64 = b \<longrightarrow> x \<notin> reduce_writes e t"
  shows "reduce_value inp part b (e + 1) x = reduce_value inp part b e x"
  using x unfolding reduce_block
proof (elim disjE exE conjE)
  assume x1: "x = (1, b)"
  have "e \<noteq> 7" using nobody [rule_format, of "64 * b"] by (auto simp: reduce_writes_elem x1)
  then show ?thesis using e by (simp add: reduce_value_def x1)
next
  fix i :: nat assume i: "i < 64" and x2: "x = (2 + b, i)"
  have "\<not> i < 64 div 2 ^ e" using nobody [rule_format, of "64 * b + i"] i by (auto simp: reduce_writes_elem x2)
  moreover from this i obtain e' where "e = Suc e'" by (cases e) auto
  ultimately show ?thesis by (simp add: reduce_value_def x2)
qed (simp add: reduce_value_def)

lemma reduce_outline_ok:
  assumes "lp_tpb p = 64" and "length inp = 64 * lp_blocks p" and "length part = lp_blocks p"
  shows "outline_ok (buf_lens (reduce_bufs inp part)) p (reduce_outline inp part)"
proof -
  have "fst x < length (buf_lens (reduce_bufs inp part)) \<and> snd x < buf_lens (reduce_bufs inp part) ! fst x"
    if "b < lp_blocks p" "x \<in> ou_block 64 (reduce_outline inp part) b" for b x
    using that(2) that(1) assms(2,3) unfolding reduce_block by (auto simp: reduce_lens nth_append)
  then have "\<forall>b < lp_blocks p. \<forall>(k, i) \<in> ou_block 64 (reduce_outline inp part) b.
      k < length (buf_lens (reduce_bufs inp part)) \<and> i < buf_lens (reduce_bufs inp part) ! k" by fastforce
  then show ?thesis
    unfolding outline_ok_def assms(1) using reduce_separate reduce_kept by auto
qed

lemma reduce_starts:
  assumes "lp_tpb p = 64" and "length inp = 64 * lp_blocks p" and "length part = lp_blocks p"
  shows "outline_starts (reduce_spaces (lp_blocks p)) (reduce_bufs inp part) p (reduce_outline inp part)"
  unfolding outline_starts_def assms(1)
proof (intro allI impI ballI)
  fix b x assume b: "b < lp_blocks p" and x: "x \<in> ou_block 64 (reduce_outline inp part) b"
  have "start_value (reduce_spaces (lp_blocks p)) (reduce_bufs inp part) x = reduce_value inp part b 0 x"
    using x b assms(2,3) unfolding reduce_block
    by (elim disjE exE conjE) (simp_all add: start_value_def reduce_spaces_def reduce_bufs_def reduce_value_def nth_append
        global_new_def cell_initialised_def)
  then show "start_value (reduce_spaces (lp_blocks p)) (reduce_bufs inp part) x = ou_value (reduce_outline inp part) b 0 x"
    by simp
qed

text \<open>The rounds: from phase \<open>e\<close> on, with stride \<open>64 div 2 ^ e\<close>.\<close>

lemma settled_reduce:
  "settled (reduce_outline inp part) b t e W \<longleftrightarrow>
     (\<forall>x \<in> reduce_writes e t - W. reduce_value inp part b (e + 1) x = reduce_value inp part b e x)"
  by (simp add: settled_def)

lemma reduce_rounds:
  assumes small: "checks \<longrightarrow> (\<Sum>i < 64. unat (loaded inp b i)) < 2 ^ 32" and t: "t div 64 = b"
    and g: "phased g (reduce_outline inp part) b t 7 {} False"
  shows "e \<noteq> 0 \<Longrightarrow> e \<le> 7 \<Longrightarrow> phased (reduce_loop checks False (2 + b) (t mod 64) (64 div 2 ^ e) g) (reduce_outline inp part) b t e {} False"
proof (induction "7 - e" arbitrary: e)
  case 0
  then have "e = 7" by simp
  then show ?case using g by (subst reduce_loop.simps) simp
next
  case (Suc n)
  obtain e' where e': "e = Suc e'" using Suc.prems(1) by (cases e) auto
  have lt: "e' < 6" using Suc.hyps(2) e' by simp
  let ?s = "64 div 2 ^ e :: nat" and ?i = "t mod 64" and ?Q = "reduce_outline inp part" and ?f = "loaded inp b"
  have s: "?s \<noteq> 0" using strides(2) [OF lt] by (simp add: e')
  have half: "?s div 2 = 64 div 2 ^ Suc e" by (simp add: div_mult2_eq [symmetric] mult.commute)
  have rest: "phased (reduce_loop checks False (2 + b) ?i (?s div 2) g) ?Q b t (e + 1) {} False"
    using Suc.hyps(1) [of "e + 1"] Suc.hyps(2) unfolding half by simp
  show ?case
  proof (cases "?i < ?s")
    case True
    have sum: "add_u32 checks (tree ?f e' ?i) (tree ?f e' (?i + ?s)) = Inr (tree ?f e ?i)"
      using round_sum [OF small lt, of ?i] True by (simp add: e')
    have now: "ou_now ?Q b e {} (2 + b, j) = Some (tree ?f e' j)" for j
      using lt by (simp add: ou_now_def reduce_value_def e')
    have "settled ?Q b t e {(2 + b, ?i)}" using lt t by (auto simp: settled_reduce reduce_writes_elem e')
    then show ?thesis
      using s True rest sum now lt t by (subst reduce_loop.simps)
        (simp add: Let_def reduce_reads_elem reduce_writes_elem reduce_value_def e' del: tree.simps)
  next
    case False
    then have "settled ?Q b t e {}" using lt by (auto simp: settled_reduce reduce_writes_elem e')
    then show ?thesis using s rest lt False by (subst reduce_loop.simps) (simp add: Let_def e')
  qed
qed

lemma reduce_phased:
  assumes su: "launch_setup checks c = Inr p" and tpb: "lp_tpb p = 64"
    and small: "checks' \<longrightarrow> (\<forall>b < lp_blocks p. (\<Sum>i < 64. unat (loaded inp b i)) < 2 ^ 32)"
  shows "phased_kernel p (reduce_outline inp part) (reduce checks' False)"
proof -
  let ?Q = "reduce_outline inp part"
  have "phased (reduce checks' False (thread_ctx_of 64 first slot)) ?Q (first + slot div 64) (first * 64 + slot) 0 {} False"
    if w: "(first, n) \<in> set (wave_list p)" and slot: "slot < n * 64" for first n slot
  proof -
    let ?t = "first * 64 + slot" and ?b = "first + slot div 64" and ?ctx = "thread_ctx_of 64 first slot"
    have f: "first + n \<le> lp_blocks p" by (rule wave_list_bounds [OF w])
    note v = thread_ctx_values [OF launch_setup_ok [OF su] f slot [folded tpb], unfolded tpb]
    have at: "thread_linear ?ctx = ?t mod 64" "block_linear ?ctx = ?b" "global_linear ?ctx = ?t"
      using v by (simp_all add: thread_linear_def block_linear_def global_linear_def)
    have tb: "?t div 64 = ?b" using slot_gid [of 64 first slot] by simp
    have "64 * ?b + ?t mod 64 = ?t" using mult_div_mod_eq [of 64 ?t] unfolding tb .
    then have tt: "loaded inp ?b (?t mod 64) = inp ! ?t" by (simp only: loaded_def)
    have b: "?b < lp_blocks p" using f less_mult_imp_div_less [OF slot] by simp
    let ?tail = "if ?t mod 64 = 0 then do_read (2 + ?b) 0 (at_reduction 31 49) (\<lambda>v.
        do_write 1 ?b v (at_reduction 31 17) Return) else Return"
    have tail: "phased ?tail ?Q ?b ?t 7 {} False"
      using tb by (auto simp: reduce_reads_elem reduce_writes_elem ou_now_def reduce_value_def settled_reduce)
    have "phased (reduce_loop checks' False (2 + ?b) (?t mod 64) (64 div 2 ^ 1) ?tail) ?Q ?b ?t 1 {} False"
      by (rule reduce_rounds [OF _ tb tail]) (use small b in auto)
    moreover have "settled ?Q ?b ?t 0 {(2 + ?b, ?t mod 64)}" using tb by (auto simp: settled_reduce reduce_writes_elem)
    ultimately show ?thesis
      using tb tt by (cases "slot mod 64 = 0")
        (simp_all add: reduce_def at Let_def reduce_reads_elem reduce_writes_elem ou_now_def reduce_value_def)
  qed
  then show ?thesis by (auto simp: phased_kernel_def tpb)
qed

section \<open>Every launch of it\<close>

lemma reduction_result:
  assumes su: "launch_setup checks0 c = Inr p" and tpb: "lp_tpb p = 64"
    and len: "length inp = 64 * lp_blocks p" "length part = lp_blocks p"
    and small: "checks \<longrightarrow> (\<forall>b < lp_blocks p. (\<Sum>i < 64. unat (loaded inp b i)) < 2 ^ 32)"
  shows "\<exists>r trace s. launch_kernel (reduce_spaces (lp_blocks p)) checks0 c ch (reduce checks False) (Suc k) (reduce_bufs inp part)
      = Inr ((r, trace), s) \<and> is_clean r \<and> \<not> report_aborted r
    \<and> to_vec (dv_bufs (kr_dev s) ! 0) = inp
    \<and> to_vec (dv_bufs (kr_dev s) ! 1) = map (\<lambda>b. \<Sum>i < 64. loaded inp b i) [0..<lp_blocks p]"
proof -
  let ?Q = "reduce_outline inp part"
  have p: "plan_ok p" by (rule launch_setup_ok [OF su])
  have set: "dev_setting (reduce_spaces (lp_blocks p)) checks0 c p (Suc k) (reduce_bufs inp part)"
    by (rule reduce_setting [OF su len(2)])
  have "kernel_ok (reduce_spaces (lp_blocks p)) (length (reduce_bufs inp part)) p (reduce checks False)"
    using example_kernels_ok(1) [OF p, of checks False] by (simp add: reduce_bufs_def len)
  from phased_result [OF set this reduce_outline_ok [OF tpb len] reduce_starts [OF tpb len] reduce_phased [OF su tpb small], of ch]
  obtain r trace s where l: "launch_kernel (reduce_spaces (lp_blocks p)) checks0 c ch (reduce checks False) (Suc k) (reduce_bufs inp part)
      = Inr ((r, trace), s)" "is_clean r" "\<not> report_aborted r"
    and lens: "buf_lens (dv_bufs (kr_dev s)) = buf_lens (reduce_bufs inp part)"
    and vals: "\<forall>b < lp_blocks p. \<forall>(k, i) \<in> ou_block 64 ?Q b. \<forall>v. reduce_value inp part b 8 (k, i) = Some v
         \<longrightarrow> to_vec (dv_bufs (kr_dev s) ! k) ! i = v"
    unfolding tpb by auto
  have val: "to_vec (dv_bufs (kr_dev s) ! k) ! i = v"
    if "b < lp_blocks p" "(k, i) \<in> ou_block 64 ?Q b" "reduce_value inp part b 8 (k, i) = Some v" for b k i v
    using vals that by blast
  have n: "length (dv_bufs (kr_dev s)) = 2 + lp_blocks p"
    using map_eq_imp_length_eq [OF lens [unfolded buf_lens_def]] len by (simp add: reduce_bufs_def)
  have ln: "length (to_vec (dv_bufs (kr_dev s) ! k)) = buf_lens (reduce_bufs inp part) ! k" if "k < 2" for k
  proof -
    have "buf_len (dv_bufs (kr_dev s) ! k) = buf_lens (dv_bufs (kr_dev s)) ! k" using n that by (simp add: buf_lens_def)
    then show ?thesis by (simp add: lens buf_len_def to_vec_def)
  qed
  have "to_vec (dv_bufs (kr_dev s) ! 0) = inp"
  proof (rule nth_equalityI)
    show len0: "length (to_vec (dv_bufs (kr_dev s) ! 0)) = length inp" using ln [of 0] by (simp add: reduce_lens)
    fix j assume "j < length (to_vec (dv_bufs (kr_dev s) ! 0))"
    then have j: "j < 64 * lp_blocks p" using len0 len by simp
    have "(0, j) \<in> ou_block 64 ?Q (j div 64)"
      unfolding reduce_block by (intro disjI1 exI [of _ "j mod 64"]) simp
    then show "to_vec (dv_bufs (kr_dev s) ! 0) ! j = inp ! j"
      by (rule val [rotated]) (use j in \<open>simp_all add: reduce_value_def less_mult_imp_div_less mult.commute\<close>)
  qed
  moreover have "to_vec (dv_bufs (kr_dev s) ! 1) = map (\<lambda>b. \<Sum>i < 64. loaded inp b i) [0..<lp_blocks p]"
  proof (rule nth_equalityI)
    show len1: "length (to_vec (dv_bufs (kr_dev s) ! 1)) = length (map (\<lambda>b. \<Sum>i < 64. loaded inp b i) [0..<lp_blocks p])"
      using ln [of 1] len by (simp add: reduce_lens)
    fix b assume "b < length (to_vec (dv_bufs (kr_dev s) ! 1))"
    then have b: "b < lp_blocks p" using len1 by simp
    have "to_vec (dv_bufs (kr_dev s) ! 1) ! b = (\<Sum>i < 64. loaded inp b i)"
      by (rule val [OF b]) (simp_all only: reduce_block, simp_all add: reduce_value_def tree_root)
    then show "to_vec (dv_bufs (kr_dev s) ! 1) ! b = map (\<lambda>b. \<Sum>i < 64. loaded inp b i) [0..<lp_blocks p] ! b" using b by simp
  qed
  ultimately show ?thesis using l by blast
qed

text \<open>
  C14: the barriers of the reduction suffice. Whatever the inputs, the seed, the plan to replay and the number
  of waves: with blocks of 64 threads and an input for each, a launch of \<^verbatim>\<open>reduce\<close> with its barriers is not
  aborted and reports nothing, leaves \<^verbatim>\<open>input\<close> as it was, and \<^verbatim>\<open>partial\<close> holds for each block the sum of its 64
  inputs, as long as no block's sum overflows where overflow is checked.
\<close>

theorem reduction_is_clean:
  assumes "launch_setup checks0 c = Inr p" and "lp_tpb p = 64"
    and "length inp = 64 * lp_blocks p" and "length part = lp_blocks p"
    and "checks \<longrightarrow> (\<forall>b < lp_blocks p. (\<Sum>i < 64. unat (loaded inp b i)) < 2 ^ 32)"
  shows "\<exists>r trace s. launch_kernel (reduce_spaces (lp_blocks p)) checks0 c ch (reduce checks False) (Suc k) (reduce_bufs inp part)
      = Inr ((r, trace), s) \<and> is_clean r \<and> \<not> report_aborted r
    \<and> to_vec (dv_bufs (kr_dev s) ! 0) = inp
    \<and> to_vec (dv_bufs (kr_dev s) ! 1) = map (\<lambda>b. \<Sum>i < 64. loaded inp b i) [0..<lp_blocks p]"
  by (rule reduction_result [OF assms])

section \<open>The example itself\<close>

definition reduction_config :: launch_config where
  "reduction_config = with_seed (launch_config_new (dim3_from_u32 4) (dim3_from_u32 64)) 2026"

text \<open>\<^verbatim>\<open>iter().sum()\<close>.\<close>

fun sum_u32 :: "bool \<Rightarrow> u32 \<Rightarrow> u32 list \<Rightarrow> u32 res" where
  "sum_u32 checks acc [] = Inr acc"
| "sum_u32 checks acc (x # xs) = res_bind (add_u32 checks acc x) (\<lambda>a. sum_u32 checks a xs)"

text \<open>One turn of the loop of \<^verbatim>\<open>main\<close>: the total it prints, its report, and the input for the next turn.\<close>

definition reduction_turn :: "bool \<Rightarrow> bool \<Rightarrow> nat \<Rightarrow> u32 instrumented \<Rightarrow> (u32 \<times> report \<times> u32 instrumented) res" where
  "reduction_turn checks buggy lid input =
     res_bind (launch_kernel (reduce_spaces 4) checks reduction_config (Random (lc_seed reduction_config))
         (reduce checks buggy) lid ([input, global_new (replicate 4 0)] @ replicate 4 (shared_new 0 64)))
       (\<lambda>((r, trace), s). res_bind (sum_u32 checks 0 (to_vec (dv_bufs (kr_dev s) ! 1)))
          (\<lambda>total. Inr (total, r, dv_bufs (kr_dev s) ! 0)))"

definition reduction_inputs :: "u32 list" where
  "reduction_inputs = map of_nat [1..<257]"

text \<open>\<^verbatim>\<open>main\<close>: the expected sum and the two turns.\<close>

definition reduction_main :: "bool \<Rightarrow> nat \<Rightarrow> (u32 \<times> (u32 \<times> report) \<times> u32 \<times> report) res" where
  "reduction_main checks lid =
     res_bind (sum_u32 checks 0 reduction_inputs) (\<lambda>expected.
     res_bind (reduction_turn checks False lid (global_new reduction_inputs)) (\<lambda>(total, r, input).
     res_bind (reduction_turn checks True (Suc lid) input) (\<lambda>(total', r', _).
       Inr (expected, (total, r), (total', r')))))"

definition reduction_plan :: launch_plan where
  "reduction_plan = \<lparr>lp_blocks = 4, lp_tpb = 64, lp_total = 256, lp_warp_size = 32, lp_warps_per_block = 2,
     lp_resident = 4, lp_waves = 1\<rparr>"

lemma reduction_setup: "launch_setup checks reduction_config = Inr reduction_plan"
proof -
  have "checked_mul_u32 4 64 = Some 256" by (simp add: checked_mul_u32_def)
  then show ?thesis
    by (simp add: reduction_config_def with_seed_def launch_config_new_def launch_setup_def reduction_plan_def
        is_power_of_two_def default_warp_size_def clamp_u32_def max_threads_def expect_u32_def div_ceil_def Let_def)
qed

lemma sum_u32_value:
  assumes "unat acc + sum_list (map unat xs) < 2 ^ 32"
  shows "sum_u32 checks acc xs = Inr (acc + sum_list xs)"
  using assms
proof (induction xs arbitrary: acc)
  case (Cons x xs)
  have "unat acc + unat x < 2 ^ 32" using Cons.prems by simp
  then show ?case using Cons.IH [of "acc + x"] Cons.prems
    by (simp add: add_u32_no_overflow unat_plus_if' add.assoc)
qed simp

text \<open>The inputs of a block are numbered from \<open>64 * b + 1\<close>.\<close>

lemma reduction_loaded:
  assumes "b < 4" and "i < 64"
  shows "loaded reduction_inputs b i = of_nat (64 * b + i + 1)"
proof -
  have "64 * b + i < 256" using assms by simp
  then show ?thesis by (simp add: loaded_def reduction_inputs_def)
qed

lemma gauss: "(\<Sum>i < 64. 64 * b + i + 1) = 4096 * b + (2080 :: nat)"
proof -
  have "(\<Sum>i < 64. 64 * b + i + 1) = (\<Sum>i < (64 :: nat). 64 * b) + (\<Sum>i < 64. i + 1)" by (simp only: sum.distrib [symmetric] add.assoc)
  also have "(\<Sum>i < (64 :: nat). i + 1) = 2080" by code_simp
  finally show ?thesis by simp
qed

lemma reduction_small:
  assumes "b < 4"
  shows "(\<Sum>i < 64. unat (loaded reduction_inputs b i)) = 4096 * b + 2080"
    and "(\<Sum>i < 64. loaded reduction_inputs b i) = of_nat (4096 * b + 2080)"
proof -
  have "unat (of_nat (64 * b + i + 1) :: u32) = 64 * b + i + 1" if "i < 64" for i
    using assms that unfolding unat_of_nat by simp
  then show "(\<Sum>i < 64. unat (loaded reduction_inputs b i)) = 4096 * b + 2080"
    unfolding gauss [of b, symmetric] by (intro sum.cong) (simp_all only: reduction_loaded [OF assms] lessThan_iff)
  show "(\<Sum>i < 64. loaded reduction_inputs b i) = of_nat (4096 * b + 2080)"
    unfolding gauss [of b, symmetric] of_nat_sum
    by (intro sum.cong) (simp_all only: reduction_loaded [OF assms] lessThan_iff)
qed

lemma reduction_partials: "map (\<lambda>b. \<Sum>i < 64. loaded reduction_inputs b i) [0..<4] = [2080, 6176, 10272, 14368]"
proof -
  have "map (\<lambda>b. \<Sum>i < 64. loaded reduction_inputs b i) [0..<4] = map (\<lambda>b. of_nat (4096 * b + 2080)) [0..<4]"
    by (rule map_cong) (simp_all only: reduction_small(2) set_upt atLeastLessThan_iff)
  then show ?thesis by (simp add: upt_conv_Cons)
qed

lemma reduction_parts:
  "lp_tpb reduction_plan = 64" "length reduction_inputs = 64 * lp_blocks reduction_plan" "lp_blocks reduction_plan = 4"
  "length (replicate 4 0 :: u32 list) = lp_blocks reduction_plan"
  "checks \<longrightarrow> (\<forall>b < lp_blocks reduction_plan. (\<Sum>i < 64. unat (loaded reduction_inputs b i)) < 2 ^ 32)"
proof -
  show "checks \<longrightarrow> (\<forall>b < lp_blocks reduction_plan. (\<Sum>i < 64. unat (loaded reduction_inputs b i)) < 2 ^ 32)"
    by (simp add: reduction_plan_def reduction_small)
qed (simp_all add: reduction_plan_def reduction_inputs_def)

theorem reduction_is_clean_witness:
  "\<exists>r trace s. launch_kernel (reduce_spaces 4) True reduction_config (Random 2026) (reduce True False) 1
      (reduce_bufs reduction_inputs (replicate 4 0)) = Inr ((r, trace), s)
    \<and> is_clean r \<and> to_vec (dv_bufs (kr_dev s) ! 1) = [2080, 6176, 10272, 14368]"
  using reduction_is_clean [OF reduction_setup [of True] reduction_parts(1,2,4,5), where ch = "Random 2026" and k = 0 and checks = True]
  unfolding reduction_parts(3) reduction_partials by auto

text \<open>The first turn prints what \<^verbatim>\<open>main\<close> expects, and a clean report.\<close>

lemma reduction_turn_value:
  assumes "launch_kernel (reduce_spaces 4) checks reduction_config (Random (lc_seed reduction_config)) (reduce checks buggy) lid
      ([input, global_new (replicate 4 0)] @ replicate 4 (shared_new 0 64)) = Inr ((r, trace), s)"
    and "sum_u32 checks 0 (to_vec (dv_bufs (kr_dev s) ! 1)) = Inr tot"
  shows "reduction_turn checks buggy lid input = Inr (tot, r, dv_bufs (kr_dev s) ! 0)"
  using assms by (simp add: reduction_turn_def)

lemma reduction_first_turn:
  "\<exists>r input. reduction_turn checks False (Suc k) (global_new reduction_inputs) = Inr (32896, r, input)
    \<and> is_clean r \<and> to_vec input = reduction_inputs"
proof -
  from reduction_result [OF reduction_setup [of checks] reduction_parts(1,2,4,5), where ch = "Random (lc_seed reduction_config)" and k = k
      and checks = checks]
  obtain r trace s where l: "launch_kernel (reduce_spaces 4) checks reduction_config (Random (lc_seed reduction_config))
      (reduce checks False) (Suc k) (reduce_bufs reduction_inputs (replicate 4 0)) = Inr ((r, trace), s)" "is_clean r"
    "to_vec (dv_bufs (kr_dev s) ! 0) = reduction_inputs" "to_vec (dv_bufs (kr_dev s) ! 1) = [2080, 6176, 10272, 14368]"
    unfolding reduction_parts(3) reduction_partials by auto
  have "sum_u32 checks 0 (to_vec (dv_bufs (kr_dev s) ! 1)) = Inr 32896"
    unfolding l(4) by (subst sum_u32_value) simp_all
  from reduction_turn_value [OF l(1) [unfolded reduce_bufs_def length_replicate] this] show ?thesis using l(2,3) by blast
qed

lemma word_sum_list: "sum_list xs = (of_nat (sum_list (map unat xs)) :: u32)"
  by (induction xs) simp_all

lemma reduction_expected: "sum_u32 checks 0 reduction_inputs = Inr 32896"
proof -
  have "unat (of_nat i :: u32) = i" if "i < 257" for i using that by (simp add: unat_of_nat)
  then have "map unat reduction_inputs = map (\<lambda>i. i) [1..<257]"
    unfolding reduction_inputs_def map_map by (intro map_cong [OF refl]) (simp only: set_upt atLeastLessThan_iff comp_def)
  moreover have "sum_list [1..<257] = \<Sum> {1..<257 :: nat}" by (rule sum_list_upt) simp
  then have "sum_list [1..<257] = (32896 :: nat)" unfolding Sum_Ico_nat by simp
  ultimately have sum: "sum_list (map unat reduction_inputs) = 32896" by (simp only: map_ident)
  have "sum_list reduction_inputs = (32896 :: u32)" unfolding word_sum_list [of reduction_inputs] sum by simp
  then show ?thesis using sum_u32_value [of 0 reduction_inputs checks] by (simp add: sum)
qed

end
