(* ===== verification/Mir_Ops.thy ===== *)
theory Mir_Ops
  imports Mir_Value "HOL-Library.Signed_Division"
begin

text \<open>
  \<^verbatim>\<open>riri-mir/src/interp.rs\<close>, the operators: \<^verbatim>\<open>unary\<close>, \<^verbatim>\<open>binary\<close> with its overflow flag, \<^verbatim>\<open>checked\<close> and
  \<^verbatim>\<open>cast\<close>. The operators and types of the MIR itself belong to the compiler's \<^verbatim>\<open>rustc_public\<close>; the
  datatypes here have the constructors the code matches on, and one for all the others, which carries
  the \<^verbatim>\<open>Debug\<close> text that the error messages quote.
\<close>

section \<open>Types and operators of MIR\<close>

datatype uint_ty = Usize | U8 | U16 | U32 | U64 | U128
datatype int_ty = Isize | I8 | I16 | I32 | I64 | I128

datatype ty_kind =
    RigidUint uint_ty
  | RigidInt int_ty
  | RigidBool
  | OtherTy

text \<open>A type, with the rendering of its kind by \<^verbatim>\<open>Debug\<close>.\<close>

datatype mir_ty = Ty (ty_kind_of: ty_kind) (ty_text: string)

fun int_kind_of :: "ty_kind \<Rightarrow> int_kind option" where
  "int_kind_of (RigidUint u) = Some (case u of
      Usize \<Rightarrow> \<lparr>ik_bits = 64, ik_signed = False\<rparr>
    | U8 \<Rightarrow> \<lparr>ik_bits = 8, ik_signed = False\<rparr>
    | U16 \<Rightarrow> \<lparr>ik_bits = 16, ik_signed = False\<rparr>
    | U32 \<Rightarrow> \<lparr>ik_bits = 32, ik_signed = False\<rparr>
    | U64 \<Rightarrow> \<lparr>ik_bits = 64, ik_signed = False\<rparr>
    | U128 \<Rightarrow> \<lparr>ik_bits = 128, ik_signed = False\<rparr>)"
| "int_kind_of (RigidInt i) = Some (case i of
      Isize \<Rightarrow> \<lparr>ik_bits = 64, ik_signed = True\<rparr>
    | I8 \<Rightarrow> \<lparr>ik_bits = 8, ik_signed = True\<rparr>
    | I16 \<Rightarrow> \<lparr>ik_bits = 16, ik_signed = True\<rparr>
    | I32 \<Rightarrow> \<lparr>ik_bits = 32, ik_signed = True\<rparr>
    | I64 \<Rightarrow> \<lparr>ik_bits = 64, ik_signed = True\<rparr>
    | I128 \<Rightarrow> \<lparr>ik_bits = 128, ik_signed = True\<rparr>)"
| "int_kind_of _ = None"

datatype bin_op =
    Add | AddUnchecked | Sub | SubUnchecked | Mul | MulUnchecked | Div | Rem
  | BitAnd | BitOr | BitXor | Shl | ShlUnchecked | Shr | ShrUnchecked
  | Eq | Ne | Lt | Gt | Le | Ge
  | OtherBinOp string

fun debug_bin_op :: "bin_op \<Rightarrow> string" where
  "debug_bin_op Add = ''Add''"
| "debug_bin_op AddUnchecked = ''AddUnchecked''"
| "debug_bin_op Sub = ''Sub''"
| "debug_bin_op SubUnchecked = ''SubUnchecked''"
| "debug_bin_op Mul = ''Mul''"
| "debug_bin_op MulUnchecked = ''MulUnchecked''"
| "debug_bin_op Div = ''Div''"
| "debug_bin_op Rem = ''Rem''"
| "debug_bin_op BitAnd = ''BitAnd''"
| "debug_bin_op BitOr = ''BitOr''"
| "debug_bin_op BitXor = ''BitXor''"
| "debug_bin_op Shl = ''Shl''"
| "debug_bin_op ShlUnchecked = ''ShlUnchecked''"
| "debug_bin_op Shr = ''Shr''"
| "debug_bin_op ShrUnchecked = ''ShrUnchecked''"
| "debug_bin_op Eq = ''Eq''"
| "debug_bin_op Ne = ''Ne''"
| "debug_bin_op Lt = ''Lt''"
| "debug_bin_op Gt = ''Gt''"
| "debug_bin_op Le = ''Le''"
| "debug_bin_op Ge = ''Ge''"
| "debug_bin_op (OtherBinOp text) = text"

datatype un_op = NotOp | Neg | PtrMetadata

section \<open>Casts and unary operators\<close>

definition cast_value :: "mval \<Rightarrow> mir_ty \<Rightarrow> mval mir" where
  "cast_value v ty =
     (case int_kind_of (ty_kind_of ty) of
        None \<Rightarrow> Inl (''cast target not supported: '' @ ty_text ty)
      | Some k \<Rightarrow>
          (case v of
             VBool b \<Rightarrow> Inr (value_int (of_bool b) k)
           | VInt raw from \<Rightarrow> Inr (value_int (if ik_signed from then as_signed from raw else raw) k)
           | _ \<Rightarrow> Inl (''cannot cast '' @ debug_value v)))"

definition unary :: "un_op \<Rightarrow> mval \<Rightarrow> mval mir" where
  "unary op v =
     (case op of
        NotOp \<Rightarrow>
          (case v of
             VBool b \<Rightarrow> Inr (VBool (\<not> b))
           | VInt raw k \<Rightarrow> Inr (value_int (NOT raw) k)
           | _ \<Rightarrow> Inl (''cannot negate '' @ debug_value v))
      | Neg \<Rightarrow> res_bind (as_int v) (\<lambda>(raw, k). Inr (value_int (- raw) k))
      | PtrMetadata \<Rightarrow> Inl ''pointer metadata needs a memory model'')"

section \<open>Binary operators\<close>

definition fits_unsigned :: "int_kind \<Rightarrow> u128 \<Rightarrow> u128 \<Rightarrow> u128 \<Rightarrow> (u128 \<Rightarrow> u128 \<Rightarrow> u128) \<Rightarrow> bool" where
  "fits_unsigned k left right raw wrapping =
     (if 128 \<le> ik_bits k then True
      else let wide = wrapping left right in wide = truncate_to k raw \<and> wide \<le> kind_mask k)"

definition checked ::
  "int_kind \<Rightarrow> u128 \<Rightarrow> u128 \<Rightarrow> u128 \<Rightarrow> (u128 \<Rightarrow> u128 \<Rightarrow> u128) \<Rightarrow> mval \<times> bool" where
  "checked k signed_result left right wrapping =
     (let raw = wrapping left right;
          overflowed =
            (if ik_signed k then \<not> fits k signed_result
             else truncate_to k raw \<noteq> raw \<or> \<not> fits_unsigned k left right raw wrapping)
      in (value_int raw k, overflowed))"

datatype ordering = Less | Equal | Greater

definition cmp :: "'a::linorder \<Rightarrow> 'a \<Rightarrow> ordering" where
  "cmp a b = (if a < b then Less else if a = b then Equal else Greater)"

definition compare_ints :: "int_kind \<Rightarrow> u128 \<Rightarrow> u128 \<Rightarrow> u128 \<Rightarrow> u128 \<Rightarrow> ordering \<Rightarrow> bool" where
  "compare_ints k a b left right ord \<longleftrightarrow>
     (if ik_signed k then cmp (sint a) (sint b) = ord else cmp left right = ord)"

definition is_shift :: "bin_op \<Rightarrow> bool" where
  "is_shift op \<longleftrightarrow> op \<in> {Shl, ShlUnchecked, Shr, ShrUnchecked}"

definition binary_bool :: "bin_op \<Rightarrow> bool \<Rightarrow> bool \<Rightarrow> bool mir" where
  "binary_bool op a b = (case op of
      Eq \<Rightarrow> Inr (a = b)
    | Ne \<Rightarrow> Inr (a \<noteq> b)
    | BitAnd \<Rightarrow> Inr (a \<and> b)
    | BitOr \<Rightarrow> Inr (a \<or> b)
    | BitXor \<Rightarrow> Inr (a \<noteq> b)
    | _ \<Rightarrow> Inl (debug_bin_op op @ '' is not defined on bools''))"

text \<open>The shift amount, reduced to the width, and the operators on two integers.\<close>

definition shift_amount :: "int_kind \<Rightarrow> u128 \<Rightarrow> nat" where
  "shift_amount k right = unat (right mod ucast (ik_bits k))"

definition binary_int :: "bin_op \<Rightarrow> int_kind \<Rightarrow> u128 \<Rightarrow> u128 \<Rightarrow> (mval \<times> bool) mir" where
  "binary_int op k left right =
     (let a = as_signed k left; b = as_signed k right in
      case op of
        Add \<Rightarrow> Inr (checked k (a + b) left right (+))
      | AddUnchecked \<Rightarrow> Inr (checked k (a + b) left right (+))
      | Sub \<Rightarrow> Inr (checked k (a - b) left right (-))
      | SubUnchecked \<Rightarrow> Inr (checked k (a - b) left right (-))
      | Mul \<Rightarrow> Inr (checked k (a * b) left right (*))
      | MulUnchecked \<Rightarrow> Inr (checked k (a * b) left right (*))
      | Div \<Rightarrow>
          if right = 0 then Inl ''division by zero''
          else Inr (value_int (if ik_signed k then word_of_int (sint a sdiv sint b) else left div right) k, False)
      | Rem \<Rightarrow>
          if right = 0 then Inl ''remainder by zero''
          else Inr (value_int (if ik_signed k then word_of_int (sint a smod sint b) else left mod right) k, False)
      | BitAnd \<Rightarrow> Inr (value_int (left AND right) k, False)
      | BitOr \<Rightarrow> Inr (value_int (left OR right) k, False)
      | BitXor \<Rightarrow> Inr (value_int (left XOR right) k, False)
      | Shl \<Rightarrow> Inr (value_int (push_bit (shift_amount k right) left) k, ucast (ik_bits k) \<le> right)
      | ShlUnchecked \<Rightarrow> Inr (value_int (push_bit (shift_amount k right) left) k, ucast (ik_bits k) \<le> right)
      | Shr \<Rightarrow> Inr (value_int (if ik_signed k then signed_drop_bit (shift_amount k right) a
                              else drop_bit (shift_amount k right) left) k, ucast (ik_bits k) \<le> right)
      | ShrUnchecked \<Rightarrow> Inr (value_int (if ik_signed k then signed_drop_bit (shift_amount k right) a
                              else drop_bit (shift_amount k right) left) k, ucast (ik_bits k) \<le> right)
      | Eq \<Rightarrow> Inr (VBool (left = right), False)
      | Ne \<Rightarrow> Inr (VBool (left \<noteq> right), False)
      | Lt \<Rightarrow> Inr (VBool (compare_ints k a b left right Less), False)
      | Gt \<Rightarrow> Inr (VBool (compare_ints k a b left right Greater), False)
      | Le \<Rightarrow> Inr (VBool (\<not> compare_ints k a b left right Greater), False)
      | Ge \<Rightarrow> Inr (VBool (\<not> compare_ints k a b left right Less), False)
      | OtherBinOp text \<Rightarrow> Inl (''operator not interpreted yet: '' @ text))"

definition binary :: "bin_op \<Rightarrow> mval \<Rightarrow> mval \<Rightarrow> (mval \<times> bool) mir" where
  "binary op lhs rhs =
     (case (lhs, rhs) of
        (VBool a, VBool b) \<Rightarrow> res_bind (binary_bool op a b) (\<lambda>v. Inr (VBool v, False))
      | _ \<Rightarrow>
          res_bind (as_int lhs) (\<lambda>(left, k).
          res_bind (as_int rhs) (\<lambda>(right, right_kind).
            if \<not> is_shift op \<and> k \<noteq> right_kind
            then Inl (''mismatched operand types: '' @ debug_kind k @ '' and '' @ debug_kind right_kind)
            else binary_int op k left right)))"

end
