(* ===== verification/Mir_Arith.thy ===== *)
theory Mir_Arith
  imports Mir_Ops
begin

text \<open>
  What the integer operations of the interpreter compute. \<open>reading\<close> is the integer a bit pattern of a
  kind stands for, \<open>representable\<close> says that an integer is in the range of the kind, \<open>wrapped\<close> is the
  two's complement wrap into that range; none of the three mentions words. The lemmas of \<open>wrap_facts\<close>
  connect the bit operations of the code with them, and the two properties state every operator over
  the integers.
\<close>

section \<open>Kinds as ranges of integers\<close>

definition width :: "int_kind \<Rightarrow> nat" where
  "width k = unat (ik_bits k)"

text \<open>The kinds \<^verbatim>\<open>int_kind\<close> produces.\<close>

definition kind_ok :: "int_kind \<Rightarrow> bool" where
  "kind_ok k \<longleftrightarrow> ik_bits k = 8 \<or> ik_bits k = 16 \<or> ik_bits k = 32 \<or> ik_bits k = 64 \<or> ik_bits k = 128"

lemma int_kind_of_ok: "int_kind_of ty = Some k \<Longrightarrow> kind_ok k"
  by (cases ty) (auto simp: kind_ok_def split: uint_ty.splits int_ty.splits)

definition reading :: "int_kind \<Rightarrow> u128 \<Rightarrow> int" where
  "reading k raw =
     (let u = uint raw mod 2 ^ width k
      in if ik_signed k \<and> 2 ^ (width k - 1) \<le> u then u - 2 ^ width k else u)"

definition representable :: "int_kind \<Rightarrow> int \<Rightarrow> bool" where
  "representable k x \<longleftrightarrow>
     (if ik_signed k then - (2 ^ (width k - 1)) \<le> x \<and> x < 2 ^ (width k - 1) else 0 \<le> x \<and> x < 2 ^ width k)"

definition wrapped :: "int_kind \<Rightarrow> int \<Rightarrow> int" where
  "wrapped k x =
     (if ik_signed k then (x + 2 ^ (width k - 1)) mod 2 ^ width k - 2 ^ (width k - 1) else x mod 2 ^ width k)"

named_theorems wrap_facts \<open>bit operations of the code as wrapping of integers\<close>

lemma width_cases:
  assumes "kind_ok k"
  obtains "width k = 8" | "width k = 16" | "width k = 32" | "width k = 64" | "width k = 128"
  using assms unfolding kind_ok_def width_def by auto

lemma width_bounds [wrap_facts]:
  assumes "kind_ok k"
  shows "0 < width k" "width k \<le> 128" "Suc (width k - 1) = width k"
  using assms by (auto elim!: width_cases)

lemma wrapped_take_bit:
  assumes "kind_ok k"
  shows "wrapped k x = (if ik_signed k then signed_take_bit (width k - 1) x else take_bit (width k) x)"
  using width_bounds [OF assms]
  by (simp add: wrapped_def signed_take_bit_eq_take_bit_shift take_bit_eq_mod)

lemma representable_iff:
  assumes "kind_ok k"
  shows "representable k x \<longleftrightarrow> wrapped k x = x"
  using assms by (auto simp: representable_def wrapped_take_bit signed_take_bit_int_eq_self_iff
    take_bit_int_eq_self_iff)

lemma wrapped_cong:
  assumes "kind_ok k" and "take_bit (width k) x = take_bit (width k) y"
  shows "wrapped k x = wrapped k y"
proof -
  have "signed_take_bit (width k - 1) z = signed_take_bit (width k - 1) (take_bit (width k) z)" for z :: int
    using width_bounds [OF assms(1)] by (simp add: signed_take_bit_take_bit)
  then show ?thesis using assms by (metis wrapped_take_bit)
qed

lemma take_bit_wrapped:
  assumes "kind_ok k"
  shows "take_bit (width k) (wrapped k x) = take_bit (width k) x"
  using assms width_bounds [OF assms]
  by (simp add: wrapped_take_bit take_bit_signed_take_bit)

lemma shifted_mod:
  assumes "0 \<le> (u :: int)" and "u < 2 * h"
  shows "(u + h) mod (2 * h) - h = (if h \<le> u then u - 2 * h else u)"
proof (cases "h \<le> u")
  case True
  have "(u + h) mod (2 * h) = ((u - h) + 2 * h) mod (2 * h)" by (rule arg_cong [where f = "\<lambda>x. x mod (2 * h)"]) simp
  also have "\<dots> = (u - h) mod (2 * h)" by (rule mod_add_self2)
  also have "\<dots> = u - h" by (rule mod_pos_pos_trivial) (use True assms in linarith)+
  finally show ?thesis using True by simp
next
  case False
  have "(u + h) mod (2 * h) = u + h" by (rule mod_pos_pos_trivial) (use False assms in linarith)+
  with False show ?thesis by simp
qed

lemma reading_wrapped:
  assumes "kind_ok k"
  shows "reading k raw = wrapped k (uint raw)"
proof -
  define h :: int where "h = 2 ^ (width k - 1)"
  have two: "2 ^ width k = 2 * h" unfolding h_def using width_bounds(3) [OF assms] by (metis power_Suc)
  have pos: "0 < h" by (simp add: h_def)
  have "(uint raw + h) mod (2 * h) - h = (uint raw mod (2 * h) + h) mod (2 * h) - h" by (simp add: mod_simps)
  also have "\<dots> = (if h \<le> uint raw mod (2 * h) then uint raw mod (2 * h) - 2 * h else uint raw mod (2 * h))"
    by (rule shifted_mod) (use pos in simp_all)
  finally show ?thesis
    unfolding reading_def wrapped_def Let_def two h_def [symmetric] by (simp split: if_splits)
qed

section \<open>The bit operations of the code\<close>

lemma kind_mask_mask:
  assumes "kind_ok k"
  shows "kind_mask k = mask (width k)"
proof (cases "128 \<le> ik_bits k")
  case True
  with assms have "width k = 128" by (auto simp: kind_ok_def width_def)
  moreover have "(- 1 :: u128) = mask 128" by (rule bit_word_eqI) (simp add: bit_simps)
  ultimately show ?thesis using True by (simp add: kind_mask_def)
next
  case False
  then show ?thesis by (simp add: kind_mask_def width_def mask_eq_exp_minus_1 push_bit_eq_mult)
qed

lemma truncate_take_bit [wrap_facts]:
  assumes "kind_ok k"
  shows "truncate_to k raw = take_bit (width k) raw"
  by (simp add: truncate_to_def kind_mask_mask [OF assms] take_bit_eq_mask)

lemma uint_truncate [wrap_facts]:
  assumes "kind_ok k"
  shows "uint (truncate_to k raw) = take_bit (width k) (uint raw)"
  using width_bounds [OF assms] by (simp add: truncate_take_bit [OF assms] unsigned_take_bit_eq)

lemma reading_truncate:
  assumes "kind_ok k"
  shows "reading k (truncate_to k raw) = reading k raw"
  unfolding reading_wrapped [OF assms] by (rule wrapped_cong [OF assms]) (simp add: uint_truncate assms)

lemma bit_as_signed:
  assumes "kind_ok k" and "i < 128"
  shows "bit (as_signed k raw) i \<longleftrightarrow> bit raw (min i (width k - 1))"
proof (cases "128 \<le> ik_bits k")
  case True
  with assms have "width k = 128" by (auto simp: kind_ok_def width_def)
  with True assms show ?thesis
    by (simp add: as_signed_def Let_def truncate_take_bit bit_take_bit_iff min_def)
next
  case False
  have w: "0 < width k" "width k < 128" using False assms(1) by (auto simp: kind_ok_def width_def)
  let ?t = "take_bit (width k) raw" and ?sign = "push_bit (width k - 1) 1 :: u128"
  have "bit (?t AND ?sign) j \<longleftrightarrow> j = width k - 1 \<and> bit raw (width k - 1)" for j
    using w by (auto simp: bit_simps)
  then have sign: "?t AND ?sign = 0 \<longleftrightarrow> \<not> bit raw (width k - 1)"
    by (metis bit_0_eq bit_eq_iff bot_apply bot_bool_def)
  have low: "i < width k \<longleftrightarrow> i \<le> width k - 1" using w by arith
  have "as_signed k raw = (if bit raw (width k - 1) then ?t OR NOT (mask (width k)) else ?t)"
    using False unfolding as_signed_def Let_def truncate_take_bit [OF assms(1)] width_def [symmetric]
      kind_mask_mask [OF assms(1)] sign by simp
  then show ?thesis using assms(2) w
    by (cases "i \<le> width k - 1") (simp_all add: bit_simps min_absorb1 min_absorb2 low)
qed

lemma sint_as_signed:
  assumes "kind_ok k"
  shows "sint (as_signed k raw) = signed_take_bit (width k - 1) (uint raw)"
proof (rule bit_eqI)
  fix i
  have "bit (sint (as_signed k raw)) i \<longleftrightarrow> bit (as_signed k raw) (min i 127)"
    by (cases "i \<le> 127") (auto simp: bit_sint_iff min_absorb1 min_absorb2 dest: bit_imp_le_length)
  also have "\<dots> \<longleftrightarrow> bit raw (min (min i 127) (width k - 1))" by (rule bit_as_signed [OF assms]) simp
  also have "min (min i 127) (width k - 1) = min i (width k - 1)" using width_bounds(2) [OF assms] by simp
  also have "bit raw (min i (width k - 1)) \<longleftrightarrow> bit (signed_take_bit (width k - 1) (uint raw)) i"
    by (simp add: bit_signed_take_bit_iff bit_uint_iff min.commute)
      (use bit_imp_le_length in fastforce)
  finally show "bit (sint (as_signed k raw)) i \<longleftrightarrow> bit (signed_take_bit (width k - 1) (uint raw)) i" .
qed

section \<open>Readings of results\<close>

definition raw_ok :: "int_kind \<Rightarrow> u128 \<Rightarrow> bool" where
  "raw_ok k raw \<longleftrightarrow> uint raw < 2 ^ width k"

lemma truncate_raw_ok [simp]: "kind_ok k \<Longrightarrow> raw_ok k (truncate_to k raw)"
  by (simp add: raw_ok_def uint_truncate)

lemma truncate_id: "kind_ok k \<Longrightarrow> raw_ok k raw \<Longrightarrow> truncate_to k raw = raw"
  unfolding word_uint_eq_iff by (simp add: uint_truncate raw_ok_def take_bit_int_eq_self)

lemma wrapped_uint_of_int:
  assumes "kind_ok k"
  shows "wrapped k (uint (word_of_int x :: u128)) = wrapped k x"
  using width_bounds(2) [OF assms]
  by (intro wrapped_cong [OF assms]) (simp add: unsigned_of_int min_absorb1)

lemma reading_of_int:
  assumes "kind_ok k"
  shows "reading k (truncate_to k (word_of_int x)) = wrapped k x"
  by (simp only: reading_truncate [OF assms]) (simp only: reading_wrapped [OF assms] wrapped_uint_of_int [OF assms])

lemma reading_signed:
  assumes "kind_ok k" and "ik_signed k"
  shows "sint (as_signed k raw) = reading k raw"
  using assms by (simp add: sint_as_signed reading_wrapped wrapped_take_bit)

lemma reading_unsigned:
  assumes "kind_ok k" and "\<not> ik_signed k" and "raw_ok k raw"
  shows "uint raw = reading k raw"
  using assms by (simp add: reading_def Let_def raw_ok_def)

lemma reading_range:
  assumes "kind_ok k"
  shows "representable k (reading k raw)"
  unfolding representable_iff [OF assms] reading_wrapped [OF assms] wrapped_take_bit [OF assms] by simp

lemma take_bit_reading:
  assumes "kind_ok k"
  shows "take_bit (width k) (reading k raw) = take_bit (width k) (uint raw)"
  unfolding reading_wrapped [OF assms] by (rule take_bit_wrapped [OF assms])

lemma fits_signed:
  assumes "kind_ok k" and "ik_signed k" and "- (2 ^ 127) \<le> x" and "x < 2 ^ 127"
  shows "fits k (word_of_int x) \<longleftrightarrow> representable k x"
proof -
  have sx: "sint (word_of_int x :: u128) = x"
    using assms(3,4) by (simp add: signed_of_int signed_take_bit_int_eq_self_iff)
  have "fits k (word_of_int x) \<longleftrightarrow> sint (as_signed k (word_of_int x)) = sint (word_of_int x :: u128)"
    using assms(2) by (simp add: fits_def Let_def word_eq_iff_signed)
  also have "\<dots> \<longleftrightarrow> wrapped k x = x"
    unfolding reading_signed [OF assms(1,2)] reading_wrapped [OF assms(1)] wrapped_uint_of_int [OF assms(1)] sx ..
  finally show ?thesis unfolding representable_iff [OF assms(1)] .
qed

section \<open>Addition, subtraction, multiplication\<close>

text \<open>
  What the three operators share: on words they are the integer operation modulo the word size, they
  respect truncation, and on operands of at most 64 bits they stay inside 128 bits.
\<close>

locale wrapping_op =
  fixes f :: "u128 \<Rightarrow> u128 \<Rightarrow> u128"
    and F :: "int \<Rightarrow> int \<Rightarrow> int"
  assumes on_uint: "f a b = word_of_int (F (uint a) (uint b))"
    and on_sint: "f a b = word_of_int (F (sint a) (sint b))"
    and take_bit_op: "take_bit n (F (take_bit n x) (take_bit n y)) = take_bit n (F x y)"
    and unsigned_bound: "0 \<le> x \<Longrightarrow> x < 2 ^ 64 \<Longrightarrow> 0 \<le> y \<Longrightarrow> y < 2 ^ 64 \<Longrightarrow> - (2 ^ 64) \<le> F x y \<and> F x y < 2 ^ 128"
    and signed_bound: "- (2 ^ 63) \<le> x \<Longrightarrow> x < 2 ^ 63 \<Longrightarrow> - (2 ^ 63) \<le> y \<Longrightarrow> y < 2 ^ 63
      \<Longrightarrow> - (2 ^ 127) \<le> F x y \<and> F x y < 2 ^ 127"
begin

lemma result_reading:
  assumes "kind_ok k"
  shows "reading k (truncate_to k (f l r)) = wrapped k (F (reading k l) (reading k r))"
proof -
  have "take_bit (width k) (F (uint l) (uint r)) = take_bit (width k) (F (reading k l) (reading k r))"
    by (metis take_bit_op take_bit_reading [OF assms])
  then show ?thesis
    unfolding on_uint reading_of_int [OF assms] by (rule wrapped_cong [OF assms])
qed

lemma signed_flag:
  assumes "kind_ok k" and "ik_signed k" and "width k \<le> 64"
  shows "fits k (f (as_signed k l) (as_signed k r)) \<longleftrightarrow> representable k (F (reading k l) (reading k r))"
proof -
  have small: "- (2 ^ 63) \<le> reading k raw \<and> reading k raw < 2 ^ 63" for raw
  proof -
    have "(2 :: int) ^ (width k - 1) \<le> 2 ^ 63" using assms(3) by (intro power_increasing) simp_all
    moreover have "- (2 ^ (width k - 1)) \<le> reading k raw" "reading k raw < 2 ^ (width k - 1)"
      using reading_range [OF assms(1), of raw] assms(2) by (simp_all add: representable_def)
    ultimately show ?thesis by linarith
  qed
  show ?thesis unfolding on_sint reading_signed [OF assms(1,2)]
    by (rule fits_signed [OF assms(1,2)]) (use signed_bound small in blast)+
qed

lemma unsigned_flag:
  assumes k: "kind_ok k" "\<not> ik_signed k" "width k \<le> 64" and "raw_ok k l" "raw_ok k r"
  shows "truncate_to k (f l r) = f l r \<longleftrightarrow> representable k (F (reading k l) (reading k r))"
proof -
  let ?x = "F (reading k l) (reading k r)"
  have le: "(2 :: int) ^ width k \<le> 2 ^ 64" using k(3) by (intro power_increasing) simp_all
  have b: "- (2 ^ 64) \<le> ?x" "?x < 2 ^ 128"
    using unsigned_bound [of "reading k l" "reading k r"] reading_range [OF k(1)] k(2) le
    by (meson order_less_le_trans representable_def)+
  have u: "uint (f l r) = ?x mod 2 ^ 128"
    using reading_unsigned [OF k(1,2)] assms(4,5) by (simp add: on_uint uint_word_of_int)
  have "truncate_to k (f l r) = f l r \<longleftrightarrow> uint (f l r) < 2 ^ width k"
    unfolding word_uint_eq_iff uint_truncate [OF k(1)] by (simp add: take_bit_int_eq_self_iff)
  also have "\<dots> \<longleftrightarrow> 0 \<le> ?x \<and> ?x < 2 ^ width k"
  proof (cases "0 \<le> ?x")
    case True
    with b show ?thesis unfolding u by (simp add: mod_pos_pos_trivial)
  next
    case False
    have "?x mod 2 ^ 128 = (?x + 2 ^ 128) mod 2 ^ 128" by (rule mod_add_self2 [symmetric])
    also have "\<dots> = ?x + 2 ^ 128" by (rule mod_pos_pos_trivial) (use False b in simp_all)
    finally have "?x mod 2 ^ 128 = ?x + 2 ^ 128" .
    moreover have "(2 :: int) ^ 64 + 2 ^ 64 \<le> 2 ^ 128" by simp
    ultimately have "\<not> ?x mod 2 ^ 128 < 2 ^ width k" using b le by linarith
    with False show ?thesis unfolding u by blast
  qed
  finally show ?thesis using k(2) by (simp add: representable_def)
qed

lemma checked_exact:
  assumes k: "kind_ok k" and "raw_ok k l" "raw_ok k r"
  shows "\<exists>raw ovf. checked k (f (as_signed k l) (as_signed k r)) l r f = (VInt raw k, ovf) \<and> raw_ok k raw
    \<and> reading k raw = wrapped k (F (reading k l) (reading k r))
    \<and> (ovf \<longleftrightarrow> width k \<noteq> 128 \<and> \<not> representable k (F (reading k l) (reading k r)))"
proof -
  let ?raw = "f l r" and ?ok = "representable k (F (reading k l) (reading k r))"
  define ovf where "ovf \<longleftrightarrow> (if ik_signed k then \<not> fits k (f (as_signed k l) (as_signed k r))
    else truncate_to k ?raw \<noteq> ?raw \<or> \<not> fits_unsigned k l r ?raw f)"
  have le: "truncate_to k ?raw \<le> kind_mask k" unfolding truncate_to_def by (rule word_and_le1)
  have "ovf \<longleftrightarrow> width k \<noteq> 128 \<and> \<not> ?ok"
  proof (cases "width k = 128")
    case True
    then have big: "128 \<le> ik_bits k" using k by (auto simp: kind_ok_def width_def)
    have "truncate_to k w = w" for w using uint_bounded [of w] by (intro truncate_id [OF k]) (simp add: raw_ok_def True)
    then show ?thesis using big True by (simp add: ovf_def fits_def fits_unsigned_def as_signed_def)
  next
    case False
    then have w: "width k \<le> 64" and small: "\<not> 128 \<le> ik_bits k"
      using k by (auto simp: kind_ok_def width_def)
    show ?thesis
    proof (cases "ik_signed k")
      case True
      then show ?thesis using False signed_flag [OF k True w] by (simp add: ovf_def)
    next
      case uns: False
      then have "ovf \<longleftrightarrow> truncate_to k ?raw \<noteq> ?raw"
        using le small by (auto simp: ovf_def fits_unsigned_def Let_def)
      then show ?thesis using False unsigned_flag [OF k uns w assms(2,3)] by simp
    qed
  qed
  moreover have "checked k (f (as_signed k l) (as_signed k r)) l r f = (VInt (truncate_to k ?raw) k, ovf)"
    by (simp add: checked_def Let_def value_int_def ovf_def)
  ultimately show ?thesis using result_reading [OF k] k by (intro exI conjI) auto
qed

end

interpretation add_op: wrapping_op "(+)" "(+)"
  by unfold_locales (auto simp: take_bit_add)

interpretation sub_op: wrapping_op "(-)" "(-)"
  by unfold_locales (auto simp: take_bit_diff)

lemma mult_bound:
  assumes "\<bar>x :: int\<bar> \<le> 2 ^ 63" and "\<bar>y\<bar> \<le> 2 ^ 63"
  shows "- (2 ^ 127) \<le> x * y" and "x * y < 2 ^ 127"
proof -
  have "\<bar>x * y\<bar> \<le> 2 ^ 63 * 2 ^ 63" unfolding abs_mult by (rule mult_mono [OF assms]) simp_all
  then show "- (2 ^ 127) \<le> x * y" "x * y < 2 ^ 127" by simp_all
qed

lemma mult_bound_unsigned:
  assumes "0 \<le> (x :: int)" and "x < 2 ^ 64" and "0 \<le> y" and "y < 2 ^ 64"
  shows "- (2 ^ 64) \<le> x * y" and "x * y < 2 ^ 128"
proof -
  have "x * y < 2 ^ 64 * 2 ^ 64" by (rule mult_strict_mono') (use assms in simp_all)
  then show "x * y < 2 ^ 128" by simp
  show "- (2 ^ 64) \<le> x * y" using mult_nonneg_nonneg [OF assms(1,3)] by simp
qed

interpretation mul_op: wrapping_op "(*)" "(*)"
proof
  show "- (2 ^ 64) \<le> x * y \<and> x * y < 2 ^ 128"
    if "0 \<le> x" "x < 2 ^ 64" "0 \<le> y" "y < 2 ^ 64" for x y :: int
    using mult_bound_unsigned [OF that] by blast
  show "- (2 ^ 127) \<le> x * y \<and> x * y < 2 ^ 127"
    if "- (2 ^ 63) \<le> x" "x < 2 ^ 63" "- (2 ^ 63) \<le> y" "y < 2 ^ 63" for x y :: int
    using mult_bound [of x y] that by simp
qed (auto simp: take_bit_mult)

section \<open>The operators\<close>

text \<open>The integer operation a checked operator stands for.\<close>

fun integer_op :: "bin_op \<Rightarrow> (int \<Rightarrow> int \<Rightarrow> int) option" where
  "integer_op Add = Some (+)"
| "integer_op AddUnchecked = Some (+)"
| "integer_op Sub = Some (-)"
| "integer_op SubUnchecked = Some (-)"
| "integer_op Mul = Some (*)"
| "integer_op MulUnchecked = Some (*)"
| "integer_op _ = None"

lemma binary_same_kind: "binary op (VInt l k) (VInt r k) = binary_int op k l r"
  by (simp add: binary_def as_int_def)

lemma binary_shift: "is_shift op \<Longrightarrow> binary op (VInt l k) (VInt r rk) = binary_int op k l r"
  by (simp add: binary_def as_int_def)

text \<open>
  C29: checked arithmetic. On two values of one integer type, addition, subtraction and multiplication
  return the exact result wrapped into the range of the type, and the overflow flag is set exactly when
  the exact result is outside that range, for both signednesses of 8, 16, 32 and 64 bits. At 128 bits the
  wrapped result is right too, but the flag is never set.
\<close>

theorem arithmetic_is_exact:
  assumes "kind_ok k" and "raw_ok k l" and "raw_ok k r" and "integer_op op = Some F"
  shows "\<exists>raw ovf. binary op (VInt l k) (VInt r k) = Inr (VInt raw k, ovf) \<and> raw_ok k raw
    \<and> reading k raw = wrapped k (F (reading k l) (reading k r))
    \<and> (ovf \<longleftrightarrow> width k \<noteq> 128 \<and> \<not> representable k (F (reading k l) (reading k r)))"
  using assms(4) add_op.checked_exact [OF assms(1-3)] sub_op.checked_exact [OF assms(1-3)]
    mul_op.checked_exact [OF assms(1-3)]
  unfolding binary_same_kind by (cases op) (auto simp: binary_int_def Let_def)

abbreviation "i8_kind \<equiv> \<lparr>ik_bits = 8, ik_signed = True\<rparr>"

theorem arithmetic_is_exact_witness:
  "\<exists>raw ovf. binary Mul (VInt 200 i8_kind) (VInt 3 i8_kind) = Inr (VInt raw i8_kind, ovf) \<and> raw_ok i8_kind raw
    \<and> reading i8_kind raw = 88 \<and> ovf"
proof -
  have "kind_ok i8_kind" "raw_ok i8_kind 200" "raw_ok i8_kind 3" "integer_op Mul = Some (*)"
    by (simp_all add: kind_ok_def raw_ok_def width_def)
  from arithmetic_is_exact [OF this] obtain raw ovf where
    "binary Mul (VInt 200 i8_kind) (VInt 3 i8_kind) = Inr (VInt raw i8_kind, ovf)" "raw_ok i8_kind raw"
    "reading i8_kind raw = wrapped i8_kind (reading i8_kind 200 * reading i8_kind 3)"
    "ovf \<longleftrightarrow> width i8_kind \<noteq> 128 \<and> \<not> representable i8_kind (reading i8_kind 200 * reading i8_kind 3)"
    by blast
  then show ?thesis
    by (intro exI [of _ raw] exI [of _ ovf]) (simp add: reading_def wrapped_def representable_def width_def)
qed

lemma value_int_exact:
  assumes "kind_ok k"
  shows "\<exists>raw. value_int (word_of_int x) k = VInt raw k \<and> raw_ok k raw \<and> reading k raw = wrapped k x"
  unfolding value_int_def by (intro exI conjI, rule refl) (simp_all add: assms reading_of_int)

lemma reading_eq_iff:
  assumes "kind_ok k" and "raw_ok k l" and "raw_ok k r"
  shows "reading k l = reading k r \<longleftrightarrow> l = r"
proof
  assume "reading k l = reading k r"
  then have "take_bit (width k) (uint l) = take_bit (width k) (uint r)"
    by (metis take_bit_reading [OF assms(1)])
  with assms(2,3) show "l = r" by (simp add: raw_ok_def take_bit_int_eq_self word_uint_eq_iff)
qed simp

lemma reading_0:
  assumes "kind_ok k" and "raw_ok k r"
  shows "reading k r = 0 \<longleftrightarrow> r = 0"
  using reading_eq_iff [OF assms, of 0] by (simp add: raw_ok_def reading_def)

lemma sdiv_nonneg: "0 \<le> x \<Longrightarrow> 0 \<le> y \<Longrightarrow> x sdiv y = x div (y :: int)" "0 \<le> x \<Longrightarrow> 0 \<le> y \<Longrightarrow> x smod y = x mod (y :: int)"
  by (auto simp: signed_divide_int_def signed_modulo_int_def sgn_if zero_less_mult_iff)

text \<open>What division works on: the signed or unsigned reading, as a word.\<close>

lemma division_readings:
  assumes "kind_ok k" and "raw_ok k l" and "raw_ok k r"
  shows "(if ik_signed k then word_of_int (sint (as_signed k l) sdiv sint (as_signed k r)) else l div r)
      = word_of_int (reading k l sdiv reading k r)"
    and "(if ik_signed k then word_of_int (sint (as_signed k l) smod sint (as_signed k r)) else l mod r)
      = word_of_int (reading k l smod reading k r)"
proof -
  have "l div r = word_of_int (uint l div uint r)" "l mod r = word_of_int (uint l mod uint r)"
    by (metis word_of_int_uint uint_div, metis word_of_int_uint uint_mod)
  then show "(if ik_signed k then word_of_int (sint (as_signed k l) sdiv sint (as_signed k r)) else l div r)
      = word_of_int (reading k l sdiv reading k r)"
    "(if ik_signed k then word_of_int (sint (as_signed k l) smod sint (as_signed k r)) else l mod r)
      = word_of_int (reading k l smod reading k r)"
    using assms by (auto simp: reading_signed reading_unsigned [symmetric] sdiv_nonneg)
qed

lemma compare_readings:
  assumes "kind_ok k" and "raw_ok k l" and "raw_ok k r"
  shows "compare_ints k (as_signed k l) (as_signed k r) l r ord \<longleftrightarrow> cmp (reading k l) (reading k r) = ord"
  using assms reading_unsigned [of k l] reading_unsigned [of k r]
  by (auto simp: compare_ints_def reading_signed cmp_def word_less_def word_uint_eq_iff)

text \<open>
  The other operators. Division and remainder of two values of one integer type truncate towards
  zero, wrap the one quotient that is out of range, and report a zero divisor as an error; the
  comparisons compare the integers the two values stand for.
\<close>

theorem division_and_comparison:
  assumes "kind_ok k" and "raw_ok k l" and "raw_ok k r"
  shows "(if r = 0
      then binary Div (VInt l k) (VInt r k) = Inl ''division by zero''
        \<and> binary Rem (VInt l k) (VInt r k) = Inl ''remainder by zero''
      else \<exists>q m. binary Div (VInt l k) (VInt r k) = Inr (VInt q k, False)
        \<and> binary Rem (VInt l k) (VInt r k) = Inr (VInt m k, False)
        \<and> reading k q = wrapped k (reading k l sdiv reading k r)
        \<and> reading k m = wrapped k (reading k l smod reading k r))
    \<and> binary Eq (VInt l k) (VInt r k) = Inr (VBool (reading k l = reading k r), False)
    \<and> binary Ne (VInt l k) (VInt r k) = Inr (VBool (reading k l \<noteq> reading k r), False)
    \<and> binary Lt (VInt l k) (VInt r k) = Inr (VBool (reading k l < reading k r), False)
    \<and> binary Gt (VInt l k) (VInt r k) = Inr (VBool (reading k l > reading k r), False)
    \<and> binary Le (VInt l k) (VInt r k) = Inr (VBool (reading k l \<le> reading k r), False)
    \<and> binary Ge (VInt l k) (VInt r k) = Inr (VBool (reading k l \<ge> reading k r), False)"
  using value_int_exact [OF assms(1), of "reading k l sdiv reading k r"]
    value_int_exact [OF assms(1), of "reading k l smod reading k r"]
  unfolding binary_same_kind
  by (auto simp: binary_int_def Let_def division_readings [OF assms] compare_readings [OF assms]
    reading_eq_iff [OF assms, symmetric] cmp_def)

theorem division_and_comparison_witness:
  "\<exists>q m. binary Div (VInt 128 i8_kind) (VInt 255 i8_kind) = Inr (VInt q i8_kind, False)
    \<and> binary Rem (VInt 128 i8_kind) (VInt 255 i8_kind) = Inr (VInt m i8_kind, False)
    \<and> reading i8_kind q = - 128 \<and> reading i8_kind m = 0
    \<and> binary Lt (VInt 128 i8_kind) (VInt 255 i8_kind) = Inr (VBool True, False)"
proof -
  have ok: "kind_ok i8_kind" "raw_ok i8_kind 128" "raw_ok i8_kind 255"
    by (simp_all add: kind_ok_def raw_ok_def width_def)
  have "reading i8_kind 128 = - 128" "reading i8_kind 255 = - 1" "wrapped i8_kind 128 = - 128" "wrapped i8_kind 0 = 0"
    by (simp_all add: reading_def wrapped_def width_def)
  with division_and_comparison [OF ok] show ?thesis by (auto simp: signed_modulo_int_def signed_divide_int_def)
qed

section \<open>Shifts and casts\<close>

lemma shift_amount_eq:
  assumes "kind_ok k"
  shows "shift_amount k right = unat right mod width k"
proof -
  have "unat (ucast (ik_bits k) :: u128) = width k" using assms by (auto simp: kind_ok_def width_def)
  then show ?thesis by (simp add: shift_amount_def unat_mod)
qed

lemma past_width:
  assumes "kind_ok k"
  shows "(ucast (ik_bits k) :: u128) \<le> right \<longleftrightarrow> width k \<le> unat right"
  using assms by (auto simp: word_le_nat_alt width_def kind_ok_def)

lemma shift_left_reading:
  assumes "kind_ok k"
  shows "reading k (truncate_to k (push_bit n l)) = wrapped k (reading k l * 2 ^ n)"
proof -
  let ?t = "take_bit (width k) :: int \<Rightarrow> int"
  have "push_bit n l = word_of_int (uint l * 2 ^ n)" by (simp add: push_bit_eq_mult)
  moreover have "?t (x * 2 ^ n) = ?t (?t x * ?t (2 ^ n))" for x by (simp only: take_bit_mult)
  then have "wrapped k (uint l * 2 ^ n) = wrapped k (reading k l * 2 ^ n)"
    by (intro wrapped_cong [OF assms]) (simp only: take_bit_reading [OF assms])
  ultimately show ?thesis by (simp only: reading_of_int [OF assms])
qed

lemma wrapped_in_range: "kind_ok k \<Longrightarrow> representable k x \<Longrightarrow> wrapped k x = x"
  by (simp add: representable_iff)

lemma representable_div:
  assumes "representable k x"
  shows "representable k (x div 2 ^ n)"
proof -
  have "0 \<le> x div 2 ^ n" "x div 2 ^ n \<le> x" if "0 \<le> x"
    using that zdiv_mono2 [of x 1 "2 ^ n"] by (simp_all add: pos_imp_zdiv_nonneg_iff)
  moreover have "x \<le> x div 2 ^ n" "x div 2 ^ n < 0" if "x < 0"
    using that zdiv_mono2_neg [of x 1 "2 ^ n"] by (simp_all add: div_neg_pos_less0)
  moreover have "(0 :: int) < 2 ^ (width k - 1)" by simp
  ultimately show ?thesis using assms unfolding representable_def
    by (cases "0 \<le> x") (auto split: if_splits)
qed

lemma shift_right_reading:
  assumes "kind_ok k" and "raw_ok k l"
  shows "reading k (truncate_to k (if ik_signed k then signed_drop_bit n (as_signed k l) else drop_bit n l))
    = reading k l div 2 ^ n"
proof -
  have "(if ik_signed k then signed_drop_bit n (as_signed k l) else drop_bit n l)
      = word_of_int (reading k l div 2 ^ n)"
  proof (cases "ik_signed k")
    case True
    have "signed_drop_bit n (as_signed k l) = word_of_int (sint (signed_drop_bit n (as_signed k l)))" by simp
    with True show ?thesis
      unfolding sint_signed_drop_bit_eq reading_signed [OF assms(1) True] drop_bit_eq_div by simp
  next
    case False
    have "uint (drop_bit n l) = uint l div 2 ^ n"
      unfolding unsigned_drop_bit_eq using uint_bounded [of l] by (simp add: drop_bit_eq_div take_bit_int_eq_self)
    then have "drop_bit n l = word_of_int (uint l div 2 ^ n)" by (metis word_of_int_uint)
    with False show ?thesis by (simp only: reading_unsigned [OF assms(1) False assms(2), symmetric] if_False)
  qed
  then show ?thesis using wrapped_in_range [OF assms(1) representable_div [OF reading_range [OF assms(1)]]]
    by (simp only: reading_of_int [OF assms(1)])
qed

text \<open>
  Shifts. A shift takes its amount, of any integer type, modulo the width of the value it shifts and
  flags an amount that is not smaller than the width. A left shift multiplies by the power of two and
  wraps; a right shift divides by it, rounding down, so it extends the sign of a signed value.
\<close>

theorem shifts_are_powers_of_two:
  assumes "kind_ok k" and "raw_ok k l"
  shows "\<exists>a b. binary Shl (VInt l k) (VInt r rk) = Inr (VInt a k, width k \<le> unat r)
    \<and> binary Shr (VInt l k) (VInt r rk) = Inr (VInt b k, width k \<le> unat r)
    \<and> reading k a = wrapped k (reading k l * 2 ^ (unat r mod width k))
    \<and> reading k b = reading k l div 2 ^ (unat r mod width k)"
proof -
  have shifts: "is_shift Shl" "is_shift Shr" by (simp_all add: is_shift_def)
  show ?thesis
    unfolding binary_shift [OF shifts(1)] binary_shift [OF shifts(2)]
    by (simp add: binary_int_def Let_def value_int_def shift_amount_eq [OF assms(1)] past_width [OF assms(1)]
      shift_left_reading [OF assms(1)] shift_right_reading [OF assms])
qed

theorem shifts_are_powers_of_two_witness:
  "\<exists>a b. binary Shl (VInt 192 i8_kind) (VInt 9 i8_kind) = Inr (VInt a i8_kind, True)
    \<and> binary Shr (VInt 192 i8_kind) (VInt 9 i8_kind) = Inr (VInt b i8_kind, True)
    \<and> reading i8_kind a = - 128 \<and> reading i8_kind b = - 32"
proof -
  have ok: "kind_ok i8_kind" "raw_ok i8_kind 192" by (simp_all add: kind_ok_def raw_ok_def width_def)
  have "reading i8_kind 192 = - 64" "wrapped i8_kind (- 128) = - 128" "width i8_kind = 8"
    by (simp_all add: reading_def wrapped_def width_def)
  with shifts_are_powers_of_two [OF ok, of 9 i8_kind] show ?thesis by simp
qed

lemma cast_reading:
  assumes "kind_ok from" and "raw_ok from raw" and "int_kind_of (ty_kind_of ty) = Some k"
  shows "\<exists>raw1. cast_value (VInt raw from) ty = Inr (VInt raw1 k) \<and> raw_ok k raw1
    \<and> reading k raw1 = wrapped k (reading from raw)"
proof -
  have "(if ik_signed from then as_signed from raw else raw) = word_of_int (reading from raw)"
  proof (cases "ik_signed from")
    case True
    then show ?thesis by (simp add: reading_signed [OF assms(1) True, symmetric])
  next
    case False
    then show ?thesis by (simp add: reading_unsigned [OF assms(1) False assms(2), symmetric])
  qed
  then show ?thesis using value_int_exact [OF int_kind_of_ok [OF assms(3)], of "reading from raw"] assms(3)
    by (auto simp: cast_value_def)
qed

text \<open>
  C39: casts. Casting an integer gives the integer wrapped into the range of the target type, so nothing
  changes when it is in that range; casting to a type that holds the integer and back gives the value
  one started from.
\<close>

theorem casts_wrap_and_return:
  assumes "kind_ok from" and "raw_ok from raw"
    and "int_kind_of (ty_kind_of ty) = Some k" and "int_kind_of (ty_kind_of back) = Some from"
  shows "\<exists>raw1. cast_value (VInt raw from) ty = Inr (VInt raw1 k)
    \<and> reading k raw1 = wrapped k (reading from raw)
    \<and> (representable k (reading from raw) \<longrightarrow> cast_value (VInt raw1 k) back = Inr (VInt raw from))"
proof -
  have k: "kind_ok k" by (rule int_kind_of_ok [OF assms(3)])
  obtain raw1 where c: "cast_value (VInt raw from) ty = Inr (VInt raw1 k)" "raw_ok k raw1"
    "reading k raw1 = wrapped k (reading from raw)"
    using cast_reading [OF assms(1-3)] by blast
  obtain raw2 where d: "cast_value (VInt raw1 k) back = Inr (VInt raw2 from)" "raw_ok from raw2"
    "reading from raw2 = wrapped from (reading k raw1)"
    using cast_reading [OF k c(2) assms(4)] by blast
  have "raw2 = raw" if "representable k (reading from raw)"
    using d(2,3) c(3) wrapped_in_range [OF k that] wrapped_in_range [OF assms(1) reading_range [OF assms(1)]]
      reading_eq_iff [OF assms(1) d(2) assms(2)] by metis
  with c d show ?thesis by blast
qed

theorem casts_wrap_and_return_witness:
  "\<exists>raw1. cast_value (VInt 200 i8_kind) (Ty (RigidInt I64) ''i64'') = Inr (VInt raw1 \<lparr>ik_bits = 64, ik_signed = True\<rparr>)
    \<and> reading \<lparr>ik_bits = 64, ik_signed = True\<rparr> raw1 = - 56
    \<and> cast_value (VInt raw1 \<lparr>ik_bits = 64, ik_signed = True\<rparr>) (Ty (RigidInt I8) ''i8'') = Inr (VInt 200 i8_kind)"
proof -
  let ?k = "\<lparr>ik_bits = 64, ik_signed = True\<rparr>"
  have ok: "kind_ok i8_kind" "raw_ok i8_kind 200" by (simp_all add: kind_ok_def raw_ok_def width_def)
  have ty: "int_kind_of (ty_kind_of (Ty (RigidInt I64) ''i64'')) = Some ?k"
    "int_kind_of (ty_kind_of (Ty (RigidInt I8) ''i8'')) = Some i8_kind" by simp_all
  have "reading i8_kind 200 = - 56" "representable ?k (- 56)" "wrapped ?k (- 56) = - 56"
    by (simp_all add: reading_def representable_def wrapped_def width_def)
  with casts_wrap_and_return [OF ok ty] show ?thesis by auto
qed

text \<open>
  Addition of 128-bit values never sets the flag: the largest value plus one wraps to zero and the
  assertion that the compiler put behind it passes.
\<close>

theorem overflow_at_128_bits_is_missed:
  "binary Add (VInt (- 1) \<lparr>ik_bits = 128, ik_signed = False\<rparr>) (VInt 1 \<lparr>ik_bits = 128, ik_signed = False\<rparr>)
     = Inr (VInt 0 \<lparr>ik_bits = 128, ik_signed = False\<rparr>, False)"
  by (simp add: binary_def as_int_def binary_int_def checked_def value_int_def truncate_to_def kind_mask_def
    fits_unsigned_def Let_def)

end
