(* ===== verification/Mir_Interp.thy ===== *)
theory Mir_Interp
  imports Mir_Ops
begin

text \<open>
  \<^verbatim>\<open>riri-mir/src/interp.rs\<close>, the interpreter. A body is data of \<^verbatim>\<open>rustc_public\<close>; the datatypes below have
  what the interpreter reads of it: the constructors it matches on, one for all the others (with the
  \<^verbatim>\<open>Debug\<close> text the error message quotes), and of a constant or an assertion message what the
  compiler's accessor (\<^verbatim>\<open>read_uint\<close>, \<^verbatim>\<open>description\<close>) returns.

  An error of the interpreter is a text on the left of a \<open>mir\<close>; a panic of the interpreter itself is on
  the left of a \<open>res\<close>. The step limit makes \<open>execute\<close> a terminating function.
\<close>

section \<open>Bodies\<close>

text \<open>One step into a value; a field also carries its \<^verbatim>\<open>Debug\<close> text.\<close>

datatype proj = FieldProj nat string | OtherProj string

fun proj_text :: "proj \<Rightarrow> string" where
  "proj_text (FieldProj i text) = text"
| "proj_text (OtherProj text) = text"

record place =
  pl_local :: nat
  pl_projection :: "proj list"

datatype const_kind = Allocated "string + u128" | OtherConst string

record const_operand =
  co_ty :: mir_ty
  co_kind :: const_kind

datatype operand =
    Copy place
  | Move place
  | Constant const_operand
  | OverflowChecks
  | OtherChecks

datatype rvalue =
    Use operand
  | BinaryOp bin_op operand operand
  | CheckedBinaryOp bin_op operand operand
  | UnaryOp un_op operand
  | Cast operand mir_ty
  | Aggregate "operand list"
  | CopyForDeref place
  | OtherRvalue string

datatype statement =
    Assign place rvalue
  | StorageLive | StorageDead | FakeRead | PlaceMention | AscribeUserType | Coverage
  | ConstEvalCounter | Nop
  | OtherStatement string

text \<open>What \<^verbatim>\<open>description\<close> of an assertion message returns: its text, or the \<^verbatim>\<open>Debug\<close> text in its place.\<close>

datatype terminator =
    Goto nat
  | Return
  | SwitchInt operand "(u128 \<times> nat) list" nat
  | Assert operand bool nat "string + string"
  | Call string
  | Unreachable
  | OtherTerminator string

record basic_block =
  bb_statements :: "statement list"
  bb_terminator :: terminator

record body =
  bd_locals :: nat
  bd_blocks :: "basic_block list"

section \<open>Places, constants, operands\<close>

fun project :: "proj list \<Rightarrow> mval \<Rightarrow> mval mir" where
  "project [] v = Inr v"
| "project (FieldProj i text # ps) v =
     (case v of
        VAggregate parts \<Rightarrow>
          (case nth_option parts i of
             Some part \<Rightarrow> project ps part
           | None \<Rightarrow> Inl (''no field '' @ show_nat i))
      | _ \<Rightarrow> Inl (''cannot take a field of '' @ debug_value v))"
| "project (OtherProj text # ps) v = Inl (''projection not interpreted yet: '' @ text)"

definition load_place :: "mval list \<Rightarrow> place \<Rightarrow> mval mir" where
  "load_place locals p =
     (case nth_option locals (pl_local p) of
        None \<Rightarrow> Inl (''no local _'' @ show_nat (pl_local p))
      | Some v \<Rightarrow> res_bind (project (pl_projection p) v) (\<lambda>w.
          if w = Uninit then Inl (''read of uninitialised _'' @ show_nat (pl_local p)) else Inr w))"

definition store_place :: "mval list \<Rightarrow> place \<Rightarrow> mval \<Rightarrow> mval list mir" where
  "store_place locals p v =
     (case nth_option locals (pl_local p) of
        None \<Rightarrow> Inl (''no local _'' @ show_nat (pl_local p))
      | Some slot \<Rightarrow>
          (case pl_projection p of
             [] \<Rightarrow> Inr (locals[pl_local p := v])
           | [FieldProj i text] \<Rightarrow>
               (case slot of
                  VAggregate parts \<Rightarrow>
                    if i < length parts then Inr (locals[pl_local p := VAggregate (parts[i := v])])
                    else Inl (''no field '' @ show_nat i)
                | _ \<Rightarrow> Inl (''cannot assign a field of '' @ debug_value slot))
           | ps \<Rightarrow> Inl (''projection not interpreted yet: ['' @ join_with '', '' (map proj_text ps) @ '']'')))"

definition constant_value :: "const_operand \<Rightarrow> mval mir" where
  "constant_value c =
     (case co_kind c of
        Allocated alloc \<Rightarrow>
          if ty_kind_of (co_ty c) = RigidBool then res_bind alloc (\<lambda>raw. Inr (VBool (raw \<noteq> 0)))
          else (case int_kind_of (ty_kind_of (co_ty c)) of
                  None \<Rightarrow> Inl (''constant type not supported: '' @ ty_text (co_ty c))
                | Some k \<Rightarrow> res_bind alloc (\<lambda>raw. Inr (value_int raw k)))
      | OtherConst text \<Rightarrow> Inl (''constant not interpreted yet: '' @ text))"

definition operand_value :: "mval list \<Rightarrow> operand \<Rightarrow> mval mir" where
  "operand_value locals opnd = (case opnd of
      Copy p \<Rightarrow> load_place locals p
    | Move p \<Rightarrow> load_place locals p
    | Constant c \<Rightarrow> constant_value c
    | OverflowChecks \<Rightarrow> Inr (VBool True)
    | OtherChecks \<Rightarrow> Inr (VBool False))"

text \<open>Collecting results stops at the first error.\<close>

fun collect_results :: "'a mir list \<Rightarrow> 'a list mir" where
  "collect_results [] = Inr []"
| "collect_results (r # rs) = res_bind r (\<lambda>v. res_bind (collect_results rs) (\<lambda>vs. Inr (v # vs)))"

section \<open>Statements\<close>

definition rvalue_value :: "mval list \<Rightarrow> rvalue \<Rightarrow> mval mir" where
  "rvalue_value locals rv = (case rv of
      Use opnd \<Rightarrow> operand_value locals opnd
    | BinaryOp op lhs rhs \<Rightarrow>
        res_bind (operand_value locals lhs) (\<lambda>l. res_bind (operand_value locals rhs) (\<lambda>r.
          res_bind (binary op l r) (\<lambda>(v, overflowed). Inr v)))
    | CheckedBinaryOp op lhs rhs \<Rightarrow>
        res_bind (operand_value locals lhs) (\<lambda>l. res_bind (operand_value locals rhs) (\<lambda>r.
          res_bind (binary op l r) (\<lambda>(v, overflowed). Inr (VAggregate [v, VBool overflowed]))))
    | UnaryOp op opnd \<Rightarrow> res_bind (operand_value locals opnd) (unary op)
    | Cast opnd ty \<Rightarrow> res_bind (operand_value locals opnd) (\<lambda>v. cast_value v ty)
    | Aggregate opnds \<Rightarrow> res_bind (collect_results (map (operand_value locals) opnds)) (\<lambda>vs. Inr (VAggregate vs))
    | CopyForDeref p \<Rightarrow> load_place locals p
    | OtherRvalue text \<Rightarrow> Inl (''rvalue not interpreted yet: '' @ text))"

definition exec_statement :: "mval list \<Rightarrow> statement \<Rightarrow> mval list mir" where
  "exec_statement locals st = (case st of
      Assign p rv \<Rightarrow> res_bind (rvalue_value locals rv) (store_place locals p)
    | OtherStatement text \<Rightarrow> Inl (''statement not interpreted yet: '' @ text)
    | _ \<Rightarrow> Inr locals)"

fun exec_statements :: "mval list \<Rightarrow> statement list \<Rightarrow> mval list mir" where
  "exec_statements locals [] = Inr locals"
| "exec_statements locals (st # sts) = res_bind (exec_statement locals st) (\<lambda>l. exec_statements l sts)"

section \<open>Blocks and the loop\<close>

datatype block_end = Jump nat | Returned

definition switch_target :: "(u128 \<times> nat) list \<Rightarrow> nat \<Rightarrow> u128 \<Rightarrow> nat" where
  "switch_target branches otherwise v =
     (case find (\<lambda>(arm, target). arm = v) branches of Some (arm, target) \<Rightarrow> target | None \<Rightarrow> otherwise)"

definition exec_terminator :: "mval list \<Rightarrow> terminator \<Rightarrow> block_end mir" where
  "exec_terminator locals t = (case t of
      Goto target \<Rightarrow> Inr (Jump target)
    | Return \<Rightarrow> Inr Returned
    | SwitchInt discr branches otherwise \<Rightarrow>
        res_bind (operand_value locals discr) (\<lambda>v. res_bind (discriminant v) (\<lambda>d.
          Inr (Jump (switch_target branches otherwise d))))
    | Assert cond expected target msg \<Rightarrow>
        res_bind (operand_value locals cond) (\<lambda>v. res_bind (as_bool v) (\<lambda>held.
          if held \<noteq> expected then Inl (case msg of Inr why \<Rightarrow> why | Inl text \<Rightarrow> text)
          else Inr (Jump target)))
    | Call func \<Rightarrow> Inl (''calls are not interpreted yet: '' @ func)
    | Unreachable \<Rightarrow> Inl ''reached unreachable''
    | OtherTerminator text \<Rightarrow> Inl (''terminator not interpreted yet: '' @ text))"

definition exec_block :: "mval list \<Rightarrow> basic_block \<Rightarrow> (mval list \<times> block_end) mir" where
  "exec_block locals bb =
     res_bind (exec_statements locals (bb_statements bb)) (\<lambda>l.
       res_bind (exec_terminator l (bb_terminator bb)) (\<lambda>e. Inr (l, e)))"

definition step_limit :: nat where
  "step_limit = 1000000"

text \<open>The value of the return place; a body without locals has none.\<close>

definition return_place :: "mval list \<Rightarrow> mval mir res" where
  "return_place locals = (case locals of [] \<Rightarrow> Inl IndexOutOfBounds | v # vs \<Rightarrow> Inr (Inr v))"

text \<open>The loop; \<open>steps\<close> is the counter before the increment, \<open>limit\<close> is \<^verbatim>\<open>STEP_LIMIT\<close>.\<close>

function execute :: "nat \<Rightarrow> body \<Rightarrow> nat \<Rightarrow> nat \<Rightarrow> mval list \<Rightarrow> mval mir res" where
  "execute limit bd steps block locals =
     (if steps + 1 > limit then Inr (Inl (''gave up after '' @ show_nat limit @ '' steps''))
      else case nth_option (bd_blocks bd) block of
        None \<Rightarrow> Inr (Inl (''jumped to bb'' @ show_nat block @ '', which does not exist''))
      | Some bb \<Rightarrow>
          (case exec_block locals bb of
             Inl e \<Rightarrow> Inr (Inl e)
           | Inr (locals1, Returned) \<Rightarrow> return_place locals1
           | Inr (locals1, Jump target) \<Rightarrow> execute limit bd (steps + 1) target locals1))"
  by pat_completeness auto
termination
  by (relation "measure (\<lambda>(limit, bd, steps, block, locals). limit - steps)") auto

declare execute.simps [simp del]

definition run_body :: "body \<Rightarrow> mval mir res" where
  "run_body bd = execute step_limit bd 0 0 (replicate (bd_locals bd) Uninit)"

end
