(* ===== verification/Mir_Run.thy ===== *)
theory Mir_Run
  imports Mir_Interp
begin

text \<open>
  The interpreter's loop against a step relation without a limit: \<open>mir_step\<close> is one executed block that
  jumps, \<open>mir_stops\<close> says how the run ends in a block. The loop with the limit ends for every body, with
  what the relation ends with if that takes at most \<^verbatim>\<open>STEP_LIMIT\<close> blocks, and gives up otherwise.
\<close>

section \<open>Runs without a limit\<close>

inductive mir_step :: "body \<Rightarrow> nat \<times> mval list \<Rightarrow> nat \<times> mval list \<Rightarrow> bool" for bd where
  jump: "nth_option (bd_blocks bd) block = Some bb \<Longrightarrow> exec_block locals bb = Inr (locals1, Jump target)
    \<Longrightarrow> mir_step bd (block, locals) (target, locals1)"

inductive mir_stops :: "body \<Rightarrow> nat \<times> mval list \<Rightarrow> mval mir res \<Rightarrow> bool" for bd where
  no_block: "nth_option (bd_blocks bd) block = None
    \<Longrightarrow> mir_stops bd (block, locals) (Inr (Inl (''jumped to bb'' @ show_nat block @ '', which does not exist'')))"
| error: "nth_option (bd_blocks bd) block = Some bb \<Longrightarrow> exec_block locals bb = Inl e
    \<Longrightarrow> mir_stops bd (block, locals) (Inr (Inl e))"
| return: "nth_option (bd_blocks bd) block = Some bb \<Longrightarrow> exec_block locals bb = Inr (locals1, Returned)
    \<Longrightarrow> mir_stops bd (block, locals) (return_place locals1)"

inductive_simps mir_step_iff: "mir_step bd (block, locals) c"
inductive_simps mir_stops_iff: "mir_stops bd (block, locals) r"

text \<open>Every configuration either steps, to one configuration, or stops, with one outcome.\<close>

lemma step_or_stop:
  obtains (step) c1 where "mir_step bd (block, locals) c1" "\<And>c. mir_step bd (block, locals) c \<Longrightarrow> c = c1"
      "\<And>r. \<not> mir_stops bd (block, locals) r"
    | (stop) r where "mir_stops bd (block, locals) r" "\<And>r1. mir_stops bd (block, locals) r1 \<Longrightarrow> r1 = r"
      "\<And>c. \<not> mir_step bd (block, locals) c"
proof (cases "nth_option (bd_blocks bd) block")
  case None
  then show ?thesis by (intro stop) (auto simp: mir_stops_iff mir_step_iff)
next
  case (Some bb)
  show ?thesis
  proof (cases "exec_block locals bb")
    case (Inl e)
    with Some show ?thesis by (intro stop) (auto simp: mir_stops_iff mir_step_iff)
  next
    case (Inr le)
    obtain l e where le: "le = (l, e)" by (rule prod.exhaust)
    show ?thesis
    proof (cases e)
      case (Jump t)
      with Some Inr le show ?thesis by (intro step [of "(t, l)"]) (auto simp: mir_stops_iff mir_step_iff)
    next
      case Returned
      with Some Inr le show ?thesis by (intro stop) (auto simp: mir_stops_iff mir_step_iff)
    qed
  qed
qed

section \<open>The loop\<close>

definition gave_up :: "nat \<Rightarrow> mval mir res" where
  "gave_up limit = Inr (Inl (''gave up after '' @ show_nat limit @ '' steps''))"

lemma execute_over: "limit \<le> steps \<Longrightarrow> execute limit bd steps block locals = gave_up limit"
  by (subst execute.simps) (simp add: gave_up_def)

lemma execute_step:
  assumes "steps < limit" and "mir_step bd (block, locals) (b1, l1)"
  shows "execute limit bd steps block locals = execute limit bd (Suc steps) b1 l1"
  using assms by (subst execute.simps) (auto simp: mir_step_iff)

lemma execute_stop:
  assumes "steps < limit" and "mir_stops bd (block, locals) r"
  shows "execute limit bd steps block locals = r"
  using assms by (subst execute.simps) (auto simp: mir_stops_iff)

lemma execute_runs:
  assumes "steps \<le> limit"
  shows "execute limit bd steps block locals = r \<longleftrightarrow>
    (\<exists>n c. steps + n < limit \<and> (mir_step bd ^^ n) (block, locals) c \<and> mir_stops bd c r)
    \<or> r = gave_up limit \<and> (\<exists>c. (mir_step bd ^^ (limit - steps)) (block, locals) c)"
  using assms
proof (induction "limit - steps" arbitrary: steps block locals)
  case 0
  then show ?case by (auto simp: execute_over)
next
  case (Suc m)
  then have lt: "steps < limit" and m: "limit - steps = Suc m" and m1: "m = limit - Suc steps" by simp_all
  show ?case
  proof (cases rule: step_or_stop [of bd block locals])
    case (step c1)
    obtain b1 l1 where c1: "c1 = (b1, l1)" by (rule prod.exhaust)
    have first: "(mir_step bd ^^ Suc n) (block, locals) c \<longleftrightarrow> (mir_step bd ^^ n) (b1, l1) c" for n c
      using step(1,2) unfolding c1 by (metis relpowp_Suc_E2 relpowp_Suc_I2)
    have some: "(\<exists>n c. steps + n < limit \<and> (mir_step bd ^^ n) (block, locals) c \<and> mir_stops bd c r)
        \<longleftrightarrow> (\<exists>n c. Suc steps + n < limit \<and> (mir_step bd ^^ n) (b1, l1) c \<and> mir_stops bd c r)" (is "?L \<longleftrightarrow> ?R")
    proof
      assume ?L
      then obtain n c where n: "steps + n < limit" "(mir_step bd ^^ n) (block, locals) c" "mir_stops bd c r" by blast
      with step(3) obtain k where "n = Suc k" by (cases n) auto
      with n first show ?R by (metis add_Suc_shift)
    next
      assume ?R
      with first show ?L by (metis add_Suc_shift)
    qed
    show ?thesis
      unfolding execute_step [OF lt step(1) [unfolded c1]] some m first
      using Suc.hyps(1) [OF m1] lt m1 by auto
  next
    case (stop r1)
    have none: "\<not> (mir_step bd ^^ Suc n) (block, locals) c" for n c
      using stop(3) by (metis relpowp_Suc_E2)
    have "(\<exists>n c. steps + n < limit \<and> (mir_step bd ^^ n) (block, locals) c \<and> mir_stops bd c r) \<longleftrightarrow> r = r1"
    proof
      assume "\<exists>n c. steps + n < limit \<and> (mir_step bd ^^ n) (block, locals) c \<and> mir_stops bd c r"
      then obtain n c where n: "(mir_step bd ^^ n) (block, locals) c" "mir_stops bd c r" by blast
      with none have "n = 0" by (cases n) auto
      with n stop(2) show "r = r1" by simp
    next
      assume "r = r1"
      then show "\<exists>n c. steps + n < limit \<and> (mir_step bd ^^ n) (block, locals) c \<and> mir_stops bd c r"
        using stop(1) lt by (intro exI [of _ 0] exI [of _ "(block, locals)"]) simp
    qed
    then show ?thesis unfolding execute_stop [OF lt stop(1)] m using none by auto
  qed
qed

definition start_locals :: "body \<Rightarrow> mval list" where
  "start_locals bd = replicate (bd_locals bd) Uninit"

text \<open>
  C37: the step limit. Interpreting a body always ends, and its outcome is one of two: what the body ends
  with when its blocks are run without a limit, if that takes at most a million blocks, or giving up,
  exactly when a million blocks have been run and the last one jumped on.
\<close>

theorem run_ends_within_the_limit:
  "run_body bd = r \<longleftrightarrow>
    (\<exists>n c. n < step_limit \<and> (mir_step bd ^^ n) (0, start_locals bd) c \<and> mir_stops bd c r)
    \<or> r = gave_up step_limit \<and> (\<exists>c. (mir_step bd ^^ step_limit) (0, start_locals bd) c)"
  using execute_runs [of 0 step_limit bd 0 "start_locals bd" r] by (simp add: run_body_def start_locals_def)

end
