(* ===== verification/Mir_Types.thy ===== *)
theory Mir_Types
  imports Mir_Run Mir_Arith
begin

text \<open>
  A type system for the bodies the interpreter covers, and its soundness: a well-typed body stops only
  for a reason of the interpreted program (a failed assertion, a division by zero, an uninitialised
  local, unreachable code, too many steps), never for one of the interpreter's own (operands of different
  types, a missing local, field or block, a construct it does not know), and returns a value of the
  declared type. The compiler type-checks the bodies it hands out; the checker here is for the fragment
  the interpreter supports.

  The proofs go through \<open>safe\<close>, which says of a result that it is either one of the allowed errors or a value with a
  given property, and composes along the monad.
\<close>

section \<open>Types of values\<close>

datatype mty = TInt int_kind | TBool | TTuple "mty list"

fun has_ty :: "mval \<Rightarrow> mty \<Rightarrow> bool" and have_tys :: "mval list \<Rightarrow> mty list \<Rightarrow> bool" where
  "has_ty (VInt raw k) t \<longleftrightarrow> t = TInt k \<and> kind_ok k \<and> raw_ok k raw"
| "has_ty (VBool b) t \<longleftrightarrow> t = TBool"
| "has_ty (VAggregate vs) t \<longleftrightarrow> (case t of TTuple ts \<Rightarrow> have_tys vs ts | _ \<Rightarrow> False)"
| "has_ty Uninit t \<longleftrightarrow> False"
| "have_tys [] ts \<longleftrightarrow> ts = []"
| "have_tys (v # vs) ts \<longleftrightarrow> (case ts of [] \<Rightarrow> False | t # ts1 \<Rightarrow> has_ty v t \<and> have_tys vs ts1)"

lemma have_tys_list_all2: "have_tys vs ts \<longleftrightarrow> list_all2 has_ty vs ts"
  by (induction vs arbitrary: ts) (auto split: list.splits simp: list_all2_Cons1)

lemma has_ty_simps [simp]:
  "has_ty v (TInt k) \<longleftrightarrow> (\<exists>raw. v = VInt raw k \<and> kind_ok k \<and> raw_ok k raw)"
  "has_ty v TBool \<longleftrightarrow> (\<exists>b. v = VBool b)"
  "has_ty v (TTuple ts) \<longleftrightarrow> (\<exists>vs. v = VAggregate vs \<and> list_all2 has_ty vs ts)"
  by (cases v; auto simp: have_tys_list_all2)+

declare has_ty.simps [simp del] have_tys.simps [simp del]

text \<open>A local is unset or holds a value of its type.\<close>

definition local_ok :: "mval \<Rightarrow> mty \<Rightarrow> bool" where
  "local_ok v t \<longleftrightarrow> v = Uninit \<or> has_ty v t"

definition env_ok :: "mty list \<Rightarrow> mval list \<Rightarrow> bool" where
  "env_ok \<Gamma> locals \<longleftrightarrow> list_all2 local_ok locals \<Gamma>"

section \<open>Types of places, operands, statements\<close>

fun project_ty :: "proj list \<Rightarrow> mty \<Rightarrow> mty option" where
  "project_ty [] t = Some t"
| "project_ty (FieldProj i text # ps) (TTuple ts) = Option.bind (nth_option ts i) (project_ty ps)"
| "project_ty _ _ = None"

definition place_ty :: "mty list \<Rightarrow> place \<Rightarrow> mty option" where
  "place_ty \<Gamma> p = Option.bind (nth_option \<Gamma> (pl_local p)) (project_ty (pl_projection p))"

definition const_ty :: "const_operand \<Rightarrow> mty option" where
  "const_ty c = (case co_kind c of
      Allocated (Inr raw) \<Rightarrow>
        if ty_kind_of (co_ty c) = RigidBool then Some TBool
        else map_option TInt (int_kind_of (ty_kind_of (co_ty c)))
    | _ \<Rightarrow> None)"

definition operand_ty :: "mty list \<Rightarrow> operand \<Rightarrow> mty option" where
  "operand_ty \<Gamma> opnd = (case opnd of
      Copy p \<Rightarrow> place_ty \<Gamma> p
    | Move p \<Rightarrow> place_ty \<Gamma> p
    | Constant c \<Rightarrow> const_ty c
    | _ \<Rightarrow> Some TBool)"

definition is_comparison :: "bin_op \<Rightarrow> bool" where
  "is_comparison op \<longleftrightarrow> op \<in> {Eq, Ne, Lt, Gt, Le, Ge}"

fun bin_ty :: "bin_op \<Rightarrow> mty \<Rightarrow> mty \<Rightarrow> mty option" where
  "bin_ty op TBool TBool = (if op \<in> {Eq, Ne, BitAnd, BitOr, BitXor} then Some TBool else None)"
| "bin_ty op (TInt k) (TInt rk) =
     (if \<exists>text. op = OtherBinOp text then None
      else if is_shift op then Some (TInt k)
      else if k \<noteq> rk then None
      else if is_comparison op then Some TBool
      else Some (TInt k))"
| "bin_ty op _ _ = None"

fun un_ty :: "un_op \<Rightarrow> mty \<Rightarrow> mty option" where
  "un_ty NotOp TBool = Some TBool"
| "un_ty NotOp (TInt k) = Some (TInt k)"
| "un_ty Neg (TInt k) = Some (TInt k)"
| "un_ty _ _ = None"

fun cast_ty :: "mty \<Rightarrow> mir_ty \<Rightarrow> mty option" where
  "cast_ty (TTuple ts) ty = None"
| "cast_ty _ ty = map_option TInt (int_kind_of (ty_kind_of ty))"

fun collect_options :: "'a option list \<Rightarrow> 'a list option" where
  "collect_options [] = Some []"
| "collect_options (x # xs) = Option.bind x (\<lambda>y. Option.bind (collect_options xs) (\<lambda>ys. Some (y # ys)))"

definition rvalue_ty :: "mty list \<Rightarrow> rvalue \<Rightarrow> mty option" where
  "rvalue_ty \<Gamma> rv = (case rv of
      Use opnd \<Rightarrow> operand_ty \<Gamma> opnd
    | BinaryOp op lhs rhs \<Rightarrow>
        Option.bind (operand_ty \<Gamma> lhs) (\<lambda>l. Option.bind (operand_ty \<Gamma> rhs) (bin_ty op l))
    | CheckedBinaryOp op lhs rhs \<Rightarrow>
        Option.bind (operand_ty \<Gamma> lhs) (\<lambda>l. Option.bind (operand_ty \<Gamma> rhs) (\<lambda>r.
          map_option (\<lambda>t. TTuple [t, TBool]) (bin_ty op l r)))
    | UnaryOp op opnd \<Rightarrow> Option.bind (operand_ty \<Gamma> opnd) (un_ty op)
    | Cast opnd ty \<Rightarrow> Option.bind (operand_ty \<Gamma> opnd) (\<lambda>t. cast_ty t ty)
    | Aggregate opnds \<Rightarrow> map_option TTuple (collect_options (map (operand_ty \<Gamma>) opnds))
    | CopyForDeref p \<Rightarrow> place_ty \<Gamma> p
    | OtherRvalue text \<Rightarrow> None)"

definition statement_ok :: "mty list \<Rightarrow> statement \<Rightarrow> bool" where
  "statement_ok \<Gamma> st = (case st of
      Assign p rv \<Rightarrow> length (pl_projection p) \<le> 1 \<and> place_ty \<Gamma> p \<noteq> None \<and> rvalue_ty \<Gamma> rv = place_ty \<Gamma> p
    | OtherStatement text \<Rightarrow> False
    | _ \<Rightarrow> True)"

definition terminator_ok :: "mty list \<Rightarrow> nat \<Rightarrow> terminator \<Rightarrow> bool" where
  "terminator_ok \<Gamma> n t = (case t of
      Goto target \<Rightarrow> target < n
    | Return \<Rightarrow> True
    | SwitchInt discr branches otherwise \<Rightarrow>
        (case operand_ty \<Gamma> discr of Some TBool \<Rightarrow> True | Some (TInt k) \<Rightarrow> True | _ \<Rightarrow> False)
        \<and> (\<forall>(arm, target) \<in> set branches. target < n) \<and> otherwise < n
    | Assert cond expected target msg \<Rightarrow> operand_ty \<Gamma> cond = Some TBool \<and> target < n
    | Unreachable \<Rightarrow> True
    | _ \<Rightarrow> False)"

definition block_ok :: "mty list \<Rightarrow> nat \<Rightarrow> basic_block \<Rightarrow> bool" where
  "block_ok \<Gamma> n bb \<longleftrightarrow> list_all (statement_ok \<Gamma>) (bb_statements bb) \<and> terminator_ok \<Gamma> n (bb_terminator bb)"

definition body_ok :: "mty list \<Rightarrow> body \<Rightarrow> bool" where
  "body_ok \<Gamma> bd \<longleftrightarrow> length \<Gamma> = bd_locals bd \<and> 0 < length \<Gamma> \<and> 0 < length (bd_blocks bd)
     \<and> list_all (block_ok \<Gamma> (length (bd_blocks bd))) (bd_blocks bd)"

section \<open>Reasons of the program\<close>

definition assert_text :: "string + string \<Rightarrow> string" where
  "assert_text msg = (case msg of Inr why \<Rightarrow> why | Inl text \<Rightarrow> text)"

definition block_stop :: "basic_block \<Rightarrow> string \<Rightarrow> bool" where
  "block_stop bb e \<longleftrightarrow>
     e = ''division by zero'' \<or> e = ''remainder by zero'' \<or> e = ''reached unreachable''
     \<or> (\<exists>n. e = ''read of uninitialised _'' @ show_nat n)
     \<or> e = ''cannot take a field of Uninit'' \<or> e = ''cannot assign a field of Uninit''
     \<or> (\<exists>cond expected target msg. bb_terminator bb = Assert cond expected target msg \<and> e = assert_text msg)"

definition program_stop :: "body \<Rightarrow> string \<Rightarrow> bool" where
  "program_stop bd e \<longleftrightarrow> e = ''gave up after '' @ show_nat step_limit @ '' steps'' \<or> (\<exists>bb \<in> set (bd_blocks bd). block_stop bb e)"

text \<open>A result that is an allowed error or a value with a property.\<close>

definition safe :: "(string \<Rightarrow> bool) \<Rightarrow> ('a \<Rightarrow> bool) \<Rightarrow> 'a mir \<Rightarrow> bool" where
  "safe S P r = (case r of Inl e \<Rightarrow> S e | Inr v \<Rightarrow> P v)"

lemma safe_simps [simp]: "safe S P (Inl e) = S e" "safe S P (Inr v) = P v"
  by (simp_all add: safe_def)

lemma safe_bind:
  assumes "safe S Q r" and "\<And>v. Q v \<Longrightarrow> safe S P (f v)"
  shows "safe S P (res_bind r f)"
  using assms by (cases r) auto

section \<open>Soundness\<close>

lemma nth_option_rel:
  assumes "list_all2 P xs ys" and "nth_option ys i = Some y"
  shows "\<exists>x. nth_option xs i = Some x \<and> P x y"
  using assms by (auto simp: nth_option_def list_all2_conv_all_nth split: if_splits)

lemma project_safe:
  assumes "local_ok v t" and "project_ty ps t = Some u"
  shows "safe (block_stop bb) (\<lambda>w. local_ok w u) (project ps v)"
  using assms
proof (induction ps t arbitrary: v rule: project_ty.induct)
  case (2 i dbg ps ts)
  show ?case
  proof (cases "v = Uninit")
    case True
    then show ?thesis by (simp add: block_stop_def)
  next
    case False
    with 2 obtain vs where v: "v = VAggregate vs" "list_all2 has_ty vs ts" by (auto simp: local_ok_def)
    from 2 obtain t where t: "nth_option ts i = Some t" "project_ty ps t = Some u"
      by (auto simp: bind_eq_Some_conv)
    obtain part where part: "nth_option vs i = Some part" "has_ty part t" using nth_option_rel [OF v(2) t(1)] by blast
    with 2(1) t v show ?thesis by (simp add: local_ok_def)
  qed
qed auto

lemma load_safe:
  assumes "env_ok \<Gamma> locals" and "place_ty \<Gamma> p = Some t"
  shows "safe (block_stop bb) (\<lambda>v. has_ty v t) (load_place locals p)"
proof -
  from assms(2) obtain u where u: "nth_option \<Gamma> (pl_local p) = Some u" "project_ty (pl_projection p) u = Some t"
    by (auto simp: place_ty_def bind_eq_Some_conv)
  obtain v where v: "nth_option locals (pl_local p) = Some v" "local_ok v u"
    using nth_option_rel [OF assms(1) [unfolded env_ok_def] u(1)] by blast
  show ?thesis
    unfolding load_place_def v(1) option.case
    by (rule safe_bind [OF project_safe [OF v(2) u(2)]]) (auto simp: local_ok_def block_stop_def)
qed

lemma env_update:
  assumes "env_ok \<Gamma> locals" and "nth_option \<Gamma> i = Some t" and "local_ok v t"
  shows "env_ok \<Gamma> (locals[i := v])"
  using assms by (auto simp: env_ok_def nth_option_def list_all2_conv_all_nth nth_list_update split: if_splits)

lemma store_safe:
  assumes "env_ok \<Gamma> locals" and "place_ty \<Gamma> p = Some t" and "length (pl_projection p) \<le> 1" and "has_ty v t"
  shows "safe (block_stop bb) (env_ok \<Gamma>) (store_place locals p v)"
proof -
  from assms(2) obtain u where u: "nth_option \<Gamma> (pl_local p) = Some u" "project_ty (pl_projection p) u = Some t"
    by (auto simp: place_ty_def bind_eq_Some_conv)
  obtain slot where slot: "nth_option locals (pl_local p) = Some slot" "local_ok slot u"
    using nth_option_rel [OF assms(1) [unfolded env_ok_def] u(1)] by blast
  show ?thesis
  proof (cases "pl_projection p")
    case Nil
    with u slot assms show ?thesis by (simp add: store_place_def env_update local_ok_def)
  next
    case (Cons f fs)
    with assms(3) have fs: "pl_projection p = [f]" by simp
    with u(2) obtain i dbg ts where f: "f = FieldProj i dbg" "u = TTuple ts" "nth_option ts i = Some t"
      by (cases f; cases u) (auto simp: bind_eq_Some_conv)
    show ?thesis
    proof (cases "slot = Uninit")
      case True
      then show ?thesis using slot fs f by (simp add: store_place_def block_stop_def)
    next
      case False
      with slot f obtain vs where vs: "slot = VAggregate vs" "list_all2 has_ty vs ts" by (auto simp: local_ok_def)
      with f have len: "i < length vs" "length vs = length ts"
        by (auto simp: nth_option_def list_all2_lengthD split: if_splits)
      have "list_all2 has_ty (vs[i := v]) ts"
        using vs(2) f(3) assms(4)
        by (auto simp: nth_option_def list_all2_conv_all_nth nth_list_update split: if_splits)
      then have "local_ok (VAggregate (vs[i := v])) u" by (simp add: local_ok_def f(2))
      with len show ?thesis using slot fs f(1) vs(1) env_update [OF assms(1) u(1)] by (simp add: store_place_def)
    qed
  qed
qed

lemma const_safe:
  assumes "const_ty c = Some t"
  shows "safe (block_stop bb) (\<lambda>v. has_ty v t) (constant_value c)"
  using assms int_kind_of_ok [of "ty_kind_of (co_ty c)"]
  by (auto simp: const_ty_def constant_value_def value_int_def split: const_kind.splits sum.splits if_splits option.splits)

lemma operand_safe:
  assumes "env_ok \<Gamma> locals" and "operand_ty \<Gamma> opnd = Some t"
  shows "safe (block_stop bb) (\<lambda>v. has_ty v t) (operand_value locals opnd)"
  using assms load_safe [OF assms(1)] const_safe
  by (auto simp: operand_ty_def operand_value_def split: operand.splits)

lemma value_int_has_ty: "kind_ok k \<Longrightarrow> has_ty (value_int raw k) (TInt k)"
  by (simp add: value_int_def)

lemma checked_has_ty: "kind_ok k \<Longrightarrow> has_ty (fst (checked k x l r f)) (TInt k)"
  by (simp add: checked_def Let_def value_int_has_ty del: has_ty_simps)

lemma binary_int_safe:
  assumes "kind_ok k" and "\<nexists>text. op = OtherBinOp text"
  shows "safe (block_stop bb) (\<lambda>v. has_ty (fst v) (if is_comparison op then TBool else TInt k)) (binary_int op k l r)"
  using assms(2) checked_has_ty [OF assms(1)] value_int_has_ty [OF assms(1)]
  by (cases op) (auto simp: binary_int_def Let_def is_comparison_def block_stop_def simp del: has_ty_simps(1))

lemma binary_safe:
  assumes "bin_ty op t1 t2 = Some t" and "has_ty v1 t1" and "has_ty v2 t2"
  shows "safe (block_stop bb) (\<lambda>v. has_ty (fst v) t) (binary op v1 v2)"
proof (cases "(op, t1, t2)" rule: bin_ty.cases)
  case (1 op1)
  with assms show ?thesis by (auto simp: binary_def binary_bool_def split: if_splits)
next
  case (2 op1 k rk)
  from 2 assms obtain l r where v: "v1 = VInt l k" "kind_ok k" "v2 = VInt r rk" by auto
  with 2 assms(1) have op: "\<nexists>text. op = OtherBinOp text" "is_shift op \<or> k = rk"
    "t = (if is_comparison op then TBool else TInt k)"
    by (auto simp: is_shift_def is_comparison_def split: if_splits)
  then have "binary op v1 v2 = binary_int op k l r" using v by (auto simp: binary_def as_int_def)
  with op binary_int_safe [OF v(2) op(1)] show ?thesis by simp
qed (use assms in auto)

lemma unary_safe:
  assumes "un_ty op t = Some u" and "has_ty v t"
  shows "safe (block_stop bb) (\<lambda>w. has_ty w u) (unary op v)"
  using assms by (cases op; cases t) (auto simp: unary_def as_int_def value_int_def split: if_splits)

lemma cast_safe:
  assumes "cast_ty t ty = Some u" and "has_ty v t"
  shows "safe (block_stop bb) (\<lambda>w. has_ty w u) (cast_value v ty)"
  using assms int_kind_of_ok [of "ty_kind_of ty"]
  by (cases t) (auto simp: cast_value_def value_int_def)

lemma collect_safe:
  assumes "env_ok \<Gamma> locals" and "collect_options (map (operand_ty \<Gamma>) opnds) = Some ts"
  shows "safe (block_stop bb) (\<lambda>vs. list_all2 has_ty vs ts) (collect_results (map (operand_value locals) opnds))"
  using assms(2)
proof (induction opnds arbitrary: ts)
  case (Cons opnd opnds)
  then obtain t us where t: "operand_ty \<Gamma> opnd = Some t" "collect_options (map (operand_ty \<Gamma>) opnds) = Some us"
    "ts = t # us" by (auto simp: bind_eq_Some_conv)
  show ?case unfolding t(3) list.map collect_results.simps
    by (intro safe_bind [OF operand_safe [OF assms(1) t(1)]] safe_bind [OF Cons.IH [OF t(2)]]) simp
qed simp

lemma rvalue_safe:
  assumes env: "env_ok \<Gamma> locals" and "rvalue_ty \<Gamma> rv = Some t"
  shows "safe (block_stop bb) (\<lambda>v. has_ty v t) (rvalue_value locals rv)"
proof (cases rv)
  case (Use opnd)
  with assms operand_safe [OF env] show ?thesis by (simp add: rvalue_ty_def rvalue_value_def)
next
  case (BinaryOp op lhs rhs)
  with assms(2) obtain t1 t2 where t: "operand_ty \<Gamma> lhs = Some t1" "operand_ty \<Gamma> rhs = Some t2" "bin_ty op t1 t2 = Some t"
    by (auto simp: rvalue_ty_def bind_eq_Some_conv)
  show ?thesis unfolding BinaryOp rvalue_value_def rvalue.case
    by (intro safe_bind [OF operand_safe [OF env t(1)]] safe_bind [OF operand_safe [OF env t(2)]]
        safe_bind [OF binary_safe [OF t(3)]]) auto
next
  case (CheckedBinaryOp op lhs rhs)
  with assms(2) obtain t1 t2 u where t: "operand_ty \<Gamma> lhs = Some t1" "operand_ty \<Gamma> rhs = Some t2"
    "bin_ty op t1 t2 = Some u" "t = TTuple [u, TBool]"
    by (auto simp: rvalue_ty_def bind_eq_Some_conv)
  show ?thesis unfolding CheckedBinaryOp rvalue_value_def rvalue.case t(4)
    by (intro safe_bind [OF operand_safe [OF env t(1)]] safe_bind [OF operand_safe [OF env t(2)]]
        safe_bind [OF binary_safe [OF t(3)]]) auto
next
  case (UnaryOp op opnd)
  with assms(2) obtain u where t: "operand_ty \<Gamma> opnd = Some u" "un_ty op u = Some t"
    by (auto simp: rvalue_ty_def bind_eq_Some_conv)
  show ?thesis unfolding UnaryOp rvalue_value_def rvalue.case
    by (intro safe_bind [OF operand_safe [OF env t(1)]] unary_safe [OF t(2)])
next
  case (Cast opnd ty)
  with assms(2) obtain u where t: "operand_ty \<Gamma> opnd = Some u" "cast_ty u ty = Some t"
    by (auto simp: rvalue_ty_def bind_eq_Some_conv)
  show ?thesis unfolding Cast rvalue_value_def rvalue.case
    by (intro safe_bind [OF operand_safe [OF env t(1)]] cast_safe [OF t(2)])
next
  case (Aggregate opnds)
  with assms(2) obtain ts where t: "collect_options (map (operand_ty \<Gamma>) opnds) = Some ts" "t = TTuple ts"
    by (auto simp: rvalue_ty_def)
  show ?thesis unfolding Aggregate rvalue_value_def rvalue.case t(2)
    by (intro safe_bind [OF collect_safe [OF env t(1)]]) simp
next
  case (CopyForDeref p)
  with assms load_safe [OF env] show ?thesis by (simp add: rvalue_ty_def rvalue_value_def)
next
  case (OtherRvalue dbg)
  with assms(2) show ?thesis by (simp add: rvalue_ty_def)
qed

lemma statement_safe:
  assumes "env_ok \<Gamma> locals" and "statement_ok \<Gamma> st"
  shows "safe (block_stop bb) (env_ok \<Gamma>) (exec_statement locals st)"
proof (cases "\<exists>p rv. st = Assign p rv")
  case True
  then obtain p rv where st: "st = Assign p rv" by blast
  with assms(2) obtain t where t: "place_ty \<Gamma> p = Some t" "rvalue_ty \<Gamma> rv = Some t" "length (pl_projection p) \<le> 1"
    by (auto simp: statement_ok_def)
  show ?thesis unfolding st exec_statement_def statement.case
    by (intro safe_bind [OF rvalue_safe [OF assms(1) t(2)]] store_safe [OF assms(1) t(1,3)])
next
  case False
  then show ?thesis using assms by (cases st) (simp_all add: exec_statement_def statement_ok_def)
qed

lemma statements_safe:
  assumes "env_ok \<Gamma> locals" and "list_all (statement_ok \<Gamma>) sts"
  shows "safe (block_stop bb) (env_ok \<Gamma>) (exec_statements locals sts)"
  using assms
proof (induction sts arbitrary: locals)
  case (Cons st sts)
  then show ?case using safe_bind [OF statement_safe [OF Cons.prems(1)] Cons.IH] by simp
qed simp

lemma switch_target_in:
  assumes "\<forall>(arm, target) \<in> set branches. target < n" and "otherwise < n"
  shows "switch_target branches otherwise d < n"
  using assms by (fastforce simp: switch_target_def find_Some_iff dest: nth_mem split: option.splits)

lemma terminator_safe:
  assumes env: "env_ok \<Gamma> locals" and "terminator_ok \<Gamma> n (bb_terminator bb)"
  shows "safe (block_stop bb) (\<lambda>e. e = Returned \<or> (\<exists>b < n. e = Jump b)) (exec_terminator locals (bb_terminator bb))"
proof (cases "bb_terminator bb")
  case (SwitchInt discr branches otherwise)
  with assms(2) obtain t where t: "operand_ty \<Gamma> discr = Some t" "t = TBool \<or> (\<exists>k. t = TInt k)"
    by (auto simp: terminator_ok_def split: option.splits mty.splits)
  have b: "switch_target branches otherwise d < n" for d
    by (rule switch_target_in) (use assms(2) SwitchInt in \<open>auto simp: terminator_ok_def\<close>)
  show ?thesis unfolding SwitchInt exec_terminator_def terminator.case
    by (rule safe_bind [OF operand_safe [OF env t(1)]]) (use t(2) b in \<open>auto simp: discriminant_def\<close>)
next
  case (Assert cond expected target msg)
  with assms(2) have t: "operand_ty \<Gamma> cond = Some TBool" "target < n" by (auto simp: terminator_ok_def)
  show ?thesis unfolding Assert exec_terminator_def terminator.case
    by (rule safe_bind [OF operand_safe [OF env t(1)]])
      (use t(2) Assert in \<open>auto simp: as_bool_def block_stop_def assert_text_def\<close>)
qed (use assms in \<open>auto simp: exec_terminator_def terminator_ok_def block_stop_def\<close>)

lemma block_safe:
  assumes "env_ok \<Gamma> locals" and "block_ok \<Gamma> n bb"
  shows "safe (block_stop bb) (\<lambda>(l, e). env_ok \<Gamma> l \<and> (e = Returned \<or> (\<exists>b < n. e = Jump b))) (exec_block locals bb)"
proof -
  have ok: "list_all (statement_ok \<Gamma>) (bb_statements bb)" "terminator_ok \<Gamma> n (bb_terminator bb)"
    using assms(2) by (simp_all add: block_ok_def)
  show ?thesis unfolding exec_block_def
  proof (rule safe_bind [OF statements_safe [OF assms(1) ok(1)]])
    fix l assume l: "env_ok \<Gamma> l"
    show "safe (block_stop bb) (\<lambda>(l, e). env_ok \<Gamma> l \<and> (e = Returned \<or> (\<exists>b < n. e = Jump b)))
        (res_bind (exec_terminator l (bb_terminator bb)) (\<lambda>e. Inr (l, e)))"
      by (rule safe_bind [OF terminator_safe [OF l ok(2)]]) (simp add: l)
  qed
qed

text \<open>The outcome of a run of a well-typed body.\<close>

definition good_outcome :: "mty list \<Rightarrow> body \<Rightarrow> mval mir res \<Rightarrow> bool" where
  "good_outcome \<Gamma> bd r \<longleftrightarrow> (\<exists>m. r = Inr m \<and> safe (program_stop bd) (\<lambda>v. local_ok v (\<Gamma> ! 0)) m)"

lemma good_error: "program_stop bd e \<Longrightarrow> good_outcome \<Gamma> bd (Inr (Inl e))"
  by (simp add: good_outcome_def)

lemma return_good:
  assumes "env_ok \<Gamma> locals" and "body_ok \<Gamma> bd"
  shows "good_outcome \<Gamma> bd (return_place locals)"
  using assms by (cases locals; cases \<Gamma>)
    (auto simp: good_outcome_def return_place_def env_ok_def body_ok_def)

lemma execute_good:
  assumes "body_ok \<Gamma> bd" and "env_ok \<Gamma> locals" and "block < length (bd_blocks bd)"
  shows "good_outcome \<Gamma> bd (execute step_limit bd steps block locals)"
  using assms(2,3)
proof (induction "step_limit - steps" arbitrary: steps block locals)
  case 0
  then show ?case by (simp add: execute_over gave_up_def good_error program_stop_def)
next
  case (Suc m)
  then have lt: "steps < step_limit" by simp
  let ?bb = "bd_blocks bd ! block"
  have bb: "nth_option (bd_blocks bd) block = Some ?bb" "?bb \<in> set (bd_blocks bd)"
    using Suc.prems(2) by (simp_all add: nth_option_def)
  have ok: "block_ok \<Gamma> (length (bd_blocks bd)) ?bb"
    using assms(1) bb(2) by (auto simp: body_ok_def list_all_iff)
  note safe = block_safe [OF Suc.prems(1) ok]
  show ?case
  proof (cases "exec_block locals ?bb")
    case (Inl e)
    with bb(1) have "mir_stops bd (block, locals) (Inr (Inl e))" by (rule mir_stops.error)
    then show ?thesis using safe Inl bb(2) by (auto simp: execute_stop [OF lt] program_stop_def intro!: good_error)
  next
    case (Inr le)
    obtain l e where le: "le = (l, e)" by (rule prod.exhaust)
    with safe Inr have l: "env_ok \<Gamma> l" and e: "e = Returned \<or> (\<exists>b < length (bd_blocks bd). e = Jump b)" by auto
    from e show ?thesis
    proof (elim disjE exE conjE)
      assume "e = Returned"
      with Inr le bb(1) have "mir_stops bd (block, locals) (return_place l)" by (auto intro: mir_stops.return)
      then show ?thesis using return_good [OF l assms(1)] by (simp add: execute_stop [OF lt])
    next
      fix b assume b: "b < length (bd_blocks bd)" "e = Jump b"
      with Inr le bb(1) have "mir_step bd (block, locals) (b, l)" by (auto intro: mir_step.jump)
      then show ?thesis using Suc.hyps(1) [of "Suc steps" l b] Suc.hyps(2) l b(1) by (simp add: execute_step [OF lt])
    qed
  qed
qed

lemma typed_body_result:
  assumes "body_ok \<Gamma> bd"
  shows "case run_body bd of
      Inl p \<Rightarrow> False
    | Inr (Inl e) \<Rightarrow> program_stop bd e
    | Inr (Inr v) \<Rightarrow> v = Uninit \<or> has_ty v (\<Gamma> ! 0)"
proof -
  have "env_ok \<Gamma> (replicate (bd_locals bd) Uninit)" "0 < length (bd_blocks bd)"
    using assms by (auto simp: body_ok_def env_ok_def list_all2_conv_all_nth local_ok_def)
  from execute_good [OF assms this, where steps = 0] obtain m where
    "run_body bd = Inr m" "safe (program_stop bd) (\<lambda>v. local_ok v (\<Gamma> ! 0)) m"
    by (auto simp: run_body_def good_outcome_def)
  then show ?thesis by (cases m) (simp_all add: local_ok_def)
qed


text \<open>A body that adds two bytes, asserts that nothing overflowed, and returns the sum.\<close>

definition u8_const :: "u128 \<Rightarrow> operand" where
  "u8_const w = Constant \<lparr>co_ty = Ty (RigidUint U8) ''u8'', co_kind = Allocated (Inr w)\<rparr>"

definition adding_body :: "u128 \<Rightarrow> u128 \<Rightarrow> body" where
  "adding_body a b = \<lparr>bd_locals = 2, bd_blocks =
     [\<lparr>bb_statements = [Assign \<lparr>pl_local = 1, pl_projection = []\<rparr> (CheckedBinaryOp Add (u8_const a) (u8_const b))],
       bb_terminator = Assert (Move \<lparr>pl_local = 1, pl_projection = [FieldProj 1 '''']\<rparr>) False 1 (Inr ''attempt to add with overflow'')\<rparr>,
      \<lparr>bb_statements = [Assign \<lparr>pl_local = 0, pl_projection = []\<rparr> (Use (Move \<lparr>pl_local = 1, pl_projection = [FieldProj 0 '''']\<rparr>))],
       bb_terminator = Return\<rparr>]\<rparr>"

abbreviation "u8_kind \<equiv> \<lparr>ik_bits = 8, ik_signed = False\<rparr>"

lemmas run_eval = execute.simps [of step_limit] exec_block_def exec_statement_def exec_terminator_def
  rvalue_value_def operand_value_def constant_value_def load_place_def store_place_def nth_option_def
  binary_def as_int_def as_bool_def is_shift_def binary_int_def checked_def value_int_def

lemma first_steps: "0 < step_limit" "\<not> step_limit < Suc 0" "\<not> step_limit < Suc (Suc 0)" "replicate 2 v = [v, v]"
  by (simp_all add: step_limit_def numeral_2_eq_2)

lemma adding_body_outcomes:
  "run_body (adding_body 200 100) = Inr (Inl ''attempt to add with overflow'')"
  "run_body (adding_body 1 2) = Inr (Inr (VInt 3 u8_kind))"
  by (simp_all add: run_body_def adding_body_def u8_const_def run_eval first_steps truncate_to_def
    kind_mask_def fits_unsigned_def return_place_def Let_def del: numeral_2_eq_2)


end
