(* ===== verification/Mir_Driver.thy ===== *)
theory Mir_Driver
  imports Mir_Types
begin

text \<open>
  \<^verbatim>\<open>riri-mir/src/main.rs\<close>: which functions the driver looks at, what it prints for each, and the arguments it hands to
  the compiler. The compiler is not part of the program: the list of its items, the texts its \<^verbatim>\<open>Debug\<close> gives
  for statements and terminators, and the answer of \<^verbatim>\<open>rustc --print sysroot\<close> are arguments.
\<close>

section \<open>Items\<close>

record mir_item =
  it_name :: string
  it_body :: "body option"

text \<open>\<^verbatim>\<open>str::contains\<close>, and a filter from an environment variable that may not be set.\<close>

definition str_contains :: "string \<Rightarrow> string \<Rightarrow> bool" where
  "str_contains s t \<longleftrightarrow> list_ex (\<lambda>i. take (length t) (drop i s) = t) [0..<length s + 1]"

definition passes :: "string option \<Rightarrow> string \<Rightarrow> bool" where
  "passes only name \<longleftrightarrow> (case only of None \<Rightarrow> True | Some t \<Rightarrow> str_contains name t)"

section \<open>What is printed\<close>

definition result_line :: "string \<Rightarrow> mval mir \<Rightarrow> string" where
  "result_line name m =
     (case m of Inr v \<Rightarrow> name @ '' = '' @ display_value v | Inl why \<Rightarrow> name @ '' stopped: '' @ why)"

definition block_lines :: "(statement \<Rightarrow> string) \<Rightarrow> (terminator \<Rightarrow> string) \<Rightarrow> nat \<Rightarrow> basic_block \<Rightarrow> string list" where
  "block_lines show_st show_tm index b =
     [''  bb'' @ show_nat index @ '':''] @ map (\<lambda>st. ''    '' @ show_st st) (bb_statements b)
     @ [''    -> '' @ show_tm (bb_terminator b)]"

definition body_lines :: "(statement \<Rightarrow> string) \<Rightarrow> (terminator \<Rightarrow> string) \<Rightarrow> string \<Rightarrow> body \<Rightarrow> string list" where
  "body_lines show_st show_tm name bd =
     [''fn '' @ name,
      ''  '' @ show_nat (length (bd_blocks bd)) @ '' block(s), '' @ show_nat (bd_locals bd) @ '' local(s)'']
     @ concat (map (\<lambda>(index, b). block_lines show_st show_tm index b) (enumerate 0 (bd_blocks bd)))"

text \<open>\<^verbatim>\<open>dump\<close>: the lines printed, and the panic that ended it, if one did.\<close>

fun dump ::
  "(statement \<Rightarrow> string) \<Rightarrow> (terminator \<Rightarrow> string) \<Rightarrow> string option \<Rightarrow> string option \<Rightarrow> mir_item list
     \<Rightarrow> string list \<times> panic option" where
  "dump show_st show_tm run only [] = ([], None)"
| "dump show_st show_tm run only (it # items) =
     (let name = it_name it; rest = dump show_st show_tm run only items
      in if \<not> passes only name then rest
         else case it_body it of
           None \<Rightarrow> rest
         | Some bd \<Rightarrow>
             (case run of
                Some target \<Rightarrow>
                  if str_contains name target
                  then case run_body bd of
                         Inl p \<Rightarrow> ([], Some p)
                       | Inr m \<Rightarrow> (result_line name m # fst rest, snd rest)
                  else rest
              | None \<Rightarrow> (body_lines show_st show_tm name bd @ fst rest, snd rest)))"

definition driver_args :: "string option \<Rightarrow> string list \<Rightarrow> string list" where
  "driver_args sysroot args =
     (if list_ex (\<lambda>a. take 9 a = ''--sysroot'') args then args
      else case sysroot of Some path \<Rightarrow> args @ [''--sysroot'', path] | None \<Rightarrow> args)"

section \<open>Properties\<close>

lemma str_contains_iff: "str_contains s t \<longleftrightarrow> (\<exists>before behind. s = before @ t @ behind)"
proof
  assume "str_contains s t"
  then obtain i where "take (length t) (drop i s) = t" by (auto simp: str_contains_def list_ex_iff)
  then have "s = take i s @ t @ drop (length t) (drop i s)" by (metis append_take_drop_id)
  then show "\<exists>before behind. s = before @ t @ behind" by blast
next
  assume "\<exists>before behind. s = before @ t @ behind"
  then obtain before behind where s: "s = before @ t @ behind" by blast
  then have "take (length t) (drop (length before) s) = t" "length before < length s + 1" by simp_all
  then show "str_contains s t" unfolding str_contains_def list_ex_iff by (metis atLeastLessThan_iff le0 set_upt)
qed

text \<open>Without \<^verbatim>\<open>RIRI_MIR_RUN\<close> nothing is interpreted, and nothing can panic.\<close>

lemma dump_prints:
  "dump show_st show_tm None only items =
     (concat (map (\<lambda>it. case it_body it of None \<Rightarrow> [] | Some bd \<Rightarrow> body_lines show_st show_tm (it_name it) bd)
        (filter (\<lambda>it. passes only (it_name it)) items)), None)"
  by (induction items) (simp_all add: Let_def split: option.split)

lemma driver_args_sysroot:
  "list_ex (\<lambda>a. take 9 a = ''--sysroot'') (driver_args (Some path) args)"
  "take (length args) (driver_args sysroot args) = args"
  by (simp_all add: driver_args_def split: option.split)

text \<open>The functions it interprets.\<close>

definition selected :: "string \<Rightarrow> string option \<Rightarrow> mir_item \<Rightarrow> bool" where
  "selected target only it \<longleftrightarrow>
     passes only (it_name it) \<and> it_body it \<noteq> None \<and> passes (Some target) (it_name it)"

text \<open>
  C40: the driver under \<^verbatim>\<open>RIRI_MIR_RUN\<close>. When the bodies of the crate are well typed, interpreting them never brings
  the driver down: it prints exactly one line for each function that has a body and passes both filters,
  in the order of the items, and each line gives the value the body returns or a reason of the program
  itself for which it stopped, never an error of the interpreter.
\<close>

theorem driver_reports_every_function:
  assumes "\<forall>it \<in> set items. \<forall>bd. it_body it = Some bd \<longrightarrow> (\<exists>\<Gamma>. body_ok \<Gamma> bd)"
  shows "\<exists>results. dump show_st show_tm (Some target) only items = (map (\<lambda>(it, m). result_line (it_name it) m) results, None)
    \<and> map fst results = filter (selected target only) items
    \<and> (\<forall>(it, m) \<in> set results. \<exists>bd. it_body it = Some bd \<and> run_body bd = Inr m
         \<and> (case m of Inl why \<Rightarrow> program_stop bd why | Inr v \<Rightarrow> True))"
  using assms
proof (induction items)
  case (Cons it items)
  then obtain results where r: "dump show_st show_tm (Some target) only items = (map (\<lambda>(it, m). result_line (it_name it) m) results, None)"
    "map fst results = filter (selected target only) items"
    "\<forall>(it, m) \<in> set results. \<exists>bd. it_body it = Some bd \<and> run_body bd = Inr m
         \<and> (case m of Inl why \<Rightarrow> program_stop bd why | Inr v \<Rightarrow> True)" by auto
  show ?case
  proof (cases "selected target only it")
    case False
    then have "dump show_st show_tm (Some target) only (it # items) = dump show_st show_tm (Some target) only items"
      by (auto simp: selected_def passes_def Let_def split: option.splits)
    then show ?thesis using r False by (intro exI [of _ results]) simp
  next
    case True
    then obtain bd where bd: "it_body it = Some bd" by (auto simp: selected_def)
    then obtain \<Gamma> where "body_ok \<Gamma> bd" using Cons.prems by auto
    from typed_body_result [OF this] obtain m where m: "run_body bd = Inr m"
      "case m of Inl why \<Rightarrow> program_stop bd why | Inr v \<Rightarrow> True"
      by (cases "run_body bd") (auto split: sum.splits)
    have "dump show_st show_tm (Some target) only (it # items)
        = (map (\<lambda>(it, m). result_line (it_name it) m) ((it, m) # results), None)"
      using True bd m(1) r(1) by (simp add: selected_def passes_def Let_def)
    then show ?thesis using True bd m r(2,3) by (intro exI [of _ "(it, m) # results"]) simp
  qed
qed simp

text \<open>A crate with a declaration and two functions, of which one is asked for.\<close>

definition sample_items :: "mir_item list" where
  "sample_items = [\<lparr>it_name = ''k::add'', it_body = None\<rparr>, \<lparr>it_name = ''k::add_sat'', it_body = Some (adding_body 200 100)\<rparr>,
     \<lparr>it_name = ''k::other'', it_body = Some (adding_body 1 2)\<rparr>]"

theorem driver_reports_every_function_witness:
  "dump (\<lambda>_. '''') (\<lambda>_. '''') (Some ''add'') None sample_items
     = ([''k::add_sat stopped: attempt to add with overflow''], None)"
proof -
  let ?ok = "body_ok [TInt u8_kind, TTuple [TInt u8_kind, TBool]]"
  have "?ok (adding_body 200 100)" "?ok (adding_body 1 2)"
    by (simp_all add: body_ok_def adding_body_def u8_const_def block_ok_def statement_ok_def terminator_ok_def
      place_ty_def rvalue_ty_def operand_ty_def const_ty_def nth_option_def is_shift_def is_comparison_def)
  then have "\<forall>it \<in> set sample_items. \<forall>bd. it_body it = Some bd \<longrightarrow> (\<exists>\<Gamma>. body_ok \<Gamma> bd)"
    by (auto simp: sample_items_def)
  from driver_reports_every_function [OF this, of "\<lambda>_. ''''" "\<lambda>_. ''''" "''add''" None]
  obtain results where r: "dump (\<lambda>_. '''') (\<lambda>_. '''') (Some ''add'') None sample_items
      = (map (\<lambda>(it, m). result_line (it_name it) m) results, None)"
    "map fst results = filter (selected ''add'' None) sample_items"
    "\<forall>(it, m) \<in> set results. \<exists>bd. it_body it = Some bd \<and> run_body bd = Inr m
         \<and> (case m of Inl why \<Rightarrow> program_stop bd why | Inr v \<Rightarrow> True)" by blast
  have "filter (selected ''add'' None) sample_items = [\<lparr>it_name = ''k::add_sat'', it_body = Some (adding_body 200 100)\<rparr>]"
    by (simp add: sample_items_def selected_def passes_def str_contains_def upt_conv_Cons)
  then obtain m where "results = [(\<lparr>it_name = ''k::add_sat'', it_body = Some (adding_body 200 100)\<rparr>, m)]"
    using r(2) by (auto simp: map_eq_Cons_conv)
  moreover from this have "m = Inl ''attempt to add with overflow''" using r(3) adding_body_outcomes(1) by auto
  ultimately show ?thesis using r(1) by (simp add: result_line_def)
qed

end
