(* ===== verification/Spec2Isabelle.thy ===== *)
theory Spec2Isabelle
  imports Riri_Prelude Dim Diag Sync Sync_HB Shadow Sched Sched_Inv Sched_Steps Sched_Run Sched_Warp Sched_Replay
    Launch Ctx Launch_Run Mem Mem_Props Mem_Atomics Warp Exchange_Lanes Exchange Warp_Props
    Oxide Oxide_Props Explore Explore_Props Report_Text
    Device Device_Inv Device_HB Device_Races Device_Barriers Device_First Device_Silence Device_Unsynced
    Kernel Kernel_Ends Kernel_Memory Kernel_Disjoint Kernel_Calm Kernel_Unsynced Kernel_Replay Kernel_Fresh Kernel_Explore Kernel_Api Examples
    Kernel_Outline Kernel_Phased Kernel_Phased_Run Kernel_Reduction
    Mir_Value Mir_Ops Mir_Arith Mir_Interp Mir_Run Mir_Types Mir_Driver
begin

text \<open>
  Riri runs a GPU kernel on simulated threads, one operating-system thread each, of which exactly one
  runs at a time, and reports undefined behaviour: data races, uninitialised reads, out-of-bounds
  accesses, divergence at barriers and warp collectives, and panics. This development models the library
  (\<^verbatim>\<open>src/*.rs\<close>), the interpreter and driver of the companion crate (\<^verbatim>\<open>riri-mir/src/\<close>), and the kernels of four
  examples, and puts the parts together again: a launch of a kernel is one total function from the
  configuration, the decisions of the scheduler, the kernel and its buffers to the report and the memory.

  \<^bold>\<open>How the parts interact.\<close> \<^verbatim>\<open>launch.rs\<close> checks a configuration and runs the grid in waves of resident
  blocks. In a wave every thread has a \<^verbatim>\<open>ThreadCtx\<close> (\<^verbatim>\<open>ctx.rs\<close>); whatever it does goes through the
  scheduler (\<^verbatim>\<open>sched.rs\<close>), which passes the turn at every access, barrier and collective, drawing from a
  seed or replaying a recorded plan. An access of a buffer (\<^verbatim>\<open>mem.rs\<close>) is a scheduling point, a step of
  the thread's vector clock (\<^verbatim>\<open>sync.rs\<close>), and a check of the element's shadow cell (\<^verbatim>\<open>shadow.rs\<close>) that names an earlier
  unordered access. A warp collective (\<^verbatim>\<open>warp.rs\<close>) publishes a value, waits for the lanes of its mask, reads, and waits again.
  Findings go to the reporter (\<^verbatim>\<open>diag.rs\<close>). \<^verbatim>\<open>explore.rs\<close> runs launches for many seeds and shrinks the schedule of the first
  that finds something. \<^verbatim>\<open>oxide.rs\<close> offers the same operations to kernels that take no context.

  \<^bold>\<open>Theories and sources.\<close>
  \<^item> \<open>Riri_Prelude\<close>: panics as a sum type (\<open>res\<close>), \<^verbatim>\<open>u32\<close> arithmetic with and without overflow checks, lane
    masks (\<open>mask_simps\<close>), lists.
  \<^item> \<open>Dim\<close> (\<^verbatim>\<open>dim.rs\<close>), \<open>Diag\<close> (\<^verbatim>\<open>diag.rs\<close>: accesses, findings, fingerprints, report, reporter), \<open>Report_Text\<close>
    (the \<^verbatim>\<open>Display\<close> texts of \<^verbatim>\<open>diag.rs\<close> and \<^verbatim>\<open>explore.rs\<close>).
  \<^item> \<open>Sync\<close> (\<^verbatim>\<open>sync.rs\<close>) and \<open>Sync_HB\<close>: a thread's clock covers an operation exactly when the operation happens before,
    where happens-before is defined over the history of operations without clocks.
  \<^item> \<open>Shadow\<close> (\<^verbatim>\<open>shadow.rs\<close>): a reported race is real, and the first race of a run is found.
  \<^item> \<open>Sched\<close> (\<^verbatim>\<open>sched.rs\<close>); \<open>Sched_Inv\<close>, \<open>Sched_Steps\<close>: its invariant and that every operation keeps it;
    \<open>Sched_Run\<close>: the step relation of a launch, reachable states, no wedged launch, barriers;
    \<open>Sched_Warp\<close>: rendezvous, end of a thread, deadlock reports, wakeups; \<open>Sched_Replay\<close>: record and replay.
  \<^item> \<open>Launch\<close> (\<^verbatim>\<open>launch.rs\<close>: configuration, checks, waves), \<open>Ctx\<close> (\<^verbatim>\<open>ctx.rs\<close>), \<open>Launch_Run\<close> (a launch as a whole, how it
    ends without saying what the threads do), \<open>Mem\<close> (\<^verbatim>\<open>mem.rs\<close>); \<open>Mem_Props\<close>, \<open>Mem_Atomics\<close>: every branch of an
    access, exact uninitialised reads, atomics that lose nothing, the limits of race detection.
  \<^item> \<open>Warp\<close> (\<^verbatim>\<open>warp.rs\<close>); \<open>Exchange_Lanes\<close>, \<open>Exchange\<close>: in every reachable state a lane reads what its mask-mates
    published in the same round; \<open>Warp_Props\<close>: votes and butterfly reductions.
  \<^item> \<open>Oxide\<close> (\<^verbatim>\<open>oxide.rs\<close>), \<open>Oxide_Props\<close>: claims by thread index never race, raw claims are checked.
  \<^item> \<open>Explore\<close> (\<^verbatim>\<open>explore.rs\<close>), \<open>Explore_Props\<close>: the search, and that shrinking reproduces the finding within its budget.
  \<^item> \<open>Device\<close>: a whole launch as a step relation (\<open>dev_step\<close>) over the launch state, the buffers and the waves to come,
    composed of the definitions of \<open>Ctx\<close>, \<open>Sched\<close>, \<open>Mem\<close> and \<open>Launch_Run\<close>, with the history of synchronisation and the log of
    accesses carried along. \<open>Device_Inv\<close>, \<open>Device_HB\<close>: its invariant, and the clocks against that history;
    \<open>Device_Races\<close>: every reported race is unordered; \<open>Device_Barriers\<close>: the rule of the shadow cells, epochs and clocks
    together, is happens-before; \<open>Device_First\<close>: the first race of an element is reported; \<open>Device_Silence\<close>: no race in
    the report means no race, within the limits of a cell; \<open>Device_Unsynced\<close>: cells when nothing synchronises.
  \<^item> \<open>Kernel\<close>: kernels as data (\<open>program\<close>: what a thread does next, and how it goes on with the answer) and \<open>kernel_run\<close>;
    \<open>Kernel_Ends\<close>: \<open>launch_kernel\<close>, from configuration to report (\<^verbatim>\<open>run_shared\<close>), and that it ends; \<open>Kernel_Memory\<close>, \<open>Kernel_Disjoint\<close>:
    threads that share nothing leave the memory of a sequential run, under every schedule; \<open>Kernel_Calm\<close>: and their report
    is empty; \<open>Kernel_Unsynced\<close>: an unsynchronised conflict is reported under every schedule; \<open>Kernel_Replay\<close>: a launch
    replayed from its recording is the same launch; \<open>Kernel_Fresh\<close>: the number of a launch does not matter;
    \<open>Kernel_Explore\<close>: \<^verbatim>\<open>Explore::run\<close> and \<^verbatim>\<open>run_with\<close> on launches of kernels.
  \<^item> \<open>Kernel_Api\<close>: the calls of the library as parts of programs; \<open>Examples\<close> (\<^verbatim>\<open>examples/\<close>): four kernels, and what the
    comments of three of them promise.
  \<^item> \<open>Kernel_Outline\<close>: proof outlines for kernels with block barriers (what a thread reads and writes in each phase between
    barriers, what every element holds at its start) and \<open>phased\<close>, a program that keeps to one; \<open>Kernel_Phased\<close>: the
    invariant of such a launch and that every action keeps it; \<open>Kernel_Phased_Run\<close>: the waves, and that the launch is clean
    and leaves what the outline says, under every schedule; \<open>Kernel_Reduction\<close>: the outline of the tree reduction of
    \<^verbatim>\<open>examples/reduction.rs\<close>, that it leaves the sums of the blocks, and the \<^verbatim>\<open>main\<close> of the example.
  \<^item> \<open>Mir_Value\<close> (\<^verbatim>\<open>riri-mir/src/value.rs\<close>), \<open>Mir_Ops\<close> and \<open>Mir_Interp\<close> (\<^verbatim>\<open>riri-mir/src/interp.rs\<close>); \<open>Mir_Arith\<close>: the
    operators against the integers; \<open>Mir_Run\<close>: the loop against a step relation without a limit; \<open>Mir_Types\<close>: a type
    system for bodies and its soundness; \<open>Mir_Driver\<close> (\<^verbatim>\<open>riri-mir/src/main.rs\<close>): what the driver prints.

  \<^bold>\<open>Conventions.\<close> Definitions have the names of the functions they model, suffixed where HOL has the name
  (\<open>choose_next\<close>, \<open>global_read\<close>, \<open>lane_list\<close>). \<^verbatim>\<open>u32\<close>, \<^verbatim>\<open>u64\<close> and \<^verbatim>\<open>u128\<close> values whose bits or wrap-around matter are words;
  \<^verbatim>\<open>usize\<close> and the counters of one run are \<open>nat\<close>. A panic, a trap and an unwinding thread are values. The only blocking
  point of the code is \<^verbatim>\<open>wait_turn\<close>, a loop on a condition variable: an operation that can reach it
  ends in a \<open>turn\<close> (go on, unwind, or wait), and what comes after the wait is a definition of its own
  (\<open>sync_threads_leave\<close>, \<open>collective_depart\<close>) or takes what the rest of the launch did meanwhile as the
  argument \<open>resume\<close>. The step relations (\<open>sched_step\<close>, the relation of \<open>Exchange\<close>, \<open>dev_step\<close>, \<open>mir_step\<close>) put the parts in every order
  the scheduler allows; \<open>kernel_step\<close> is the function that picks the one step a kernel and its decisions determine. Contracts between components are locales, each interpreted on the model:
  \<open>invariant_system\<close>, \<open>recording_cell\<close>, \<open>any_box\<close>, \<open>tester_invariant\<close>, \<open>pure_tester\<close>, \<open>stateless_launcher\<close>, \<open>wrapping_op\<close>, \<open>finding_sink\<close>.

  \<^bold>\<open>Bounds.\<close> The interpreter's limit of a million blocks is the code's own; the loops of shrinking
  decrease a measure and need no fuel; a launch of a kernel needs none either, because \<open>kernel_step\<close> decreases a
  well-founded order (the waves left, then the programs of the threads); the report is cut at the code's 64 findings and a trace at the
  code's \<open>2 ^ 20\<close> decisions, which the theorems on replay and shrinking mention as completeness of the trace.

  \<^bold>\<open>Not modelled.\<close> Operating-system threads and condition variables (a waiting thread changes nothing until it is
  notified and holds the turn; the list of notified threads is modelled). Mutexes: the state under a
  lock is passed along, so a kernel that blocks on the lock of an element it holds itself is outside the
  model. Warp collectives take part in a whole launch as rendezvous, but a \<open>program\<close> does not carry the values they
  exchange (those are the subject of \<open>Warp\<close> and \<open>Exchange\<close>), so the example \<^verbatim>\<open>warp_reduce.rs\<close> is not a program here; nor is
  the printing of the examples, the tests, the documents, and \<^verbatim>\<open>lib.rs\<close> (re-exports). Of the driver, the
  registration with the compiler and the call of \<^verbatim>\<open>rustc --print sysroot\<close> are I/O of other programs. A kernel is a function of its
  thread and of the answers it gets: kernels that read the host's clock or other state of their own are outside the
  model of replay and exploration, as they are outside what the code promises. The compiler's MIR data types are modelled by
  what the interpreter matches on.
\<close>

end
